(* ===== verification/Prelude.thy ===== *)
theory Prelude
  imports Main "HOL-Library.Word" "HOL-Library.Sublist"
begin

text \<open>
  Shared vocabulary of the development: machine words, error numbers, the result type of a
  fallible C function, C strings, and the generic lemmas on lists that several components use.
  Two lemma collections carry the component proofs: \<open>res_simps\<close> (inversion of results) and
  \<open>cstr_simps\<close> (reading a string as C reads it).
\<close>

unbundle bit_operations_syntax

named_theorems res_simps "inversion of the result type"
named_theorems cstr_simps "character access in C strings"

section \<open>Machine words\<close>

type_synonym word_t = "64 word"
type_synonym u16 = "16 word"
type_synonym u32 = "32 word"

definition has_flag :: "word_t \<Rightarrow> word_t \<Rightarrow> bool" where
  "has_flag w flag \<longleftrightarrow> w AND flag \<noteq> 0"

text \<open>The conversion of a \<open>word_t\<close> to \<open>int\<close>, and of an \<open>int\<close> to \<open>word_t\<close>.\<close>

definition c_int :: "word_t \<Rightarrow> int" where
  "c_int w = sint (ucast w :: u32)"

definition of_c_int :: "int \<Rightarrow> word_t" where
  "of_c_int i = word_of_int i"

section \<open>Error numbers and results\<close>

datatype errno =
    EPERM | ENOENT | EINTR | E2BIG | EAGAIN | ENOMEM | EACCES | EFAULT | EEXIST | ENOTDIR
  | EINVAL | EFBIG | ENOSPC | ERANGE | ENAMETOOLONG | ELOOP | ENOMSG | EIDRM | EBADF | ESRCH
  | ECHILD | EIO | ENOEXEC | ENOSYS

text \<open>The values of the generic Linux table (\<open>asm-generic/errno.h\<close>).\<close>

fun errno_val :: "errno \<Rightarrow> int" where
  "errno_val EPERM = 1" | "errno_val ENOENT = 2" | "errno_val ESRCH = 3" | "errno_val EINTR = 4"
| "errno_val EIO = 5" | "errno_val E2BIG = 7" | "errno_val ENOEXEC = 8" | "errno_val EBADF = 9"
| "errno_val ECHILD = 10" | "errno_val EAGAIN = 11" | "errno_val ENOMEM = 12"
| "errno_val EACCES = 13" | "errno_val EFAULT = 14" | "errno_val EEXIST = 17"
| "errno_val ENOTDIR = 20" | "errno_val EINVAL = 22" | "errno_val EFBIG = 27"
| "errno_val ENOSPC = 28" | "errno_val ERANGE = 34" | "errno_val ENAMETOOLONG = 36"
| "errno_val ENOSYS = 38" | "errno_val ELOOP = 40" | "errno_val ENOMSG = 42"
| "errno_val EIDRM = 43"

text \<open>A function that returns \<open>-errno\<close> or a result; \<open>neg\<close> is the C encoding of the error.\<close>

type_synonym 'a res = "errno + 'a"

definition neg :: "errno \<Rightarrow> int" where
  "neg e = - errno_val e"

lemma errno_val_pos: "0 < errno_val e"
  by (cases e) simp_all

lemma errno_val_bound: "errno_val e \<le> 43"
  by (cases e) simp_all

lemma neg_negative: "neg e < 0"
  using errno_val_pos [of e] by (simp add: neg_def)

lemma neg_signs: "(neg e < 0) = True" "(0 \<le> neg e) = False" "(neg e \<le> 0) = True" "(0 < neg e) = False"
  using neg_negative [of e] by simp_all

lemma errno_val_inj: "errno_val a = errno_val b \<Longrightarrow> a = b"
  by (cases a; cases b) simp_all

definition bindE :: "'a res \<Rightarrow> ('a \<Rightarrow> 'b res) \<Rightarrow> 'b res" where
  "bindE m f = (case m of Inl e \<Rightarrow> Inl e | Inr x \<Rightarrow> f x)"

lemma bindE_simps [simp]: "bindE (Inl e) f = Inl e" "bindE (Inr x) f = f x"
  by (simp_all add: bindE_def)

lemma bindE_eq_Inr [res_simps]: "bindE m f = Inr y \<longleftrightarrow> (\<exists>x. m = Inr x \<and> f x = Inr y)"
  by (cases m) simp_all

lemma bindE_eq_Inl [res_simps]:
  "bindE m f = Inl e \<longleftrightarrow> m = Inl e \<or> (\<exists>x. m = Inr x \<and> f x = Inl e)"
  by (cases m) simp_all

lemma if_Inl_eq_Inr [res_simps]: "(if b then Inl e else Inr x) = Inr y \<longleftrightarrow> \<not> b \<and> x = y"
  by simp

section \<open>C strings\<close>

text \<open>
  A C string is the list of its bytes before the terminator. \<open>c_at s i\<close> is \<open>s[i]\<close> for
  \<open>i \<le> strlen(s)\<close>: the terminator is read at \<open>i = strlen(s)\<close>.
\<close>

definition c_at :: "string \<Rightarrow> nat \<Rightarrow> char" where
  "c_at s i = (if i < length s then s ! i else CHR 0x00)"

lemma c_at_nth [cstr_simps]: "i < length s \<Longrightarrow> c_at s i = s ! i"
  by (simp add: c_at_def)

lemma c_at_end [cstr_simps]: "length s \<le> i \<Longrightarrow> c_at s i = CHR 0x00"
  by (simp add: c_at_def)

lemma c_at_Nil [simp]: "c_at [] i = CHR 0x00"
  by (simp add: c_at_def)

lemma c_at_Cons_0 [simp]: "c_at (c # s) 0 = c"
  by (simp add: c_at_def)

lemma c_at_append_right [cstr_simps]: "c_at (xs @ ys) (length xs) = c_at ys 0"
  by (cases ys) (simp_all add: c_at_def)

lemma c_at_0_eq_slash: "c_at s 0 = CHR ''/'' \<longleftrightarrow> (\<exists>t. s = CHR ''/'' # t)"
  by (cases s) (auto simp: c_at_def)

definition cstr :: "string \<Rightarrow> bool" where
  "cstr s \<longleftrightarrow> CHR 0x00 \<notin> set s"

section \<open>Lists\<close>

lemma take_eq_append: "take (length xs) ys = xs \<longleftrightarrow> (\<exists>zs. ys = xs @ zs)"
  by (metis append_eq_conv_conj append_take_drop_id)

lemma prefix_iff_take: "prefix xs ys \<longleftrightarrow> take (length xs) ys = xs"
  by (auto simp: prefix_def take_eq_append)

lemma nth_updated: "j < length xs \<Longrightarrow> xs[i := x] ! j = (if i = j then x else xs ! j)"
  by auto

lemma list_update_eq_iff: "i < length xs \<Longrightarrow> xs[i := a] = xs[i := b] \<longleftrightarrow> a = b"
  by (metis nth_list_update_eq)

end
