(* ===== verification/Paths.thy ===== *)
theory Paths
  imports Prelude
begin

text \<open>
  The path string routines of \<open>path/path.c\<close> and \<open>path/canon.c\<close>: joining, comparing, prefix
  substitution, popping and scanning components. Buffers of \<open>PATH_MAX\<close> bytes are C strings; a
  routine that would overflow its buffer returns the error the code returns. The second half is
  the abstract view: a canonical path is the rendering of a list of names, and each routine
  is shown to be the list operation it stands for.
\<close>

section \<open>The code\<close>

definition PATH_MAX :: nat where
  "PATH_MAX = 4096"

definition NAME_MAX :: nat where
  "NAME_MAX = 255"

datatype side = GUEST | HOST | PENDING

datatype finality = NOT_FINAL | FINAL_NORMAL | FINAL_SLASH | FINAL_DOT

definition IS_FINAL :: "finality \<Rightarrow> bool" where
  "IS_FINAL a \<longleftrightarrow> a \<noteq> NOT_FINAL"

datatype comparison =
  PATHS_ARE_EQUAL | PATH1_IS_PREFIX | PATH2_IS_PREFIX | PATHS_ARE_NOT_COMPARABLE

text \<open>
  \<open>join_paths\<close>: the loop over the variadic arguments (\<open>None\<close> is a NULL argument, skipped), with
  \<open>result\<close> the buffer filled so far.
\<close>

fun join_paths_loop :: "string \<Rightarrow> string option list \<Rightarrow> string res" where
  "join_paths_loop result [] = Inr result"
| "join_paths_loop result (None # paths) = join_paths_loop result paths"
| "join_paths_loop result (Some path # paths) =
     (let len = length result; path_length = length path in
      if len > 0 \<and> c_at result (len - 1) \<noteq> CHR ''/'' \<and> c_at path 0 \<noteq> CHR ''/'' then
        (let new_length = len + path_length + 1 in
         if new_length + 1 \<ge> PATH_MAX then Inl ENAMETOOLONG
         else join_paths_loop (result @ ''/'' @ path) paths)
      else if len > 0 \<and> c_at result (len - 1) = CHR ''/'' \<and> c_at path 0 = CHR ''/'' then
        (let new_length = len + path_length - 1 in
         if new_length + 1 \<ge> PATH_MAX then Inl ENAMETOOLONG
         else join_paths_loop (result @ drop 1 path) paths)
      else
        (let new_length = len + path_length in
         if new_length + 1 \<ge> PATH_MAX then Inl ENAMETOOLONG
         else join_paths_loop (result @ path) paths))"

definition join_paths :: "string option list \<Rightarrow> string res" where
  "join_paths paths = join_paths_loop [] paths"

abbreviation join2 :: "string \<Rightarrow> string \<Rightarrow> string res" where
  "join2 a b \<equiv> join_paths [Some a, Some b]"

text \<open>
  \<open>chop_finality\<close>. The empty path, which the C code would read at \<open>path[-1]\<close>, is never passed:
  every caller passes an absolute path.
\<close>

definition chop_finality :: "string \<Rightarrow> string" where
  "chop_finality path =
     (let len = length path in
      if c_at path (len - 1) = CHR ''.'' then
        (if len = 2 then take (len - 1) path else take (len - 2) path)
      else if c_at path (len - 1) = CHR ''/'' then
        (if len > 1 then take (len - 1) path else path)
      else path)"

text \<open>\<open>pop_component\<close>: the two backward scans, then the cut.\<close>

fun skip_separators_back :: "string \<Rightarrow> nat \<Rightarrow> nat" where
  "skip_separators_back path offset =
     (if offset > 1 \<and> c_at path offset = CHR ''/'' then skip_separators_back path (offset - 1)
      else offset)"

fun seek_separator_back :: "string \<Rightarrow> nat \<Rightarrow> nat" where
  "seek_separator_back path offset =
     (if offset > 1 \<and> c_at path offset \<noteq> CHR ''/'' then seek_separator_back path (offset - 1)
      else offset)"

declare skip_separators_back.simps [simp del] seek_separator_back.simps [simp del]

definition pop_component :: "string \<Rightarrow> string" where
  "pop_component path =
     (let offset = length path - 1 in
      if offset = 0 then path
      else take (seek_separator_back path (skip_separators_back path offset)) path)"

text \<open>
  \<open>next_component\<close>: the cursor is the rest of the string; the result holds the finality, the
  component and the new cursor.
\<close>

definition next_component :: "string \<Rightarrow> (finality \<times> string \<times> string) res" where
  "next_component cursor =
     (let start = dropWhile (\<lambda>c. c = CHR ''/'') cursor;
          component = takeWhile (\<lambda>c. c \<noteq> CHR ''/'') start;
          stop = dropWhile (\<lambda>c. c \<noteq> CHR ''/'') start in
      if length component \<ge> NAME_MAX then Inl ENAMETOOLONG
      else
        (let want_dir = (c_at stop 0 = CHR ''/'');
             rest = dropWhile (\<lambda>c. c = CHR ''/'') stop in
         Inr (if rest = [] then (if want_dir then FINAL_SLASH else FINAL_NORMAL) else NOT_FINAL,
              component, rest)))"

text \<open>
  \<open>compare_paths2\<close>. \<open>strncmp(path1, path2, n) == 0\<close> on strings without a NUL byte is equality of
  their first \<open>n\<close> bytes. An empty path, which the leading assertions exclude, falls through to the test
  that the code repeats after them, as in a build without assertions.
\<close>

definition compare_paths2 :: "string \<Rightarrow> nat \<Rightarrow> string \<Rightarrow> nat \<Rightarrow> comparison" where
  "compare_paths2 path1 length1 path2 length2 =
     (if length1 = 0 \<or> length2 = 0 then PATHS_ARE_NOT_COMPARABLE
      else
        (let length1 = (if c_at path1 (length1 - 1) = CHR ''/'' then length1 - 1 else length1);
             length2 = (if c_at path2 (length2 - 1) = CHR ''/'' then length2 - 1 else length2);
             length_min = (if length1 < length2 then length1 else length2);
             sentinel = (if length1 < length2 then c_at path2 length_min
                         else c_at path1 length_min) in
         if sentinel \<noteq> CHR ''/'' \<and> sentinel \<noteq> CHR 0x00 then PATHS_ARE_NOT_COMPARABLE
         else if take length_min path1 \<noteq> take length_min path2 then PATHS_ARE_NOT_COMPARABLE
         else if length1 = length2 then PATHS_ARE_EQUAL
         else if length1 < length2 then PATH1_IS_PREFIX
         else PATH2_IS_PREFIX))"

definition compare_paths :: "string \<Rightarrow> string \<Rightarrow> comparison" where
  "compare_paths path1 path2 = compare_paths2 path1 (length path1) path2 (length path2)"

text \<open>
  \<open>substitute_path_prefix\<close>: on success the new content of the buffer (its length is the returned
  length); on overflow the code returns \<open>-ENAMETOOLONG\<close> and leaves the buffer alone.
\<close>

definition substitute_path_prefix :: "string \<Rightarrow> nat \<Rightarrow> string \<Rightarrow> nat \<Rightarrow> string res" where
  "substitute_path_prefix path old_prefix_length new_prefix new_prefix_length =
     (let path_length = length path in
      if new_prefix_length = 1 then
        (let new_length = path_length - old_prefix_length in
         if new_length \<noteq> 0 then Inr (drop old_prefix_length path) else Inr ''/'')
      else if old_prefix_length = 1 then
        (let new_length = new_prefix_length + path_length in
         if new_length \<ge> PATH_MAX then Inl ENAMETOOLONG
         else if path_length > 1 then Inr (take new_prefix_length new_prefix @ path)
         else Inr (take new_prefix_length new_prefix))
      else
        (let new_length = path_length - old_prefix_length + new_prefix_length in
         if new_length \<ge> PATH_MAX then Inl ENAMETOOLONG
         else Inr (take new_prefix_length new_prefix @ drop old_prefix_length path)))"

section \<open>Canonical paths as lists of names\<close>

text \<open>
  A name is a non-empty string without a separator. A canonical path is \<open>/\<close> for the empty list,
  otherwise every name with a separator in front.
\<close>

definition name :: "string \<Rightarrow> bool" where
  "name c \<longleftrightarrow> c \<noteq> [] \<and> CHR ''/'' \<notin> set c \<and> CHR 0x00 \<notin> set c"

definition names :: "string list \<Rightarrow> bool" where
  "names cs \<longleftrightarrow> (\<forall>c \<in> set cs. name c)"

definition spine :: "string list \<Rightarrow> string" where
  "spine cs = concat (map (\<lambda>c. CHR ''/'' # c) cs)"

definition render :: "string list \<Rightarrow> string" where
  "render cs = (if cs = [] then ''/'' else spine cs)"

lemma names_simps [simp]:
  "names []" "names (c # cs) \<longleftrightarrow> name c \<and> names cs" "names (as @ bs) \<longleftrightarrow> names as \<and> names bs"
  by (auto simp: names_def)

lemma names_butlast: "names cs \<Longrightarrow> names (butlast cs)"
  by (auto simp: names_def dest: in_set_butlastD)

lemma spine_simps [simp]:
  "spine [] = []" "spine (c # cs) = CHR ''/'' # c @ spine cs" "spine (as @ bs) = spine as @ spine bs"
  by (simp_all add: spine_def)

lemma spine_eq_Nil [simp]: "spine cs = [] \<longleftrightarrow> cs = []" "[] = spine cs \<longleftrightarrow> cs = []"
  by (cases cs; simp)+

lemma render_Nil [simp]: "render [] = ''/''"
  by (simp add: render_def)

lemma render_not_Nil: "cs \<noteq> [] \<Longrightarrow> render cs = spine cs"
  by (simp add: render_def)

lemma render_absolute [simp]: "c_at (render cs) 0 = CHR ''/''"
  by (cases cs) (simp_all add: render_def)

lemma render_nonempty [simp]: "render cs \<noteq> []"
  by (cases cs) (simp_all add: render_def)

lemma length_render_pos [simp]: "0 < length (render cs)"
  by simp

text \<open>Two strings split at the first separator agree before it and after it.\<close>

lemma separator_split:
  fixes xs :: string
  assumes "xs @ a = ys @ b" "CHR ''/'' \<notin> set xs" "CHR ''/'' \<notin> set ys"
    and "a = [] \<or> hd a = CHR ''/''" "b = [] \<or> hd b = CHR ''/''"
  shows "xs = ys \<and> a = b"
  using assms
  by (auto simp: append_eq_append_conv2 hd_append split: if_splits)
    (metis hd_append2 hd_in_set append_self_conv)+

lemma hd_spine: "spine cs = [] \<or> hd (spine cs) = CHR ''/''"
  by (cases cs) auto

lemma spine_append_cancel:
  assumes "names cs" "names ds" "r = [] \<or> hd r = CHR ''/''" "spine cs @ r = spine ds"
  shows "\<exists>es. ds = cs @ es \<and> r = spine es"
  using assms
proof (induction cs arbitrary: ds)
  case Nil
  then show ?case by auto
next
  case (Cons c cs)
  from Cons.prems(4) obtain d ds' where ds: "ds = d # ds'" by (cases ds) auto
  have "spine cs @ r = [] \<or> hd (spine cs @ r) = CHR ''/''"
    using Cons.prems(3) hd_spine [of cs] by (cases cs) auto
  moreover have "c @ (spine cs @ r) = d @ spine ds'" using Cons.prems(4) ds by simp
  ultimately have "c = d \<and> spine cs @ r = spine ds'"
    using Cons.prems(1,2) ds
    by (intro separator_split [OF _ _ _ _ hd_spine]) (simp_all add: name_def)
  then show ?case using Cons.IH [of ds'] Cons.prems ds by auto
qed

lemma spine_inject: "names cs \<Longrightarrow> names ds \<Longrightarrow> spine cs = spine ds \<longleftrightarrow> cs = ds"
  using spine_append_cancel [of cs ds "[]"] by auto

lemma spine_not_slash: "names cs \<Longrightarrow> spine cs \<noteq> ''/''"
  by (cases cs) (auto simp: name_def)

lemma render_inject: "names cs \<Longrightarrow> names ds \<Longrightarrow> render cs = render ds \<longleftrightarrow> cs = ds"
  by (auto simp: render_def spine_inject spine_not_slash split: if_splits)
    (metis spine_not_slash)

lemma last_spine: "names cs \<Longrightarrow> cs \<noteq> [] \<Longrightarrow> last (spine cs) \<noteq> CHR ''/''"
  by (induction cs rule: rev_induct) (auto simp: name_def dest: last_in_set)

lemma length_spine_ge2: "names cs \<Longrightarrow> cs \<noteq> [] \<Longrightarrow> 2 \<le> length (spine cs)"
  by (cases cs) (auto simp: name_def Suc_le_eq)

lemma c_at_last: "s \<noteq> [] \<Longrightarrow> c_at s (length s - 1) = last s"
  by (simp add: c_at_def last_conv_nth)

subsection \<open>Joining\<close>

lemma join2_name:
  assumes "names cs" "name c"
  shows "join2 (render cs) c =
    (if length (render (cs @ [c])) + 1 \<ge> PATH_MAX then Inl ENAMETOOLONG
     else Inr (render (cs @ [c])))"
proof -
  have c: "c_at c 0 \<noteq> CHR ''/''"
    using assms(2) by (cases c) (auto simp: name_def)
  show ?thesis
  proof (cases "cs = []")
    case True
    with c show ?thesis
      by (auto simp: join_paths_def Let_def PATH_MAX_def render_def c_at_def)
  next
    case False
    then have "c_at (spine cs) (length (spine cs) - 1) \<noteq> CHR ''/''"
      using assms last_spine c_at_last [of "spine cs"] by simp
    moreover have "length (spine cs) + length c + 1 = length (spine (cs @ [c]))" by simp
    moreover have "length (spine cs) + 1 < PATH_MAX \<or> length (spine (cs @ [c])) + 1 \<ge> PATH_MAX"
      by simp linarith
    ultimately show ?thesis
      using c False by (auto simp: join_paths_def Let_def render_def)
  qed
qed

lemma join2_slash:
  assumes "names cs" "cs \<noteq> []"
  shows "join2 (render cs) [] =
    (if length (render cs) + 2 \<ge> PATH_MAX then Inl ENAMETOOLONG else Inr (render cs @ ''/''))"
  using assms last_spine [of cs] c_at_last [of "spine cs"]
  by (auto simp: join_paths_def Let_def render_def PATH_MAX_def)

lemma join2_root: "join2 ''/'' [] = Inr ''/''"
  by (simp add: join_paths_def PATH_MAX_def c_at_def)

lemma join_paths_loop_length:
  "join_paths_loop result paths = Inr r \<Longrightarrow> length result < PATH_MAX - 1 \<Longrightarrow> length r < PATH_MAX - 1"
  by (induction result paths rule: join_paths_loop.induct)
    (auto simp: Let_def PATH_MAX_def split: if_splits)

subsection \<open>Popping\<close>

lemma skip_separators_back_stop: "c_at s n \<noteq> CHR ''/'' \<Longrightarrow> skip_separators_back s n = n"
  by (subst skip_separators_back.simps) simp

lemma seek_separator_back_eq:
  assumes "1 \<le> m" "m \<le> n" "m = 1 \<or> c_at s m = CHR ''/''"
    and "\<And>i. m < i \<Longrightarrow> i \<le> n \<Longrightarrow> c_at s i \<noteq> CHR ''/''"
  shows "seek_separator_back s n = m"
  using assms
proof (induction n)
  case 0
  then show ?case by simp
next
  case (Suc n)
  show ?case
  proof (cases "m = Suc n")
    case True
    with Suc.prems(3) show ?thesis by (subst seek_separator_back.simps) auto
  next
    case False
    with Suc.prems have "m \<le> n" "c_at s (Suc n) \<noteq> CHR ''/''" by auto
    with Suc show ?thesis
      by (subst seek_separator_back.simps) auto
  qed
qed

lemma pop_component_render:
  assumes "names cs"
  shows "pop_component (render cs) = render (butlast cs)"
proof (cases cs rule: rev_cases)
  case Nil
  then show ?thesis by (simp add: pop_component_def)
next
  case (snoc ds c)
  let ?s = "spine ds @ CHR ''/'' # c"
  let ?n = "length (spine ds) + length c"
  let ?m = "if ds = [] then 1 else length (spine ds)"
  have c: "c \<noteq> []" "CHR ''/'' \<notin> set c" and ds: "names ds"
    using assms snoc by (auto simp: name_def)
  have in_c: "c_at ?s i \<noteq> CHR ''/''" if "length (spine ds) < i" "i \<le> ?n" for i
  proof -
    from that obtain j where "i = length (spine ds) + Suc j" "j < length c"
      by (auto dest!: less_imp_Suc_add)
    with c show ?thesis by (auto simp: c_at_def nth_append dest: nth_mem)
  qed
  have "seek_separator_back ?s ?n = ?m"
  proof (rule seek_separator_back_eq)
    show "1 \<le> ?m" "?m \<le> ?n"
      using c length_spine_ge2 [OF ds] by (auto simp: Suc_le_eq)
    show "?m = 1 \<or> c_at ?s ?m = CHR ''/''" by (simp add: c_at_def nth_append)
    show "c_at ?s i \<noteq> CHR ''/''" if "?m < i" "i \<le> ?n" for i
      using that in_c by (cases "ds = []") auto
  qed
  moreover have "skip_separators_back ?s ?n = ?n"
    using in_c [of ?n] c by (intro skip_separators_back_stop) simp
  ultimately show ?thesis
    using c snoc by (auto simp: pop_component_def render_def Let_def)
qed

subsection \<open>Comparing\<close>

text \<open>
  A string denotes a list of names when it is its rendering, with or without one final
  separator.
\<close>

definition denotes :: "string \<Rightarrow> string list \<Rightarrow> bool" where
  "denotes s cs \<longleftrightarrow> s = render cs \<or> cs \<noteq> [] \<and> s = spine cs @ ''/''"

lemma denotes_render [simp, intro]: "denotes (render cs) cs"
  by (simp add: denotes_def)

lemma denotes_trim:
  assumes "denotes s cs" "names cs"
  shows "s \<noteq> []"
    and "(if c_at s (length s - 1) = CHR ''/'' then length s - 1 else length s) = length (spine cs)"
    and "take (length (spine cs)) s = spine cs"
    and "c_at s (length (spine cs)) = CHR ''/'' \<or> c_at s (length (spine cs)) = CHR 0x00"
  using assms last_spine [of cs] c_at_last [of "spine cs"]
  by (cases "cs = []"; force simp: denotes_def render_def c_at_def nth_append)+

lemma c_at_take_spine:
  "take (length (spine cs)) s = spine cs \<Longrightarrow> n < length (spine cs) \<Longrightarrow> c_at s n = spine cs ! n"
  by (metis c_at_def leI length_take min.absorb2 nth_take order_less_le_trans min.cobounded1)

lemma spine_prefix_iff:
  assumes "names as" "names bs" "length (spine as) < length (spine bs)"
  shows "(spine bs ! length (spine as) = CHR ''/'' \<and> take (length (spine as)) (spine bs) = spine as)
    \<longleftrightarrow> strict_prefix as bs"
proof
  assume l: "spine bs ! length (spine as) = CHR ''/'' \<and> take (length (spine as)) (spine bs) = spine as"
  then have "spine as @ drop (length (spine as)) (spine bs) = spine bs"
    by (metis append_take_drop_id)
  moreover have "hd (drop (length (spine as)) (spine bs)) = CHR ''/''"
    using l assms(3) by (simp add: hd_drop_conv_nth)
  ultimately obtain es where "bs = as @ es"
    using spine_append_cancel assms by blast
  with assms(3) show "strict_prefix as bs" by (auto simp: strict_prefix_def)
next
  assume "strict_prefix as bs"
  then obtain e es where "bs = as @ e # es" by (auto elim: strict_prefixE')
  then show "spine bs ! length (spine as) = CHR ''/'' \<and> take (length (spine as)) (spine bs) = spine as"
    by (simp add: nth_append)
qed

lemma spine_no_nul: "names cs \<Longrightarrow> n < length (spine cs) \<Longrightarrow> spine cs ! n \<noteq> CHR 0x00"
proof -
  assume "names cs" "n < length (spine cs)"
  moreover have "names cs \<Longrightarrow> CHR 0x00 \<notin> set (spine cs)"
    by (induction cs) (auto simp: name_def)
  ultimately show ?thesis by (metis nth_mem)
qed

lemma spine_prefix_length: "strict_prefix as bs \<Longrightarrow> length (spine as) < length (spine bs)"
  by (auto elim!: strict_prefixE')

lemma compare_paths_denotes:
  assumes s: "denotes s as" "names as" and t: "denotes t bs" "names bs"
  shows "compare_paths s t =
    (if as = bs then PATHS_ARE_EQUAL
     else if strict_prefix as bs then PATH1_IS_PREFIX
     else if strict_prefix bs as then PATH2_IS_PREFIX
     else PATHS_ARE_NOT_COMPARABLE)"
proof -
  note ds = denotes_trim [OF s] and dt = denotes_trim [OF t]
  let ?a = "length (spine as)" and ?b = "length (spine bs)"
  have expand: "compare_paths s t =
    (let sentinel = (if ?a < ?b then c_at t ?a else c_at s ?b) in
     if sentinel \<noteq> CHR ''/'' \<and> sentinel \<noteq> CHR 0x00 then PATHS_ARE_NOT_COMPARABLE
     else if take (min ?a ?b) s \<noteq> take (min ?a ?b) t then PATHS_ARE_NOT_COMPARABLE
     else if ?a = ?b then PATHS_ARE_EQUAL
     else if ?a < ?b then PATH1_IS_PREFIX else PATH2_IS_PREFIX)"
    using ds(1,2) dt(1,2) by (auto simp: compare_paths_def compare_paths2_def Let_def min_def)
  consider (less) "?a < ?b" | (eq) "?a = ?b" | (gr) "?b < ?a" by linarith
  then show ?thesis
  proof cases
    case less
    then have "c_at t ?a = spine bs ! ?a" "take ?a t = take ?a (spine bs)"
      using c_at_take_spine [OF dt(3)] dt(3)
      by (auto simp: min_def) (metis less min.strict_order_iff take_take)
    with less show ?thesis
      using spine_prefix_iff [OF s(2) t(2) less] spine_no_nul [OF t(2) less] ds(3)
        spine_prefix_length [of bs as]
      by (auto simp: expand Let_def min_def)
  next
    case eq
    then have "as = bs \<longleftrightarrow> take ?a s = take ?a t"
      using ds(3) dt(3) spine_inject [OF s(2) t(2)] by metis
    with eq show ?thesis
      using ds(4) spine_prefix_length [of as bs] spine_prefix_length [of bs as]
      by (auto simp: expand Let_def)
  next
    case gr
    then have "c_at s ?b = spine as ! ?b" "take ?b s = take ?b (spine as)"
      using c_at_take_spine [OF ds(3)] ds(3)
      by (auto simp: min_def) (metis gr min.strict_order_iff take_take)
    with gr show ?thesis
      using spine_prefix_iff [OF t(2) s(2) gr] spine_no_nul [OF s(2) gr] dt(3)
        spine_prefix_length [of as bs]
      by (auto simp: expand Let_def min_def)
  qed
qed

subsection \<open>Substituting a prefix\<close>

text \<open>
  The three branches of the code are the three shapes of a rendering: replacing the names \<open>as\<close>
  at the front by \<open>bs\<close>. The one excluded case, \<open>/\<close> replaced by \<open>/\<close>, is a symmetric binding.
\<close>

lemma substitute_path_prefix_render:
  assumes "names (as @ rs)" "names bs" "as \<noteq> [] \<or> bs \<noteq> []"
    and "length (render (bs @ rs)) + 1 < PATH_MAX \<or> bs = []"
  shows "substitute_path_prefix (render (as @ rs)) (length (render as)) (render bs) (length (render bs))
    = Inr (render (bs @ rs))"
proof (cases "bs = []")
  case True
  with assms show ?thesis by (cases rs) (auto simp: substitute_path_prefix_def render_def Let_def)
next
  case False
  then have bs: "2 \<le> length (spine bs)" using assms(2) length_spine_ge2 by blast
  show ?thesis
  proof (cases "as = []")
    case True
    with False bs assms show ?thesis
      using length_spine_ge2 [of rs]
      by (cases "rs = []") (auto simp: substitute_path_prefix_def render_def Let_def)
  next
    case as: False
    then have "2 \<le> length (spine as)" using assms(1) length_spine_ge2 [of as] by simp
    with as False bs assms show ?thesis
      by (auto simp: substitute_path_prefix_def render_def Let_def)
  qed
qed

lemma substitute_path_prefix_overflow:
  assumes "names (as @ rs)" "names bs" "bs \<noteq> []" "rs \<noteq> []"
    and "length (render (bs @ rs)) \<ge> PATH_MAX"
  shows "substitute_path_prefix (render (as @ rs)) (length (render as)) (render bs) (length (render bs))
    = Inl ENAMETOOLONG"
proof -
  have "2 \<le> length (spine bs)" using assms length_spine_ge2 by blast
  moreover have "as = [] \<or> 2 \<le> length (spine as)" using assms(1) length_spine_ge2 [of as] by auto
  ultimately show ?thesis
    using assms(3-) by (auto simp: substitute_path_prefix_def render_def Let_def)
qed

text \<open>A final separator goes through the substitution unchanged.\<close>

lemma substitute_path_prefix_slash:
  assumes "names (as @ rs)" "names bs" "bs @ rs \<noteq> []" "as @ rs \<noteq> []" "as \<noteq> [] \<or> bs \<noteq> []"
    and "length (render (bs @ rs)) + 1 < PATH_MAX \<or> bs = []"
  shows "substitute_path_prefix (spine (as @ rs) @ ''/'') (length (render as))
      (render bs) (length (render bs)) = Inr (spine (bs @ rs) @ ''/'')"
proof (cases "bs = []")
  case True
  with assms show ?thesis by (auto simp: substitute_path_prefix_def render_def Let_def)
next
  case False
  then have bs: "2 \<le> length (spine bs)" using assms(2) length_spine_ge2 by blast
  have "as = [] \<or> 2 \<le> length (spine as)" using assms(1) length_spine_ge2 [of as] by auto
  with False bs assms show ?thesis
    using length_spine_ge2 [of rs]
    by (auto simp: substitute_path_prefix_def render_def Let_def)
qed

subsection \<open>Scanning components\<close>

text \<open>
  The components of a string, as the loop over \<open>next_component\<close> delivers them, and the finality
  of the last one.
\<close>

definition component_start :: "string \<Rightarrow> string" where
  "component_start s = dropWhile (\<lambda>c. c = CHR ''/'') s"

definition component_stop :: "string \<Rightarrow> string" where
  "component_stop s = dropWhile (\<lambda>c. c \<noteq> CHR ''/'') (component_start s)"

lemma next_component_Inr:
  "next_component s = Inr (f, c, rest) \<longleftrightarrow>
    c = takeWhile (\<lambda>c. c \<noteq> CHR ''/'') (component_start s) \<and> length c < NAME_MAX \<and>
    rest = dropWhile (\<lambda>c. c = CHR ''/'') (component_stop s) \<and>
    f = (if rest = [] then (if c_at (component_stop s) 0 = CHR ''/'' then FINAL_SLASH else FINAL_NORMAL)
         else NOT_FINAL)"
  unfolding next_component_def component_start_def [symmetric] component_stop_def [symmetric] Let_def
    if_Inl_eq_Inr prod.inject not_le
  by blast

lemma component_stop_Cons: "component_stop s = x # xs \<Longrightarrow> x = CHR ''/''"
  by (simp add: component_stop_def dropWhile_eq_Cons_conv)

lemma component_stop_length: "length (component_stop s) \<le> length s"
  unfolding component_stop_def component_start_def
  by (meson le_trans length_dropWhile_le)

lemma next_component_shrinks:
  assumes "next_component s = Inr (NOT_FINAL, c, rest)"
  shows "length rest < length s"
proof -
  have r: "rest = dropWhile (\<lambda>c. c = CHR ''/'') (component_stop s)" and ne: "rest \<noteq> []"
    using assms by (auto simp: next_component_Inr split: if_splits)
  then obtain x xs where x: "component_stop s = x # xs" by (cases "component_stop s") auto
  then have "rest = dropWhile (\<lambda>c. c = CHR ''/'') xs"
    using r component_stop_Cons [OF x] by simp
  then have "length rest < length (component_stop s)"
    using x length_dropWhile_le [of _ xs] by (simp add: le_imp_less_Suc)
  also have "\<dots> \<le> length s" by (rule component_stop_length)
  finally show ?thesis .
qed

lemma set_component_start: "set (component_start s) \<subseteq> set s"
  unfolding component_start_def using set_dropWhileD by fastforce

lemma set_component_stop: "set (component_stop s) \<subseteq> set s"
  unfolding component_stop_def using set_dropWhileD set_component_start by fastforce

lemma next_component_name:
  assumes "next_component s = Inr (f, c, rest)" "cstr s"
  shows "c = [] \<or> name c" and "length c < NAME_MAX" and "cstr rest"
proof -
  have c: "c = takeWhile (\<lambda>c. c \<noteq> CHR ''/'') (component_start s)"
    and rest: "rest = dropWhile (\<lambda>c. c = CHR ''/'') (component_stop s)"
    using assms(1) by (auto simp: next_component_Inr)
  have "x \<noteq> CHR ''/'' \<and> x \<in> set s" if "x \<in> set c" for x
    using that set_takeWhileD [of x _ "component_start s"] set_component_start c by fastforce
  then show "c = [] \<or> name c"
    using assms(2) by (auto simp: name_def cstr_def)
  have "set rest \<subseteq> set s"
    using rest set_dropWhileD set_component_stop by fastforce
  then show "cstr rest" using assms(2) by (auto simp: cstr_def)
  show "length c < NAME_MAX" using assms(1) by (auto simp: next_component_Inr)
qed

lemma dropWhile_slash_name: "name c \<Longrightarrow> dropWhile (\<lambda>x. x = CHR ''/'') (c @ s) = c @ s"
  by (cases c) (auto simp: name_def)

lemma dropWhile_not_slash: "CHR ''/'' \<notin> set c \<Longrightarrow> dropWhile (\<lambda>x. x \<noteq> CHR ''/'') (c @ s) =
    dropWhile (\<lambda>x. x \<noteq> CHR ''/'') s"
  by (induction c) auto

lemma takeWhile_not_slash: "CHR ''/'' \<notin> set c \<Longrightarrow> takeWhile (\<lambda>x. x \<noteq> CHR ''/'') (c @ s) =
    c @ takeWhile (\<lambda>x. x \<noteq> CHR ''/'') s"
  by (induction c) auto

lemma next_component_spine:
  assumes "names (c # cs)" "length c < NAME_MAX"
  shows "next_component (spine (c # cs)) =
      Inr (if cs = [] then FINAL_NORMAL else NOT_FINAL, c, if cs = [] then [] else drop 1 (spine cs))"
    and "next_component (c @ spine cs) =
      Inr (if cs = [] then FINAL_NORMAL else NOT_FINAL, c, if cs = [] then [] else drop 1 (spine cs))"
proof -
  have c: "name c" "CHR ''/'' \<notin> set c" using assms by (auto simp: name_def)
  have n: "dropWhile (\<lambda>x. x = CHR ''/'') (spine cs) = drop 1 (spine cs)"
    using assms by (cases cs) (auto simp: dropWhile_slash_name)
  have m: "drop 1 (spine cs) = [] \<longleftrightarrow> cs = []"
    using assms by (cases cs) (auto simp: name_def)
  have sp: "dropWhile (\<lambda>x. x \<noteq> CHR ''/'') (spine cs) = spine cs"
      "takeWhile (\<lambda>x. x \<noteq> CHR ''/'') (spine cs) = []"
    by (cases cs; simp)+
  show "next_component (c @ spine cs) =
      Inr (if cs = [] then FINAL_NORMAL else NOT_FINAL, c, if cs = [] then [] else drop 1 (spine cs))"
    using assms(2) m
    by (simp add: next_component_def dropWhile_slash_name c dropWhile_not_slash
        takeWhile_not_slash n sp Let_def)
  then show "next_component (spine (c # cs)) =
      Inr (if cs = [] then FINAL_NORMAL else NOT_FINAL, c, if cs = [] then [] else drop 1 (spine cs))"
    by (simp add: next_component_def)
qed

subsection \<open>Chopping the final separator\<close>

lemma chop_finality_slash: "names cs \<Longrightarrow> cs \<noteq> [] \<Longrightarrow> chop_finality (spine cs @ ''/'') = spine cs"
  by (cases cs) (auto simp: chop_finality_def c_at_def nth_append Let_def)

lemma chop_finality_dot: "names cs \<Longrightarrow> cs \<noteq> [] \<Longrightarrow> chop_finality (spine cs @ ''/.'') = spine cs"
  using length_spine_ge2 [of cs]
  by (auto simp: chop_finality_def c_at_def nth_append Let_def)

lemma chop_finality_root: "chop_finality ''/'' = ''/''" "chop_finality ''/.'' = ''/''"
  by (simp_all add: chop_finality_def c_at_def)

lemma chop_finality_plain:
  "names cs \<Longrightarrow> cs \<noteq> [] \<Longrightarrow> last (last cs) \<noteq> CHR ''.'' \<Longrightarrow> chop_finality (spine cs) = spine cs"
  using last_spine [of cs] c_at_last [of "spine cs"]
  by (cases cs rule: rev_cases) (auto simp: chop_finality_def Let_def name_def)

subsection \<open>Reading the names back\<close>

fun split_slash :: "string \<Rightarrow> string list" where
  "split_slash [] = [[]]"
| "split_slash (c # s) =
     (if c = CHR ''/'' then [] # split_slash s
      else (case split_slash s of [] \<Rightarrow> [[c]] | x # xs \<Rightarrow> (c # x) # xs))"

definition names_of :: "string \<Rightarrow> string list" where
  "names_of s = filter (\<lambda>x. x \<noteq> []) (split_slash s)"

definition canonical :: "string \<Rightarrow> bool" where
  "canonical s \<longleftrightarrow> s = render (names_of s) \<and> names (names_of s)"

lemma split_slash_not_Nil [simp]: "split_slash s \<noteq> []"
  by (cases s) (auto split: list.split)

lemma split_slash_append:
  "CHR ''/'' \<notin> set c \<Longrightarrow> split_slash (c @ CHR ''/'' # s) = c # split_slash s"
  by (induction c) auto

lemma split_slash_plain: "CHR ''/'' \<notin> set c \<Longrightarrow> split_slash c = [c]"
  by (induction c) auto

lemma split_slash_spine:
  "names (c # cs) \<Longrightarrow> split_slash (c @ spine cs) = c # cs"
proof (induction cs arbitrary: c)
  case Nil
  then show ?case by (simp add: split_slash_plain name_def)
next
  case (Cons d cs)
  then show ?case by (auto simp: split_slash_append name_def)
qed

lemma names_not_Nil: "names cs \<Longrightarrow> filter (\<lambda>x. x \<noteq> []) cs = cs"
  by (auto simp: names_def name_def filter_id_conv)

lemma names_of_spine: "names cs \<Longrightarrow> names_of (spine cs) = cs"
  using split_slash_spine names_not_Nil
  by (cases cs) (auto simp: names_of_def name_def)

lemma names_of_render [simp]: "names cs \<Longrightarrow> names_of (render cs) = cs"
  by (cases "cs = []") (simp add: names_of_def, simp add: render_def names_of_spine)

lemma canonical_render [simp, intro]: "names cs \<Longrightarrow> canonical (render cs)"
  by (simp add: canonical_def)

lemma canonicalE: "canonical s \<Longrightarrow> (\<And>cs. names cs \<Longrightarrow> s = render cs \<Longrightarrow> P) \<Longrightarrow> P"
  by (metis canonical_def)

definition prefix_comparison :: "string list \<Rightarrow> string list \<Rightarrow> comparison" where
  "prefix_comparison as bs =
    (if as = bs then PATHS_ARE_EQUAL
     else if strict_prefix as bs then PATH1_IS_PREFIX
     else if strict_prefix bs as then PATH2_IS_PREFIX
     else PATHS_ARE_NOT_COMPARABLE)"

lemma prefix_comparison_iff:
  "prefix_comparison as bs = PATHS_ARE_EQUAL \<longleftrightarrow> as = bs"
  "prefix_comparison as bs = PATH1_IS_PREFIX \<longleftrightarrow> strict_prefix as bs"
  "prefix_comparison as bs = PATH2_IS_PREFIX \<longleftrightarrow> strict_prefix bs as"
  by (auto simp: prefix_comparison_def strict_prefix_def)

lemma compare_paths_prefix:
  "denotes s as \<Longrightarrow> names as \<Longrightarrow> denotes t bs \<Longrightarrow> names bs \<Longrightarrow>
    compare_paths s t = prefix_comparison as bs"
  by (simp add: compare_paths_denotes prefix_comparison_def)

lemma compare_paths_canonical:
  "canonical s \<Longrightarrow> canonical t \<Longrightarrow> compare_paths s t = prefix_comparison (names_of s) (names_of t)"
  by (metis canonical_def compare_paths_prefix denotes_render)

end
