(* ===== verification/Bindings.thy ===== *)
theory Bindings
  imports Paths
begin

text \<open>
  The binding tables of \<open>path/binding.c\<close>: the circular lists of bindings in the pending, guest and
  host order, look-up, insertion, removal and substitution. A binding is a value with its address
  (\<open>bid\<close>); the intrusive list links are membership of the lists. The locale \<open>nesting\<close> is the
  contract of a comparison that orders bindings by containment; it is interpreted on the guest and
  on the host side.
\<close>

section \<open>The code\<close>

record binding =
  bid :: nat
  host :: string
  guest :: string
  need_substitution :: bool
  must_exist :: bool

text \<open>
  \<open>FileSystemNameSpace\<close>: \<open>None\<close> is a NULL list.
\<close>

record fs_ns =
  pending :: "binding list option"
  guest_list :: "binding list option"
  host_list :: "binding list option"
  cwd :: string

definition list_of :: "binding list option \<Rightarrow> binding list" where
  "list_of l = (case l of None \<Rightarrow> [] | Some xs \<Rightarrow> xs)"

text \<open>\<open>HEAD\<close>, \<open>NEXT\<close> and \<open>CIRCLEQ_FOREACH_\<close>: the list that the macros walk for a side.\<close>

definition head_list :: "fs_ns \<Rightarrow> side \<Rightarrow> binding list" where
  "head_list fs side =
     (case side of GUEST \<Rightarrow> list_of (guest_list fs) | HOST \<Rightarrow> list_of (host_list fs)
      | PENDING \<Rightarrow> list_of (pending fs))"

definition set_head_list :: "fs_ns \<Rightarrow> side \<Rightarrow> binding list \<Rightarrow> fs_ns" where
  "set_head_list fs side l =
     (case side of GUEST \<Rightarrow> fs\<lparr>guest_list := Some l\<rparr> | HOST \<Rightarrow> fs\<lparr>host_list := Some l\<rparr>
      | PENDING \<Rightarrow> fs\<lparr>pending := Some l\<rparr>)"

text \<open>
  \<open>get_root\<close>: from the guest list, or from the pending list before \<open>initialize_bindings\<close>. The
  assertions that the guest list is not empty and that its last element is the root are the \<open>None\<close> of the last
  case.
\<close>

definition get_root :: "fs_ns \<Rightarrow> string option" where
  "get_root fs =
     (case guest_list fs of
        None \<Rightarrow>
          (case pending fs of
             None \<Rightarrow> None
           | Some bs \<Rightarrow>
               if bs = [] then None
               else if compare_paths (guest (last bs)) ''/'' \<noteq> PATHS_ARE_EQUAL then None
               else Some (host (last bs)))
      | Some bs \<Rightarrow> if bs = [] \<or> guest (last bs) \<noteq> ''/'' then None else Some (host (last bs)))"

definition belongs_to_guestfs :: "fs_ns \<Rightarrow> string \<Rightarrow> bool" where
  "belongs_to_guestfs fs host_path =
     (case get_root fs of None \<Rightarrow> False
      | Some root \<Rightarrow>
          (let comparison = compare_paths root host_path in
           comparison = PATHS_ARE_EQUAL \<or> comparison = PATH1_IS_PREFIX))"

definition root_is_slash :: "fs_ns \<Rightarrow> bool" where
  "root_is_slash fs =
     (case get_root fs of None \<Rightarrow> False | Some root \<Rightarrow> compare_paths root ''/'' = PATHS_ARE_EQUAL)"

fun find_binding :: "fs_ns \<Rightarrow> side \<Rightarrow> string \<Rightarrow> binding list \<Rightarrow> binding option" where
  "find_binding fs side path [] = None"
| "find_binding fs side path (b # bs) =
     (let ref = (case side of GUEST \<Rightarrow> guest b | _ \<Rightarrow> host b);
          comparison = compare_paths2 ref (length ref) path (length path) in
      if comparison \<noteq> PATHS_ARE_EQUAL \<and> comparison \<noteq> PATH1_IS_PREFIX
      then find_binding fs side path bs
      else if side = HOST \<and> \<not> root_is_slash fs \<and> belongs_to_guestfs fs path
      then find_binding fs side path bs
      else Some b)"

definition get_binding :: "fs_ns \<Rightarrow> side \<Rightarrow> string \<Rightarrow> binding option" where
  "get_binding fs side path =
     (if side = PENDING then None else find_binding fs side path (head_list fs side))"

definition get_path_binding :: "fs_ns \<Rightarrow> side \<Rightarrow> string \<Rightarrow> string option" where
  "get_path_binding fs side path =
     (case get_binding fs side path of
        None \<Rightarrow> None
      | Some b \<Rightarrow> (case side of GUEST \<Rightarrow> Some (guest b) | HOST \<Rightarrow> Some (host b) | PENDING \<Rightarrow> None))"

text \<open>
  \<open>substitute_binding\<close>: status 0 or 1 with the new buffer. The status of
  \<open>substitute_path_prefix\<close> is dropped, as in the code: on overflow the buffer keeps the old path.
\<close>

definition substitute_binding :: "fs_ns \<Rightarrow> side \<Rightarrow> string \<Rightarrow> (int \<times> string) res" where
  "substitute_binding fs side path =
     (case get_binding fs side path of
        None \<Rightarrow> Inl ENOENT
      | Some b \<Rightarrow>
          if \<not> need_substitution b then Inr (0, path)
          else
            (case side of
               PENDING \<Rightarrow> Inl EACCES
             | _ \<Rightarrow>
                 (let (ref, reverse_ref) =
                        (if side = GUEST then (guest b, host b) else (host b, guest b)) in
                  case substitute_path_prefix path (length ref) reverse_ref (length reverse_ref) of
                    Inl _ \<Rightarrow> Inr (1, path)
                  | Inr path' \<Rightarrow> Inr (1, path'))))"

definition unlink_binding :: "nat \<Rightarrow> binding list option \<Rightarrow> binding list option" where
  "unlink_binding i l = map_option (filter (\<lambda>x. bid x \<noteq> i)) l"

definition remove_binding_from_all_lists :: "fs_ns \<Rightarrow> binding \<Rightarrow> fs_ns" where
  "remove_binding_from_all_lists fs b =
     fs\<lparr>pending := unlink_binding (bid b) (pending fs),
        guest_list := unlink_binding (bid b) (guest_list fs),
        host_list := unlink_binding (bid b) (host_list fs)\<rparr>"

text \<open>
  \<open>insort_binding\<close>. The scan keeps \<open>previous\<close> and \<open>next\<close> (\<open>None\<close> stands for NULL, respectively for
  the list head) and stops early to replace an equal binding, except on the host side.
\<close>

datatype placement = Replace binding | Place "binding option" "binding option"

fun insort_scan ::
  "(binding \<Rightarrow> binding \<Rightarrow> comparison) \<Rightarrow> side \<Rightarrow> binding \<Rightarrow> binding list \<Rightarrow>
   binding option \<Rightarrow> binding option \<Rightarrow> placement" where
  "insort_scan cmp side b [] previous nxt = Place previous nxt"
| "insort_scan cmp side b (it # its) previous nxt =
     (case cmp b it of
        PATHS_ARE_EQUAL \<Rightarrow>
          if side = HOST then insort_scan cmp side b its (Some it) nxt else Replace it
      | PATH1_IS_PREFIX \<Rightarrow> insort_scan cmp side b its (Some it) nxt
      | PATH2_IS_PREFIX \<Rightarrow>
          insort_scan cmp side b its previous (if nxt = None then Some it else nxt)
      | PATHS_ARE_NOT_COMPARABLE \<Rightarrow> insort_scan cmp side b its previous nxt)"

fun insert_after :: "binding \<Rightarrow> binding \<Rightarrow> binding list \<Rightarrow> binding list" where
  "insert_after p b [] = []"
| "insert_after p b (x # xs) = (if bid x = bid p then x # b # xs else x # insert_after p b xs)"

fun insert_before :: "binding \<Rightarrow> binding \<Rightarrow> binding list \<Rightarrow> binding list" where
  "insert_before n b [] = []"
| "insert_before n b (x # xs) = (if bid x = bid n then b # x # xs else x # insert_before n b xs)"

definition side_path :: "side \<Rightarrow> binding \<Rightarrow> string" where
  "side_path side b = (case side of HOST \<Rightarrow> host b | _ \<Rightarrow> guest b)"

definition side_compare :: "side \<Rightarrow> binding \<Rightarrow> binding \<Rightarrow> comparison" where
  "side_compare side b it =
     compare_paths2 (side_path side b) (length (side_path side b))
       (side_path side it) (length (side_path side it))"

definition place :: "placement \<Rightarrow> binding \<Rightarrow> binding list \<Rightarrow> binding list" where
  "place p b l =
     (case p of
        Replace it \<Rightarrow> insert_after it b l
      | Place previous nxt \<Rightarrow>
          (case previous of
             Some q \<Rightarrow> insert_after q b l
           | None \<Rightarrow> (case nxt of Some n \<Rightarrow> insert_before n b l | None \<Rightarrow> b # l)))"

definition first_of :: "binding list \<Rightarrow> binding option" where
  "first_of l = (case l of [] \<Rightarrow> None | x # _ \<Rightarrow> Some x)"

definition insort_binding :: "fs_ns \<Rightarrow> side \<Rightarrow> binding \<Rightarrow> fs_ns" where
  "insort_binding fs side b =
     (let l = head_list fs side;
          p = insort_scan (side_compare side) side b l None (first_of l);
          fs' = set_head_list fs side (place p b l) in
      case p of Replace it \<Rightarrow> remove_binding_from_all_lists fs' it | Place _ _ \<Rightarrow> fs')"

definition insort_binding2 :: "fs_ns \<Rightarrow> binding \<Rightarrow> fs_ns" where
  "insort_binding2 fs b =
     (let b' = b\<lparr>need_substitution := (compare_paths (host b) (guest b) \<noteq> PATHS_ARE_EQUAL)\<rparr> in
      insort_binding (insort_binding fs GUEST b') HOST b')"

text \<open>\<open>insort_binding3\<close> allocates the binding at the fresh address \<open>i\<close>.\<close>

definition insort_binding3 :: "fs_ns \<Rightarrow> nat \<Rightarrow> string \<Rightarrow> string \<Rightarrow> fs_ns" where
  "insort_binding3 fs i host_path guest_path =
     insort_binding2 fs \<lparr>bid = i, host = host_path, guest = guest_path,
       need_substitution = False, must_exist = False\<rparr>"

text \<open>\<open>remove_bindings\<close>, the destructor of one of the three lists.\<close>

definition remove_bindings :: "fs_ns \<Rightarrow> side \<Rightarrow> fs_ns" where
  "remove_bindings fs side = set_head_list fs side []"

section \<open>Lists ordered by containment\<close>

text \<open>
  A list is nested when no element stands before another that it strictly contains: walking it from
  the front meets the deepest containers first.
\<close>

definition nested :: "(binding \<Rightarrow> string list) \<Rightarrow> binding list \<Rightarrow> bool" where
  "nested pos xs \<longleftrightarrow> sorted_wrt (\<lambda>x y. \<not> strict_prefix (pos x) (pos y)) xs"

lemma nested_first_is_deepest:
  assumes "nested pos (ys @ x # zs)" "prefix (pos x) p"
    and "\<And>y. y \<in> set ys \<Longrightarrow> \<not> prefix (pos y) p"
    and "y \<in> set (ys @ x # zs)" "prefix (pos y) p"
  shows "prefix (pos y) (pos x)"
proof (rule ccontr)
  assume n: "\<not> prefix (pos y) (pos x)"
  with assms(2,5) have "strict_prefix (pos x) (pos y)"
    by (metis prefix_same_cases strict_prefix_def)
  moreover have "y \<in> set zs" using assms(3-5) n by auto
  ultimately show False using assms(1) by (auto simp: nested_def sorted_wrt_append)
qed

text \<open>The list that \<open>insort_binding\<close> leaves for its own side.\<close>

definition insort_list ::
  "(binding \<Rightarrow> binding \<Rightarrow> comparison) \<Rightarrow> side \<Rightarrow> binding \<Rightarrow> binding list \<Rightarrow> binding list" where
  "insort_list cmp side b l =
     (let p = insort_scan cmp side b l None (first_of l) in
      case p of Replace it \<Rightarrow> filter (\<lambda>x. bid x \<noteq> bid it) (place p b l) | Place _ _ \<Rightarrow> place p b l)"

definition insort_removed ::
  "(binding \<Rightarrow> binding \<Rightarrow> comparison) \<Rightarrow> side \<Rightarrow> binding \<Rightarrow> binding list \<Rightarrow> binding option" where
  "insort_removed cmp side b l =
     (case insort_scan cmp side b l None (first_of l) of Replace it \<Rightarrow> Some it | Place _ _ \<Rightarrow> None)"

lemma insert_after_split:
  "bid p \<notin> bid ` set ys \<Longrightarrow> insert_after p b (ys @ p # zs) = ys @ p # b # zs"
  by (induction ys) auto

lemma filter_other_bids: "i \<notin> bid ` set ys \<Longrightarrow> filter (\<lambda>x. bid x \<noteq> i) ys = ys"
  by (induction ys) auto

text \<open>
  The contract of a comparison that decides containment of positions; \<open>pos\<close> is the position of a
  binding on the side at hand, \<open>ok\<close> the bindings the comparison is right about.
\<close>

locale nesting =
  fixes cmp :: "binding \<Rightarrow> binding \<Rightarrow> comparison"
    and pos :: "binding \<Rightarrow> string list"
    and ok :: "binding \<Rightarrow> bool"
  assumes cmp_pos: "ok a \<Longrightarrow> ok b \<Longrightarrow> cmp a b = prefix_comparison (pos a) (pos b)"
begin

lemma scan_Replace:
  assumes "insort_scan cmp side b xs previous nxt = Replace it" "ok b" "\<forall>x \<in> set xs. ok x"
  shows "\<exists>ys zs. xs = ys @ it # zs \<and> pos it = pos b \<and> side \<noteq> HOST"
  using assms
proof (induction xs arbitrary: previous nxt)
  case Nil
  then show ?case by simp
next
  case (Cons x xs)
  show ?case
  proof (cases "pos b = pos x \<and> side \<noteq> HOST")
    case True
    with Cons.prems show ?thesis
      by (intro exI [of _ "[]"] exI [of _ xs]) (auto simp: cmp_pos prefix_comparison_def)
  next
    case False
    with Cons.prems obtain previous' nxt' where
      "insort_scan cmp side b xs previous' nxt' = Replace it"
      by (auto simp: cmp_pos prefix_comparison_def split: comparison.splits if_splits)
    with Cons.IH Cons.prems obtain ys zs where "xs = ys @ it # zs" "pos it = pos b" "side \<noteq> HOST"
      by fastforce
    then show ?thesis by (intro exI [of _ "x # ys"] exI [of _ zs]) simp
  qed
qed

lemma scan_Place:
  assumes "insort_scan cmp side b xs previous nxt = Place p n" "ok b" "\<forall>x \<in> set xs. ok x"
  shows "(side \<noteq> HOST \<longrightarrow> pos b \<notin> pos ` set xs) \<and> (nxt \<noteq> None \<longrightarrow> n = nxt) \<and>
    ((\<exists>ys x zs. xs = ys @ x # zs \<and> p = Some x \<and> prefix (pos b) (pos x) \<and>
        (\<forall>z \<in> set zs. \<not> prefix (pos b) (pos z)))
     \<or> p = previous \<and> (\<forall>x \<in> set xs. \<not> prefix (pos b) (pos x)))"
  using assms
proof (induction xs arbitrary: previous nxt)
  case Nil
  then show ?case by auto
next
  case (Cons x xs)
  let ?c = "prefix_comparison (pos b) (pos x)"
  have c: "cmp b x = ?c" using Cons.prems by (simp add: cmp_pos)
  obtain previous' nxt' where rec: "insort_scan cmp side b xs previous' nxt' = Place p n"
    and prev': "previous' = (if prefix (pos b) (pos x) then Some x else previous)"
    and nxt': "nxt \<noteq> None \<longrightarrow> nxt' = nxt"
    and eq: "pos b = pos x \<Longrightarrow> side = HOST"
    using Cons.prems(1) c
    by (auto simp: prefix_comparison_def strict_prefix_def split: comparison.splits if_splits)
  note IH = Cons.IH [OF rec Cons.prems(2)]
  have goal2: "nxt \<noteq> None \<longrightarrow> n = nxt" and goal1: "side \<noteq> HOST \<longrightarrow> pos b \<notin> pos ` set (x # xs)"
    using IH Cons.prems(3) nxt' eq by auto
  from IH Cons.prems(3) consider
    (in_tail) ys y zs where "xs = ys @ y # zs" "p = Some y" "prefix (pos b) (pos y)"
      "\<forall>z \<in> set zs. \<not> prefix (pos b) (pos z)"
    | (no_tail) "p = previous'" "\<forall>y \<in> set xs. \<not> prefix (pos b) (pos y)"
    by auto
  then show ?case
  proof cases
    case in_tail
    then have "x # xs = (x # ys) @ y # zs" by simp
    with in_tail goal1 goal2 show ?thesis by blast
  next
    case no_tail
    show ?thesis
    proof (cases "prefix (pos b) (pos x)")
      case True
      with no_tail prev' have "x # xs = [] @ x # xs" "p = Some x" by simp_all
      with True no_tail goal1 goal2 show ?thesis by blast
    next
      case False
      with no_tail prev' goal1 goal2 show ?thesis by simp
    qed
  qed
qed

lemma insort_list_split:
  assumes "ok b" "\<forall>x \<in> set xs. ok x" "distinct (map bid xs)"
    and "bid b \<notin> bid ` set xs"
  obtains ys zs where "insort_list cmp side b xs = ys @ b # zs"
    "xs = ys @ zs \<and> (side \<noteq> HOST \<longrightarrow> pos b \<notin> pos ` set xs) \<and>
      (ys = [] \<or> prefix (pos b) (pos (last ys))) \<and> (\<forall>z \<in> set zs. \<not> prefix (pos b) (pos z)) \<and>
      insort_removed cmp side b xs = None
     \<or> (\<exists>it. xs = ys @ it # zs \<and> pos it = pos b \<and> side \<noteq> HOST \<and>
          insort_removed cmp side b xs = Some it)"
proof (cases "insort_scan cmp side b xs None (first_of xs)")
  case (Replace it)
  then obtain ys zs where s: "xs = ys @ it # zs" "pos it = pos b" "side \<noteq> HOST"
    using scan_Replace assms by blast
  have "insort_list cmp side b xs = ys @ b # zs"
    using Replace s assms(3,4)
    by (auto simp: insort_list_def place_def insert_after_split filter_other_bids)
  moreover have "insort_removed cmp side b xs = Some it"
    using Replace by (simp add: insort_removed_def)
  ultimately show thesis using s that by blast
next
  case (Place p n)
  then have nr: "insort_removed cmp side b xs = None" by (simp add: insort_removed_def)
  note sp = scan_Place [OF Place assms(1,2)]
  from sp consider
    (some) ys x zs where "xs = ys @ x # zs" "p = Some x" "prefix (pos b) (pos x)"
      "\<forall>z \<in> set zs. \<not> prefix (pos b) (pos z)"
    | (none) "p = None" "\<forall>x \<in> set xs. \<not> prefix (pos b) (pos x)"
    by blast
  then show thesis
  proof cases
    case some
    have "insort_list cmp side b xs = (ys @ [x]) @ b # zs"
      using Place some assms(3) by (simp add: insort_list_def place_def insert_after_split)
    with some sp nr that [of "ys @ [x]" zs] show thesis by simp
  next
    case none
    have "n = first_of xs" if "xs \<noteq> []"
      using sp that by (cases xs) (auto simp: first_of_def)
    then have "insort_list cmp side b xs = [] @ b # xs"
      using Place none
      by (cases xs) (auto simp: insort_list_def place_def first_of_def split: option.splits)
    with none sp nr that [of "[]" xs] show thesis by simp
  qed
qed

lemma insort_list_nested:
  assumes "ok b" "\<forall>x \<in> set xs. ok x" "distinct (map bid xs)" "bid b \<notin> bid ` set xs"
    and "nested pos xs"
  shows "nested pos (insort_list cmp side b xs)"
proof -
  obtain ys zs where l: "insort_list cmp side b xs = ys @ b # zs"
    and c: "xs = ys @ zs \<and> (side \<noteq> HOST \<longrightarrow> pos b \<notin> pos ` set xs) \<and>
      (ys = [] \<or> prefix (pos b) (pos (last ys))) \<and> (\<forall>z \<in> set zs. \<not> prefix (pos b) (pos z)) \<and>
      insort_removed cmp side b xs = None
     \<or> (\<exists>it. xs = ys @ it # zs \<and> pos it = pos b \<and> side \<noteq> HOST \<and>
          insort_removed cmp side b xs = Some it)"
    by (rule insort_list_split [OF assms(1-4)])
  from c show ?thesis
  proof
    assume c: "xs = ys @ zs \<and> (side \<noteq> HOST \<longrightarrow> pos b \<notin> pos ` set xs) \<and>
      (ys = [] \<or> prefix (pos b) (pos (last ys))) \<and> (\<forall>z \<in> set zs. \<not> prefix (pos b) (pos z)) \<and>
      insort_removed cmp side b xs = None"
    have "\<not> strict_prefix (pos y) (pos b)" if y: "y \<in> set ys" for y
    proof
      assume sp: "strict_prefix (pos y) (pos b)"
      from y obtain us u where ys: "ys = us @ [u]" by (cases ys rule: rev_cases) auto
      with c have "prefix (pos b) (pos u)" by auto
      with sp have "strict_prefix (pos y) (pos u)" by (meson prefix_order.less_le_trans)
      with y ys assms(5) c show False by (auto simp: nested_def sorted_wrt_append)
    qed
    with c assms(5) show ?thesis
      unfolding l by (auto simp: nested_def sorted_wrt_append strict_prefix_def)
  next
    assume "\<exists>it. xs = ys @ it # zs \<and> pos it = pos b \<and> side \<noteq> HOST \<and>
      insort_removed cmp side b xs = Some it"
    with assms(5) show ?thesis unfolding l by (auto simp: nested_def sorted_wrt_append)
  qed
qed

end

abbreviation guest_pos :: "binding \<Rightarrow> string list" where
  "guest_pos b \<equiv> names_of (guest b)"

abbreviation host_pos :: "binding \<Rightarrow> string list" where
  "host_pos b \<equiv> names_of (host b)"

interpretation guest_side: nesting "side_compare GUEST" guest_pos "\<lambda>b. canonical (guest b)"
  by unfold_locales
    (simp add: side_compare_def side_path_def compare_paths_canonical flip: compare_paths_def)

interpretation host_side: nesting "side_compare HOST" host_pos "\<lambda>b. canonical (host b)"
  by unfold_locales
    (simp add: side_compare_def side_path_def compare_paths_canonical flip: compare_paths_def)

section \<open>Well-formed tables\<close>

definition wf_binding :: "binding \<Rightarrow> bool" where
  "wf_binding b \<longleftrightarrow> canonical (host b) \<and> canonical (guest b) \<and>
     (need_substitution b \<longleftrightarrow> host b \<noteq> guest b)"

definition wf_lists :: "binding list \<Rightarrow> binding list \<Rightarrow> bool" where
  "wf_lists gs hs \<longleftrightarrow>
     gs \<noteq> [] \<and> guest (last gs) = ''/'' \<and> (\<forall>b \<in> set gs. wf_binding b) \<and> set hs = set gs \<and>
     distinct (map bid gs) \<and> distinct (map bid hs) \<and> distinct (map guest gs) \<and>
     nested guest_pos gs \<and> nested host_pos hs"

definition wf_fs :: "fs_ns \<Rightarrow> bool" where
  "wf_fs fs \<longleftrightarrow>
     (case guest_list fs of None \<Rightarrow> False
      | Some gs \<Rightarrow> (case host_list fs of None \<Rightarrow> False | Some hs \<Rightarrow> wf_lists gs hs))"

lemma wf_fsE:
  assumes "wf_fs fs"
  obtains gs hs where "guest_list fs = Some gs" "host_list fs = Some hs" "wf_lists gs hs"
  using assms by (auto simp: wf_fs_def split: option.splits)

lemma insort_scan_HOST: "insort_scan cmp HOST b xs p n \<noteq> Replace it"
  by (induction xs arbitrary: p n) (auto split: comparison.splits)

lemma insort_binding_guest:
  "guest_list fs = Some gs \<Longrightarrow> guest_list (insort_binding fs GUEST b) =
     Some (insort_list (side_compare GUEST) GUEST b gs)"
  by (auto simp: insort_binding_def insort_list_def head_list_def list_of_def set_head_list_def
      remove_binding_from_all_lists_def unlink_binding_def Let_def split: placement.splits)

lemma insort_binding_guest_host:
  "guest_list fs = Some gs \<Longrightarrow> host_list fs = Some hs \<Longrightarrow>
     host_list (insort_binding fs GUEST b) =
       Some (case insort_removed (side_compare GUEST) GUEST b gs of
               None \<Rightarrow> hs | Some it \<Rightarrow> filter (\<lambda>x. bid x \<noteq> bid it) hs)"
  by (auto simp: insort_binding_def insort_removed_def head_list_def list_of_def set_head_list_def
      remove_binding_from_all_lists_def unlink_binding_def Let_def split: placement.splits)

lemma insort_binding_host:
  "host_list fs = Some hs \<Longrightarrow> host_list (insort_binding fs HOST b) =
     Some (insort_list (side_compare HOST) HOST b hs)"
  "guest_list (insort_binding fs HOST b) = guest_list fs"
  by (auto simp: insort_binding_def insort_list_def head_list_def list_of_def set_head_list_def
      insort_scan_HOST Let_def split: placement.splits)

lemma canonical_root: "canonical s \<Longrightarrow> names_of s = [] \<longleftrightarrow> s = ''/''"
  by (metis canonical_def render_Nil names_of_render names_simps(1))

lemma guest_pos_inject:
  "canonical (guest a) \<Longrightarrow> canonical (guest b) \<Longrightarrow> guest_pos a = guest_pos b \<longleftrightarrow> guest a = guest b"
  by (metis canonical_def)

lemma compare_paths_equal_iff:
  "canonical s \<Longrightarrow> canonical t \<Longrightarrow> compare_paths s t = PATHS_ARE_EQUAL \<longleftrightarrow> s = t"
  by (metis canonical_def compare_paths_canonical prefix_comparison_iff(1))

lemma insort_guest_wf:
  assumes wf: "wf_lists gs hs" and b: "wf_binding b" "bid b \<notin> bid ` set gs"
  defines "gs' \<equiv> insort_list (side_compare GUEST) GUEST b gs"
    and "r \<equiv> insort_removed (side_compare GUEST) GUEST b gs"
  shows "gs' \<noteq> [] \<and> guest (last gs') = ''/'' \<and> distinct (map bid gs') \<and>
    distinct (map guest gs') \<and> nested guest_pos gs' \<and>
    (case r of None \<Rightarrow> set gs' = insert b (set gs)
     | Some it \<Rightarrow> set gs' = insert b (set gs - {it}) \<and> it \<in> set gs)"
proof -
  have ok: "canonical (guest b)" "\<forall>x \<in> set gs. canonical (guest x)"
    and dist: "distinct (map bid gs)" "distinct (map guest gs)"
    and root: "gs \<noteq> []" "guest (last gs) = ''/''"
    using wf b by (auto simp: wf_lists_def wf_binding_def)
  obtain ys zs where l: "gs' = ys @ b # zs"
    and c: "gs = ys @ zs \<and> (GUEST \<noteq> HOST \<longrightarrow> guest_pos b \<notin> guest_pos ` set gs) \<and>
      (ys = [] \<or> prefix (guest_pos b) (guest_pos (last ys))) \<and>
      (\<forall>z \<in> set zs. \<not> prefix (guest_pos b) (guest_pos z)) \<and> r = None
     \<or> (\<exists>it. gs = ys @ it # zs \<and> guest_pos it = guest_pos b \<and> GUEST \<noteq> HOST \<and> r = Some it)"
    unfolding gs'_def r_def by (rule guest_side.insort_list_split [OF ok dist(1) b(2)])
  have nest: "nested guest_pos gs'"
    unfolding gs'_def using wf by (intro guest_side.insort_list_nested ok dist b) (simp add: wf_lists_def)
  from c show ?thesis
  proof
    assume c: "gs = ys @ zs \<and> (GUEST \<noteq> HOST \<longrightarrow> guest_pos b \<notin> guest_pos ` set gs) \<and>
      (ys = [] \<or> prefix (guest_pos b) (guest_pos (last ys))) \<and>
      (\<forall>z \<in> set zs. \<not> prefix (guest_pos b) (guest_pos z)) \<and> r = None"
    have "zs \<noteq> []"
    proof
      assume "zs = []"
      with c root have "prefix (guest_pos b) (guest_pos (last gs))" "last gs \<in> set gs" by auto
      moreover have "guest_pos (last gs) = []" using root(2) by (simp add: names_of_def)
      ultimately have "guest_pos b \<in> guest_pos ` set gs" by (metis image_eqI prefix_bot.extremum_uniqueI)
      with c show False by simp
    qed
    moreover have "guest b \<notin> guest ` set gs" using c by auto
    ultimately show ?thesis
      using c nest dist root b(2) unfolding l by auto
  next
    assume "\<exists>it. gs = ys @ it # zs \<and> guest_pos it = guest_pos b \<and> GUEST \<noteq> HOST \<and> r = Some it"
    then obtain it where it: "gs = ys @ it # zs" "guest it = guest b" "r = Some it"
      using guest_pos_inject ok by auto
    moreover have "it \<notin> set ys \<union> set zs" using it(1) dist(1) by auto
    ultimately show ?thesis
      using nest dist root b(2) unfolding l by (auto split: if_splits)
  qed
qed

lemma insort_host_wf:
  assumes "\<forall>x \<in> set hs. canonical (host x)" "distinct (map bid hs)" "nested host_pos hs"
    and "canonical (host b)" "bid b \<notin> bid ` set hs"
  defines "hs' \<equiv> insort_list (side_compare HOST) HOST b hs"
  shows "distinct (map bid hs') \<and> nested host_pos hs' \<and> set hs' = insert b (set hs)"
proof -
  obtain ys zs where l: "hs' = ys @ b # zs"
    and c: "hs = ys @ zs \<and> (HOST \<noteq> HOST \<longrightarrow> host_pos b \<notin> host_pos ` set hs) \<and>
      (ys = [] \<or> prefix (host_pos b) (host_pos (last ys))) \<and>
      (\<forall>z \<in> set zs. \<not> prefix (host_pos b) (host_pos z)) \<and>
      insort_removed (side_compare HOST) HOST b hs = None
     \<or> (\<exists>it. hs = ys @ it # zs \<and> host_pos it = host_pos b \<and> HOST \<noteq> HOST \<and>
          insort_removed (side_compare HOST) HOST b hs = Some it)"
    unfolding hs'_def by (rule host_side.insort_list_split [OF assms(4,1,2,5)])
  have "nested host_pos hs'"
    unfolding hs'_def by (intro host_side.insort_list_nested assms)
  with l c assms(2,5) show ?thesis by auto
qed

lemma nested_filter: "nested pos xs \<Longrightarrow> nested pos (filter P xs)"
  by (simp add: nested_def sorted_wrt_filter)

definition with_need_substitution :: "binding \<Rightarrow> binding" where
  "with_need_substitution b =
     b\<lparr>need_substitution := (compare_paths (host b) (guest b) \<noteq> PATHS_ARE_EQUAL)\<rparr>"

lemma with_need_substitution_simps [simp]:
  "bid (with_need_substitution b) = bid b" "host (with_need_substitution b) = host b"
  "guest (with_need_substitution b) = guest b"
  by (simp_all add: with_need_substitution_def)

lemma wf_with_need_substitution:
  "canonical (host b) \<Longrightarrow> canonical (guest b) \<Longrightarrow> wf_binding (with_need_substitution b)"
  by (simp add: wf_binding_def with_need_substitution_def compare_paths_equal_iff)

lemma bids_filter:
  "distinct (map bid gs) \<Longrightarrow> it \<in> set gs \<Longrightarrow> {x \<in> set gs. bid x \<noteq> bid it} = set gs - {it}"
  by (auto simp: distinct_map dest: inj_onD)

text \<open>C1: Inserting a binding with canonical paths at a fresh address keeps the two tables well
  formed: both lists hold the same bindings at distinct addresses, each is ordered so that a
  container never stands before what it contains, no two guest paths are equal (the new binding
  replaces an old one with its guest path), and the binding of \<open>/\<close> stays last in the guest list,
  which is what \<open>get_root\<close> relies on.\<close>

theorem insort_binding2_wf:
  assumes "wf_fs fs" "canonical (host b)" "canonical (guest b)"
    and "\<forall>x \<in> set (head_list fs GUEST). bid x \<noteq> bid b"
  shows "wf_fs (insort_binding2 fs b) \<and>
    with_need_substitution b \<in> set (head_list (insort_binding2 fs b) GUEST)"
proof -
  obtain gs hs where fs: "guest_list fs = Some gs" "host_list fs = Some hs" and wf: "wf_lists gs hs"
    using assms(1) by (rule wf_fsE)
  let ?b = "with_need_substitution b"
  let ?gs = "insort_list (side_compare GUEST) GUEST ?b gs"
  let ?r = "insort_removed (side_compare GUEST) GUEST ?b gs"
  let ?hs1 = "case ?r of None \<Rightarrow> hs | Some it \<Rightarrow> filter (\<lambda>x. bid x \<noteq> bid it) hs"
  let ?hs = "insort_list (side_compare HOST) HOST ?b ?hs1"
  have b: "wf_binding ?b" using assms(2,3) by (rule wf_with_need_substitution)
  have fresh: "bid ?b \<notin> bid ` set gs"
    using assms(4) fs(1) by (auto simp: head_list_def list_of_def)
  have step: "guest_list (insort_binding2 fs b) = Some ?gs" "host_list (insort_binding2 fs b) = Some ?hs"
    using insort_binding_guest [OF fs(1)] insort_binding_guest_host [OF fs] insort_binding_host
    by (simp_all add: insort_binding2_def Let_def flip: with_need_substitution_def)
  note g = insort_guest_wf [OF wf b fresh]
  have sub: "set ?hs1 \<subseteq> set hs" by (auto split: option.splits)
  have hs: "set hs = set gs" "distinct (map bid hs)" "nested host_pos hs" "\<forall>x \<in> set gs. wf_binding x"
    using wf by (auto simp: wf_lists_def)
  have h: "distinct (map bid ?hs) \<and> nested host_pos ?hs \<and> set ?hs = insert ?b (set ?hs1)"
  proof (rule insort_host_wf)
    show "\<forall>x \<in> set ?hs1. canonical (host x)" using sub hs by (auto simp: wf_binding_def)
    show "distinct (map bid ?hs1)" "nested host_pos ?hs1"
      using hs by (auto simp: distinct_map_filter nested_filter split: option.splits)
    show "canonical (host ?b)" using assms(2) by simp
    show "bid ?b \<notin> bid ` set ?hs1" using fresh sub hs(1) by auto
  qed
  have "set ?hs1 = (case ?r of None \<Rightarrow> set gs | Some it \<Rightarrow> set gs - {it})"
  proof (cases ?r)
    case None
    then show ?thesis using hs(1) by simp
  next
    case (Some it)
    then have "it \<in> set gs" using g by simp
    with Some show ?thesis
      using hs(1) bids_filter [of gs it] wf by (simp add: wf_lists_def)
  qed
  then have "set ?hs = set ?gs" using g h by (auto split: option.splits)
  moreover have "\<forall>x \<in> set ?gs. wf_binding x"
    using g b hs(4) by (auto split: option.splits)
  ultimately have "wf_lists ?gs ?hs" using g h by (simp add: wf_lists_def)
  moreover have "?b \<in> set ?gs" using g by (auto split: option.splits)
  ultimately show ?thesis
    using step by (simp add: wf_fs_def head_list_def list_of_def)
qed

section \<open>Look-up and substitution\<close>

lemma guest_compare:
  "canonical (guest b) \<Longrightarrow> denotes p ps \<Longrightarrow> names ps \<Longrightarrow>
    compare_paths2 (guest b) (length (guest b)) p (length p) = prefix_comparison (guest_pos b) ps"
  by (metis canonical_def compare_paths_def compare_paths_prefix denotes_render)

lemma host_compare:
  "canonical (host b) \<Longrightarrow> denotes p ps \<Longrightarrow> names ps \<Longrightarrow>
    compare_paths2 (host b) (length (host b)) p (length p) = prefix_comparison (host_pos b) ps"
  by (metis canonical_def compare_paths_def compare_paths_prefix denotes_render)

lemma contains_iff:
  "(prefix_comparison as bs \<noteq> PATHS_ARE_EQUAL \<and> prefix_comparison as bs \<noteq> PATH1_IS_PREFIX)
    \<longleftrightarrow> \<not> prefix as bs"
  by (auto simp: prefix_comparison_iff strict_prefix_def)

lemma find_binding_guest:
  "\<forall>b \<in> set gs. canonical (guest b) \<Longrightarrow> denotes p ps \<Longrightarrow> names ps \<Longrightarrow>
    find_binding fs GUEST p gs = find (\<lambda>b. prefix (guest_pos b) ps) gs"
  by (induction gs) (auto simp: guest_compare contains_iff)

lemma find_binding_host:
  "\<forall>b \<in> set hs. canonical (host b) \<Longrightarrow> denotes p ps \<Longrightarrow> names ps \<Longrightarrow>
    find_binding fs HOST p hs =
      (if \<not> root_is_slash fs \<and> belongs_to_guestfs fs p then None
       else find (\<lambda>b. prefix (host_pos b) ps) hs)"
  by (induction hs) (auto simp: host_compare contains_iff)

lemma find_deepest:
  assumes "nested pos xs" "find (\<lambda>b. prefix (pos b) ps) xs = Some b" "b' \<in> set xs" "prefix (pos b') ps"
  shows "prefix (pos b') (pos b)"
proof -
  from assms(2) obtain i where i: "i < length xs" "prefix (pos (xs ! i)) ps" "b = xs ! i"
      "\<forall>j < i. \<not> prefix (pos (xs ! j)) ps"
    by (auto simp: find_Some_iff)
  have "xs = take i xs @ b # drop (Suc i) xs" using i by (simp add: id_take_nth_drop)
  moreover have "\<And>y. y \<in> set (take i xs) \<Longrightarrow> \<not> prefix (pos y) ps"
    using i by (auto simp: in_set_conv_nth)
  ultimately show ?thesis
    using nested_first_is_deepest [of pos "take i xs" b "drop (Suc i) xs" ps b'] assms i by metis
qed

lemma get_binding_deepest:
  assumes "wf_fs fs" "denotes p ps" "names ps"
  shows "\<exists>b. get_binding fs GUEST p = Some b \<and> b \<in> set (head_list fs GUEST) \<and>
    prefix (guest_pos b) ps \<and>
    (\<forall>b' \<in> set (head_list fs GUEST). prefix (guest_pos b') ps \<longrightarrow> prefix (guest_pos b') (guest_pos b))"
proof -
  obtain gs hs where fs: "guest_list fs = Some gs" and wf: "wf_lists gs hs"
    using assms(1) by (rule wf_fsE)
  have g: "get_binding fs GUEST p = find (\<lambda>b. prefix (guest_pos b) ps) gs"
    using wf assms by (simp add: get_binding_def head_list_def list_of_def fs find_binding_guest
        wf_lists_def wf_binding_def)
  have "last gs \<in> set gs" "guest_pos (last gs) = []"
    using wf by (auto simp: wf_lists_def names_of_def)
  then have "find (\<lambda>b. prefix (guest_pos b) ps) gs \<noteq> None"
    by (auto simp: find_None_iff)
  then obtain b where b: "find (\<lambda>b. prefix (guest_pos b) ps) gs = Some b" by auto
  then have "b \<in> set gs" "prefix (guest_pos b) ps"
    by (auto simp: find_Some_iff)
  moreover have "\<forall>b' \<in> set gs. prefix (guest_pos b') ps \<longrightarrow> prefix (guest_pos b') (guest_pos b)"
    using find_deepest [OF _ b] wf by (auto simp: wf_lists_def)
  ultimately show ?thesis using g b by (auto simp: head_list_def list_of_def fs)
qed

text \<open>C2: A look-up on the guest side always finds a binding of a well-formed table, and the one
  it finds is the deepest binding that contains the path.\<close>

theorem get_binding_guest_deepest:
  assumes "wf_fs fs" "denotes p ps" "names ps"
  shows "\<exists>b. get_binding fs GUEST p = Some b \<and> b \<in> set (head_list fs GUEST) \<and>
    prefix (guest_pos b) ps \<and>
    (\<forall>b' \<in> set (head_list fs GUEST). prefix (guest_pos b') ps \<longrightarrow> prefix (guest_pos b') (guest_pos b))"
  using assms by (rule get_binding_deepest)

text \<open>The list operation that a substitution stands for: the names \<open>old\<close> at the front become \<open>new\<close>.\<close>

definition relocate :: "string list \<Rightarrow> string list \<Rightarrow> string list \<Rightarrow> string list" where
  "relocate old new ps = new @ drop (length old) ps"

lemma relocate_append [simp]: "relocate old new (old @ rs) = new @ rs"
  by (simp add: relocate_def)

lemma get_binding_in:
  assumes "wf_fs fs" "names ps" "denotes p ps" "get_binding fs GUEST p = Some b"
  shows "wf_binding b" "prefix (guest_pos b) ps" "b \<in> set (head_list fs GUEST)"
proof -
  obtain gs hs where fs: "guest_list fs = Some gs" and wf: "wf_lists gs hs"
    using assms(1) by (rule wf_fsE)
  obtain b' where "get_binding fs GUEST p = Some b'" "b' \<in> set (head_list fs GUEST)"
      "prefix (guest_pos b') ps"
    using get_binding_deepest [OF assms(1,3,2)] by blast
  then show "wf_binding b" "prefix (guest_pos b) ps" "b \<in> set (head_list fs GUEST)"
    using assms(4) wf by (auto simp: head_list_def list_of_def fs wf_lists_def)
qed

lemma substitute_guest_render:
  assumes "wf_fs fs" "names ps" "get_binding fs GUEST (render ps) = Some b"
    and "length (render (relocate (guest_pos b) (host_pos b) ps)) + 1 < PATH_MAX"
  shows "substitute_binding fs GUEST (render ps) =
    Inr (if need_substitution b then 1 else 0, render (relocate (guest_pos b) (host_pos b) ps))"
proof -
  note b = get_binding_in [OF assms(1,2) denotes_render assms(3)]
  obtain rs where ps: "ps = guest_pos b @ rs" using b(2) by (auto elim: prefixE)
  have c: "host b = render (host_pos b)" "guest b = render (guest_pos b)" "names (host_pos b)"
      "need_substitution b \<longleftrightarrow> host b \<noteq> guest b"
    using b(1) by (auto simp: wf_binding_def canonical_def)
  show ?thesis
  proof (cases "need_substitution b")
    case True
    then have "guest_pos b \<noteq> [] \<or> host_pos b \<noteq> []" using c by metis
    then have "substitute_path_prefix (render ps) (length (guest b)) (host b) (length (host b)) =
        Inr (render (host_pos b @ rs))"
      using substitute_path_prefix_render [of "guest_pos b" rs "host_pos b"] assms(2,4) c ps by simp
    with True show ?thesis using assms(3) ps
      by (simp add: substitute_binding_def relocate_def)
  next
    case False
    then have "guest_pos b = host_pos b" using c(4) by simp
    with False ps assms(3) show ?thesis by (simp add: substitute_binding_def relocate_def)
  qed
qed

text \<open>C3: On a well-formed table, translating a canonical guest path to the host replaces the guest
  path of the deepest containing binding by its host path and keeps the rest of the path; the
  status is 1 exactly when the binding is asymmetric. The result has to fit the buffer.\<close>

theorem substitute_guest_refines:
  assumes "wf_fs fs" "names ps" "get_binding fs GUEST (render ps) = Some b"
    and "length (render (relocate (guest_pos b) (host_pos b) ps)) + 1 < PATH_MAX"
  shows "substitute_binding fs GUEST (render ps) =
    Inr (if need_substitution b then 1 else 0, render (relocate (guest_pos b) (host_pos b) ps))"
  using assms by (rule substitute_guest_render)

text \<open>C4: A translation that does not fit the buffer is not reported: the call returns the success
  status 1 and leaves the guest path where the host path is expected.\<close>

theorem substitute_guest_overflow_unreported:
  assumes "wf_fs fs" "names ps" "get_binding fs GUEST (render ps) = Some b"
    and "host_pos b \<noteq> []" "need_substitution b" "guest_pos b \<noteq> ps"
    and "length (render (relocate (guest_pos b) (host_pos b) ps)) \<ge> PATH_MAX"
  shows "substitute_binding fs GUEST (render ps) = Inr (1, render ps)"
proof -
  note b = get_binding_in [OF assms(1,2) denotes_render assms(3)]
  obtain rs where ps: "ps = guest_pos b @ rs" "rs \<noteq> []" using b(2) assms(6) by (auto elim: prefixE)
  have c: "host b = render (host_pos b)" "guest b = render (guest_pos b)" "names (host_pos b)"
    using b(1) by (auto simp: wf_binding_def canonical_def)
  have "substitute_path_prefix (render ps) (length (guest b)) (host b) (length (host b)) =
      Inl ENAMETOOLONG"
    using substitute_path_prefix_overflow [of "guest_pos b" rs "host_pos b"] assms c ps by simp
  then show ?thesis using assms(3,5) by (simp add: substitute_binding_def)
qed

section \<open>A concrete table\<close>

text \<open>
  The rootfs \<open>/data/rootfs\<close> on \<open>/\<close>, the asymmetric binding \<open>/sdcard:/mnt\<close> and the symmetric
  binding \<open>/proc\<close>, installed in this order into empty lists.
\<close>

definition empty_fs :: fs_ns where
  "empty_fs = \<lparr>pending = None, guest_list = Some [], host_list = Some [], cwd = ''/''\<rparr>"

definition example_fs :: fs_ns where
  "example_fs =
     insort_binding3 (insort_binding3 (insort_binding3 empty_fs 0 ''/data/rootfs'' ''/'')
       1 ''/sdcard'' ''/mnt'') 2 ''/proc'' ''/proc''"

lemma example_fs_lists:
  "guest_list example_fs = Some [
     \<lparr>bid = 2, host = ''/proc'', guest = ''/proc'', need_substitution = False, must_exist = False\<rparr>,
     \<lparr>bid = 1, host = ''/sdcard'', guest = ''/mnt'', need_substitution = True, must_exist = False\<rparr>,
     \<lparr>bid = 0, host = ''/data/rootfs'', guest = ''/'', need_substitution = True, must_exist = False\<rparr>]"
  "host_list example_fs = Some [
     \<lparr>bid = 2, host = ''/proc'', guest = ''/proc'', need_substitution = False, must_exist = False\<rparr>,
     \<lparr>bid = 1, host = ''/sdcard'', guest = ''/mnt'', need_substitution = True, must_exist = False\<rparr>,
     \<lparr>bid = 0, host = ''/data/rootfs'', guest = ''/'', need_substitution = True, must_exist = False\<rparr>]"
  by code_simp+

lemma example_wf: "wf_fs example_fs"
  by code_simp

lemma example_insort_witness:
  "wf_fs (insort_binding2 example_fs
    \<lparr>bid = 7, host = ''/vendor'', guest = ''/mnt/vendor'', need_substitution = False, must_exist = False\<rparr>)"
proof -
  let ?b = "\<lparr>bid = 7, host = ''/vendor'', guest = ''/mnt/vendor'', need_substitution = False,
    must_exist = False\<rparr> :: binding"
  have "canonical (host ?b)" "canonical (guest ?b)"
    and "\<forall>x \<in> set (head_list example_fs GUEST). bid x \<noteq> bid ?b"
    by code_simp+
  with example_wf insort_binding2_wf [of example_fs ?b] show ?thesis by blast
qed

lemma example_lookup_witness:
  "\<exists>b. get_binding example_fs GUEST ''/mnt/a'' = Some b \<and> prefix (guest_pos b) [''mnt'', ''a'']"
proof -
  have "denotes ''/mnt/a'' [''mnt'', ''a'']" "names [''mnt'', ''a'']"
    by code_simp+
  then show ?thesis using get_binding_guest_deepest [OF example_wf] by blast
qed

lemma example_substitute_witness:
  "substitute_binding example_fs GUEST (render [''mnt'', ''a'']) = Inr (1, ''/sdcard/a'')"
proof -
  let ?b = "\<lparr>bid = 1, host = ''/sdcard'', guest = ''/mnt'', need_substitution = True,
    must_exist = False\<rparr> :: binding"
  have n: "names [''mnt'', ''a'']" by code_simp
  have g: "get_binding example_fs GUEST (render [''mnt'', ''a'']) = Some ?b" by code_simp
  have r: "render (relocate (guest_pos ?b) (host_pos ?b) [''mnt'', ''a'']) = ''/sdcard/a''"
    by code_simp
  show ?thesis
    using substitute_guest_refines [OF example_wf n g] unfolding r
    by (simp add: PATH_MAX_def)
qed

text \<open>A name of 4090 bytes: the guest path fits the buffer, its host path does not.\<close>

lemma long_name: "length s = 4090 \<Longrightarrow> s \<noteq> ''mnt'' \<and> s \<noteq> ''proc''"
  by auto

lemma example_overflow_witness:
  "substitute_binding example_fs GUEST (render [replicate 4090 CHR ''a'']) =
    Inr (1, render [replicate 4090 CHR ''a''])"
proof -
  let ?p = "[replicate 4090 CHR ''a'']"
  let ?b = "\<lparr>bid = 0, host = ''/data/rootfs'', guest = ''/'', need_substitution = True,
    must_exist = False\<rparr> :: binding"
  have n: "names ?p" by (simp add: name_def)
  have pos: "map guest_pos (head_list example_fs GUEST) = [[''proc''], [''mnt''], []]"
    "host_pos ?b = [''data'', ''rootfs'']" "guest_pos ?b = []"
    by code_simp+
  have d: "\<exists>b. get_binding example_fs GUEST (render ?p) = Some b \<and> b \<in> set (head_list example_fs GUEST)
      \<and> prefix (guest_pos b) ?p"
    using get_binding_deepest [OF example_wf denotes_render n] by blast
  have long: "replicate 4090 CHR ''a'' \<noteq> ''mnt''" "replicate 4090 CHR ''a'' \<noteq> ''proc''"
    using long_name [of "replicate 4090 CHR ''a''"] by simp_all
  have g: "get_binding example_fs GUEST (render ?p) = Some ?b"
    using d pos long by (auto simp: head_list_def list_of_def example_fs_lists)
  have "length (render (relocate (guest_pos ?b) (host_pos ?b) ?p)) \<ge> PATH_MAX"
    using pos by (simp add: relocate_def render_def PATH_MAX_def)
  then show ?thesis
    using substitute_guest_overflow_unreported [OF example_wf n g] pos by simp
qed

end
