(* ===== verification/Canon.thy ===== *)
theory Canon
  imports Bindings
begin

text \<open>
  Canonicalisation and translation of paths: \<open>path/proc.c\<close>, \<open>path/canon.c\<close>, \<open>path/glue.c\<close>,
  \<open>should_skip_file_access_due_to_f2fs_bug\<close> and the (de)translation functions of
  \<open>path/path.c\<close>. The kernel and the extensions are arguments of the model: a record of functions
  over a world of any type. What a call may change (the binding tables, the glue directory, the
  world) is the state that the definitions thread.
\<close>

section \<open>The C library\<close>

definition is_digit :: "char \<Rightarrow> bool" where
  "is_digit c \<longleftrightarrow> 48 \<le> (of_char c :: nat) \<and> (of_char c :: nat) \<le> 57"

definition is_space :: "char \<Rightarrow> bool" where
  "is_space c \<longleftrightarrow> (of_char c :: nat) = 32 \<or> (9 \<le> (of_char c :: nat) \<and> (of_char c :: nat) \<le> 13)"

text \<open>The digits that \<open>strtol\<close> (base 10) consumes, and the sign in front of them.\<close>

definition strtol_body :: "string \<Rightarrow> string" where
  "strtol_body s =
     (let t = dropWhile is_space s in
      if c_at t 0 = CHR ''-'' \<or> c_at t 0 = CHR ''+'' then drop 1 t else t)"

definition strtol_digits :: "string \<Rightarrow> string" where
  "strtol_digits s = takeWhile is_digit (strtol_body s)"

definition strtol_value :: "string \<Rightarrow> int" where
  "strtol_value s =
     (let n = foldl (\<lambda>a c. 10 * a + (int (of_char c) - 48)) 0 (strtol_digits s) in
      if c_at (dropWhile is_space s) 0 = CHR ''-'' then - n else n)"

text \<open>\<open>end_ptr != component && errno == 0\<close> after \<open>strtol\<close>.\<close>

definition strtol_ok :: "string \<Rightarrow> bool" where
  "strtol_ok s \<longleftrightarrow> strtol_digits s \<noteq> [] \<and> - (2 ^ 63) \<le> strtol_value s \<and> strtol_value s < 2 ^ 63"

text \<open>\<open>atoi\<close> is \<open>strtol\<close>, which keeps to the range of \<open>long\<close>, cut to an \<open>int\<close>.\<close>

definition atoi :: "string \<Rightarrow> int" where
  "atoi s = signed_take_bit 31 (max (- (2 ^ 63)) (min (2 ^ 63 - 1) (strtol_value s)))"

fun dec_nat :: "nat \<Rightarrow> string" where
  "dec_nat n = (if n < 10 then [char_of (48 + n)] else dec_nat (n div 10) @ [char_of (48 + n mod 10)])"

declare dec_nat.simps [simp del]

definition dec :: "int \<Rightarrow> string" where
  "dec i = (if i < 0 then CHR ''-'' # dec_nat (nat (- i)) else dec_nat (nat i))"

text \<open>\<open>dirname\<close> and \<open>basename\<close> of a path without a final separator.\<close>

definition basename :: "string \<Rightarrow> string" where
  "basename s = rev (takeWhile (\<lambda>c. c \<noteq> CHR ''/'') (rev s))"

definition dirname :: "string \<Rightarrow> string" where
  "dirname s =
     (let d = rev (dropWhile (\<lambda>c. c \<noteq> CHR ''/'') (rev s)) in
      if length d > 1 then butlast d else if d = [] then ''.'' else d)"

section \<open>The kernel, the extensions and the state\<close>

text \<open>The file types of \<open>st_mode\<close>; \<open>k_stat\<close> also gives the bit \<open>S_IXUSR\<close>.\<close>

datatype ftype = S_IFREG | S_IFDIR | S_IFLNK | S_IFBLK | S_IFCHR | S_IFIFO | S_IFSOCK

record known_tracee =
  kt_exe :: string
  kt_cwd :: string
  kt_root :: string

text \<open>
  The environment of a call: the system calls and library calls it makes, the callbacks of the
  registered extensions for the three path events (a status, the possibly rewritten buffer and the
  new world), and the fields of the tracee that it only reads. A file type of \<open>None\<close> is a mode of 0.
\<close>

record 'w env =
  k_lstat :: "'w \<Rightarrow> string \<Rightarrow> ftype res"
  k_readlink :: "'w \<Rightarrow> string \<Rightarrow> string res"
  k_mkdir :: "'w \<Rightarrow> string \<Rightarrow> nat \<Rightarrow> (unit res \<times> 'w)"
  k_mknod :: "'w \<Rightarrow> string \<Rightarrow> nat \<Rightarrow> ftype \<Rightarrow> (unit res \<times> 'w)"
  k_mkdtemp :: "'w \<Rightarrow> (string option \<times> 'w)"
  k_readdir :: "'w \<Rightarrow> string \<Rightarrow> string list option"
  f2fs_bug_detected :: bool
  dont_pollute_rootfs :: bool
  ext_guest_path :: "('w \<Rightarrow> string \<Rightarrow> string \<Rightarrow> (int \<times> string \<times> 'w)) list"
  ext_host_path :: "('w \<Rightarrow> string \<Rightarrow> bool \<Rightarrow> (int \<times> string \<times> 'w)) list"
  ext_translated_path :: "('w \<Rightarrow> string \<Rightarrow> unit \<Rightarrow> (int \<times> string \<times> 'w)) list"
  tracee_pid :: int
  tracee_of :: "int \<Rightarrow> known_tracee option"
  glue_type :: "ftype option"
  k_realpath :: "'w \<Rightarrow> string \<Rightarrow> string res"
  k_getcwd :: "'w \<Rightarrow> string res"
  k_stat :: "'w \<Rightarrow> string \<Rightarrow> (ftype \<times> bool) res"

record 'w path_state =
  fs_of :: fs_ns
  glue :: "string option"
  placeholders :: "string list"
  next_bid :: nat
  world :: 'w

text \<open>\<open>notify_extensions\<close>: the callbacks in order, up to the first non-zero status.\<close>

fun notify_extensions ::
  "('w \<Rightarrow> string \<Rightarrow> 'd \<Rightarrow> (int \<times> string \<times> 'w)) list \<Rightarrow> 'w \<Rightarrow> string \<Rightarrow> 'd \<Rightarrow> (int \<times> string \<times> 'w)"
where
  "notify_extensions [] w data1 data2 = (0, data1, w)"
| "notify_extensions (callback # cs) w data1 data2 =
     (let (status, data1', w') = callback w data1 data2 in
      if status \<noteq> 0 then (status, data1', w') else notify_extensions cs w' data1' data2)"

section \<open>Links under /proc\<close>

datatype action = DEFAULT | CANONICALIZE | DONT_CANONICALIZE

definition snprintf_path :: "string \<Rightarrow> action \<Rightarrow> (action \<times> string) res" where
  "snprintf_path s a = (if length s \<ge> PATH_MAX then Inl EPERM else Inr (a, s))"

definition readlink_proc :: "'w env \<Rightarrow> string \<Rightarrow> string \<Rightarrow> comparison \<Rightarrow> (action \<times> string) res" where
  "readlink_proc e base component comparison =
     (case comparison of
        PATHS_ARE_EQUAL \<Rightarrow>
          if component \<noteq> ''self'' then Inr (DEFAULT, [])
          else snprintf_path (''/proc/'' @ dec (tracee_pid e)) CANONICALIZE
      | PATH1_IS_PREFIX \<Rightarrow>
          (let pid = atoi (drop (length ''/proc/'') base) in
           if pid = 0 then Inr (DEFAULT, [])
           else
             (let proc_path = ''/proc/'' @ dec pid in
              case compare_paths proc_path base of
                PATHS_ARE_EQUAL \<Rightarrow>
                  (case tracee_of e pid of
                     None \<Rightarrow> Inr (DEFAULT, [])
                   | Some t \<Rightarrow>
                       if component = ''exe'' then snprintf_path (kt_exe t) CANONICALIZE
                       else if component = ''cwd'' then snprintf_path (kt_cwd t) CANONICALIZE
                       else if component = ''root'' then snprintf_path (kt_root t) CANONICALIZE
                       else Inr (DEFAULT, []))
              | PATH1_IS_PREFIX \<Rightarrow>
                  (if compare_paths (proc_path @ ''/fd'') base = PATHS_ARE_EQUAL then
                     (if \<not> strtol_ok component then Inl EPERM
                      else snprintf_path (base @ ''/'' @ component) DONT_CANONICALIZE)
                   else Inr (DEFAULT, []))
              | _ \<Rightarrow> Inr (DEFAULT, [])))
      | _ \<Rightarrow> Inr (DEFAULT, []))"

text \<open>
  \<open>readlink_proc2\<close>: the emulated target; the empty string is the returned length 0.
\<close>

definition readlink_proc2 :: "'w env \<Rightarrow> string \<Rightarrow> string res" where
  "readlink_proc2 e referer =
     (if length referer \<ge> PATH_MAX then Inl ENAMETOOLONG
      else
        (let component = basename referer;
             base = take (length referer - length component - 1) referer in
         if component = [] then Inr []
         else
           (case readlink_proc e base component PATH1_IS_PREFIX of
              Inr (CANONICALIZE, result) \<Rightarrow> Inr result
            | _ \<Rightarrow> Inr [])))"

section \<open>Detranslation\<close>

definition root_path :: "fs_ns \<Rightarrow> string" where
  "root_path fs = (case get_root fs of None \<Rightarrow> [] | Some r \<Rightarrow> r)"

text \<open>
  The tail of \<open>detranslate_path\<close> after the bindings were (not) followed: remove the root.
\<close>

definition remove_root :: "fs_ns \<Rightarrow> string \<Rightarrow> bool \<Rightarrow> (int \<times> string) res" where
  "remove_root fs path sanity_check =
     (case compare_paths (root_path fs) path of
        PATH1_IS_PREFIX \<Rightarrow>
          (let prefix_length = length (root_path fs);
               prefix_length = (if prefix_length = 1 then 0 else prefix_length);
               path' = drop prefix_length path in
           Inr (int (length path') + 1, path'))
      | PATHS_ARE_EQUAL \<Rightarrow> Inr (2, ''/'')
      | _ \<Rightarrow> if sanity_check then Inl EPERM else Inr (0, path))"

definition follow_then_remove :: "fs_ns \<Rightarrow> string \<Rightarrow> bool \<Rightarrow> bool \<Rightarrow> (int \<times> string) res" where
  "follow_then_remove fs path sanity_check follow_binding =
     (if follow_binding then
        (case substitute_binding fs HOST path of
           Inr (n, path') \<Rightarrow>
             if n = 0 then Inr (0, path')
             else if n = 1 then Inr (int (length path') + 1, path')
             else remove_root fs path' sanity_check
         | Inl _ \<Rightarrow> remove_root fs path sanity_check)
      else remove_root fs path sanity_check)"

definition detranslate_path :: "'w env \<Rightarrow> fs_ns \<Rightarrow> string \<Rightarrow> string option \<Rightarrow> (int \<times> string) res" where
  "detranslate_path e fs path t_referrer =
     (if length path \<ge> PATH_MAX then Inl ENAMETOOLONG
      else if c_at path 0 \<noteq> CHR ''/'' then Inr (0, path)
      else
        (case t_referrer of
           None \<Rightarrow> follow_then_remove fs path True True
         | Some referrer \<Rightarrow>
             if compare_paths ''/proc'' referrer = PATH1_IS_PREFIX then
               (case readlink_proc2 e referrer of
                  Inl err \<Rightarrow> Inl err
                | Inr proc_path \<Rightarrow>
                    if proc_path \<noteq> [] then Inr (int (length proc_path) + 1, proc_path)
                    else follow_then_remove fs path False True)
             else if \<not> belongs_to_guestfs fs referrer then
               (case (get_path_binding fs HOST path, get_path_binding fs HOST referrer) of
                  (Some referree, Some binding_referrer) \<Rightarrow>
                    follow_then_remove fs path False
                      (compare_paths referree binding_referrer = PATHS_ARE_EQUAL)
                | _ \<Rightarrow> follow_then_remove fs path False False)
             else follow_then_remove fs path False False))"

section \<open>The glue between the guest and the host\<close>

text \<open>
  \<open>should_skip_file_access_due_to_f2fs_bug\<close>; the result of the probe, a static variable of the
  process, is a field of the environment.
\<close>

definition should_skip_file_access :: "'w env \<Rightarrow> 'w \<Rightarrow> string \<Rightarrow> bool" where
  "should_skip_file_access e w path =
     (if \<not> f2fs_bug_detected e then False
      else
        (case k_readdir e w (dirname path) of
           None \<Rightarrow> False
         | Some entries \<Rightarrow> basename path \<notin> set entries))"

text \<open>
  \<open>build_glue\<close>: the type of the component, \<open>None\<close> for the error result 0. \<open>T\<close> is the type that the
  code keeps in \<open>tracee->glue_type\<close>, which is not 0 here.
\<close>

definition build_glue_at ::
  "'w env \<Rightarrow> ftype \<Rightarrow> string \<Rightarrow> string \<Rightarrow> finality \<Rightarrow> string \<Rightarrow> 'w path_state \<Rightarrow>
   (ftype option \<times> 'w path_state)" where
  "build_glue_at e T guest_path host_path fin g s =
     (let comparison = compare_paths g host_path;
          belongs_to_gluefs = (comparison = PATHS_ARE_EQUAL \<or> comparison = PATH1_IS_PREFIX);
          type = (if IS_FINAL fin then T else S_IFDIR);
          mode = (if IS_FINAL fin then (if belongs_to_gluefs then 511 else 0) else 511);
          create_binding =
            (\<lambda>s. if length g \<ge> PATH_MAX \<or> length guest_path \<ge> PATH_MAX then (None, s)
                 else (Some type, s\<lparr>fs_of := insort_binding3 (fs_of s) (next_bid s) g guest_path,
                                     next_bid := Suc (next_bid s)\<rparr>)) in
      if dont_pollute_rootfs e \<and> \<not> belongs_to_gluefs then create_binding s
      else
        (let (status, w) = (if type = S_IFDIR then k_mkdir e (world s) host_path mode
                            else k_mknod e (world s) host_path mode type);
             s = s\<lparr>world := w\<rparr>;
             s = (if status = Inr () \<and> \<not> belongs_to_gluefs
                  then s\<lparr>placeholders := host_path # placeholders s\<rparr> else s) in
         if status = Inr () \<or> status = Inl EEXIST \<or> IS_FINAL fin then (Some type, s)
         else if belongs_to_gluefs then (None, s)
         else create_binding s))"

definition build_glue ::
  "'w env \<Rightarrow> ftype \<Rightarrow> string \<Rightarrow> string \<Rightarrow> finality \<Rightarrow> 'w path_state \<Rightarrow>
   (ftype option \<times> 'w path_state)" where
  "build_glue e T guest_path host_path fin s =
     (case glue s of
        Some g \<Rightarrow> build_glue_at e T guest_path host_path fin g s
      | None \<Rightarrow>
          (let (tmp, w) = k_mkdtemp e (world s); s = s\<lparr>world := w\<rparr> in
           case tmp of
             None \<Rightarrow> (None, s)
           | Some g \<Rightarrow> build_glue_at e T guest_path host_path fin g (s\<lparr>glue := Some g\<rparr>)))"

text \<open>
  \<open>substitute_binding_stat\<close>: status 0 (not a link) or 1 (a link) with the host path. The negative
  status of an extension is its own error code; the model keeps it as the error it encodes.
\<close>

definition errno_of :: "int \<Rightarrow> errno" where
  "errno_of n =
     (case filter (\<lambda>e. errno_val e = - n)
        [EPERM, ENOENT, EINTR, E2BIG, EAGAIN, ENOMEM, EACCES, EFAULT, EEXIST, ENOTDIR, EINVAL, EFBIG,
         ENOSPC, ERANGE, ENAMETOOLONG, ELOOP, ENOMSG, EIDRM, EBADF, ESRCH, ECHILD, EIO, ENOEXEC]
      of [] \<Rightarrow> ENOSYS | e # _ \<Rightarrow> e)"

definition stat_host_path :: "'w env \<Rightarrow> 'w \<Rightarrow> string \<Rightarrow> ftype res" where
  "stat_host_path e w host_path =
     (if should_skip_file_access e w host_path then Inl ENOENT
      else
        (case k_lstat e w host_path of
           Inr t \<Rightarrow> Inr t
         | Inl err \<Rightarrow>
             if err = EACCES \<and> host_path = ''/linkerconfig'' then Inr S_IFDIR else Inl err))"

definition substitute_binding_stat ::
  "'w env \<Rightarrow> finality \<Rightarrow> nat \<Rightarrow> string \<Rightarrow> 'w path_state \<Rightarrow> ((int \<times> string) res \<times> 'w path_state)" where
  "substitute_binding_stat e fin recursion_level guest_path s =
     (case substitute_binding (fs_of s) GUEST guest_path of
        Inl err \<Rightarrow> (Inl err, s)
      | Inr (_, host_path) \<Rightarrow>
          (let (status, host_path, w) =
                 (if glue_type e = None
                  then notify_extensions (ext_host_path e) (world s) host_path
                         (IS_FINAL fin \<and> recursion_level = 0)
                  else (0, host_path, world s));
               s = s\<lparr>world := w\<rparr> in
           if status < 0 then (Inl (errno_of status), s)
           else
             (let st = stat_host_path e (world s) host_path;
                  (mode, s) =
                    (case (st, glue_type e) of
                       (Inl _, Some T) \<Rightarrow> build_glue e T guest_path host_path fin s
                     | (Inl _, None) \<Rightarrow> (None, s)
                     | (Inr t, _) \<Rightarrow> (Some t, s)) in
              if \<not> IS_FINAL fin \<and> mode \<noteq> Some S_IFDIR \<and> mode \<noteq> Some S_IFLNK
              then (Inl (case st of Inl _ \<Rightarrow> ENOENT | Inr _ \<Rightarrow> ENOTDIR), s)
              else (Inr (if mode = Some S_IFLNK then 1 else 0, host_path), s))))"

section \<open>Canonicalisation\<close>

text \<open>\<open>MAXSYMLINKS\<close> of the Android C library.\<close>

definition MAXSYMLINKS :: nat where
  "MAXSYMLINKS = 8"

text \<open>
  What one iteration of the loop of \<open>canonicalize\<close> decides before it recurs: return at once, go on
  with a new guest path, or follow a dereferenced link.
\<close>

datatype step =
    Return "string res"
  | Advance finality string string
  | Follow finality string string

text \<open>The base and the comparison used for links under \<open>/proc\<close>, aliases by a binding included.\<close>

definition proc_alias :: "fs_ns \<Rightarrow> string \<Rightarrow> comparison \<times> string" where
  "proc_alias fs guest_path =
     (let comparison = compare_paths ''/proc'' guest_path in
      if comparison \<noteq> PATHS_ARE_EQUAL \<and> comparison \<noteq> PATH1_IS_PREFIX then
        (let alias_base = (case substitute_binding fs GUEST guest_path of
                             Inl _ \<Rightarrow> guest_path | Inr (_, p) \<Rightarrow> p) in
         if alias_base \<noteq> guest_path then (compare_paths ''/proc'' alias_base, alias_base)
         else (comparison, guest_path))
      else (comparison, guest_path))"

text \<open>
  \<open>readlink\<close> on the host and the removal of the root. The code returns the status of a failed
  \<open>readlink\<close>, which is -1, as an error number.
\<close>

definition read_host_link ::
  "'w env \<Rightarrow> finality \<Rightarrow> string \<Rightarrow> string \<Rightarrow> 'w path_state \<Rightarrow> step" where
  "read_host_link e fin host_path rest s =
     (case k_readlink e (world s) host_path of
        Inl _ \<Rightarrow> Return (Inl EPERM)
      | Inr target \<Rightarrow>
          if length target \<ge> PATH_MAX then Return (Inl ENAMETOOLONG)
          else
            (case detranslate_path e (fs_of s) target (Some host_path) of
               Inl err \<Rightarrow> Return (Inl err)
             | Inr (_, scratch_path) \<Rightarrow> Follow fin scratch_path rest))"

definition dereference ::
  "'w env \<Rightarrow> finality \<Rightarrow> string \<Rightarrow> string \<Rightarrow> string \<Rightarrow> string \<Rightarrow> 'w path_state \<Rightarrow> step" where
  "dereference e fin guest_path component host_path rest s =
     (let (comparison, proc_base) = proc_alias (fs_of s) guest_path in
      if comparison = PATHS_ARE_EQUAL \<or> comparison = PATH1_IS_PREFIX then
        (case readlink_proc e proc_base component comparison of
           Inl err \<Rightarrow> Return (Inl err)
         | Inr (CANONICALIZE, scratch_path) \<Rightarrow> Follow fin scratch_path rest
         | Inr (DONT_CANONICALIZE, scratch_path) \<Rightarrow>
             if fin = FINAL_NORMAL then Return (Inr scratch_path)
             else read_host_link e fin host_path rest s
         | Inr (DEFAULT, _) \<Rightarrow> read_host_link e fin host_path rest s)
      else read_host_link e fin host_path rest s)"

definition canon_step ::
  "'w env \<Rightarrow> bool \<Rightarrow> nat \<Rightarrow> string \<Rightarrow> string \<Rightarrow> 'w path_state \<Rightarrow> (step \<times> 'w path_state)" where
  "canon_step e deref_final recursion_level cursor guest_path s =
     (case next_component cursor of
        Inl err \<Rightarrow> (Return (Inl err), s)
      | Inr (fin, component, rest) \<Rightarrow>
          if component = ''.'' then
            (Advance (if IS_FINAL fin then FINAL_DOT else fin) guest_path rest, s)
          else if component = ''..'' then
            (Advance (if IS_FINAL fin then FINAL_SLASH else fin) (pop_component guest_path) rest, s)
          else
            (case join2 guest_path component of
               Inl err \<Rightarrow> (Return (Inl err), s)
             | Inr scratch_path \<Rightarrow>
                 (let (r, s) = substitute_binding_stat e fin recursion_level scratch_path s in
                  case r of
                    Inl err \<Rightarrow> (Return (Inl err), s)
                  | Inr (status, host_path) \<Rightarrow>
                      if status \<le> 0 \<or> (fin = FINAL_NORMAL \<and> \<not> deref_final)
                      then (Advance fin scratch_path rest, s)
                      else (dereference e fin guest_path component host_path rest s, s))))"

text \<open>The exit of the first level of recursion: restore a final separator or a final dot.\<close>

definition finish :: "nat \<Rightarrow> finality \<Rightarrow> string \<Rightarrow> string res" where
  "finish recursion_level fin guest_path =
     (if recursion_level = 0 then
        (case fin of
           FINAL_SLASH \<Rightarrow> join2 guest_path []
         | FINAL_DOT \<Rightarrow> join2 guest_path ''.''
         | _ \<Rightarrow> Inr guest_path)
      else Inr guest_path)"

lemma canon_step_shrinks:
  assumes "canon_step e d l cursor g s = (Advance NOT_FINAL g' rest, s')
      \<or> canon_step e d l cursor g s = (Follow NOT_FINAL g' rest, s')"
  shows "length rest < length cursor"
proof -
  obtain c where "next_component cursor = Inr (NOT_FINAL, c, rest)"
    using assms
    by (auto simp: canon_step_def dereference_def read_host_link_def Let_def IS_FINAL_def
        split: sum.splits prod.splits if_splits action.splits)
  then show ?thesis by (rule next_component_shrinks)
qed

lemma not_final: "\<not> IS_FINAL fin \<Longrightarrow> fin = NOT_FINAL"
  by (simp add: IS_FINAL_def)

text \<open>
  \<open>canonicalize\<close> and its loop. The loop's arguments are the two counters, the cursor and the guest
  path; a recursive call is at a level that is at least one deeper, and a level above
  \<open>MAXSYMLINKS\<close> returns at once, so that both functions are total.
\<close>

function canonicalize ::
    "'w env \<Rightarrow> string \<Rightarrow> bool \<Rightarrow> string \<Rightarrow> nat \<Rightarrow> 'w path_state \<Rightarrow> (string res \<times> 'w path_state)"
  and canon_loop ::
    "'w env \<Rightarrow> bool \<Rightarrow> nat \<Rightarrow> nat \<Rightarrow> string \<Rightarrow> string \<Rightarrow> 'w path_state \<Rightarrow> (string res \<times> 'w path_state)"
where
  "canonicalize e user_path deref_final guest_path recursion_level s =
     (if recursion_level > MAXSYMLINKS then (Inl ELOOP, s)
      else if length guest_path \<ge> PATH_MAX then (Inl ENAMETOOLONG, s)
      else if c_at user_path 0 \<noteq> CHR ''/'' then
        (if c_at guest_path 0 \<noteq> CHR ''/'' then (Inl EINVAL, s)
         else canon_loop e deref_final recursion_level 0 user_path guest_path s)
      else canon_loop e deref_final recursion_level 0 user_path ''/'' s)"
| "canon_loop e deref_final recursion_level symlinks_followed cursor guest_path s =
     (case canon_step e deref_final recursion_level cursor guest_path s of
        (Return r, s) \<Rightarrow> (r, s)
      | (Advance fin guest_path rest, s) \<Rightarrow>
          if IS_FINAL fin then (finish recursion_level fin guest_path, s)
          else canon_loop e deref_final recursion_level symlinks_followed rest guest_path s
      | (Follow fin scratch_path rest, s) \<Rightarrow>
          (case canonicalize e scratch_path True guest_path
                  (recursion_level + Suc symlinks_followed) s of
             (Inl err, s) \<Rightarrow> (Inl err, s)
           | (Inr guest_path', s) \<Rightarrow>
               if guest_path' = guest_path then (Inl ELOOP, s)
               else
                 (case substitute_binding_stat e fin recursion_level guest_path' s of
                    (Inl err, s) \<Rightarrow> (Inl err, s)
                  | (Inr _, s) \<Rightarrow>
                      if IS_FINAL fin then (finish recursion_level fin guest_path', s)
                      else canon_loop e deref_final recursion_level (Suc symlinks_followed)
                             rest guest_path' s)))"
  by pat_completeness auto

termination
proof (relation "measures
    [\<lambda>x. case x of
        Inl (_, _, _, _, l, _) \<Rightarrow> if l > MAXSYMLINKS then 0 else 2 * (Suc MAXSYMLINKS - l) + 1
      | Inr (_, _, l, _, _, _, _) \<Rightarrow> if l > MAXSYMLINKS then 1 else 2 * (Suc MAXSYMLINKS - l),
     \<lambda>x. case x of Inl _ \<Rightarrow> 0 | Inr (_, _, _, _, cursor, _, _) \<Rightarrow> length cursor]", goal_cases)
  case 1
  show ?case by simp
qed (auto dest!: not_final canon_step_shrinks[OF disjI1] canon_step_shrinks[OF disjI2]
    dest: canon_step_shrinks[OF disjI1[OF sym]] canon_step_shrinks[OF disjI2[OF sym]])

declare canonicalize.simps [simp del] canon_loop.simps [simp del]

section \<open>Translation\<close>

definition AT_FDCWD :: int where
  "AT_FDCWD = - 100"

definition getcwd2 :: "'w env \<Rightarrow> 'w path_state option \<Rightarrow> 'w \<Rightarrow> string res" where
  "getcwd2 e tracee w =
     (case tracee of
        None \<Rightarrow> k_getcwd e w
      | Some s \<Rightarrow> if length (cwd (fs_of s)) \<ge> PATH_MAX then Inl ENAMETOOLONG else Inr (cwd (fs_of s)))"

text \<open>The link name is formatted in a buffer of 32 bytes.\<close>

definition readlink_proc_pid_fd :: "'w env \<Rightarrow> 'w \<Rightarrow> int \<Rightarrow> int \<Rightarrow> string res" where
  "readlink_proc_pid_fd e w pid fd =
     (let link = ''/proc/'' @ dec pid @ ''/fd/'' @ dec fd in
      if length link \<ge> 32 then Inl EBADF
      else
        (case k_readlink e w link of
           Inl _ \<Rightarrow> Inl EBADF
         | Inr path \<Rightarrow> if length path \<ge> PATH_MAX then Inl ENAMETOOLONG else Inr path))"

text \<open>The base of a translation: the root, the descriptor or the current working directory.\<close>

definition translation_base ::
  "'w env \<Rightarrow> int \<Rightarrow> string \<Rightarrow> 'w path_state \<Rightarrow> string res" where
  "translation_base e dir_fd user_path s =
     (if c_at user_path 0 = CHR ''/'' then Inr ''/''
      else if dir_fd \<noteq> AT_FDCWD then
        (case readlink_proc_pid_fd e (world s) (tracee_pid e) dir_fd of
           Inl err \<Rightarrow> Inl err
         | Inr result \<Rightarrow>
             if c_at result 0 \<noteq> CHR ''/'' then Inl ENOTDIR
             else
               (case detranslate_path e (fs_of s) result None of
                  Inl err \<Rightarrow> Inl err
                | Inr (_, result) \<Rightarrow> Inr result))
      else getcwd2 e (Some s) (world s))"

text \<open>The label \<open>skip\<close> of \<open>translate_path\<close>.\<close>

definition translated ::
  "'w env \<Rightarrow> string \<Rightarrow> 'w path_state \<Rightarrow> (string res \<times> 'w path_state)" where
  "translated e result s =
     (let (status, result, w) = notify_extensions (ext_translated_path e) (world s) result () in
      ((if status < 0 then Inl (errno_of status) else Inr result), s\<lparr>world := w\<rparr>))"

definition translate_path ::
  "'w env \<Rightarrow> int \<Rightarrow> string \<Rightarrow> bool \<Rightarrow> 'w path_state \<Rightarrow> (string res \<times> 'w path_state)" where
  "translate_path e dir_fd user_path deref_final s =
     (case translation_base e dir_fd user_path s of
        Inl err \<Rightarrow> (Inl err, s)
      | Inr result \<Rightarrow>
          (let (status, result, w) =
                 notify_extensions (ext_guest_path e) (world s) result user_path;
               s = s\<lparr>world := w\<rparr> in
           if status < 0 then (Inl (errno_of status), s)
           else if status > 0 then translated e result s
           else
             (case join2 result user_path of
                Inl err \<Rightarrow> (Inl err, s)
              | Inr guest_path \<Rightarrow>
                  (case canonicalize e guest_path deref_final ''/'' 0 s of
                     (Inl err, s) \<Rightarrow> (Inl err, s)
                   | (Inr result, s) \<Rightarrow>
                       (case substitute_binding (fs_of s) GUEST result of
                          Inl err \<Rightarrow> (Inl err, s)
                        | Inr (_, result) \<Rightarrow> translated e result s)))))"

definition realpath2 ::
  "'w env \<Rightarrow> 'w path_state option \<Rightarrow> 'w \<Rightarrow> string \<Rightarrow> bool \<Rightarrow> (string res \<times> 'w path_state option)" where
  "realpath2 e tracee w path deref_final =
     (case tracee of
        None \<Rightarrow> (k_realpath e w path, None)
      | Some s \<Rightarrow>
          (let (r, s) = translate_path e AT_FDCWD path deref_final s in (r, Some s)))"

text \<open>
  \<open>which\<close>. The result is the error -1 (\<open>EPERM\<close>) or \<open>EACCES\<close>, or the status 0 with the value that
  the last call of \<open>realpath2\<close> left, whose own status is ignored. The directories of a search path; \<open>strcspn\<close> cuts at the colons, and an empty element is
  the current directory.
\<close>

fun split_colon :: "string \<Rightarrow> string list" where
  "split_colon [] = [[]]"
| "split_colon (c # s) =
     (if c = CHR '':'' then [] # split_colon s
      else (case split_colon s of [] \<Rightarrow> [[c]] | x # xs \<Rightarrow> (c # x) # xs))"

definition world_of :: "'w \<Rightarrow> 'w path_state option \<Rightarrow> 'w" where
  "world_of w tracee = (case tracee of None \<Rightarrow> w | Some s \<Rightarrow> world s)"

fun which_loop ::
  "'w env \<Rightarrow> string list \<Rightarrow> string \<Rightarrow> 'w \<Rightarrow> 'w path_state option \<Rightarrow>
   (string res res \<times> 'w path_state option)" where
  "which_loop e [] command w tracee = (Inl EPERM, tracee)"
| "which_loop e (dir # dirs) command w tracee =
     (if length dir \<ge> PATH_MAX \<or> length dir + length command + 2 \<ge> PATH_MAX
      then which_loop e dirs command w tracee
      else
        (let path = (if dir = [] then ''.'' else dir) @ ''/'' @ command;
             (r, tracee) = realpath2 e tracee w path True in
         case r of
           Inl _ \<Rightarrow> which_loop e dirs command w tracee
         | Inr host_path \<Rightarrow>
             if k_stat e (world_of w tracee) host_path = Inr (S_IFREG, True)
             then (let (r, tracee) = realpath2 e tracee w path False in (Inr r, tracee))
             else which_loop e dirs command w tracee))"

definition which ::
  "'w env \<Rightarrow> string option \<Rightarrow> string option \<Rightarrow> string \<Rightarrow> 'w \<Rightarrow> 'w path_state option \<Rightarrow>
   (string res res \<times> 'w path_state option)" where
  "which e path_env paths command w tracee =
     (let is_explicit = (CHR ''/'' \<in> set command);
          (r, tracee) = realpath2 e tracee w command True;
          st = (case r of Inl err \<Rightarrow> Inl err | Inr p \<Rightarrow> k_stat e (world_of w tracee) p) in
      case st of
        Inr (type, executable) \<Rightarrow>
          if is_explicit \<and> (type \<noteq> S_IFREG \<or> \<not> executable) then (Inl EACCES, tracee)
          else
            (let (r, tracee) = realpath2 e tracee w command False in
             if is_explicit then (Inr r, tracee)
             else
               (case (case paths of None \<Rightarrow> path_env | Some p \<Rightarrow> Some p) of
                  None \<Rightarrow> (Inl EPERM, tracee)
                | Some p \<Rightarrow> if p = [] then (Inl EPERM, tracee)
                            else which_loop e (split_colon p) command w tracee))
      | Inl _ \<Rightarrow>
          if is_explicit then (Inl EPERM, tracee)
          else
            (case (case paths of None \<Rightarrow> path_env | Some p \<Rightarrow> Some p) of
               None \<Rightarrow> (Inl EPERM, tracee)
             | Some p \<Rightarrow> if p = [] then (Inl EPERM, tracee)
                         else which_loop e (split_colon p) command w tracee))"

section \<open>Installation of the bindings\<close>

text \<open>
  \<open>new_binding\<close>: the host side comes from \<open>realpath\<close> of the tracee that is reconfigured, if any;
  \<open>None\<close> is the NULL result.
\<close>

definition new_binding ::
  "'w env \<Rightarrow> 'w path_state option \<Rightarrow> string \<Rightarrow> string option \<Rightarrow> bool \<Rightarrow> 'w path_state \<Rightarrow>
   (binding option \<times> 'w path_state)" where
  "new_binding e reconf host_arg guest_arg must_exist_arg s =
     (let fs = fs_of s;
          s = s\<lparr>fs_of := (case pending fs of None \<Rightarrow> fs\<lparr>pending := Some []\<rparr> | Some _ \<Rightarrow> fs)\<rparr>;
          g = (case guest_arg of None \<Rightarrow> host_arg | Some g \<Rightarrow> g) in
      case fst (realpath2 e reconf (world s) host_arg True) of
        Inl _ \<Rightarrow> (None, s)
      | Inr h \<Rightarrow>
          (case (if c_at g 0 \<noteq> CHR ''/'' then getcwd2 e reconf (world s) else Inr ''/'') of
             Inl _ \<Rightarrow> (None, s)
           | Inr base \<Rightarrow>
               (case join2 base g of
                  Inl _ \<Rightarrow> (None, s)
                | Inr guest_path \<Rightarrow>
                    (let b = \<lparr>bid = next_bid s, host = h, guest = guest_path,
                              need_substitution = False, must_exist = False\<rparr> in
                     (Some b, s\<lparr>fs_of := insort_binding (fs_of s) PENDING b,
                                next_bid := Suc (next_bid s)\<rparr>)))))"

text \<open>
  \<open>initialize_binding\<close>: also the value that it leaves in \<open>tracee->glue_type\<close>, which stays set when
  the canonicalisation fails.
\<close>

definition initialize_binding ::
  "'w env \<Rightarrow> binding \<Rightarrow> 'w path_state \<Rightarrow> (ftype option \<times> binding option \<times> 'w path_state)" where
  "initialize_binding e b s =
     (if compare_paths (guest b) ''/'' = PATHS_ARE_EQUAL
      then (glue_type e, Some b, s\<lparr>fs_of := insort_binding2 (fs_of s) b\<rparr>)
      else
        (let deref = (c_at (guest b) (length (guest b) - 1) \<noteq> CHR ''!'');
             path = (if deref then guest b else butlast (guest b));
             type = (case k_lstat e (world s) (host b) of
                       Inl _ \<Rightarrow> S_IFREG
                     | Inr t \<Rightarrow> if t = S_IFBLK \<or> t = S_IFCHR then S_IFREG else t) in
         case canonicalize (e\<lparr>glue_type := Some type\<rparr>) path deref ''/'' 0 s of
           (Inl _, s) \<Rightarrow> (Some type, None, s)
         | (Inr g, s) \<Rightarrow>
             (let b = b\<lparr>guest := chop_finality g\<rparr> in
              (None, Some b, s\<lparr>fs_of := insort_binding2 (fs_of s) b\<rparr>))))"

text \<open>
  \<open>add_induced_bindings\<close>, for a tracee that is reconfigured; \<open>olds\<close> are the bindings of its guest
  list. Nothing in the sources sets \<open>reconf.tracee\<close>, so that the first branch is the one taken.
\<close>

fun induce :: "binding list \<Rightarrow> string \<Rightarrow> binding \<Rightarrow> 'w path_state \<Rightarrow> 'w path_state" where
  "induce [] path b s = s"
| "induce (old # olds) path b s =
     (if compare_paths path (guest old) \<noteq> PATH1_IS_PREFIX then induce olds path b s
      else
        (let prefix_length = (if length path = 1 then 0 else length path) in
         case join2 (guest b) (drop prefix_length (guest old)) of
           Inl _ \<Rightarrow> induce olds path b s
         | Inr path2 \<Rightarrow>
             induce olds path b
               (s\<lparr>fs_of := insort_binding3 (fs_of s) (next_bid s) (host old) path2,
                  next_bid := Suc (next_bid s)\<rparr>)))"

definition add_induced_bindings ::
  "'w env \<Rightarrow> fs_ns option \<Rightarrow> binding \<Rightarrow> 'w path_state \<Rightarrow> 'w path_state" where
  "add_induced_bindings e reconf b s =
     (case reconf of
        None \<Rightarrow> s
      | Some fs \<Rightarrow>
          (case detranslate_path e fs (host b) None of
             Inl _ \<Rightarrow> s
           | Inr (_, path) \<Rightarrow> induce (head_list fs GUEST) path b s))"

text \<open>
  \<open>initialize_bindings\<close>: the pending bindings from the last, which is the root, to the first. A
  binding whose guest path could not be canonicalised induces nothing here: the code would use the
  partial path that is left in it, in a reconfiguration only.
\<close>

fun initialize_all ::
  "'w env \<Rightarrow> fs_ns option \<Rightarrow> binding list \<Rightarrow> 'w path_state \<Rightarrow> (ftype option \<times> 'w path_state)" where
  "initialize_all e reconf [] s = (glue_type e, s)"
| "initialize_all e reconf (b # bs) s =
     (let (g, r, s) = initialize_binding e b s;
          s = (case r of None \<Rightarrow> s | Some b' \<Rightarrow> add_induced_bindings e reconf b' s) in
      initialize_all (e\<lparr>glue_type := g\<rparr>) reconf bs s)"

definition initialize_bindings ::
  "'w env \<Rightarrow> fs_ns option \<Rightarrow> 'w path_state \<Rightarrow> (ftype option \<times> 'w path_state)" where
  "initialize_bindings e reconf s =
     (let todo = rev (list_of (pending (fs_of s)));
          s = s\<lparr>fs_of := (fs_of s)\<lparr>guest_list := Some [], host_list := Some []\<rparr>\<rparr>;
          (g, s) = initialize_all e reconf todo s in
      (g, s\<lparr>fs_of := (fs_of s)\<lparr>pending := None\<rparr>\<rparr>))"

end
