(* ===== verification/Resolve.thy ===== *)
theory Resolve
  imports Canon
begin

text \<open>
  What canonicalisation and translation achieve: the result of \<open>canonicalize\<close> has no special name
  left, it is the result of an abstract resolution of the names that follows links inside the
  guest, and a translation moves it to the host side of the deepest binding that contains it.
\<close>

section \<open>Plain names\<close>

definition plain :: "string \<Rightarrow> bool" where
  "plain c \<longleftrightarrow> name c \<and> c \<noteq> ''.'' \<and> c \<noteq> ''..''"

definition plains :: "string list \<Rightarrow> bool" where
  "plains cs \<longleftrightarrow> (\<forall>c \<in> set cs. plain c)"

lemma plains_simps [simp]:
  "plains []" "plains (c # cs) \<longleftrightarrow> plain c \<and> plains cs" "plains (as @ bs) \<longleftrightarrow> plains as \<and> plains bs"
  by (auto simp: plains_def)

lemma plains_names: "plains cs \<Longrightarrow> names cs"
  by (auto simp: plains_def names_def plain_def)

lemma plains_butlast: "plains cs \<Longrightarrow> plains (butlast cs)"
  by (auto simp: plains_def dest: in_set_butlastD)

lemma plains_prefix: "prefix as bs \<Longrightarrow> plains bs \<Longrightarrow> plains as"
  by (auto elim: prefixE)

lemma cstr_simps' [simp]:
  "cstr []" "cstr (c # s) \<longleftrightarrow> c \<noteq> CHR 0x00 \<and> cstr s" "cstr (s @ t) \<longleftrightarrow> cstr s \<and> cstr t"
  by (auto simp: cstr_def)

lemma cstr_subset: "set s \<subseteq> set t \<Longrightarrow> cstr t \<Longrightarrow> cstr s"
  by (auto simp: cstr_def)

lemma cstr_take_drop: "cstr s \<Longrightarrow> cstr (take n s)" "cstr s \<Longrightarrow> cstr (drop n s)"
  by (meson cstr_subset set_take_subset set_drop_subset)+

lemma cstr_spine: "names cs \<Longrightarrow> cstr (spine cs)"
  by (induction cs) (auto simp: name_def cstr_def)

lemma cstr_render: "names cs \<Longrightarrow> cstr (render cs)"
  using cstr_spine by (auto simp: render_def)

section \<open>Substitution without the bound on the length\<close>

lemma substitute_path_prefix_Inr:
  assumes "names (as @ rs)" "names bs" "as \<noteq> [] \<or> bs \<noteq> []"
    and "substitute_path_prefix (render (as @ rs)) (length (render as)) (render bs) (length (render bs))
      = Inr r"
  shows "r = render (bs @ rs)"
proof (cases "bs = []")
  case True
  with assms substitute_path_prefix_render [of as rs bs] show ?thesis by simp
next
  case False
  then have bs: "2 \<le> length (spine bs)" using assms(2) length_spine_ge2 by blast
  show ?thesis
  proof (cases "as = []")
    case True
    with False bs assms show ?thesis
      using length_spine_ge2 [of rs]
      by (cases "rs = []") (auto simp: substitute_path_prefix_def render_def Let_def split: if_splits)
  next
    case as: False
    then have "2 \<le> length (spine as)" using assms(1) length_spine_ge2 [of as] by simp
    with as False bs assms show ?thesis
      by (auto simp: substitute_path_prefix_def render_def Let_def split: if_splits)
  qed
qed

lemma substitute_path_prefix_slash_Inr:
  assumes "names (as @ rs)" "names bs" "as @ rs \<noteq> []" "as \<noteq> [] \<or> bs \<noteq> []"
    and "substitute_path_prefix (spine (as @ rs) @ ''/'') (length (render as))
      (render bs) (length (render bs)) = Inr r"
  shows "denotes r (bs @ rs)"
proof (cases "bs = []")
  case True
  with assms show ?thesis
    by (cases "rs = []") (auto simp: substitute_path_prefix_def render_def Let_def denotes_def)
next
  case False
  then have bs: "2 \<le> length (spine bs)" using assms(2) length_spine_ge2 by blast
  have "as = [] \<or> 2 \<le> length (spine as)" using assms(1) length_spine_ge2 [of as] by auto
  with False bs assms show ?thesis
    using length_spine_ge2 [of rs]
    by (auto simp: substitute_path_prefix_def render_def Let_def denotes_def split: if_splits)
qed

text \<open>
  The substitution on the guest side for any path that denotes names: translated, or left alone on
  overflow.
\<close>

lemma substitute_path_prefix_Inl:
  "substitute_path_prefix p n q (length q) = Inl err \<Longrightarrow> length p + length q \<ge> PATH_MAX"
  by (auto simp: substitute_path_prefix_def Let_def split: if_splits)

lemma substitute_guest_cases:
  assumes "wf_fs fs" "names ps" "denotes p ps" "substitute_binding fs GUEST p = Inr (n, r)"
  obtains (translated) b where "get_binding fs GUEST p = Some b" "b \<in> set (head_list fs GUEST)"
      "wf_binding b" "prefix (guest_pos b) ps" "denotes r (relocate (guest_pos b) (host_pos b) ps)"
      "p = render ps \<Longrightarrow> r = render (relocate (guest_pos b) (host_pos b) ps)"
      "need_substitution b \<Longrightarrow> substitute_path_prefix p (length (guest b)) (host b) (length (host b)) = Inr r"
    | (overflow) b err where "get_binding fs GUEST p = Some b" "r = p"
      "length p + length (host b) \<ge> PATH_MAX" "need_substitution b"
      "substitute_path_prefix p (length (guest b)) (host b) (length (host b)) = Inl err"
proof -
  obtain b where b: "get_binding fs GUEST p = Some b"
    using get_binding_deepest [OF assms(1,3,2)] by blast
  note wf = get_binding_in [OF assms(1,2,3) b]
  obtain rs where ps: "ps = guest_pos b @ rs" using wf(2) by (auto elim: prefixE)
  have c: "host b = render (host_pos b)" "guest b = render (guest_pos b)" "names (host_pos b)"
      "need_substitution b \<longleftrightarrow> host b \<noteq> guest b"
    using wf(1) by (auto simp: wf_binding_def canonical_def)
  let ?r = "substitute_path_prefix p (length (guest b)) (host b) (length (host b))"
  show thesis
  proof (cases "need_substitution b")
    case False
    then have "r = p" "relocate (guest_pos b) (host_pos b) ps = ps"
      using assms(4) b c(4) ps by (simp_all add: substitute_binding_def relocate_def)
    then show thesis using translated [OF b wf(3,1,2)] assms(3) False by simp
  next
    case True
    then have ne: "guest_pos b \<noteq> [] \<or> host_pos b \<noteq> []" using c by metis
    show thesis
    proof (cases ?r)
      case (Inl err)
      then have "r = p" using True b assms(4) by (simp add: substitute_binding_def)
      with Inl show thesis using overflow [OF b] substitute_path_prefix_Inl True by blast
    next
      case (Inr q)
      then have q: "q = r" using True b assms(4) by (simp add: substitute_binding_def)
      have r1: "p = render ps \<Longrightarrow> r = render (host_pos b @ rs)"
        using substitute_path_prefix_Inr [of "guest_pos b" rs "host_pos b" r] Inr ne q c ps assms(2)
        by simp
      have "denotes r (host_pos b @ rs)"
      proof (cases "p = render ps")
        case True
        then show ?thesis using r1 by simp
      next
        case False
        then have "p = spine ps @ ''/''" "ps \<noteq> []" using assms(3) by (auto simp: denotes_def)
        then show ?thesis
          using substitute_path_prefix_slash_Inr [of "guest_pos b" rs "host_pos b" r] Inr ne q c ps
            assms(2) by simp
      qed
      moreover have "relocate (guest_pos b) (host_pos b) ps = host_pos b @ rs"
        using ps by (simp add: relocate_def)
      ultimately show thesis using r1 translated [OF b wf(3,1,2)] Inr q by simp
    qed
  qed
qed

text \<open>The bindings whose host side has no special name.\<close>

definition plain_hosts :: "fs_ns \<Rightarrow> bool" where
  "plain_hosts fs \<longleftrightarrow> (\<forall>b \<in> set (head_list fs GUEST). plains (host_pos b))"

lemma plains_relocate: "plains bs \<Longrightarrow> plains ps \<Longrightarrow> plains (relocate as bs ps)"
  by (auto simp: relocate_def plains_def dest: in_set_dropD)

lemma substitute_guest_plains:
  assumes "wf_fs fs" "plain_hosts fs" "plains ps" "substitute_binding fs GUEST (render ps) = Inr (n, r)"
  shows "\<exists>qs. plains qs \<and> r = render qs"
  using assms plains_names [OF assms(3)]
  by (elim substitute_guest_cases [OF assms(1) _ denotes_render assms(4)])
    (auto simp: plain_hosts_def intro: plains_relocate)

section \<open>Detranslation of a link keeps a non-empty string\<close>

lemma substitute_path_prefix_cstr:
  "substitute_path_prefix p n q (length q) = Inr r \<Longrightarrow> cstr p \<Longrightarrow> cstr q \<Longrightarrow> q \<noteq> [] \<Longrightarrow>
    cstr r \<and> r \<noteq> []"
  by (auto simp: substitute_path_prefix_def Let_def cstr_take_drop split: if_splits)

lemma find_binding_in: "find_binding fs side p bs = Some b \<Longrightarrow> b \<in> set bs"
  by (induction bs) (auto simp: Let_def split: if_splits)

lemma get_binding_wf: "wf_fs fs \<Longrightarrow> get_binding fs side p = Some b \<Longrightarrow> wf_binding b"
  by (cases side)
    (auto simp: get_binding_def wf_fs_def wf_lists_def head_list_def list_of_def
      split: option.splits if_splits dest!: find_binding_in)

lemma wf_binding_cstr: "wf_binding b \<Longrightarrow> cstr (host b) \<and> cstr (guest b) \<and> host b \<noteq> [] \<and> guest b \<noteq> []"
  by (metis canonical_def cstr_render render_nonempty wf_binding_def)

lemma substitute_binding_cstr:
  assumes "wf_fs fs" "substitute_binding fs side p = Inr (n, r)" "cstr p" "p \<noteq> []"
  shows "cstr r \<and> r \<noteq> []"
proof (cases "get_binding fs side p")
  case None
  with assms(2) show ?thesis by (simp add: substitute_binding_def)
next
  case (Some b)
  then have "cstr (host b) \<and> cstr (guest b) \<and> host b \<noteq> [] \<and> guest b \<noteq> []"
    using get_binding_wf [OF assms(1)] wf_binding_cstr by blast
  with assms(2-) Some show ?thesis
    by (auto simp: substitute_binding_def split: if_splits side.splits sum.splits
        dest: substitute_path_prefix_cstr)
qed

lemma compare_paths_shorter:
  "compare_paths p q = PATH1_IS_PREFIX \<Longrightarrow> p \<noteq> [] \<and> (length p \<noteq> 1 \<longrightarrow> last p \<noteq> CHR ''/'' \<longrightarrow> length p < length q)"
  by (auto simp: compare_paths_def compare_paths2_def Let_def c_at_last [symmetric] split: if_splits)

lemma remove_root_cstr:
  assumes "remove_root fs p sc = Inr (n, r)" "cstr p" "p \<noteq> []" "wf_fs fs"
  shows "cstr r \<and> r \<noteq> []"
proof -
  obtain gs hs where fs: "guest_list fs = Some gs" "wf_lists gs hs" using assms(4) by (rule wf_fsE)
  then have "root_path fs = host (last gs)" "wf_binding (last gs)"
    by (auto simp: root_path_def get_root_def wf_lists_def)
  then have "canonical (root_path fs)" by (simp add: wf_binding_def)
  then have "length (root_path fs) = 1 \<or> last (root_path fs) \<noteq> CHR ''/''"
    by (metis One_nat_def canonical_def last_spine length_Cons list.size(3) render_Nil render_not_Nil)
  then show ?thesis
    using assms(1-3) compare_paths_shorter [of "root_path fs" p]
    by (auto simp: remove_root_def Let_def cstr_take_drop split: comparison.splits if_splits)
qed

text \<open>
  What is relied on: the target of a link and the paths kept for a tracee are non-empty strings, and
  no binding is being installed.
\<close>

definition text_ok :: "string \<Rightarrow> bool" where
  "text_ok s \<longleftrightarrow> s \<noteq> [] \<and> cstr s"

definition known_ok :: "known_tracee \<Rightarrow> bool" where
  "known_ok t \<longleftrightarrow> text_ok (kt_exe t) \<and> text_ok (kt_cwd t) \<and> text_ok (kt_root t)"

definition kernel_ok :: "'w env \<Rightarrow> bool" where
  "kernel_ok e \<longleftrightarrow>
     (\<forall>w p t. k_readlink e w p = Inr t \<longrightarrow> text_ok t) \<and>
     (\<forall>pid t. tracee_of e pid = Some t \<longrightarrow> known_ok t) \<and> glue_type e = None"

lemma substitute_binding_ok:
  "substitute_binding fs side p = Inr (n, r) \<Longrightarrow> wf_fs fs \<Longrightarrow> text_ok p \<Longrightarrow> text_ok r"
  using substitute_binding_cstr by (auto simp: text_ok_def)

lemma remove_root_ok: "remove_root fs p sc = Inr (n, r) \<Longrightarrow> wf_fs fs \<Longrightarrow> text_ok p \<Longrightarrow> text_ok r"
  using remove_root_cstr by (auto simp: text_ok_def)

lemma dec_nat_cstr: "cstr (dec_nat n)"
proof (induction n rule: dec_nat.induct)
  case (1 n)
  have "char_of (48 + k) \<noteq> (CHR 0x00 :: char)" if "k < 10" for k :: nat
  proof
    assume "char_of (48 + k) = (CHR 0x00 :: char)"
    then have "of_char (char_of (48 + k) :: char) = (of_char (CHR 0x00 :: char) :: nat)" by simp
    with that show False by simp
  qed
  then show ?case using 1 by (subst dec_nat.simps) auto
qed

lemma dec_nat_nonempty: "dec_nat n \<noteq> []"
  by (subst dec_nat.simps) simp

lemma dec_ok: "text_ok (dec i)"
  by (simp add: dec_def text_ok_def dec_nat_cstr dec_nat_nonempty)

lemma readlink_proc_canonicalize:
  assumes "kernel_ok e" "readlink_proc e base c cmp = Inr (CANONICALIZE, r)"
  shows "text_ok r"
  using assms dec_ok
  by (auto simp: readlink_proc_def snprintf_path_def kernel_ok_def known_ok_def Let_def text_ok_def
      split: comparison.splits if_splits option.splits)

lemma readlink_proc_verbatim:
  assumes "readlink_proc e base c cmp = Inr (DONT_CANONICALIZE, r)"
  shows "r = base @ ''/'' @ c" "c \<noteq> []" "cmp = PATH1_IS_PREFIX"
  using assms
  by (auto simp: readlink_proc_def snprintf_path_def Let_def strtol_ok_def strtol_digits_def
      strtol_body_def split: comparison.splits if_splits option.splits)

lemma detranslate_ok:
  assumes "kernel_ok e" "wf_fs fs" "text_ok p" "detranslate_path e fs p t = Inr (n, r)"
  shows "text_ok r"
proof -
  have f: "text_ok q" if "follow_then_remove fs p sc fb = Inr (m, q)" for sc fb m q
    using that assms(2,3) substitute_binding_ok [of fs HOST p]
    by (auto simp: follow_then_remove_def split: if_splits sum.splits intro: remove_root_ok)
  have l: "text_ok q" if "readlink_proc2 e ref = Inr q" "q \<noteq> []" for ref q
    using that readlink_proc_canonicalize [OF assms(1)]
    by (auto simp: readlink_proc2_def Let_def split: if_splits sum.splits action.splits)
  show ?thesis
    using assms(3,4) f l
    by (auto simp: detranslate_path_def Let_def split: if_splits option.splits sum.splits)
qed

section \<open>One iteration\<close>

lemma substitute_binding_stat_fs:
  "glue_type e = None \<Longrightarrow> substitute_binding_stat e fin l p s = (r, s') \<Longrightarrow> fs_of s' = fs_of s"
  by (auto simp: substitute_binding_stat_def Let_def split: sum.splits prod.splits if_splits)

text \<open>A cursor inside a path: the scan of the next component yields a name.\<close>

definition cursor_ok :: "string \<Rightarrow> bool" where
  "cursor_ok cursor \<longleftrightarrow> text_ok cursor \<and> c_at cursor 0 \<noteq> CHR ''/''"

lemma next_component_rest:
  assumes "next_component cursor = Inr (fin, c, rest)" "cstr cursor" "\<not> IS_FINAL fin"
  shows "cursor_ok rest"
proof -
  have r: "rest = dropWhile (\<lambda>c. c = CHR ''/'') (component_stop cursor)" and ne: "rest \<noteq> []"
    using assms by (auto simp: next_component_Inr IS_FINAL_def split: if_splits)
  have "c_at rest 0 = hd rest" using ne by (cases rest) auto
  also have "\<dots> \<noteq> CHR ''/''" using hd_dropWhile [OF ne [unfolded r]] r by simp
  finally show ?thesis using next_component_name(3) [OF assms(1,2)] ne
    by (simp add: cursor_ok_def text_ok_def)
qed

lemma next_component_nonempty:
  assumes "next_component cursor = Inr (fin, c, rest)" "cursor_ok cursor"
  shows "name c"
proof -
  obtain x xs where x: "cursor = x # xs" "x \<noteq> CHR ''/''"
    using assms(2) by (cases cursor) (auto simp: cursor_ok_def text_ok_def)
  then have "c \<noteq> []" using assms(1) by (auto simp: next_component_Inr component_start_def)
  then show ?thesis using next_component_name(1) [OF assms(1)] assms(2)
    by (simp add: cursor_ok_def text_ok_def)
qed

lemma proc_alias_plain:
  assumes "wf_fs fs" "plain_hosts fs" "plains gs" "proc_alias fs (render gs) = (cmp, base)"
  shows "\<exists>bs. plains bs \<and> base = render bs \<and> cmp = compare_paths ''/proc'' base"
  using assms substitute_guest_plains [OF assms(1-3)]
  by (fastforce simp: proc_alias_def Let_def split: if_splits sum.splits)

lemma proc_prefix:
  assumes "names bs" "compare_paths ''/proc'' (render bs) = PATH1_IS_PREFIX"
  shows "bs \<noteq> []"
proof -
  have "denotes ''/proc'' [''proc'']" "names [''proc'']"
    by (simp_all add: denotes_def render_def name_def)
  then have "compare_paths ''/proc'' (render bs) = prefix_comparison [''proc''] bs"
    by (rule compare_paths_prefix [OF _ _ denotes_render assms(1)])
  with assms(2) have "strict_prefix [''proc''] bs" by (simp add: prefix_comparison_iff)
  then show ?thesis by auto
qed

lemma read_host_link_no [simp]:
  "read_host_link e fin h rest s \<noteq> Return (Inr q)" "read_host_link e fin h rest s \<noteq> Advance a b d"
  by (auto simp: read_host_link_def split: sum.splits)

lemma read_host_link_Follow:
  assumes "read_host_link e fin h rest s = Follow fin' t rest'" "kernel_ok e" "wf_fs (fs_of s)"
  shows "text_ok t \<and> fin' = fin \<and> rest' = rest"
  using assms detranslate_ok [OF assms(2,3)]
  by (fastforce simp: read_host_link_def kernel_ok_def split: sum.splits if_splits)

lemma dereference_ok:
  assumes "kernel_ok e" "wf_fs (fs_of s)" "plain_hosts (fs_of s)" "plains gs" "c \<noteq> ''.''" "c \<noteq> ''..''"
    and "name c \<or> c = []"
  shows "dereference e fin (render gs) c h rest s = Return (Inr p) \<Longrightarrow> \<exists>cs. plains cs \<and> p = render cs"
    and "dereference e fin (render gs) c h rest s = Follow fin' t rest' \<Longrightarrow>
      text_ok t \<and> fin' = fin \<and> rest' = rest"
    and "dereference e fin (render gs) c h rest s \<noteq> Advance fin' g' rest'"
proof -
  obtain cmp base where pa: "proc_alias (fs_of s) (render gs) = (cmp, base)" by fastforce
  obtain bs where bs: "plains bs" "base = render bs" "cmp = compare_paths ''/proc'' base"
    using proc_alias_plain [OF assms(2-4) pa] by blast
  have final: "plains (bs @ [c]) \<and> q = render (bs @ [c])"
    if "readlink_proc e base c cmp = Inr (DONT_CANONICALIZE, q)" for q
  proof -
    note v = readlink_proc_verbatim [OF that]
    have "bs \<noteq> []" using proc_prefix [OF plains_names [OF bs(1)]] bs(2,3) v(3) by simp
    then have "q = render (bs @ [c])" using v(1) bs(2) by (simp add: render_not_Nil)
    moreover have "plain c" using v(2) assms(5-7) by (simp add: plain_def)
    ultimately show ?thesis using bs(1) by simp
  qed
  have d: "dereference e fin (render gs) c h rest s =
      (if cmp = PATHS_ARE_EQUAL \<or> cmp = PATH1_IS_PREFIX then
         (case readlink_proc e base c cmp of
            Inl err \<Rightarrow> Return (Inl err)
          | Inr (CANONICALIZE, q) \<Rightarrow> Follow fin q rest
          | Inr (DONT_CANONICALIZE, q) \<Rightarrow>
              if fin = FINAL_NORMAL then Return (Inr q) else read_host_link e fin h rest s
          | Inr (DEFAULT, _) \<Rightarrow> read_host_link e fin h rest s)
       else read_host_link e fin h rest s)"
    by (simp add: dereference_def pa)
  note cases = sum.splits if_splits prod.splits action.splits
  show "\<exists>cs. plains cs \<and> p = render cs"
    if "dereference e fin (render gs) c h rest s = Return (Inr p)"
    using that unfolding d by (auto split: cases dest!: final intro: exI [of _ "bs @ [c]"])
  show "text_ok t \<and> fin' = fin \<and> rest' = rest"
    if "dereference e fin (render gs) c h rest s = Follow fin' t rest'"
    using that unfolding d
    by (auto split: cases dest: read_host_link_Follow [OF _ assms(1,2)]
        readlink_proc_canonicalize [OF assms(1)])
  show "dereference e fin (render gs) c h rest s \<noteq> Advance fin' g' rest'"
    unfolding d by (auto split: cases)
qed

text \<open>What one iteration does to a plain guest path.\<close>

lemma join2_plain:
  assumes "plains gs" "name c \<or> c = [] \<and> gs = []" "c \<noteq> ''.''" "c \<noteq> ''..''"
    and "join2 (render gs) c = Inr r"
  shows "\<exists>cs. plains cs \<and> r = render cs \<and> cs = (if c = [] then [] else gs @ [c])"
proof (cases "c = []")
  case True
  with assms show ?thesis using join2_root by (auto simp: name_def)
next
  case False
  with assms have "name c" by simp
  with assms show ?thesis using join2_name [OF plains_names [OF assms(1)] \<open>name c\<close>] False
    by (auto simp: plain_def split: if_splits)
qed

lemma canon_step_ok:
  assumes "kernel_ok e" "wf_fs (fs_of s)" "plain_hosts (fs_of s)" "plains gs"
    and "cstr cursor" "cursor_ok cursor \<or> gs = []"
    and "canon_step e d l cursor (render gs) s = (r, s')"
  shows "fs_of s' = fs_of s"
    and "r = Return (Inr p) \<Longrightarrow> \<exists>cs. plains cs \<and> p = render cs"
    and "r = Advance fin g' rest \<Longrightarrow>
      (\<exists>cs. plains cs \<and> g' = render cs) \<and> (\<not> IS_FINAL fin \<longrightarrow> cursor_ok rest)"
    and "r = Follow fin t rest \<Longrightarrow> text_ok t \<and> (\<not> IS_FINAL fin \<longrightarrow> cursor_ok rest)"
proof -
  have "fs_of s' = fs_of s \<and>
    (\<forall>p. r = Return (Inr p) \<longrightarrow> (\<exists>cs. plains cs \<and> p = render cs)) \<and>
    (\<forall>fin g' rest. r = Advance fin g' rest \<longrightarrow>
      (\<exists>cs. plains cs \<and> g' = render cs) \<and> (\<not> IS_FINAL fin \<longrightarrow> cursor_ok rest)) \<and>
    (\<forall>fin t rest. r = Follow fin t rest \<longrightarrow> text_ok t \<and> (\<not> IS_FINAL fin \<longrightarrow> cursor_ok rest))"
  proof (cases "next_component cursor")
    case (Inl err)
    with assms(7) show ?thesis by (auto simp: canon_step_def)
  next
    case (Inr x)
    obtain fin0 c rest0 where x: "x = (fin0, c, rest0)" by (cases x)
    note nc = Inr [unfolded x]
    have rest: "\<not> IS_FINAL fin0 \<Longrightarrow> cursor_ok rest0" using next_component_rest [OF nc assms(5)] .
    have nm: "name c \<or> c = [] \<and> gs = []"
      using next_component_name(1) [OF nc assms(5)] next_component_nonempty [OF nc] assms(6) by auto
    consider (dot) "c = ''.''" | (dotdot) "c = ''..''" | (other) "c \<noteq> ''.''" "c \<noteq> ''..''" by blast
    then show ?thesis
    proof cases
      case dot
      then show ?thesis using assms(4,7) nc rest by (auto simp: canon_step_def IS_FINAL_def split: if_splits)
    next
      case dotdot
      then show ?thesis using assms(4,7) nc rest plains_butlast [OF assms(4)]
          pop_component_render [OF plains_names [OF assms(4)]]
        by (auto simp: canon_step_def IS_FINAL_def split: if_splits)
    next
      case other
      show ?thesis
      proof (cases "join2 (render gs) c")
        case (Inl err)
        with other assms(7) nc show ?thesis by (auto simp: canon_step_def)
      next
        case j: (Inr scratch)
        obtain cs where cs: "plains cs" "scratch = render cs"
          using join2_plain [OF assms(4) nm other j] by blast
        obtain q s1 where sb: "substitute_binding_stat e fin0 l scratch s = (q, s1)" by fastforce
        have fs: "fs_of s1 = fs_of s"
          using substitute_binding_stat_fs [OF _ sb] assms(1) by (simp add: kernel_ok_def)
        have nm': "name c \<or> c = []" using nm by blast
        note dr = dereference_ok [OF assms(1) assms(2,3)[folded fs] assms(4) other nm']
        show ?thesis
        proof (cases "\<exists>st h. q = Inr (st, h) \<and> \<not> (st \<le> 0 \<or> (fin0 = FINAL_NORMAL \<and> \<not> d))")
          case True
          then obtain st h where q: "q = Inr (st, h)" "\<not> (st \<le> 0 \<or> (fin0 = FINAL_NORMAL \<and> \<not> d))"
            by blast
          then have "r = dereference e fin0 (render gs) c h rest0 s1" "s' = s1"
            using assms(7) nc other j sb by (auto simp: canon_step_def)
          moreover have "r \<noteq> Advance fin g' rest" for fin g' rest
            using dr(3) calculation(1) by simp
          ultimately show ?thesis using fs dr(1,2) [of fin0 h rest0] rest by auto
        next
          case False
          with assms(7) nc other j sb fs cs rest show ?thesis
            by (auto simp: canon_step_def split: sum.splits prod.splits if_splits)
        qed
      qed
    qed
  qed
  then show "fs_of s' = fs_of s"
    and "r = Return (Inr p) \<Longrightarrow> \<exists>cs. plains cs \<and> p = render cs"
    and "r = Advance fin g' rest \<Longrightarrow>
      (\<exists>cs. plains cs \<and> g' = render cs) \<and> (\<not> IS_FINAL fin \<longrightarrow> cursor_ok rest)"
    and "r = Follow fin t rest \<Longrightarrow> text_ok t \<and> (\<not> IS_FINAL fin \<longrightarrow> cursor_ok rest)"
    by blast+
qed

section \<open>The result of canonicalisation\<close>

text \<open>
  The spelling of a result: at the first level a final separator or a final \<open>/.\<close> is kept.
\<close>

definition spelled :: "nat \<Rightarrow> string \<Rightarrow> string list \<Rightarrow> bool" where
  "spelled l p cs \<longleftrightarrow> p = render cs \<or> l = 0 \<and> (denotes p cs \<or> p = render (cs @ [''.'']))"

lemma finish_spelled:
  assumes "plains cs" "finish l fin (render cs) = Inr p"
  shows "spelled l p cs"
proof -
  note n = plains_names [OF assms(1)]
  have "name ''.''" by (simp add: name_def)
  note j = join2_name [OF n this] join2_slash [OF n] join2_root
  show ?thesis
    using assms j by (cases "cs = []")
      (auto simp: finish_def spelled_def denotes_def render_not_Nil split: if_splits finality.splits)
qed

lemma canonicalize_spelled:
  shows "canonicalize e u d g l s = (Inr p, s') \<Longrightarrow> kernel_ok e \<Longrightarrow> wf_fs (fs_of s) \<Longrightarrow>
      plain_hosts (fs_of s) \<Longrightarrow> g = render gs \<Longrightarrow> plains gs \<Longrightarrow> text_ok u \<Longrightarrow>
      fs_of s' = fs_of s \<and> (\<exists>cs. plains cs \<and> spelled l p cs)"
    and "canon_loop e d l n cursor g s = (Inr p, s') \<Longrightarrow> kernel_ok e \<Longrightarrow> wf_fs (fs_of s) \<Longrightarrow>
      plain_hosts (fs_of s) \<Longrightarrow> g = render gs \<Longrightarrow> plains gs \<Longrightarrow> cstr cursor \<Longrightarrow>
      cursor_ok cursor \<or> gs = [] \<Longrightarrow>
      fs_of s' = fs_of s \<and> (\<exists>cs. plains cs \<and> spelled l p cs)"
proof (induction e u d g l s and e d l n cursor g s arbitrary: gs p s' and gs p s'
    rule: canonicalize_canon_loop.induct)
  case (1 e u d g l s)
  have len: "\<not> l > MAXSYMLINKS" "\<not> length g \<ge> PATH_MAX"
    using "1.prems"(1) by (auto simp: canonicalize.simps split: if_splits)
  show ?case
  proof (cases "c_at u 0 = CHR ''/''")
    case True
    with len "1.prems" have "canon_loop e d l 0 u ''/'' s = (Inr p, s')"
      by (simp add: canonicalize.simps)
    show ?thesis
    proof (intro "1.IH"(2) [OF len, of p s' "[]"])
      show "\<not> c_at u 0 \<noteq> CHR ''/''" using True by simp
      show "canon_loop e d l 0 u ''/'' s = (Inr p, s')" by fact
    qed (use "1.prems" in \<open>simp_all add: text_ok_def\<close>)
  next
    case False
    with len "1.prems" have l: "canon_loop e d l 0 u g s = (Inr p, s')" "c_at g 0 = CHR ''/''"
      by (auto simp: canonicalize.simps split: if_splits)
    then show ?thesis
      using "1.prems" False
      by (intro "1.IH"(1) [OF len, of p s' gs]) (simp_all add: text_ok_def cursor_ok_def)
  qed
next
  case (2 e d l n cursor g s)
  obtain r s1 where st: "canon_step e d l cursor g s = (r, s1)" by fastforce
  note ok = canon_step_ok [OF "2.prems"(2-4,6-8) st [unfolded "2.prems"(5)]]
  note loop = canon_loop.simps [of e d l n cursor g s, unfolded st]
  have kn: "glue_type e = None" using "2.prems"(2) by (simp add: kernel_ok_def)
  show ?case
  proof (cases r)
    case (Return q)
    then show ?thesis using ok(1,2) "2.prems"(1) loop by (auto simp: spelled_def)
  next
    case (Advance fin g' rest)
    then obtain cs where cs: "plains cs" "g' = render cs" "\<not> IS_FINAL fin \<longrightarrow> cursor_ok rest"
      using ok(3) by blast
    show ?thesis
    proof (cases "IS_FINAL fin")
      case True
      with Advance loop "2.prems"(1) have "finish l fin (render cs) = Inr p" "s' = s1"
        by (simp_all add: cs(2))
      then show ?thesis using finish_spelled [OF cs(1)] ok(1) cs(1) by auto
    next
      case False
      with Advance loop "2.prems"(1) have "canon_loop e d l n rest g' s1 = (Inr p, s')" by simp
      with "2.IH"(1) [OF st [symmetric] Advance] False "2.prems"(2-4) cs ok(1) show ?thesis
        by (auto simp: cursor_ok_def text_ok_def)
    qed
  next
    case (Follow fin t rest)
    then have t: "text_ok t" "\<not> IS_FINAL fin \<longrightarrow> cursor_ok rest" using ok(4) by auto
    obtain r2 s2 where c: "canonicalize e t True g (l + Suc n) s1 = (r2, s2)" by fastforce
    show ?thesis
    proof (cases r2)
      case (Inl err)
      with Follow loop "2.prems"(1) c show ?thesis by simp
    next
      case (Inr g2)
      note IH = "2.IH"(2) [OF st [symmetric] Follow]
      have "fs_of s2 = fs_of s1 \<and> (\<exists>cs. plains cs \<and> spelled (l + Suc n) g2 cs)"
        using IH c Inr "2.prems"(2-6) ok(1) t(1) by simp
      then obtain cs where cs: "plains cs" "g2 = render cs" and fs2: "fs_of s2 = fs_of s"
        using ok(1) by (auto simp: spelled_def)
      have ne: "g2 \<noteq> g" using Follow loop "2.prems"(1) c Inr by auto
      obtain r3 s3 where b: "substitute_binding_stat e fin l g2 s2 = (r3, s3)" by fastforce
      have fs3: "fs_of s3 = fs_of s" using substitute_binding_stat_fs [OF kn b] fs2 by simp
      obtain y where y: "r3 = Inr y" using Follow loop "2.prems"(1) c Inr ne b by (cases r3) auto
      show ?thesis
      proof (cases "IS_FINAL fin")
        case True
        with Follow loop "2.prems"(1) c Inr ne b y have "finish l fin (render cs) = Inr p" "s' = s3"
          by (simp_all add: cs(2))
        then show ?thesis using finish_spelled [OF cs(1)] fs3 cs(1) by auto
      next
        case False
        with Follow loop "2.prems"(1) c Inr ne b y
        have "canon_loop e d l (Suc n) rest g2 s3 = (Inr p, s')" by simp
        with "2.IH"(3) [OF st [symmetric] Follow c [symmetric] Inr ne b [symmetric] y False]
          "2.prems"(2-4) cs t(2) False fs3 show ?thesis
          by (auto simp: cursor_ok_def text_ok_def)
      qed
    qed
  qed
qed

text \<open>C5: Whatever the links, the bindings and the extensions of host paths are, a successful
  canonicalisation leaves the binding tables alone and yields an absolute guest path without any
  empty, \<open>.\<close> or \<open>..\<close> component, up to the final separator or the final \<open>/.\<close> of the first level.\<close>

theorem canonicalize_plain:
  assumes "kernel_ok e" "wf_fs (fs_of s)" "plain_hosts (fs_of s)" "plains gs" "text_ok u"
    and "canonicalize e u d (render gs) l s = (Inr p, s')"
  shows "fs_of s' = fs_of s \<and> (\<exists>cs. plains cs \<and> spelled l p cs)"
  using canonicalize_spelled(1) [OF assms(6,1-3) refl assms(4,5)] .

section \<open>Texts and lengths of a translation\<close>

lemma spelled_denotes_names:
  assumes "plains cs" "spelled l p cs"
  shows "\<exists>ps. names ps \<and> ''..'' \<notin> set ps \<and> denotes p ps \<and> (ps = cs \<or> ps = cs @ [''.''])"
proof -
  have c: "names cs" "''..'' \<notin> set cs" using assms(1) plains_names by (auto simp: plains_def plain_def)
  have d: "name ''.''" by (simp add: name_def)
  consider "denotes p cs" | "p = render (cs @ [''.''])"
    using assms(2) by (auto simp: spelled_def)
  then show ?thesis
  proof cases
    case 1
    with c show ?thesis by blast
  next
    case 2
    then have "names (cs @ [''.''])" "''..'' \<notin> set (cs @ [''.''])" "denotes p (cs @ [''.''])"
      using c d by auto
    then show ?thesis by blast
  qed
qed

lemma spelled_denotes:
  "plains cs \<Longrightarrow> spelled l p cs \<Longrightarrow> \<exists>ps. names ps \<and> ''..'' \<notin> set ps \<and> denotes p ps"
  using spelled_denotes_names by blast

lemma join2_text:
  assumes "join2 a b = Inr q" "text_ok a" "cstr b"
  shows "text_ok q"
proof -
  have "q = a @ ''/'' @ b \<or> q = a @ drop 1 b \<or> q = a @ b"
    using assms(1) by (auto simp: join_paths_def Let_def split: if_splits)
  with assms(2,3) show ?thesis by (auto simp: text_ok_def cstr_take_drop)
qed

lemma translation_base_text:
  assumes "kernel_ok e" "wf_fs (fs_of s)" "text_ok (cwd (fs_of s))"
    and "translation_base e fd user s = Inr r"
  shows "text_ok r"
proof -
  have rd: "text_ok q" if "readlink_proc_pid_fd e w pid fd = Inr q" for w pid q
    using that assms(1)
    by (auto simp: readlink_proc_pid_fd_def kernel_ok_def Let_def split: if_splits sum.splits)
  consider "r = ''/''" | "r = cwd (fs_of s)"
    | q n where "readlink_proc_pid_fd e (world s) (tracee_pid e) fd = Inr q"
        "detranslate_path e (fs_of s) q None = Inr (n, r)"
    using assms(4) by (auto simp: translation_base_def getcwd2_def split: if_splits sum.splits)
  then show ?thesis
  proof cases
    case 1
    then show ?thesis by (simp add: text_ok_def)
  next
    case 2
    with assms(3) show ?thesis by simp
  next
    case 3
    then show ?thesis using detranslate_ok [OF assms(1,2) rd] by blast
  qed
qed

text \<open>The buffers of a path are not overrun.\<close>

lemma join2_length: "join2 a b = Inr p \<Longrightarrow> length p < PATH_MAX"
  using join_paths_loop_length [of "[]" "[Some a, Some b]" p] by (simp add: join_paths_def PATH_MAX_def)

lemma pop_component_length: "length (pop_component p) \<le> length p"
  by (simp add: pop_component_def Let_def)

lemma readlink_proc_length: "readlink_proc e b c cmp = Inr (a, r) \<Longrightarrow> length r < PATH_MAX"
  by (auto simp: readlink_proc_def snprintf_path_def Let_def PATH_MAX_def
      split: comparison.splits if_splits option.splits)

lemma dereference_returns:
  "dereference e fin g c h rest s = Return (Inr p) \<Longrightarrow> length p < PATH_MAX"
  "dereference e fin g c h rest s \<noteq> Advance fin' g' rest'"
  by (auto simp: dereference_def split: prod.splits if_splits sum.splits action.splits dest: readlink_proc_length)

lemma canon_step_length:
  assumes "canon_step e d l cursor g s = (r, s')" "length g < PATH_MAX"
  shows "(r = Return (Inr p) \<longrightarrow> length p < PATH_MAX) \<and> (r = Advance fin g' rest \<longrightarrow> length g' < PATH_MAX)"
proof (cases "next_component cursor")
  case (Inl err)
  with assms(1) show ?thesis by (auto simp: canon_step_def)
next
  case (Inr x)
  obtain fin0 c rest0 where x: "x = (fin0, c, rest0)" by (cases x)
  consider (dots) "c = ''.'' \<or> c = ''..''" | (failed) err where "c \<noteq> ''.''" "c \<noteq> ''..''" "join2 g c = Inl err"
    | (joined) sc where "c \<noteq> ''.''" "c \<noteq> ''..''" "join2 g c = Inr sc" by (cases "join2 g c") blast+
  then show ?thesis
  proof cases
    case dots
    then show ?thesis using assms Inr x pop_component_length [of g] by (auto simp: canon_step_def)
  next
    case failed
    then show ?thesis using assms(1) Inr x by (auto simp: canon_step_def)
  next
    case joined
    obtain q s1 where "substitute_binding_stat e fin0 l sc s = (q, s1)" by fastforce
    with joined assms(1) Inr x consider err where "r = Return (Inl err)" | "r = Advance fin0 sc rest0"
      | h where "r = dereference e fin0 g c h rest0 s1"
      by (auto simp: canon_step_def split: sum.splits prod.splits if_splits)
    then show ?thesis using dereference_returns(1) join2_length [OF joined(3)]
      by cases (auto simp: dereference_returns(2))
  qed
qed

lemma finish_length: "finish l fin g = Inr p \<Longrightarrow> length g < PATH_MAX \<Longrightarrow> length p < PATH_MAX"
  by (auto simp: finish_def join2_length split: if_splits finality.splits)

lemma canonicalize_length:
  shows "canonicalize e u d g l s = (Inr p, s') \<Longrightarrow> length p < PATH_MAX"
    and "canon_loop e d l n cursor g s = (Inr p, s') \<Longrightarrow> length g < PATH_MAX \<Longrightarrow> length p < PATH_MAX"
proof (induction e u d g l s and e d l n cursor g s arbitrary: p s' and p s'
    rule: canonicalize_canon_loop.induct)
  case (1 e u d g l s)
  then show ?case by (auto simp: canonicalize.simps [of e u d g l s] PATH_MAX_def split: if_splits)
next
  case (2 e d l n cursor g s)
  obtain r s1 where st: "canon_step e d l cursor g s = (r, s1)" by fastforce
  note len = canon_step_length [OF st "2.prems"(2)]
  note loop = "2.prems"(1) [unfolded canon_loop.simps [of e d l n cursor g s] st prod.case]
  show ?case
  proof (cases r)
    case (Return q)
    then show ?thesis using len loop by simp
  next
    case (Advance fin g' rest)
    then show ?thesis using len loop "2.IH"(1) [OF st [symmetric] Advance] finish_length
      by (auto split: if_splits)
  next
    case (Follow fin t rest)
    obtain r2 s2 where c: "canonicalize e t True g (l + Suc n) s1 = (r2, s2)" by fastforce
    note loop = loop [unfolded Follow step.case c prod.case]
    then obtain g2 where g2: "r2 = Inr g2" "g2 \<noteq> g" by (auto split: sum.splits if_splits)
    have lg: "length g2 < PATH_MAX" using "2.IH"(2) [OF st [symmetric] Follow] c g2(1) by simp
    obtain r3 s3 where b: "substitute_binding_stat e fin l g2 s2 = (r3, s3)" by fastforce
    obtain y where y: "r3 = Inr y" using loop g2 b by (auto split: sum.splits)
    show ?thesis
      using loop "2.IH"(3) [OF st [symmetric] Follow c [symmetric] g2(1,2) b [symmetric] y] g2 b y lg finish_length
      by (auto split: if_splits)
  qed
qed

lemma substitute_binding_length:
  "substitute_binding fs side p = Inr (n, r) \<Longrightarrow> length p < PATH_MAX \<Longrightarrow> length r < PATH_MAX"
  by (cases side)
    (auto simp: substitute_binding_def substitute_path_prefix_def Let_def PATH_MAX_def
      split: option.splits sum.splits if_splits)

text \<open>
  The interface of the callbacks on guest and translated paths: they are given \<open>char path[PATH_MAX]\<close> and
  leave a string that is not empty in it.
\<close>

definition keeps_buffer :: "('w \<Rightarrow> string \<Rightarrow> 'd \<Rightarrow> int \<times> string \<times> 'w) \<Rightarrow> bool" where
  "keeps_buffer callback \<longleftrightarrow>
     (\<forall>w p x. text_ok p \<and> length p < PATH_MAX \<longrightarrow>
        text_ok (fst (snd (callback w p x))) \<and> length (fst (snd (callback w p x))) < PATH_MAX)"

definition callbacks_ok :: "'w env \<Rightarrow> bool" where
  "callbacks_ok e \<longleftrightarrow>
     (\<forall>c \<in> set (ext_guest_path e). keeps_buffer c) \<and> (\<forall>c \<in> set (ext_translated_path e). keeps_buffer c)"

lemma notify_keeps:
  assumes "\<forall>c \<in> set cs. keeps_buffer c" "text_ok p" "length p < PATH_MAX"
    and "notify_extensions cs w p x = (st, p', w')"
  shows "text_ok p' \<and> length p' < PATH_MAX"
  using assms
proof (induction cs arbitrary: w p)
  case (Cons c cs)
  obtain st1 p1 w1 where c: "c w p x = (st1, p1, w1)" by (metis prod_cases3)
  have k: "keeps_buffer c" using Cons.prems(1) by simp
  have p1: "text_ok p1" "length p1 < PATH_MAX"
    using k [unfolded keeps_buffer_def, rule_format, of p w x] Cons.prems(2,3) c by simp_all
  show ?case
  proof (cases "st1 = 0")
    case True
    then show ?thesis using Cons.IH [OF _ p1, of w1] Cons.prems(1,4) c by simp
  next
    case False
    then show ?thesis using Cons.prems(4) c p1 by simp
  qed
qed simp

lemma detranslate_length: "detranslate_path e fs p None = Inr (n, q) \<Longrightarrow> length q < PATH_MAX"
  by (auto simp: detranslate_path_def follow_then_remove_def remove_root_def Let_def PATH_MAX_def
      split: if_splits sum.splits prod.splits comparison.splits
      dest!: substitute_binding_length [unfolded PATH_MAX_def])

lemma translation_base_length: "translation_base e fd user s = Inr r \<Longrightarrow> length r < PATH_MAX"
  by (auto simp: translation_base_def getcwd2_def PATH_MAX_def dest: detranslate_length [unfolded PATH_MAX_def]
      split: if_splits sum.splits)

text \<open>The steps of a translation that succeeds.\<close>

lemma translate_path_steps:
  assumes "translate_path e fd user d s = (Inr h, s')" "translation_base e fd user s = Inr base"
    and "notify_extensions (ext_guest_path e) (world s) base user = (st0, base', w1)"
  obtains (answered) st where "0 < st0" "0 \<le> st" "fs_of s' = fs_of s"
      "notify_extensions (ext_translated_path e) w1 base' () = (st, h, world s')"
    | (resolved) g0 g s1 n h0 st where "st0 = 0" "join2 base' user = Inr g0"
      "canonicalize e g0 d ''/'' 0 (s\<lparr>world := w1\<rparr>) = (Inr g, s1)"
      "substitute_binding (fs_of s1) GUEST g = Inr (n, h0)" "0 \<le> st" "fs_of s' = fs_of s1"
      "notify_extensions (ext_translated_path e) (world s1) h0 () = (st, h, world s')"
proof -
  have last: "\<exists>st. 0 \<le> st \<and> fs_of s' = fs_of s2 \<and>
      notify_extensions (ext_translated_path e) (world s2) q () = (st, h, world s')"
    if "translated e q s2 = (Inr h, s')" for q s2
    using that by (auto simp: translated_def Let_def split: prod.splits if_split_asm)
  have "0 \<le> st0" using assms by (auto simp: translate_path_def Let_def split: if_split_asm)
  then consider "st0 > 0" | "st0 = 0" by linarith
  then show thesis
  proof cases
    case 1
    then have "translated e base' (s\<lparr>world := w1\<rparr>) = (Inr h, s')" using assms by (simp add: translate_path_def)
    from last [OF this] answered [OF 1] show thesis by auto
  next
    case 2
    obtain g0 where g0: "join2 base' user = Inr g0" using assms 2 by (auto simp: translate_path_def Let_def split: sum.splits)
    obtain r s1 where c: "canonicalize e g0 d ''/'' 0 (s\<lparr>world := w1\<rparr>) = (r, s1)" by fastforce
    obtain g where g: "r = Inr g" using assms 2 g0 c by (cases r) (auto simp: translate_path_def Let_def)
    obtain n h0 where sub: "substitute_binding (fs_of s1) GUEST g = Inr (n, h0)"
      using assms 2 g0 c g by (cases "substitute_binding (fs_of s1) GUEST g") (auto simp: translate_path_def Let_def)
    then have "translated e h0 s1 = (Inr h, s')" using assms 2 g0 c g by (simp add: translate_path_def Let_def)
    from last [OF this] resolved [OF 2 g0 c [unfolded g] sub] show thesis by auto
  qed
qed

lemma translate_path_ok:
  assumes "kernel_ok e" "wf_fs (fs_of s)" "plain_hosts (fs_of s)"
    and "text_ok (cwd (fs_of s))" "cstr user" "callbacks_ok e" "translate_path e fd user d s = (Inr h, s')"
  shows "fs_of s' = fs_of s \<and> text_ok h \<and> length h < PATH_MAX"
proof -
  obtain base where base: "translation_base e fd user s = Inr base"
    using assms(7) by (cases "translation_base e fd user s") (auto simp: translate_path_def)
  obtain st0 base' w1 where n: "notify_extensions (ext_guest_path e) (world s) base user = (st0, base', w1)"
    by (metis prod_cases3)
  have cb: "\<forall>c \<in> set (ext_guest_path e). keeps_buffer c" "\<forall>c \<in> set (ext_translated_path e). keeps_buffer c"
    using assms(6) by (auto simp: callbacks_ok_def)
  have b: "text_ok base'" "length base' < PATH_MAX"
    using notify_keeps [OF cb(1) translation_base_text [OF assms(1,2,4) base] translation_base_length [OF base] n] by auto
  show ?thesis
    using assms(7) base n
  proof (cases rule: translate_path_steps)
    case (answered st)
    then show ?thesis using notify_keeps [OF cb(2) b answered(4)] by simp
  next
    case (resolved g0 g s1 m h0 st)
    have "text_ok g0" using join2_text [OF resolved(2) b(1) assms(5)] .
    then obtain cs where fs: "fs_of s1 = fs_of s" and cs: "plains cs" "spelled 0 g cs"
      using canonicalize_spelled(1) [OF resolved(3) assms(1), of "[]"] assms(2,3) by auto
    obtain ps where ps: "names ps" "denotes g ps" using spelled_denotes [OF cs] by blast
    have "text_ok g" using ps by (auto simp: denotes_def text_ok_def cstr_render cstr_spine render_not_Nil)
    then have "text_ok h0" using substitute_binding_ok [OF resolved(4)] assms(2) by (simp add: fs)
    moreover have "length h0 < PATH_MAX"
      using substitute_binding_length [OF resolved(4) canonicalize_length(1) [OF resolved(3)]] .
    ultimately show ?thesis using notify_keeps [OF cb(2) _ _ resolved(7)] resolved(6) fs by simp
  qed
qed

section \<open>Resolution of names inside the guest\<close>

text \<open>
  The specification: names are resolved from the left, with the stack of names resolved so far.
  \<open>link\<close> gives the target of a link as the guest sees it, \<open>magic\<close> the links of \<open>/proc/<pid>/fd\<close>
  that are not followed when they are final. \<open>d\<close> tells whether a final link is followed, \<open>sl\<close> whether
  a separator follows the last name.
\<close>

definition ends_slash :: "string \<Rightarrow> bool" where
  "ends_slash s \<longleftrightarrow> s \<noteq> [] \<and> last s = CHR ''/''"

definition start_names :: "string list \<Rightarrow> string \<Rightarrow> string list" where
  "start_names base t = (if c_at t 0 = CHR ''/'' then [] else base)"

inductive resolves ::
  "(string list \<Rightarrow> string \<Rightarrow> string option) \<Rightarrow> (string list \<Rightarrow> string \<Rightarrow> string option) \<Rightarrow>
   bool \<Rightarrow> bool \<Rightarrow> string list \<Rightarrow> string list \<Rightarrow> string list \<Rightarrow> bool"
  for link magic where
  resolves_end: "resolves link magic d sl base [] base"
| resolves_dot: "resolves link magic d sl base cs r \<Longrightarrow> resolves link magic d sl base (''.'' # cs) r"
| resolves_dotdot:
    "resolves link magic d sl (butlast base) cs r \<Longrightarrow> resolves link magic d sl base (''..'' # cs) r"
| resolves_name:
    "plain c \<Longrightarrow> link base c = None \<or> cs = [] \<and> \<not> sl \<and> \<not> d \<Longrightarrow>
     resolves link magic d sl (base @ [c]) cs r \<Longrightarrow> resolves link magic d sl base (c # cs) r"
| resolves_magic:
    "plain c \<Longrightarrow> magic base c = Some (render r) \<Longrightarrow> names r \<Longrightarrow> d \<Longrightarrow> \<not> sl \<Longrightarrow>
     resolves link magic d sl base [c] r"
| resolves_link:
    "plain c \<Longrightarrow> link base c = Some t \<Longrightarrow> cs \<noteq> [] \<or> sl \<or> d \<Longrightarrow>
     resolves link magic True (ends_slash t) (start_names base t) (names_of t) mid \<Longrightarrow>
     resolves link magic d sl mid cs r \<Longrightarrow> resolves link magic d sl base (c # cs) r"

text \<open>The links that the code finds below a guest directory.\<close>

definition link_step :: "'w env \<Rightarrow> 'w path_state \<Rightarrow> finality \<Rightarrow> string list \<Rightarrow> string \<Rightarrow> step option" where
  "link_step e s fin base c =
     (case substitute_binding (fs_of s) GUEST (render (base @ [c])) of
        Inl _ \<Rightarrow> None
      | Inr (_, h) \<Rightarrow>
          if stat_host_path e (world s) h = Inr S_IFLNK
          then Some (dereference e fin (render base) c h [] s) else None)"

definition guest_link :: "'w env \<Rightarrow> 'w path_state \<Rightarrow> string list \<Rightarrow> string \<Rightarrow> string option" where
  "guest_link e s base c =
     (case link_step e s NOT_FINAL base c of Some (Follow _ t _) \<Rightarrow> Some t | _ \<Rightarrow> None)"

definition guest_magic :: "'w env \<Rightarrow> 'w path_state \<Rightarrow> string list \<Rightarrow> string \<Rightarrow> string option" where
  "guest_magic e s base c =
     (case link_step e s FINAL_NORMAL base c of Some (Return (Inr p)) \<Rightarrow> Some p | _ \<Rightarrow> None)"

text \<open>Without extensions on host paths nothing changes the state.\<close>

definition quiet :: "'w env \<Rightarrow> 'w path_state \<Rightarrow> bool" where
  "quiet e s \<longleftrightarrow> kernel_ok e \<and> ext_host_path e = [] \<and> wf_fs (fs_of s) \<and> plain_hosts (fs_of s) \<and>
     (\<forall>n h. substitute_binding (fs_of s) GUEST ''/'' = Inr (n, h) \<longrightarrow>
        stat_host_path e (world s) h \<noteq> Inr S_IFLNK)"

lemma quiet_stat:
  assumes "quiet e s" "substitute_binding_stat e fin l p s = (r, s')"
  shows "s' = s" and "r = Inr (st, h) \<Longrightarrow> \<exists>n. substitute_binding (fs_of s) GUEST p = Inr (n, h) \<and>
    st = (if stat_host_path e (world s) h = Inr S_IFLNK then 1 else 0)"
  using assms
  by (auto simp: quiet_def kernel_ok_def substitute_binding_stat_def Let_def
      split: sum.splits prod.splits if_splits)

lemma names_of_Cons: "names_of (CHR ''/'' # s) = names_of s"
  by (simp add: names_of_def)

lemma names_of_dropWhile: "names_of (dropWhile (\<lambda>c. c = CHR ''/'') s) = names_of s"
  by (induction s) (auto simp: names_of_Cons)

lemma split_slash_takeWhile:
  "split_slash s = takeWhile (\<lambda>c. c \<noteq> CHR ''/'') s #
     (case dropWhile (\<lambda>c. c \<noteq> CHR ''/'') s of [] \<Rightarrow> [] | _ # t \<Rightarrow> split_slash t)"
  by (induction s) (auto split: list.splits)

lemma names_of_first:
  "names_of s = filter (\<lambda>x. x \<noteq> []) [takeWhile (\<lambda>c. c \<noteq> CHR ''/'') s] @
     (case dropWhile (\<lambda>c. c \<noteq> CHR ''/'') s of [] \<Rightarrow> [] | _ # t \<Rightarrow> names_of t)"
proof -
  define d where "d = dropWhile (\<lambda>c. c \<noteq> CHR ''/'') s"
  show ?thesis
    unfolding names_of_def d_def [symmetric]
    by (subst split_slash_takeWhile, unfold d_def [symmetric]) (simp split: list.split)
qed

lemma next_component_names_of:
  assumes "next_component cursor = Inr (fin, c, rest)"
  shows "names_of cursor = (if c = [] then [] else c # names_of rest)"
proof -
  let ?st = "component_start cursor"
  have c: "c = takeWhile (\<lambda>c. c \<noteq> CHR ''/'') ?st" "rest = dropWhile (\<lambda>c. c = CHR ''/'') (component_stop cursor)"
    using assms by (auto simp: next_component_Inr)
  have "names_of cursor = names_of ?st" by (simp add: component_start_def names_of_dropWhile)
  also have "\<dots> = filter (\<lambda>x. x \<noteq> []) [c] @
      (case component_stop cursor of [] \<Rightarrow> [] | _ # t \<Rightarrow> names_of t)"
    using names_of_first [of ?st] by (simp only: c(1) component_stop_def)
  also have "(case component_stop cursor of [] \<Rightarrow> [] | _ # t \<Rightarrow> names_of t) = names_of rest"
    using component_stop_Cons [of cursor] unfolding c(2) names_of_dropWhile
    by (cases "component_stop cursor") (simp_all add: names_of_Cons, simp add: names_of_def)
  finally have n: "names_of cursor = filter (\<lambda>x. x \<noteq> []) [c] @ names_of rest" .
  show ?thesis
  proof (cases "c = []")
    case True
    then have "?st = [] \<or> hd ?st = CHR ''/''" using c(1) by (cases ?st) (auto split: if_splits)
    then have "?st = []" using hd_dropWhile [of "\<lambda>c. c = CHR ''/''" cursor]
      by (auto simp: component_start_def)
    with True n c(2) show ?thesis by (simp add: component_stop_def names_of_def)
  qed (use n in simp)
qed

lemma component_stop_suffix: "suffix (component_stop s) s"
  unfolding component_stop_def component_start_def
  by (meson suffix_dropWhile suffix_order.trans)

lemma ends_slash_suffix: "suffix t s \<Longrightarrow> t \<noteq> [] \<Longrightarrow> ends_slash t = ends_slash s"
  by (auto simp: ends_slash_def suffix_def)

lemma next_component_ends_slash:
  assumes "next_component cursor = Inr (fin, c, rest)"
  shows "\<not> IS_FINAL fin \<Longrightarrow> ends_slash rest = ends_slash cursor \<and> rest \<noteq> []"
    and "IS_FINAL fin \<Longrightarrow> rest = []"
    and "fin = FINAL_SLASH \<Longrightarrow> ends_slash cursor"
    and "fin = FINAL_NORMAL \<Longrightarrow> c \<noteq> [] \<Longrightarrow> \<not> ends_slash cursor"
    and "fin \<noteq> FINAL_DOT"
proof -
  let ?stop = "component_stop cursor"
  have r: "rest = dropWhile (\<lambda>c. c = CHR ''/'') ?stop" "c = takeWhile (\<lambda>c. c \<noteq> CHR ''/'') (component_start cursor)"
    and f: "fin = (if rest = [] then (if c_at ?stop 0 = CHR ''/'' then FINAL_SLASH else FINAL_NORMAL)
         else NOT_FINAL)"
    using assms by (auto simp: next_component_Inr)
  have "suffix rest cursor"
    using component_stop_suffix suffix_dropWhile suffix_order.trans unfolding r(1) by blast
  then show "\<not> IS_FINAL fin \<Longrightarrow> ends_slash rest = ends_slash cursor \<and> rest \<noteq> []"
    using f ends_slash_suffix by (auto simp: IS_FINAL_def split: if_splits)
  show "IS_FINAL fin \<Longrightarrow> rest = []" "fin \<noteq> FINAL_DOT"
    using f by (auto simp: IS_FINAL_def split: if_splits)
  show "ends_slash cursor" if "fin = FINAL_SLASH"
  proof -
    have "rest = []" "?stop \<noteq> []" using that f by (auto split: if_splits)
    then have "last ?stop = CHR ''/''" unfolding r(1) by (simp add: dropWhile_eq_Nil_conv)
    with \<open>?stop \<noteq> []\<close> show ?thesis
      using ends_slash_suffix [OF component_stop_suffix] by (auto simp: ends_slash_def)
  qed
  show "\<not> ends_slash cursor" if "fin = FINAL_NORMAL" "c \<noteq> []"
  proof -
    have "c_at ?stop 0 \<noteq> CHR ''/''" using that f by (auto split: if_splits)
    then have "?stop = []" using component_stop_Cons [of cursor] by (cases ?stop) auto
    then have "c = component_start cursor"
      unfolding r(2) component_stop_def by (simp add: takeWhile_eq_all_conv dropWhile_eq_Nil_conv)
    moreover have "CHR ''/'' \<notin> set c" unfolding r(2) by (auto dest: set_takeWhileD)
    moreover have "suffix (component_start cursor) cursor"
      unfolding component_start_def by (rule suffix_dropWhile)
    ultimately show ?thesis using that(2) ends_slash_suffix [of c cursor]
      by (auto simp: ends_slash_def dest: last_in_set)
  qed
qed

lemma next_component_Nil:
  assumes "next_component cursor = Inr (fin, [], rest)"
  shows "fin = FINAL_NORMAL"
proof -
  let ?st = "component_start cursor"
  have "takeWhile (\<lambda>c. c \<noteq> CHR ''/'') ?st = []" using assms by (simp add: next_component_Inr)
  then have "?st = [] \<or> hd ?st = CHR ''/''" by (cases ?st) (auto split: if_splits)
  then have "?st = []" using hd_dropWhile [of "\<lambda>c. c = CHR ''/''" cursor]
    by (auto simp: component_start_def)
  then have "component_stop cursor = []" by (simp add: component_stop_def)
  with assms show ?thesis by (simp add: next_component_Inr)
qed

text \<open>What remains to be resolved after a step.\<close>

definition remains ::
  "'w env \<Rightarrow> 'w path_state \<Rightarrow> bool \<Rightarrow> finality \<Rightarrow> string \<Rightarrow> string list \<Rightarrow> string list \<Rightarrow> bool" where
  "remains e s d fin rest ms cs \<longleftrightarrow>
     (if IS_FINAL fin then cs = ms
      else resolves (guest_link e s) (guest_magic e s) d (ends_slash rest) ms (names_of rest) cs)"

lemma read_host_link_any:
  "read_host_link e fin h rest s = Follow fin' t rest' \<Longrightarrow>
     read_host_link e NOT_FINAL h [] s = Follow NOT_FINAL t []"
  by (auto simp: read_host_link_def split: sum.splits prod.splits if_splits)

lemma dereference_alias:
  assumes "proc_alias (fs_of s) g = (cmp, base)"
  shows "dereference e fin g c h rest s =
    (case (if cmp = PATHS_ARE_EQUAL \<or> cmp = PATH1_IS_PREFIX then readlink_proc e base c cmp
           else Inr (DEFAULT, [])) of
       Inl err \<Rightarrow> Return (Inl err)
     | Inr (a, q) \<Rightarrow>
         if a = CANONICALIZE then Follow fin q rest
         else if a = DONT_CANONICALIZE \<and> fin = FINAL_NORMAL then Return (Inr q)
         else read_host_link e fin h rest s)"
  using assms by (simp add: dereference_def split: sum.split action.split)

lemma dereference_Follow_any:
  assumes "dereference e fin g c h rest s = Follow fin' t rest'"
  shows "dereference e NOT_FINAL g c h [] s = Follow NOT_FINAL t []"
proof -
  obtain cmp base where "proc_alias (fs_of s) g = (cmp, base)" by fastforce
  note d = dereference_alias [OF this]
  show ?thesis using assms unfolding d
    by (auto dest: read_host_link_any split: sum.splits split del: if_split split: if_split_asm)
qed

lemma dereference_Return_final:
  assumes "dereference e fin g c h rest s = Return (Inr p)"
  shows "fin = FINAL_NORMAL"
proof -
  obtain cmp base where "proc_alias (fs_of s) g = (cmp, base)" by fastforce
  note d = dereference_alias [OF this]
  show ?thesis using assms unfolding d
    by (auto split: sum.splits split del: if_split split: if_split_asm)
qed

lemma names_of_nonempty: "cursor_ok s \<Longrightarrow> names_of s \<noteq> []"
  by (cases s) (auto simp: cursor_ok_def text_ok_def names_of_first)

lemma quiet_simps:
  assumes "quiet e s"
  shows "kernel_ok e" "wf_fs (fs_of s)" "plain_hosts (fs_of s)" "glue_type e = None"
  using assms by (auto simp: quiet_def kernel_ok_def)

text \<open>One iteration is a step of the resolution, whatever comes after it.\<close>

lemma canon_step_resolves:
  assumes q: "quiet e s" and gs: "plains gs" and cur: "cstr cursor" "cursor_ok cursor \<or> gs = []"
    and st: "canon_step e d l cursor (render gs) s = (r, s')"
  defines "goal \<equiv> resolves (guest_link e s) (guest_magic e s) d (ends_slash cursor) gs (names_of cursor)"
  shows "s' = s"
    and "r = Return (Inr p) \<Longrightarrow> \<exists>cs. plains cs \<and> p = render cs \<and> goal cs"
    and "r = Advance fin g' rest \<Longrightarrow>
      \<exists>ms. plains ms \<and> g' = render ms \<and> (\<forall>cs. remains e s d fin rest ms cs \<longrightarrow> goal cs)"
    and "r = Follow fin t rest \<Longrightarrow>
      resolves (guest_link e s) (guest_magic e s) True (ends_slash t) (start_names gs t) (names_of t) mid
      \<Longrightarrow> remains e s d fin rest mid cs \<Longrightarrow> goal cs"
proof -
  have all: "s' = s \<and>
    (\<forall>p. r = Return (Inr p) \<longrightarrow> (\<exists>cs. plains cs \<and> p = render cs \<and> goal cs)) \<and>
    (\<forall>fin g' rest. r = Advance fin g' rest \<longrightarrow>
      (\<exists>ms. plains ms \<and> g' = render ms \<and> (\<forall>cs. remains e s d fin rest ms cs \<longrightarrow> goal cs))) \<and>
    (\<forall>fin t rest mid cs. r = Follow fin t rest \<longrightarrow>
      resolves (guest_link e s) (guest_magic e s) True (ends_slash t) (start_names gs t) (names_of t) mid
      \<longrightarrow> remains e s d fin rest mid cs \<longrightarrow> goal cs)"
  proof (cases "next_component cursor")
    case (Inl err)
    with st show ?thesis by (auto simp: canon_step_def)
  next
    case (Inr x)
    obtain fin0 c rest0 where x: "x = (fin0, c, rest0)" by (cases x)
    note nc = Inr [unfolded x]
    note es = next_component_ends_slash [OF nc]
    have nm: "name c \<or> c = [] \<and> gs = []"
      using next_component_name(1) [OF nc cur(1)] next_component_nonempty [OF nc] cur(2) by auto
    have nms: "names_of cursor = (if c = [] then [] else c # names_of rest0)"
      using next_component_names_of [OF nc] .
    have rem: "resolves (guest_link e s) (guest_magic e s) d (ends_slash cursor) ms (names_of rest0) cs"
      if "remains e s d f rest0 ms cs" "IS_FINAL f = IS_FINAL fin0" for f ms cs
      using that es(1,2) by (auto simp: remains_def names_of_def intro: resolves_end split: if_splits)
    consider (dot) "c = ''.''" | (dotdot) "c = ''..''" | (root) "c = []" "gs = []"
      | (other) "plain c"
      using nm by (auto simp: plain_def)
    then show ?thesis
    proof cases
      case dot
      have "goal cs" if "remains e s d (if IS_FINAL fin0 then FINAL_DOT else fin0) rest0 gs cs" for cs
        using rem [OF that] dot nms unfolding goal_def
        by (auto intro: resolves_dot simp: IS_FINAL_def)
      then show ?thesis using dot st nc gs by (auto simp: canon_step_def)
    next
      case dotdot
      have "goal cs"
        if "remains e s d (if IS_FINAL fin0 then FINAL_SLASH else fin0) rest0 (butlast gs) cs" for cs
        using rem [OF that] dotdot nms unfolding goal_def
        by (auto intro: resolves_dotdot simp: IS_FINAL_def)
      then show ?thesis using dotdot st nc plains_butlast [OF gs]
          pop_component_render [OF plains_names [OF gs]]
        by (auto simp: canon_step_def)
    next
      case root
      have j: "join2 (render gs) c = Inr ''/''" using root join2_root by simp
      obtain r2 s2 where sb: "substitute_binding_stat e fin0 l ''/'' s = (r2, s2)" by fastforce
      have s2: "s2 = s" using quiet_stat(1) [OF q sb] .
      have st0: "stat = 0" if "r2 = Inr (stat, h)" for stat h
        using quiet_stat(2) [OF q sb that] q by (auto simp: quiet_def)
      have "goal cs" if "remains e s d fin0 rest0 [] cs" for cs
        using that root nms next_component_Nil [OF nc [unfolded root(1)]] unfolding goal_def
        by (simp add: remains_def IS_FINAL_def resolves_end)
      then show ?thesis
        using root st nc j sb s2 st0
        by (auto simp: canon_step_def split: sum.splits intro: exI [of _ "[]"])
    next
      case other
      then have c: "c \<noteq> ''.''" "c \<noteq> ''..''" "c \<noteq> []" "name c" by (auto simp: plain_def name_def)
      show ?thesis
      proof (cases "join2 (render gs) c")
        case (Inl err)
        with c st nc show ?thesis by (auto simp: canon_step_def)
      next
        case j: (Inr scratch)
        have scratch: "scratch = render (gs @ [c])"
          using join2_name [OF plains_names [OF gs] c(4)] j by (auto split: if_splits)
        obtain r2 s2 where sb: "substitute_binding_stat e fin0 l scratch s = (r2, s2)" by fastforce
        have s2: "s2 = s" using quiet_stat(1) [OF q sb] .
        show ?thesis
        proof (cases r2)
          case (Inl err)
          with c st nc j sb s2 show ?thesis by (auto simp: canon_step_def)
        next
          case (Inr y)
          obtain stat h where y: "y = (stat, h)" by (cases y)
          obtain n where sub: "substitute_binding (fs_of s) GUEST (render (gs @ [c])) = Inr (n, h)"
            and stat: "stat = (if stat_host_path e (world s) h = Inr S_IFLNK then 1 else 0)"
            using quiet_stat(2) [OF q sb Inr [unfolded y]] scratch by auto
          let ?D = "dereference e fin0 (render gs) c h rest0 s"
          consider (plain_name) "stat = 0 \<or> fin0 = FINAL_NORMAL \<and> \<not> d"
            | (link) "stat_host_path e (world s) h = Inr S_IFLNK" "\<not> (fin0 = FINAL_NORMAL \<and> \<not> d)"
            using stat by argo
          then show ?thesis
          proof cases
            case plain_name
            have "guest_link e s gs c = None \<or> names_of rest0 = [] \<and> \<not> ends_slash cursor \<and> \<not> d"
              using plain_name stat sub es(2,4) c(3)
              by (auto simp: guest_link_def link_step_def IS_FINAL_def names_of_def split: if_splits)
            then have "goal cs" if "remains e s d fin0 rest0 (gs @ [c]) cs" for cs
              using resolves_name [OF other] rem [OF that] nms c(3) unfolding goal_def by simp
            moreover have "r = Advance fin0 scratch rest0" "s' = s"
              using plain_name st nc c j sb s2 Inr y by (auto simp: canon_step_def)
            ultimately show ?thesis using scratch gs other by (auto intro!: exI [of _ "gs @ [c]"])
          next
            case link
            then have r: "r = ?D" "s' = s"
              using st nc c j sb s2 Inr y stat by (auto simp: canon_step_def)
            note dr = dereference_ok [OF quiet_simps(1) [OF q] quiet_simps(2) [OF q] quiet_simps(3) [OF q]
              gs c(1,2) disjI1 [OF c(4)]]
            have ret: "\<exists>cs. plains cs \<and> p = render cs \<and> goal cs" if p: "?D = Return (Inr p)" for p
            proof -
              have fn: "fin0 = FINAL_NORMAL" using dereference_Return_final [OF p] .
              then have e0: "rest0 = []" "\<not> ends_slash cursor" d
                using es(2,4) c(3) link(2) by (auto simp: IS_FINAL_def)
              obtain cs where cs: "plains cs" "p = render cs" using dr(1) [OF p] by blast
              have "guest_magic e s gs c = Some (render cs)"
                using p fn e0 cs link sub by (simp add: guest_magic_def link_step_def)
              then have "goal cs"
                using resolves_magic [OF other _ plains_names [OF cs(1)]] e0 nms c(3) unfolding goal_def
                by (simp add: names_of_def)
              with cs show ?thesis by blast
            qed
            have fol: "goal cs" if t: "?D = Follow fin t rest"
              and mid: "resolves (guest_link e s) (guest_magic e s) True (ends_slash t)
                (start_names gs t) (names_of t) mid" and rm: "remains e s d fin rest mid cs" for fin t rest mid cs
            proof -
              have f: "fin = fin0" "rest = rest0" using dr(2) [OF t] by auto
              have "guest_link e s gs c = Some t"
                using dereference_Follow_any [OF t] link sub by (simp add: guest_link_def link_step_def)
              moreover have "names_of rest0 \<noteq> [] \<or> ends_slash cursor \<or> d"
                using es(3,5) link(2) next_component_rest [OF nc cur(1)] names_of_nonempty
                by (cases fin0) (auto simp: IS_FINAL_def)
              ultimately show ?thesis
                using resolves_link [OF other _ _ mid] rem [OF rm [unfolded f]] nms c(3)
                unfolding goal_def by simp
            qed
            show ?thesis using r ret fol dr(3) by metis
          qed
        qed
      qed
    qed
  qed
  then show "s' = s"
    and "r = Return (Inr p) \<Longrightarrow> \<exists>cs. plains cs \<and> p = render cs \<and> goal cs"
    and "r = Advance fin g' rest \<Longrightarrow>
      \<exists>ms. plains ms \<and> g' = render ms \<and> (\<forall>cs. remains e s d fin rest ms cs \<longrightarrow> goal cs)"
    and "r = Follow fin t rest \<Longrightarrow>
      resolves (guest_link e s) (guest_magic e s) True (ends_slash t) (start_names gs t) (names_of t) mid
      \<Longrightarrow> remains e s d fin rest mid cs \<Longrightarrow> goal cs"
    by blast+
qed

lemma spelled_positive: "0 < l \<Longrightarrow> spelled l p cs \<longleftrightarrow> p = render cs"
  by (simp add: spelled_def)

lemma remains_final: "IS_FINAL fin \<Longrightarrow> remains e s d fin rest ms ms"
  by (simp add: remains_def)

lemma canonicalize_resolution:
  shows "canonicalize e u d g l s = (Inr p, s') \<Longrightarrow> quiet e s \<Longrightarrow> g = render gs \<Longrightarrow> plains gs \<Longrightarrow>
      text_ok u \<Longrightarrow> s' = s \<and> (\<exists>cs. plains cs \<and> spelled l p cs \<and>
        resolves (guest_link e s) (guest_magic e s) d (ends_slash u) (start_names gs u) (names_of u) cs)"
    and "canon_loop e d l n cursor g s = (Inr p, s') \<Longrightarrow> quiet e s \<Longrightarrow> g = render gs \<Longrightarrow> plains gs \<Longrightarrow>
      cstr cursor \<Longrightarrow> cursor_ok cursor \<or> gs = [] \<Longrightarrow> s' = s \<and> (\<exists>cs. plains cs \<and> spelled l p cs \<and>
        resolves (guest_link e s) (guest_magic e s) d (ends_slash cursor) gs (names_of cursor) cs)"
proof (induction e u d g l s and e d l n cursor g s arbitrary: gs p s' and gs p s'
    rule: canonicalize_canon_loop.induct)
  case (1 e u d g l s)
  have len: "\<not> l > MAXSYMLINKS" "\<not> length g \<ge> PATH_MAX"
    using "1.prems"(1) by (auto simp: canonicalize.simps split: if_splits)
  show ?case
  proof (cases "c_at u 0 = CHR ''/''")
    case True
    with len "1.prems" have r: "canon_loop e d l 0 u ''/'' s = (Inr p, s')"
      by (simp add: canonicalize.simps)
    have "s' = s \<and> (\<exists>cs. plains cs \<and> spelled l p cs \<and>
        resolves (guest_link e s) (guest_magic e s) d (ends_slash u) [] (names_of u) cs)"
    proof (intro "1.IH"(2) [OF len, of p s' "[]"])
      show "\<not> c_at u 0 \<noteq> CHR ''/''" using True by simp
      show "canon_loop e d l 0 u ''/'' s = (Inr p, s')" by fact
    qed (use "1.prems" in \<open>simp_all add: text_ok_def\<close>)
    then show ?thesis using True by (simp add: start_names_def)
  next
    case False
    with len "1.prems" have l: "canon_loop e d l 0 u g s = (Inr p, s')" "c_at g 0 = CHR ''/''"
      by (auto simp: canonicalize.simps split: if_splits)
    then have "s' = s \<and> (\<exists>cs. plains cs \<and> spelled l p cs \<and>
        resolves (guest_link e s) (guest_magic e s) d (ends_slash u) gs (names_of u) cs)"
      using "1.prems" False
      by (intro "1.IH"(1) [OF len, of p s' gs]) (simp_all add: text_ok_def cursor_ok_def)
    then show ?thesis using False by (simp add: start_names_def)
  qed
next
  case (2 e d l n cursor g s)
  note q = "2.prems"(2)
  let ?goal = "resolves (guest_link e s) (guest_magic e s) d (ends_slash cursor) gs (names_of cursor)"
  obtain r s1 where st: "canon_step e d l cursor g s = (r, s1)" by fastforce
  note st' = st [unfolded "2.prems"(3)]
  note ok = canon_step_ok [OF quiet_simps(1) [OF q] quiet_simps(2) [OF q] quiet_simps(3) [OF q]
      "2.prems"(4-6) st']
  note re = canon_step_resolves [OF q "2.prems"(4-6) st']
  note loop = canon_loop.simps [of e d l n cursor g s, unfolded st]
  have s1: "s1 = s" using re(1) .
  show ?case
  proof (cases r)
    case (Return x)
    with "2.prems"(1) loop have x: "x = Inr p" "s' = s1" by auto
    then show ?thesis using re(2) Return s1 by (auto simp: spelled_def)
  next
    case (Advance fin g' rest)
    obtain ms where ms: "plains ms" "g' = render ms" "\<And>cs. remains e s d fin rest ms cs \<Longrightarrow> ?goal cs"
      using re(3) [OF Advance] by blast
    have cur: "\<not> IS_FINAL fin \<longrightarrow> cursor_ok rest" using ok(3) [OF Advance] by blast
    show ?thesis
    proof (cases "IS_FINAL fin")
      case True
      with Advance loop "2.prems"(1) have "finish l fin (render ms) = Inr p" "s' = s1"
        by (simp_all add: ms(2))
      then show ?thesis using finish_spelled [OF ms(1)] ms(1) ms(3) [OF remains_final [OF True]] s1
        by auto
    next
      case False
      with Advance loop "2.prems"(1) have "canon_loop e d l n rest g' s1 = (Inr p, s')" by simp
      with "2.IH"(1) [OF st [symmetric] Advance, of p s' ms] False q ms(1,2) cur s1
      obtain cs where "s' = s" "plains cs" "spelled l p cs" "remains e s d fin rest ms cs"
        by (auto simp: cursor_ok_def text_ok_def remains_def)
      with ms(3) show ?thesis by blast
    qed
  next
    case (Follow fin t rest)
    then have t: "text_ok t" "\<not> IS_FINAL fin \<longrightarrow> cursor_ok rest" using ok(4) by auto
    obtain r2 s2 where c: "canonicalize e t True g (l + Suc n) s1 = (r2, s2)" by fastforce
    show ?thesis
    proof (cases r2)
      case (Inl err)
      with Follow loop "2.prems"(1) c show ?thesis by simp
    next
      case (Inr g2)
      have "s2 = s1 \<and> (\<exists>cs. plains cs \<and> spelled (l + Suc n) g2 cs \<and>
          resolves (guest_link e s1) (guest_magic e s1) True (ends_slash t) (start_names gs t) (names_of t) cs)"
        using c [unfolded Inr] q [folded s1] "2.prems"(3,4) t(1)
        by (rule "2.IH"(2) [OF st [symmetric] Follow])
      then obtain mid where mid: "plains mid" "g2 = render mid"
          "resolves (guest_link e s) (guest_magic e s) True (ends_slash t) (start_names gs t) (names_of t) mid"
        and s2: "s2 = s"
        using s1 by (auto simp: spelled_positive)
      note goal = re(4) [OF Follow mid(3)]
      have ne: "g2 \<noteq> g" using Follow loop "2.prems"(1) c Inr by auto
      obtain r3 s3 where b: "substitute_binding_stat e fin l g2 s2 = (r3, s3)" by fastforce
      have s3: "s3 = s" using quiet_stat(1) [OF q b [unfolded s2]] .
      obtain y where y: "r3 = Inr y" using Follow loop "2.prems"(1) c Inr ne b by (cases r3) auto
      show ?thesis
      proof (cases "IS_FINAL fin")
        case True
        with Follow loop "2.prems"(1) c Inr ne b y have "finish l fin (render mid) = Inr p" "s' = s3"
          by (simp_all add: mid(2))
        then show ?thesis
          using finish_spelled [OF mid(1)] mid(1) goal [OF remains_final [OF True]] s3 by auto
      next
        case False
        with Follow loop "2.prems"(1) c Inr ne b y
        have "canon_loop e d l (Suc n) rest g2 s3 = (Inr p, s')" by simp
        with "2.IH"(3) [OF st [symmetric] Follow c [symmetric] Inr ne b [symmetric] y False, of p s' mid]
          q mid(1,2) t(2) False s3
        obtain cs where "s' = s" "plains cs" "spelled l p cs" "remains e s d fin rest mid cs"
          by (auto simp: cursor_ok_def text_ok_def remains_def)
        with goal show ?thesis by blast
      qed
    qed
  qed
qed

text \<open>C7: Without extensions on host paths, a successful canonicalisation refines the abstract
  resolution of names: every link met on the way is replaced by the resolution of its target inside
  the guest, \<open>..\<close> removes the last name, and the root is its own parent.\<close>

theorem canonicalize_refines_resolution:
  assumes "quiet e s" "plains gs" "text_ok u" "canonicalize e u d (render gs) l s = (Inr p, s')"
  shows "s' = s \<and> (\<exists>cs. plains cs \<and> spelled l p cs \<and>
    resolves (guest_link e s) (guest_magic e s) d (ends_slash u) (start_names gs u) (names_of u) cs)"
  using canonicalize_resolution(1) [OF assms(4,1) refl assms(2,3)] .

section \<open>What a translation yields\<close>

text \<open>
  The path \<open>p\<close> of names \<open>ps\<close> is moved to the host by the deepest binding that contains it. The length of
  the result is known before it is written: when it does not fit the buffer, the path stays as it is.
\<close>

definition fits :: "binding \<Rightarrow> string \<Rightarrow> bool" where
  "fits b p \<longleftrightarrow> host b = guest b \<or> host b = ''/'' \<or>
     length p - (if guest b = ''/'' then 0 else length (guest b)) + length (host b) < PATH_MAX"

definition host_image :: "fs_ns \<Rightarrow> string list \<Rightarrow> string \<Rightarrow> string \<Rightarrow> bool" where
  "host_image fs ps p h \<longleftrightarrow>
     (\<exists>b \<in> set (head_list fs GUEST). prefix (guest_pos b) ps \<and>
        (\<forall>b' \<in> set (head_list fs GUEST). prefix (guest_pos b') ps \<longrightarrow> prefix (guest_pos b') (guest_pos b)) \<and>
        (if fits b p then denotes h (relocate (guest_pos b) (host_pos b) ps) else h = p))"

lemma length_one_root: "canonical g \<Longrightarrow> length g = 1 \<longleftrightarrow> g = ''/''"
proof
  assume g: "canonical g" "length g = 1"
  then obtain cs where cs: "names cs" "g = render cs" by (auto simp: canonical_def)
  show "g = ''/''"
  proof (cases cs)
    case (Cons c ds)
    then have "c \<noteq> []" using cs(1) by (simp add: name_def)
    then have "2 \<le> length (render cs)" using Cons by (cases c) (auto simp: render_def spine_def)
    then show ?thesis using cs g by simp
  qed (use cs in \<open>simp add: render_def\<close>)
qed simp

lemma substitute_path_prefix_fits:
  assumes "wf_binding b" "need_substitution b"
  shows "fits b p \<longleftrightarrow> (\<exists>q. substitute_path_prefix p (length (guest b)) (host b) (length (host b)) = Inr q)"
proof -
  have c: "host b \<noteq> guest b" "length (guest b) = 1 \<longleftrightarrow> guest b = ''/''" "length (host b) = 1 \<longleftrightarrow> host b = ''/''"
    using assms length_one_root by (auto simp: wf_binding_def)
  show ?thesis
    using c by (auto simp: fits_def substitute_path_prefix_def Let_def add.commute)
qed

lemma substitute_guest_image:
  assumes "wf_fs fs" "names ps" "denotes p ps" "substitute_binding fs GUEST p = Inr (n, r)"
  shows "host_image fs ps p r"
proof -
  obtain b where b: "get_binding fs GUEST p = Some b" "b \<in> set (head_list fs GUEST)" "prefix (guest_pos b) ps"
      "\<forall>b' \<in> set (head_list fs GUEST). prefix (guest_pos b') ps \<longrightarrow> prefix (guest_pos b') (guest_pos b)"
    using get_binding_deepest [OF assms(1,3,2)] by blast
  have wf: "wf_binding b" using get_binding_in [OF assms(1-3) b(1)] by blast
  have "if fits b p then denotes r (relocate (guest_pos b) (host_pos b) ps) else r = p"
    using assms
  proof (cases rule: substitute_guest_cases)
    case (translated b1)
    then have [simp]: "b1 = b" using b(1) by simp
    have "fits b p"
    proof (cases "need_substitution b")
      case True
      then show ?thesis using substitute_path_prefix_fits [OF wf True] translated(7) by auto
    next
      case False
      then show ?thesis using wf by (simp add: fits_def wf_binding_def)
    qed
    then show ?thesis using translated(5) by simp
  next
    case (overflow b1 err)
    then have [simp]: "b1 = b" using b(1) by simp
    have "\<not> fits b p" using substitute_path_prefix_fits [OF wf, of p] overflow(4,5) by simp
    then show ?thesis using overflow(2) by simp
  qed
  then show ?thesis unfolding host_image_def using b(2-4) by blast
qed

lemma names_of_append_slash: "names_of (s @ CHR ''/'' # t) = names_of s @ names_of t"
proof -
  have "split_slash (s @ CHR ''/'' # t) = split_slash s @ split_slash t"
    by (induction s) (auto split: list.split simp: append_eq_Cons_conv)
  then show ?thesis by (simp add: names_of_def)
qed

lemma names_of_append:
  assumes "ends_slash a \<or> c_at b 0 = CHR ''/''"
  shows "names_of (a @ b) = names_of a @ names_of b"
  using assms
proof
  assume "ends_slash a"
  then obtain a' where "a = a' @ ''/''" by (metis append_butlast_last_id ends_slash_def)
  then show ?thesis using names_of_append_slash [of a' b] names_of_append_slash [of a' "[]"]
    by (simp add: names_of_def)
next
  assume "c_at b 0 = CHR ''/''"
  then obtain b' where "b = CHR ''/'' # b'" by (cases b) (auto simp: c_at_def)
  then show ?thesis using names_of_append_slash [of a b'] by (simp add: names_of_Cons)
qed

lemma join2_names:
  assumes "join2 a b = Inr q" "a \<noteq> []" "b \<noteq> []"
  shows "names_of q = names_of a @ names_of b" "ends_slash q = ends_slash b"
proof -
  have l: "c_at a (length a - 1) = CHR ''/'' \<longleftrightarrow> ends_slash a"
    using c_at_last [OF assms(2)] assms(2) by (simp add: ends_slash_def)
  then consider "q = a @ ''/'' @ b" | "q = a @ drop 1 b" "ends_slash a" "c_at b 0 = CHR ''/''"
    | "q = a @ b" "ends_slash a \<or> c_at b 0 = CHR ''/''"
    using assms by (auto simp: join_paths_def Let_def split: if_splits)
  then have "names_of q = names_of a @ names_of b \<and> ends_slash q = ends_slash b"
  proof cases
    case 1
    then show ?thesis using names_of_append_slash [of a b] assms(3) by (simp add: ends_slash_def)
  next
    case 2
    obtain b' where b: "b = CHR ''/'' # b'" using 2(3) assms(3) by (cases b) (auto simp: c_at_def)
    then have "names_of q = names_of a @ names_of b" using 2 names_of_append [of a b'] by (simp add: names_of_Cons)
    then show ?thesis using 2 b by (cases b') (auto simp: ends_slash_def)
  next
    case 3
    then show ?thesis using names_of_append [of a b] assms(3) by (simp add: ends_slash_def)
  qed
  then show "names_of q = names_of a @ names_of b" "ends_slash q = ends_slash b" by simp_all
qed

text \<open>C6: The path that a successful translation yields. The base is the root, the directory of the descriptor
  or the current directory; the callbacks on guest paths see it first. When one of them answers, its
  path goes on; otherwise the names of the base and of the path of the tracee are resolved inside the guest (with
  links followed there, as in the abstract resolution, when no extension rewrites host paths), the resulting path, which has no
  \<open>..\<close>, is moved to the host side of the deepest binding that contains it, and nothing is changed by the translation but the
  world outside PRoot. Only a path that does not fit the buffer once it is moved stays a guest path, and only
  the callbacks on translated paths, which come last, can lead elsewhere; all callbacks keep a string in
  their buffer.\<close>

theorem translate_path_confined:
  assumes "kernel_ok e" "wf_fs (fs_of s)" "plain_hosts (fs_of s)" "text_ok (cwd (fs_of s))" "callbacks_ok e"
    and "text_ok user" "translation_base e fd user s = Inr base"
    and "notify_extensions (ext_guest_path e) (world s) base user = (st0, base', w1)"
    and "translate_path e fd user d s = (Inr h, s')"
  defines "s1 \<equiv> s\<lparr>world := w1\<rparr>"
  shows "\<exists>h0 w st. fs_of s' = fs_of s \<and> 0 \<le> st \<and>
    notify_extensions (ext_translated_path e) w h0 () = (st, h, world s') \<and>
    (if 0 < st0 then h0 = base' \<and> w = w1
     else st0 = 0 \<and>
       (\<exists>cs ps p. plains cs \<and> (ps = cs \<or> ps = cs @ [''.'']) \<and> denotes p ps \<and> ''..'' \<notin> set ps \<and>
          host_image (fs_of s) ps p h0 \<and>
          (quiet e s1 \<longrightarrow> w = w1 \<and>
             resolves (guest_link e s1) (guest_magic e s1) d (ends_slash user) []
               (names_of base' @ names_of user) cs)))"
  using assms(9,7,8)
proof (cases rule: translate_path_steps)
  case (answered st)
  then show ?thesis by auto
next
  case (resolved g0 g s2 n h0 st)
  have cb: "\<forall>c \<in> set (ext_guest_path e). keeps_buffer c" using assms(5) by (simp add: callbacks_ok_def)
  have b: "text_ok base'"
    using notify_keeps [OF cb translation_base_text [OF assms(1,2,4,7)] translation_base_length [OF assms(7)] assms(8)] by simp
  have "cstr user" using assms(6) by (simp add: text_ok_def)
  then have g0: "text_ok g0" using join2_text [OF resolved(2) b] by simp
  have fs1: "fs_of s1 = fs_of s" "world s1 = w1" by (simp_all add: s1_def)
  note c = resolved(3) [folded s1_def]
  have ne: "base' \<noteq> []" "user \<noteq> []" using b assms(6) by (simp_all add: text_ok_def)
  note g0n = join2_names [OF resolved(2) ne]
  have "\<exists>cs. plains cs \<and> spelled 0 g cs \<and> fs_of s2 = fs_of s \<and> (quiet e s1 \<longrightarrow> world s2 = w1 \<and>
      resolves (guest_link e s1) (guest_magic e s1) d (ends_slash user) [] (names_of base' @ names_of user) cs)"
  proof (cases "quiet e s1")
    case True
    from canonicalize_resolution(1) [OF c True, of "[]"] g0
    show ?thesis using g0n fs1 by (auto simp: start_names_def)
  next
    case False
    from canonicalize_spelled(1) [OF c assms(1), of "[]"] g0 assms(2,3) fs1 show ?thesis using False by auto
  qed
  then obtain cs where cs: "plains cs" "spelled 0 g cs" and fs: "fs_of s2 = fs_of s"
    and q: "quiet e s1 \<longrightarrow> world s2 = w1 \<and>
      resolves (guest_link e s1) (guest_magic e s1) d (ends_slash user) [] (names_of base' @ names_of user) cs"
    by blast
  obtain ps where ps: "names ps" "''..'' \<notin> set ps" "denotes g ps" "ps = cs \<or> ps = cs @ [''.'']"
    using spelled_denotes_names [OF cs] by blast
  have im: "host_image (fs_of s) ps g h0" using substitute_guest_image [OF assms(2) ps(1,3)] resolved(4) fs by simp
  show ?thesis
    by (intro exI [of _ h0] exI [of _ "world s2"] exI [of _ st] conjI)
      (use resolved(1,5-7) fs cs(1) ps im q in auto)
qed

section \<open>Success without links\<close>

text \<open>The lexical normal form of a list of names, and the spelling of the final special name.\<close>

fun normalise :: "string list \<Rightarrow> string list \<Rightarrow> string list" where
  "normalise base [] = base"
| "normalise base (c # cs) =
     (if c = ''.'' then normalise base cs
      else if c = ''..'' then normalise (butlast base) cs
      else normalise (base @ [c]) cs)"

definition lexical :: "string list \<Rightarrow> string \<Rightarrow> string" where
  "lexical cs final =
     (if final = ''.'' then render (cs @ [''.''])
      else if final = ''..'' then (if cs = [] then ''/'' else render cs @ ''/'')
      else render cs)"

definition all_directories :: "'w env \<Rightarrow> 'w path_state \<Rightarrow> bool" where
  "all_directories e s \<longleftrightarrow> (\<forall>h. stat_host_path e (world s) h = Inr S_IFDIR)"

lemma substitute_guest_total:
  assumes "wf_fs fs" "names ps"
  shows "\<exists>n h. substitute_binding fs GUEST (render ps) = Inr (n, h)"
proof -
  obtain b where "get_binding fs GUEST (render ps) = Some b"
    using get_binding_deepest [OF assms(1) denotes_render assms(2)] by blast
  then show ?thesis by (auto simp: substitute_binding_def split: sum.splits)
qed

lemma directory_stat:
  assumes "quiet e s" "all_directories e s" "names ps"
  shows "\<exists>h. substitute_binding_stat e fin l (render ps) s = (Inr (0, h), s)"
  using assms substitute_guest_total [OF quiet_simps(2) [OF assms(1)] assms(3)]
  by (auto simp: quiet_def kernel_ok_def substitute_binding_stat_def all_directories_def Let_def)

lemma canon_step_directory:
  assumes "quiet e s" "all_directories e s" "plains gs" "names (c # cs)" "length c < NAME_MAX"
    and "length (render gs) + length c + 2 < PATH_MAX"
    and "cursor = spine (c # cs) \<or> cursor = c @ spine cs"
  shows "canon_step e d l cursor (render gs) s =
    (Advance
       (if cs \<noteq> [] then NOT_FINAL else if c = ''.'' then FINAL_DOT
        else if c = ''..'' then FINAL_SLASH else FINAL_NORMAL)
       (render (normalise gs [c])) (drop 1 (spine cs)), s)"
proof -
  have nc: "next_component cursor = Inr (if cs = [] then FINAL_NORMAL else NOT_FINAL, c, drop 1 (spine cs))"
    using next_component_spine [OF assms(4,5)] assms(7) by auto
  note gs = plains_names [OF assms(3)]
  show ?thesis
  proof (cases "c = ''.'' \<or> c = ''..''")
    case True
    then show ?thesis
      using nc pop_component_render [OF gs] by (auto simp: canon_step_def IS_FINAL_def)
  next
    case False
    have "length (render (gs @ [c])) \<le> length (render gs) + length c + 1"
      by (simp add: render_def)
    then have j: "join2 (render gs) c = Inr (render (gs @ [c]))"
      using join2_name [OF gs, of c] assms(4,6) by simp
    have "names (gs @ [c])" using gs assms(4) by simp
    then obtain h where "substitute_binding_stat e (if cs = [] then FINAL_NORMAL else NOT_FINAL) l
        (render (gs @ [c])) s = (Inr (0, h), s)"
      using directory_stat [OF assms(1,2)] by blast
    with False nc j show ?thesis by (simp add: canon_step_def)
  qed
qed

lemma finish_lexical:
  assumes "names ns" "length (render ns) + 3 < PATH_MAX"
  shows "finish 0 (if c = ''.'' then FINAL_DOT else if c = ''..'' then FINAL_SLASH else FINAL_NORMAL)
    (render ns) = Inr (lexical ns c)"
proof -
  have "name ''.''" by (simp add: name_def)
  moreover have "length (render (ns @ [''.''])) \<le> length (render ns) + 2" by (simp add: render_def)
  ultimately show ?thesis
    using join2_name [OF assms(1), of "''.''"] join2_slash [OF assms(1)] join2_root assms(2)
    by (auto simp: finish_def lexical_def)
qed

lemma normalise_Cons: "normalise gs (c # cs) = normalise (normalise gs [c]) cs"
  by simp

lemma plains_normalise: "plains gs \<Longrightarrow> names us \<Longrightarrow> plains (normalise gs us)"
  by (induction us arbitrary: gs) (auto simp: plains_butlast plain_def)

lemma length_render_butlast: "length (render (butlast gs)) \<le> length (render gs)"
  by (cases gs rule: rev_cases) (auto simp: render_def)

lemma length_normalise: "length (render (normalise gs [c])) \<le> length (render gs) + length c + 1"
  using length_render_butlast [of gs] by (auto simp: render_def)

lemma canon_loop_lexical:
  assumes "quiet e s" "all_directories e s" "plains gs" "names us" "us \<noteq> []"
    and "\<forall>c \<in> set us. length c < NAME_MAX"
    and "length (render gs) + length (spine us) + 3 < PATH_MAX"
    and "cursor = spine us \<or> cursor = drop 1 (spine us)"
  shows "canon_loop e d 0 n cursor (render gs) s = (Inr (lexical (normalise gs us) (last us)), s)"
  using assms(3-)
proof (induction us arbitrary: gs cursor)
  case (Cons c cs)
  have st: "canon_step e d 0 cursor (render gs) s =
    (Advance
       (if cs \<noteq> [] then NOT_FINAL else if c = ''.'' then FINAL_DOT
        else if c = ''..'' then FINAL_SLASH else FINAL_NORMAL)
       (render (normalise gs [c])) (drop 1 (spine cs)), s)"
    using Cons.prems by (intro canon_step_directory [OF assms(1,2)]) auto
  have pl: "plains (normalise gs [c])" using Cons.prems by (intro plains_normalise) auto
  note len = length_normalise [of gs c]
  show ?case
  proof (cases "cs = []")
    case True
    then have "finish 0 (if c = ''.'' then FINAL_DOT else if c = ''..'' then FINAL_SLASH else FINAL_NORMAL)
        (render (normalise gs [c])) = Inr (lexical (normalise gs [c]) c)"
      using len Cons.prems(5) by (intro finish_lexical [OF plains_names [OF pl]]) simp
    moreover have "IS_FINAL (if c = ''.'' then FINAL_DOT else if c = ''..'' then FINAL_SLASH else FINAL_NORMAL)"
      by (simp add: IS_FINAL_def)
    ultimately show ?thesis using st True
      by (simp add: canon_loop.simps [of e d 0 n cursor] del: normalise.simps split del: if_split)
  next
    case False
    then have "canon_loop e d 0 n (drop 1 (spine cs)) (render (normalise gs [c])) s =
        (Inr (lexical (normalise (normalise gs [c]) cs) (last cs)), s)"
      using Cons.prems len by (intro Cons.IH [OF pl]) auto
    with st False show ?thesis
      unfolding normalise_Cons [of gs c cs]
      by (simp add: canon_loop.simps [of e d 0 n cursor] IS_FINAL_def del: normalise.simps)
  qed
qed simp

text \<open>In a tree of directories, canonicalisation succeeds on every absolute path whose names are
  shorter than the component buffer and that leaves room for the suffix, and computes its lexical
  normal form; a final \<open>.\<close> is kept, a final \<open>..\<close> leaves a separator.\<close>

theorem canonicalize_lexical:
  assumes "quiet e s" "all_directories e s" "names us" "us \<noteq> []"
    and "\<forall>c \<in> set us. length c < NAME_MAX" "length (spine us) + 4 < PATH_MAX"
  shows "canonicalize e (spine us) d ''/'' 0 s = (Inr (lexical (normalise [] us) (last us)), s)"
proof -
  have "canon_loop e d 0 0 (spine us) (render []) s = (Inr (lexical (normalise [] us) (last us)), s)"
    using assms by (intro canon_loop_lexical) (auto simp: render_def)
  moreover have "c_at (spine us) 0 = CHR ''/''" using assms(4) by (cases us) auto
  ultimately show ?thesis by (simp add: canonicalize.simps PATH_MAX_def MAXSYMLINKS_def)
qed

section \<open>Translation and back\<close>

lemma wf_root:
  assumes "wf_fs fs"
  obtains r where "get_root fs = Some (host r)" "r \<in> set (head_list fs GUEST)" "guest r = ''/''"
    "wf_binding r" "\<And>b. b \<in> set (head_list fs GUEST) \<Longrightarrow> guest b = ''/'' \<Longrightarrow> b = r"
proof -
  obtain gs hs where fs: "guest_list fs = Some gs" and wf: "wf_lists gs hs"
    using assms by (rule wf_fsE)
  have l: "last gs \<in> set gs" "guest (last gs) = ''/''" "wf_binding (last gs)" "gs \<noteq> []"
      "inj_on guest (set gs)"
    using wf by (auto simp: wf_lists_def distinct_map)
  then have "b = last gs" if "b \<in> set gs" "guest b = ''/''" for b
    using that inj_onD [of guest "set gs" b "last gs"] by simp
  with l show thesis
    by (intro that [of "last gs"]) (auto simp: get_root_def fs head_list_def list_of_def)
qed

lemma substitute_host_back:
  assumes "wf_binding b" "names rs" "need_substitution b"
    and "length (render (guest_pos b @ rs)) + 1 < PATH_MAX"
  shows "substitute_path_prefix (render (host_pos b @ rs)) (length (host b)) (guest b) (length (guest b))
    = Inr (render (guest_pos b @ rs))"
proof -
  have c: "host b = render (host_pos b)" "guest b = render (guest_pos b)" "names (host_pos b)"
      "names (guest_pos b)" "need_substitution b \<longleftrightarrow> host b \<noteq> guest b"
    using assms(1) by (auto simp: wf_binding_def canonical_def)
  then have "host_pos b \<noteq> [] \<or> guest_pos b \<noteq> []" using assms(3) by metis
  then show ?thesis
    using substitute_path_prefix_render [of "host_pos b" rs "guest_pos b"] assms(2,4) c by simp
qed

lemma remove_root_render:
  assumes "root_path fs = render rp" "names (rp @ rs)"
  shows "\<exists>n. remove_root fs (render (rp @ rs)) sc = Inr (n, render rs)"
proof -
  have n: "names rp" "names (rp @ rs)" using assms(2) by auto
  have c: "compare_paths (render rp) (render (rp @ rs)) = prefix_comparison rp (rp @ rs)"
    by (rule compare_paths_prefix) (use n in auto)
  show ?thesis
  proof (cases "rs = []")
    case True
    then show ?thesis using c by (auto simp: remove_root_def assms(1) prefix_comparison_def)
  next
    case False
    then have c': "compare_paths (render rp) (render (rp @ rs)) = PATH1_IS_PREFIX"
      unfolding c by (auto simp: prefix_comparison_iff strict_prefix_def)
    have "length (render rp) = 1 \<longleftrightarrow> rp = []"
      using length_spine_ge2 [OF n(1)] by (auto simp: render_def)
    then show ?thesis using False
      unfolding remove_root_def assms(1) c' by (auto simp: render_def Let_def)
  qed
qed

text \<open>C8: Translating a canonical guest path to the host and detranslating the result gives the path
  back, when the reverse look-up finds the binding that was used or when this binding is the rootfs.\<close>

theorem detranslate_translate:
  assumes "wf_fs fs" "names ps" "get_binding fs GUEST (render ps) = Some b"
    and "h = render (relocate (guest_pos b) (host_pos b) ps)"
    and "length h + 1 < PATH_MAX" "length (render ps) + 1 < PATH_MAX"
    and "get_binding fs HOST h = Some b \<or> guest b = ''/'' \<and> get_binding fs HOST h = None"
  shows "(\<exists>n. substitute_binding fs GUEST (render ps) = Inr (n, h)) \<and>
    (\<exists>n. detranslate_path e fs h None = Inr (n, render ps))"
proof -
  note b = get_binding_in [OF assms(1,2) denotes_render assms(3)]
  obtain rs where ps: "ps = guest_pos b @ rs" using b(2) by (auto elim: prefixE)
  have h: "h = render (host_pos b @ rs)" using assms(4) ps by (simp add: relocate_def)
  have c: "names (host_pos b)" "host b = render (host_pos b)" "need_substitution b \<longleftrightarrow> host b \<noteq> guest b"
    using b(1) by (auto simp: wf_binding_def canonical_def)
  have fwd: "\<exists>n. substitute_binding fs GUEST (render ps) = Inr (n, h)"
    using substitute_guest_render [OF assms(1-3)] assms(4,5) by simp
  have abs: "length h < PATH_MAX" "c_at h 0 = CHR ''/''" using assms(5) h by simp_all
  have d: "detranslate_path e fs h None = follow_then_remove fs h True True"
    using abs by (simp add: detranslate_path_def)
  show ?thesis
  proof (cases "get_binding fs HOST h")
    case (Some b')
    with assms(7) have g: "get_binding fs HOST h = Some b" by auto
    have "\<exists>n. follow_then_remove fs h True True = Inr (n, render ps)"
    proof (cases "need_substitution b")
      case False
      then have "h = render ps" using h ps c(3) by simp
      with g False show ?thesis by (simp add: follow_then_remove_def substitute_binding_def)
    next
      case True
      have "substitute_path_prefix h (length (host b)) (guest b) (length (guest b)) = Inr (render ps)"
        unfolding h ps using assms(2,6) ps by (intro substitute_host_back [OF b(1) _ True]) auto
      with g True show ?thesis by (simp add: follow_then_remove_def substitute_binding_def)
    qed
    with fwd d show ?thesis by simp
  next
    case None
    then have gr: "guest b = ''/''" using assms(7) by auto
    obtain r where r: "get_root fs = Some (host r)" "\<And>b. b \<in> set (head_list fs GUEST) \<Longrightarrow>
        guest b = ''/'' \<Longrightarrow> b = r"
      using wf_root [OF assms(1)] by metis
    then have "root_path fs = render (host_pos b)" using b(3) gr c(2) by (auto simp: root_path_def)
    moreover have "ps = rs" using ps gr by (simp add: names_of_def)
    ultimately have "\<exists>n. remove_root fs h True = Inr (n, render ps)"
      unfolding h using remove_root_render [of fs "host_pos b" rs True] c(1) assms(2) by simp
    moreover have "follow_then_remove fs h True True = remove_root fs h True"
      using None by (simp add: follow_then_remove_def substitute_binding_def)
    ultimately show ?thesis using fwd d by simp
  qed
qed

section \<open>A concrete file system\<close>

text \<open>
  A host on which \<open>/data/rootfs/lib\<close> links to \<open>usr/../usr/lib\<close> and everything else is a directory;
  no extension is registered. The bindings are those of \<open>example_fs\<close>.
\<close>

definition example_readlink :: "unit \<Rightarrow> string \<Rightarrow> string res" where
  "example_readlink w p = (if p = ''/data/rootfs/lib'' then Inr ''usr/../usr/lib'' else Inl EINVAL)"

definition example_lstat :: "unit \<Rightarrow> string \<Rightarrow> ftype res" where
  "example_lstat w p = (if p = ''/data/rootfs/lib'' then Inr S_IFLNK else Inr S_IFDIR)"

definition example_env :: "unit env" where
  "example_env = \<lparr>k_lstat = example_lstat, k_readlink = example_readlink,
     k_mkdir = (\<lambda>w p m. (Inl EACCES, w)), k_mknod = (\<lambda>w p m t. (Inl EACCES, w)),
     k_mkdtemp = (\<lambda>w. (None, w)), k_readdir = (\<lambda>w p. None),
     f2fs_bug_detected = False, dont_pollute_rootfs = False,
     ext_guest_path = [], ext_host_path = [], ext_translated_path = [],
     tracee_pid = 42, tracee_of = (\<lambda>pid. None), glue_type = None,
     k_realpath = (\<lambda>w p. Inr p), k_getcwd = (\<lambda>w. Inr ''/''), k_stat = (\<lambda>w p. Inr (S_IFDIR, True))\<rparr>"

definition example_state :: "unit path_state" where
  "example_state = \<lparr>fs_of = example_fs, glue = None, placeholders = [], next_bid = 3, world = ()\<rparr>"

lemma example_kernel_ok: "kernel_ok example_env"
  by (auto simp: kernel_ok_def example_env_def example_readlink_def text_ok_def cstr_def)

lemma example_plain_hosts: "plain_hosts example_fs"
  by code_simp

lemma example_canonicalize:
  "canonicalize example_env ''/lib/../lib/x/'' True ''/'' 0 example_state =
     (Inr ''/usr/lib/x/'', example_state)"
  by code_simp

lemma example_quiet: "quiet example_env example_state"
proof -
  have "substitute_binding (fs_of example_state) GUEST ''/'' = Inr (1, ''/data/rootfs'')"
    and "stat_host_path example_env (world example_state) ''/data/rootfs'' = Inr S_IFDIR"
    by code_simp+
  moreover have "fs_of example_state = example_fs" "ext_host_path example_env = []"
    by (simp_all add: example_state_def example_env_def)
  ultimately show ?thesis
    using example_kernel_ok example_wf example_plain_hosts by (auto simp: quiet_def)
qed

lemma example_text: "text_ok ''/lib/../lib/x/''"
  by code_simp

lemma canonicalize_plain_witness: "\<exists>cs. plains cs \<and> spelled 0 ''/usr/lib/x/'' cs"
proof -
  have "fs_of example_state = example_fs" by (simp add: example_state_def)
  then show ?thesis
    using canonicalize_plain [of example_env example_state "[]" "''/lib/../lib/x/''" True 0]
      example_kernel_ok example_wf example_plain_hosts example_text example_canonicalize by simp
qed

lemma canonicalize_resolution_witness:
  "\<exists>cs. spelled 0 ''/usr/lib/x/'' cs \<and>
    resolves (guest_link example_env example_state) (guest_magic example_env example_state) True True
      [] [''lib'', ''..'', ''lib'', ''x''] cs"
proof -
  have "names_of ''/lib/../lib/x/'' = [''lib'', ''..'', ''lib'', ''x'']"
    "ends_slash ''/lib/../lib/x/''" "start_names [] ''/lib/../lib/x/'' = []" by code_simp+
  then show ?thesis
    using canonicalize_refines_resolution [OF example_quiet _ example_text, of "[]" True 0]
      example_canonicalize by auto
qed

text \<open>An extension that, like \<open>mountinfo\<close>, answers for one host path.\<close>

definition answering_env :: "unit env" where
  "answering_env = example_env\<lparr>ext_translated_path :=
     [\<lambda>w p _. (0, if p = ''/data/rootfs/a'' then ''/tmp/a'' else p, w)]\<rparr>"

lemma example_translate:
  "translate_path answering_env AT_FDCWD ''mnt/../lib/../../../a'' True example_state =
     (Inr ''/tmp/a'', example_state)"
  "translation_base answering_env AT_FDCWD ''mnt/../lib/../../../a'' example_state = Inr ''/''"
  by code_simp+

lemma translate_confined_witness:
  "\<exists>cs ps p h0. plains cs \<and> (ps = cs \<or> ps = cs @ [''.'']) \<and> denotes p ps \<and> host_image example_fs ps p h0 \<and>
     (if h0 = ''/data/rootfs/a'' then ''/tmp/a'' else h0) = ''/tmp/a''"
proof -
  have "text_ok ''/tmp/a''" "length ''/tmp/a'' < PATH_MAX" by (simp_all add: text_ok_def cstr_def PATH_MAX_def)
  then have cb: "callbacks_ok answering_env"
    by (auto simp: callbacks_ok_def answering_env_def example_env_def keeps_buffer_def)
  have fs: "fs_of example_state = example_fs" by (simp add: example_state_def)
  have k: "kernel_ok answering_env" "wf_fs (fs_of example_state)" "plain_hosts (fs_of example_state)"
    using example_kernel_ok example_wf example_plain_hosts fs by (simp_all add: answering_env_def kernel_ok_def)
  have t: "text_ok (cwd (fs_of example_state))" "text_ok ''mnt/../lib/../../../a''"
    unfolding fs by code_simp+
  have n: "notify_extensions (ext_guest_path answering_env) (world example_state) ''/'' ''mnt/../lib/../../../a'' =
      (0, ''/'', world example_state)"
    by (simp add: answering_env_def example_env_def)
  obtain h0 w st cs ps p where r:
      "notify_extensions (ext_translated_path answering_env) w h0 () = (st, ''/tmp/a'', world example_state)"
      "plains cs" "ps = cs \<or> ps = cs @ [''.'']" "denotes p ps" "host_image example_fs ps p h0"
    using translate_path_confined [OF k t(1) cb t(2) example_translate(2) n example_translate(1)]
    unfolding fs by (simp only: less_irrefl if_False) blast
  have "(if h0 = ''/data/rootfs/a'' then ''/tmp/a'' else h0) = ''/tmp/a''"
    using r(1) by (simp add: answering_env_def)
  with r(2-5) show ?thesis by blast
qed

definition directories_env :: "unit env" where
  "directories_env = example_env\<lparr>k_lstat := (\<lambda>w p. Inr S_IFDIR)\<rparr>"

lemma directories_quiet: "quiet directories_env example_state" "all_directories directories_env example_state"
proof -
  have "stat_host_path directories_env w h = Inr S_IFDIR" for w h
    by (simp add: stat_host_path_def should_skip_file_access_def directories_env_def example_env_def)
  moreover have "kernel_ok directories_env"
    using example_kernel_ok by (simp add: kernel_ok_def directories_env_def)
  moreover have "ext_host_path directories_env = []" by (simp add: directories_env_def example_env_def)
  ultimately show "quiet directories_env example_state" "all_directories directories_env example_state"
    using example_quiet by (auto simp: quiet_def all_directories_def)
qed

lemma canonicalize_lexical_witness:
  "canonicalize directories_env ''/a/./b/../c/..'' False ''/'' 0 example_state =
     (Inr ''/a/'', example_state)"
proof -
  let ?us = "[''a'', ''.'', ''b'', ''..'', ''c'', ''..'']"
  have "names ?us" "spine ?us = ''/a/./b/../c/..''" "lexical (normalise [] ?us) (last ?us) = ''/a/''"
    by code_simp+
  then show ?thesis
    using canonicalize_lexical [OF directories_quiet, of ?us False] by (simp add: NAME_MAX_def PATH_MAX_def)
qed

lemma detranslate_witness:
  "\<exists>n. detranslate_path example_env example_fs ''/sdcard/a'' None = Inr (n, ''/mnt/a'')"
proof -
  let ?b = "\<lparr>bid = 1, host = ''/sdcard'', guest = ''/mnt'', need_substitution = True,
    must_exist = False\<rparr> :: binding"
  have n: "names [''mnt'', ''a'']" and g: "get_binding example_fs GUEST (render [''mnt'', ''a'']) = Some ?b"
    and h: "''/sdcard/a'' = render (relocate (guest_pos ?b) (host_pos ?b) [''mnt'', ''a''])"
    and b: "get_binding example_fs HOST ''/sdcard/a'' = Some ?b"
    and r: "render [''mnt'', ''a''] = ''/mnt/a''"
    by code_simp+
  have "length ''/sdcard/a'' + 1 < PATH_MAX" "length (render [''mnt'', ''a'']) + 1 < PATH_MAX"
    unfolding r by (simp_all add: PATH_MAX_def)
  from detranslate_translate [OF example_wf n g h this disjI1 [OF b]] show ?thesis
    unfolding r by blast
qed

end
