(* ===== verification/Mounts.thy ===== *)
theory Mounts
  imports Resolve
begin

text \<open>
  Emulated mounts, \<open>syscall/enter.c\<close>: \<open>mount\<close>, \<open>umount\<close> and \<open>pivot_root\<close> become changes of the binding
  tables. The abstract view of the tables is the mount table: the host side of every guest path that is
  bound. A binding that another one replaces keeps its contents here as long as the code uses it.
\<close>

section \<open>The code\<close>

definition MS_REMOUNT :: word_t where "MS_REMOUNT = 32"
definition MS_BIND :: word_t where "MS_BIND = 4096"

definition guest_canonicalize ::
  "'w env \<Rightarrow> string \<Rightarrow> 'w path_state \<Rightarrow> (string res \<times> 'w path_state)" where
  "guest_canonicalize e user_path s =
     (case (if c_at user_path 0 = CHR ''/'' then Inr ''/'' else getcwd2 e (Some s) (world s)) of
        Inl err \<Rightarrow> (Inl err, s)
      | Inr guest_path \<Rightarrow>
          (case canonicalize e user_path True guest_path 0 s of
             (Inl err, s) \<Rightarrow> (Inl err, s)
           | (Inr guest_path, s) \<Rightarrow> (Inr (chop_finality guest_path), s)))"

definition insort_new :: "string \<Rightarrow> string \<Rightarrow> 'w path_state \<Rightarrow> 'w path_state" where
  "insort_new host_path guest_path s =
     s\<lparr>fs_of := insort_binding3 (fs_of s) (next_bid s) host_path guest_path, next_bid := Suc (next_bid s)\<rparr>"

text \<open>The host path of a mount; \<open>create_temp_directory\<close> is the call of \<open>mkdtemp\<close> of the environment.\<close>

definition mount_source ::
  "'w env \<Rightarrow> string \<Rightarrow> string \<Rightarrow> word_t \<Rightarrow> 'w path_state \<Rightarrow> (string option \<times> 'w path_state)" where
  "mount_source e src_user fstype flags s =
     (if flags AND MS_BIND \<noteq> 0 then
        (case translate_path e AT_FDCWD src_user True s of
           (Inl _, s) \<Rightarrow> (None, s) | (Inr host_path, s) \<Rightarrow> (Some host_path, s))
      else if fstype = ''proc'' then (Some ''/proc'', s)
      else if fstype = ''sysfs'' then (Some ''/sys'', s)
      else if fstype = ''devtmpfs'' then (Some ''/dev'', s)
      else if fstype = ''devpts'' then (Some ''/dev/pts'', s)
      else if fstype = ''tmpfs'' then
        (case k_mkdtemp e (world s) of
           (None, w) \<Rightarrow> (None, s\<lparr>world := w\<rparr>)
         | (Some tmpdir, w) \<Rightarrow> (Some (take (PATH_MAX - 1) tmpdir), s\<lparr>world := w\<rparr>))
      else (None, s))"

definition emulate_mount ::
  "'w env \<Rightarrow> string \<Rightarrow> string \<Rightarrow> string \<Rightarrow> word_t \<Rightarrow> 'w path_state \<Rightarrow> 'w path_state" where
  "emulate_mount e src_user target_user fstype flags s =
     (if flags AND MS_REMOUNT \<noteq> 0 then s
      else
        (case mount_source e src_user fstype flags s of
           (None, s) \<Rightarrow> s
         | (Some host_path, s) \<Rightarrow>
             (case guest_canonicalize e target_user s of
                (Inl _, s) \<Rightarrow> s
              | (Inr guest_path, s) \<Rightarrow> insort_new (chop_finality host_path) guest_path s)))"

definition remove_binding :: "binding \<Rightarrow> 'w path_state \<Rightarrow> 'w path_state" where
  "remove_binding b s = s\<lparr>fs_of := remove_binding_from_all_lists (fs_of s) b\<rparr>"

definition emulate_umount :: "'w env \<Rightarrow> string \<Rightarrow> 'w path_state \<Rightarrow> 'w path_state" where
  "emulate_umount e target_user s =
     (case guest_canonicalize e target_user s of
        (Inl _, s) \<Rightarrow> s
      | (Inr guest_path, s) \<Rightarrow>
          if guest_path = ''/'' then s
          else
            (case get_binding (fs_of s) GUEST guest_path of
               None \<Rightarrow> s
             | Some b \<Rightarrow> if guest b \<noteq> guest_path then s else remove_binding b s))"

text \<open>
  \<open>emulate_pivot_root\<close>: where the old root becomes reachable, the loop over the bindings that were
  there before, and the whole.
\<close>

definition put_old_path :: "string \<Rightarrow> string \<Rightarrow> string option" where
  "put_old_path new_root_guest put_old_guest =
     (let new_root_len = length new_root_guest in
      if new_root_len > 0 \<and> take new_root_len put_old_guest = new_root_guest
         \<and> (c_at put_old_guest new_root_len = CHR ''/'' \<or> (new_root_len = 1 \<and> c_at new_root_guest 0 = CHR ''/''))
      then
        (let after = drop (if new_root_len = 1 then 0 else new_root_len) put_old_guest in
         if c_at after 0 = CHR ''/'' \<and> length after > 1 then Some (take (PATH_MAX - 1) after) else None)
      else None)"

definition lies_under :: "string \<Rightarrow> string \<Rightarrow> bool" where
  "lies_under new_root_guest path =
     (let new_root_len = length new_root_guest in
      new_root_len > 0 \<and> length path > new_root_len \<and> take new_root_len path = new_root_guest
      \<and> c_at path new_root_len = CHR ''/'')"

definition already_there :: "string \<Rightarrow> string \<Rightarrow> bool" where
  "already_there put_old_after path =
     (take (length put_old_after) path = put_old_after \<and>
      (length path = length put_old_after \<or> c_at path (length put_old_after) = CHR ''/''))"

definition rebase :: "binding \<Rightarrow> string \<Rightarrow> string option \<Rightarrow> binding \<Rightarrow> 'w path_state \<Rightarrow> 'w path_state" where
  "rebase root_binding new_root_guest put_old_after b s =
     (if bid b = bid root_binding \<or> guest b = ''/'' then s
      else if lies_under new_root_guest (guest b) then
        remove_binding b (insort_new (host b) (drop (length new_root_guest) (guest b)) s)
      else
        (case put_old_after of
           None \<Rightarrow> s
         | Some after \<Rightarrow>
             if already_there after (guest b) then s
             else if length (after @ guest b) \<ge> PATH_MAX then s
             else insort_new (host b) (after @ guest b) s))"

definition emulate_pivot_root :: "'w env \<Rightarrow> string \<Rightarrow> string \<Rightarrow> 'w path_state \<Rightarrow> 'w path_state" where
  "emulate_pivot_root e new_root_user put_old_user s =
     (case translate_path e AT_FDCWD new_root_user True s of
        (Inl _, s) \<Rightarrow> s
      | (Inr new_root_host, s) \<Rightarrow>
          (case guest_canonicalize e new_root_user s of
             (Inl _, s) \<Rightarrow> s
           | (Inr new_root_guest, s) \<Rightarrow>
               (case canonicalize e put_old_user True
                       (if c_at put_old_user 0 = CHR ''/'' then ''/'' else new_root_guest) 0 s of
                  (Inl _, s) \<Rightarrow> s
                | (Inr put_old_guest, s) \<Rightarrow>
                    (case get_binding (fs_of s) GUEST ''/'' of
                       None \<Rightarrow> s
                     | Some root_binding \<Rightarrow>
                         (let put_old_after = put_old_path new_root_guest put_old_guest;
                              snapshot = head_list (fs_of s) GUEST;
                              s = remove_binding root_binding s;
                              s = insort_new (chop_finality new_root_host) ''/'' s;
                              s = (case put_old_after of
                                     None \<Rightarrow> s
                                   | Some after \<Rightarrow> insort_new (take (PATH_MAX - 1) (host root_binding)) after s) in
                          fold (rebase root_binding new_root_guest put_old_after) snapshot s)))))"

section \<open>Tables without a root\<close>

text \<open>\<open>wf_fs\<close> without the clause on the root, as it holds in the middle of \<open>pivot_root\<close>; \<open>S\<close> are the bindings.\<close>

definition wf_table :: "fs_ns \<Rightarrow> binding set \<Rightarrow> bool" where
  "wf_table fs S \<longleftrightarrow>
     (\<exists>gs hs. guest_list fs = Some gs \<and> host_list fs = Some hs \<and> set gs = S \<and> set hs = S \<and>
        (\<forall>b \<in> S. wf_binding b) \<and> distinct (map bid gs) \<and> distinct (map bid hs) \<and> distinct (map guest gs) \<and>
        nested guest_pos gs \<and> nested host_pos hs)"

lemma root_is_last:
  assumes "nested guest_pos gs" "distinct (map guest gs)" "\<forall>b \<in> set gs. wf_binding b" "r \<in> set gs" "guest r = ''/''"
  shows "last gs = r"
proof -
  obtain ys zs where gs: "gs = ys @ r # zs" using assms(4) by (auto simp: in_set_conv_decomp)
  have "zs = []"
  proof (cases zs)
    case (Cons z zs')
    have z: "z \<in> set gs" "guest z \<noteq> ''/''" using assms(2,5) gs Cons by auto
    then have "guest_pos z \<noteq> []" using assms(3) canonical_root by (auto simp: wf_binding_def)
    moreover have "guest_pos r = []" using assms(5) by (simp add: names_of_def)
    ultimately have "strict_prefix (guest_pos r) (guest_pos z)" by (simp add: strict_prefix_def)
    then show ?thesis using assms(1) gs Cons by (auto simp: nested_def sorted_wrt_append)
  qed
  then show ?thesis using gs by simp
qed

lemma wf_fs_table: "wf_fs fs \<longleftrightarrow> (\<exists>S. wf_table fs S \<and> ''/'' \<in> guest ` S)"
proof
  assume "wf_fs fs"
  then obtain gs hs where "guest_list fs = Some gs" "host_list fs = Some hs" "wf_lists gs hs" by (rule wf_fsE)
  then show "\<exists>S. wf_table fs S \<and> ''/'' \<in> guest ` S"
    by (intro exI [of _ "set gs"]) (auto simp: wf_table_def wf_lists_def intro: image_eqI [of _ _ "last gs"])
next
  assume "\<exists>S. wf_table fs S \<and> ''/'' \<in> guest ` S"
  then obtain S gs hs r where t: "guest_list fs = Some gs" "host_list fs = Some hs" "set gs = S" "set hs = S"
      "\<forall>b \<in> S. wf_binding b" "distinct (map bid gs)" "distinct (map bid hs)" "distinct (map guest gs)"
      "nested guest_pos gs" "nested host_pos hs" and r: "r \<in> S" "guest r = ''/''"
    unfolding wf_table_def by auto
  then have "last gs = r" by (intro root_is_last) auto
  then show "wf_fs fs" using t r by (auto simp: wf_fs_def wf_lists_def)
qed

lemma wf_table_head: "wf_table fs S \<Longrightarrow> set (head_list fs GUEST) = S"
  by (auto simp: wf_table_def head_list_def list_of_def)

lemma wf_table_inj:
  assumes "wf_table fs S" "a \<in> S" "b \<in> S"
  shows "bid a = bid b \<longleftrightarrow> a = b" "guest a = guest b \<longleftrightarrow> a = b" "guest_pos a = guest_pos b \<longleftrightarrow> a = b"
proof -
  from assms(1) obtain gs where gs: "set gs = S" "distinct (map bid gs)" "distinct (map guest gs)" "\<forall>b \<in> S. wf_binding b"
    unfolding wf_table_def by blast
  show "bid a = bid b \<longleftrightarrow> a = b" and g: "guest a = guest b \<longleftrightarrow> a = b"
    using gs assms(2,3) by (auto simp: distinct_map dest: inj_onD)
  show "guest_pos a = guest_pos b \<longleftrightarrow> a = b"
    using gs(4) assms(2,3) guest_pos_inject g by (auto simp: wf_binding_def)
qed

lemma insort_guest_table:
  assumes "\<forall>b \<in> set gs. wf_binding b" "distinct (map bid gs)" "distinct (map guest gs)" "nested guest_pos gs"
    and b: "wf_binding b" "bid b \<notin> bid ` set gs"
  defines "gs' \<equiv> insort_list (side_compare GUEST) GUEST b gs"
    and "r \<equiv> insort_removed (side_compare GUEST) GUEST b gs"
  shows "distinct (map bid gs') \<and> distinct (map guest gs') \<and> nested guest_pos gs' \<and>
    set gs' = insert b {x \<in> set gs. guest x \<noteq> guest b} \<and>
    (case r of None \<Rightarrow> \<forall>x \<in> set gs. guest x \<noteq> guest b | Some it \<Rightarrow> it \<in> set gs \<and> guest it = guest b)"
proof -
  have ok: "canonical (guest b)" "\<forall>x \<in> set gs. canonical (guest x)"
    using assms(1) b by (auto simp: wf_binding_def)
  obtain ys zs where l: "gs' = ys @ b # zs"
    and c: "gs = ys @ zs \<and> (GUEST \<noteq> HOST \<longrightarrow> guest_pos b \<notin> guest_pos ` set gs) \<and>
      (ys = [] \<or> prefix (guest_pos b) (guest_pos (last ys))) \<and>
      (\<forall>z \<in> set zs. \<not> prefix (guest_pos b) (guest_pos z)) \<and> r = None
     \<or> (\<exists>it. gs = ys @ it # zs \<and> guest_pos it = guest_pos b \<and> GUEST \<noteq> HOST \<and> r = Some it)"
    unfolding gs'_def r_def by (rule guest_side.insort_list_split [OF ok assms(2) b(2)])
  have nest: "nested guest_pos gs'"
    unfolding gs'_def by (intro guest_side.insort_list_nested ok assms b)
  from c show ?thesis
  proof
    assume c: "gs = ys @ zs \<and> (GUEST \<noteq> HOST \<longrightarrow> guest_pos b \<notin> guest_pos ` set gs) \<and>
      (ys = [] \<or> prefix (guest_pos b) (guest_pos (last ys))) \<and>
      (\<forall>z \<in> set zs. \<not> prefix (guest_pos b) (guest_pos z)) \<and> r = None"
    then have n: "\<forall>x \<in> set gs. guest x \<noteq> guest b" by (metis image_eqI side.distinct(1))
    have gs: "gs = ys @ zs" "r = None" using c by simp_all
    have "distinct (map bid gs')" "distinct (map guest gs')" using n gs(1) assms(2,3) b(2) unfolding l by force+
    moreover have "set gs' = insert b {x \<in> set gs. guest x \<noteq> guest b}" using n gs(1) unfolding l by auto
    ultimately show ?thesis using nest n gs(2) by simp
  next
    assume "\<exists>it. gs = ys @ it # zs \<and> guest_pos it = guest_pos b \<and> GUEST \<noteq> HOST \<and> r = Some it"
    then obtain it where it: "gs = ys @ it # zs" "guest it = guest b" "r = Some it"
      using guest_pos_inject ok by auto
    then have n: "\<forall>x \<in> set ys \<union> set zs. guest x \<noteq> guest b" using assms(3) by (auto simp: image_iff)
    have "distinct (map bid gs')" "distinct (map guest gs')" using n it(1) assms(2,3) b(2) unfolding l by force+
    moreover have "set gs' = insert b {x \<in> set gs. guest x \<noteq> guest b}" using n it unfolding l by auto
    ultimately show ?thesis using nest it by simp
  qed
qed

lemma insort_table:
  assumes t: "wf_table fs S" and "canonical h" "canonical g" "i \<notin> bid ` S"
  defines "b \<equiv> with_need_substitution
    \<lparr>bid = i, host = h, guest = g, need_substitution = False, must_exist = False\<rparr>"
  shows "wf_table (insort_binding3 fs i h g) (insert b {x \<in> S. guest x \<noteq> g})"
proof -
  from t obtain gs hs where fs: "guest_list fs = Some gs" "host_list fs = Some hs" and S: "set gs = S" "set hs = S"
    and wf: "\<forall>b \<in> S. wf_binding b" "distinct (map bid gs)" "distinct (map bid hs)" "distinct (map guest gs)"
      "nested guest_pos gs" "nested host_pos hs" unfolding wf_table_def by blast
  let ?gs = "insort_list (side_compare GUEST) GUEST b gs"
  let ?r = "insort_removed (side_compare GUEST) GUEST b gs"
  let ?hs1 = "case ?r of None \<Rightarrow> hs | Some it \<Rightarrow> filter (\<lambda>x. bid x \<noteq> bid it) hs"
  let ?hs = "insort_list (side_compare HOST) HOST b ?hs1"
  have b: "wf_binding b" unfolding b_def using assms(2,3) by (intro wf_with_need_substitution) simp_all
  have f: "bid b = i" "host b = h" "guest b = g" by (simp_all add: b_def)
  have step: "guest_list (insort_binding3 fs i h g) = Some ?gs" "host_list (insort_binding3 fs i h g) = Some ?hs"
    unfolding insort_binding3_def insort_binding2_def Let_def with_need_substitution_def [symmetric] b_def [symmetric]
    using insort_binding_guest [OF fs(1)] insort_binding_guest_host [OF fs] insort_binding_host by simp_all
  have wg: "\<forall>b \<in> set gs. wf_binding b" "bid b \<notin> bid ` set gs" using wf(1) S(1) assms(4) by (simp_all add: f)
  note g = insort_guest_table [OF wg(1) wf(2,4,5) b wg(2)]
  have hs1: "set ?hs1 = {x \<in> S. guest x \<noteq> g}"
  proof (cases ?r)
    case None
    then show ?thesis using g S f by auto
  next
    case (Some it)
    then have it: "it \<in> S" "guest it = g" using g S f by simp_all
    then have "\<forall>x \<in> S. bid x = bid it \<longleftrightarrow> guest x = g" using wf_table_inj [OF t _ it(1)] it(2) by metis
    then show ?thesis using Some S(2) by auto
  qed
  have "distinct (map bid ?hs) \<and> nested host_pos ?hs \<and> set ?hs = insert b (set ?hs1)"
  proof (rule insort_host_wf)
    show "\<forall>x \<in> set ?hs1. canonical (host x)" unfolding hs1 using wf(1) by (auto simp: wf_binding_def)
    show "distinct (map bid ?hs1)" "nested host_pos ?hs1"
      using wf by (auto simp: distinct_map_filter nested_filter split: option.splits)
    show "canonical (host b)" using assms(2) f by simp
    show "bid b \<notin> bid ` set ?hs1" unfolding hs1 using assms(4) f by auto
  qed
  then show ?thesis unfolding wf_table_def using step g b wf(1) S f hs1 by auto
qed

lemma remove_table:
  assumes "wf_table fs S"
  shows "wf_table (remove_binding_from_all_lists fs b) {x \<in> S. bid x \<noteq> bid b}"
  using assms unfolding wf_table_def remove_binding_from_all_lists_def unlink_binding_def
  by (auto simp: distinct_map_filter nested_filter)

section \<open>Translation leaves the tables alone\<close>

definition frame :: "'w path_state \<Rightarrow> fs_ns \<times> nat" where
  "frame s = (fs_of s, next_bid s)"

lemma frame_world [simp]: "frame (s\<lparr>world := w\<rparr>) = frame s"
  by (simp add: frame_def)

lemma substitute_binding_stat_frame:
  "glue_type e = None \<Longrightarrow> substitute_binding_stat e fin l p s = (r, s') \<Longrightarrow> frame s' = frame s"
  by (auto simp: substitute_binding_stat_def Let_def frame_def split: sum.splits prod.splits if_splits)

lemma canon_step_frame:
  "glue_type e = None \<Longrightarrow> canon_step e d l cursor g s = (r, s') \<Longrightarrow> frame s' = frame s"
  by (auto simp: canon_step_def dest: substitute_binding_stat_frame
      split: sum.splits prod.splits if_splits)

lemma canonicalize_frame:
  shows "glue_type e = None \<Longrightarrow> canonicalize e u d g l s = (r, s') \<Longrightarrow> frame s' = frame s"
    and "glue_type e = None \<Longrightarrow> canon_loop e d l n cursor g s = (r, s') \<Longrightarrow> frame s' = frame s"
proof (induction e u d g l s and e d l n cursor g s arbitrary: r s' and r s'
    rule: canonicalize_canon_loop.induct)
  case (1 e u d g l s)
  then show ?case by (auto simp: canonicalize.simps [of e u d g l s] split: if_split_asm)
next
  case (2 e d l n cursor g s)
  obtain r1 s1 where st: "canon_step e d l cursor g s = (r1, s1)" by fastforce
  have f1: "frame s1 = frame s" using canon_step_frame [OF 2(4) st] .
  note loop = canon_loop.simps [of e d l n cursor g s, unfolded st]
  show ?case
  proof (cases r1)
    case (Return q)
    then show ?thesis using 2(5) loop f1 by simp
  next
    case (Advance fin g' rest)
    then show ?thesis using 2(1) [OF st [symmetric] Advance _ 2(4)] 2(5) loop f1
      by (auto split: if_split_asm)
  next
    case (Follow fin t rest)
    obtain r2 s2 where c: "canonicalize e t True g (l + Suc n) s1 = (r2, s2)" by fastforce
    have f2: "frame s2 = frame s" using 2(2) [OF st [symmetric] Follow 2(4) c] f1 by simp
    show ?thesis
    proof (cases r2)
      case (Inl err)
      with Follow loop 2(5) c f2 show ?thesis by simp
    next
      case (Inr g2)
      obtain r3 s3 where b: "substitute_binding_stat e fin l g2 s2 = (r3, s3)" by fastforce
      have f3: "frame s3 = frame s" using substitute_binding_stat_frame [OF 2(4) b] f2 by simp
      show ?thesis
      proof (cases "g2 = g \<or> (\<exists>err. r3 = Inl err) \<or> IS_FINAL fin")
        case True
        with Follow loop 2(5) c Inr b f2 f3 show ?thesis by (auto split: sum.splits if_split_asm)
      next
        case False
        then obtain y where y: "r3 = Inr y" by (cases r3) auto
        then have "canon_loop e d l (Suc n) rest g2 s3 = (r, s')"
          using False Follow loop 2(5) c Inr b by simp
        with 2(3) [OF st [symmetric] Follow c [symmetric] Inr _ b [symmetric] y _ 2(4)] False f3
        show ?thesis by simp
      qed
    qed
  qed
qed

lemma translated_frame: "translated e p s = (r, s') \<Longrightarrow> frame s' = frame s"
  by (auto simp: translated_def Let_def frame_def split: prod.splits)

lemma translate_path_frame:
  assumes "glue_type e = None" "translate_path e fd p d s = (r, s')"
  shows "frame s' = frame s"
proof (cases "translation_base e fd p s")
  case (Inl err)
  then show ?thesis using assms(2) by (simp add: translate_path_def)
next
  case (Inr base)
  obtain st base' w where n: "notify_extensions (ext_guest_path e) (world s) base p = (st, base', w)"
    by (metis prod_cases3)
  let ?s = "s\<lparr>world := w\<rparr>"
  show ?thesis
  proof (cases "st = 0")
    case False
    then show ?thesis using assms(2) Inr n translated_frame [of e base' ?s r s']
      by (auto simp: translate_path_def Let_def split: if_split_asm)
  next
    case True
    show ?thesis
    proof (cases "join2 base' p")
      case (Inl err)
      then show ?thesis using assms(2) \<open>translation_base e fd p s = Inr base\<close> n True
        by (auto simp: translate_path_def)
    next
      case j: (Inr g)
      obtain r1 s1 where c: "canonicalize e g d ''/'' 0 ?s = (r1, s1)" by fastforce
      have f: "frame s1 = frame s" using canonicalize_frame(1) [OF assms(1) c] by simp
      then show ?thesis using assms(2) Inr n True j c translated_frame [of e _ s1 r s']
        by (auto simp: translate_path_def split: sum.splits)
    qed
  qed
qed

lemma guest_canonicalize_frame:
  "glue_type e = None \<Longrightarrow> guest_canonicalize e p s = (r, s') \<Longrightarrow> frame s' = frame s"
  by (auto simp: guest_canonicalize_def dest: canonicalize_frame(1) split: sum.splits prod.splits)

section \<open>The mount table\<close>

text \<open>The host side of every bound guest path, with the address of the binding.\<close>

definition mounts :: "fs_ns \<Rightarrow> string list \<Rightarrow> (nat \<times> string list) option" where
  "mounts fs = map_of (map (\<lambda>b. (guest_pos b, bid b, host_pos b)) (head_list fs GUEST))"

lemma mounts_iff:
  assumes "wf_table fs S"
  shows "mounts fs p = Some (i, h) \<longleftrightarrow> (\<exists>b \<in> S. guest_pos b = p \<and> bid b = i \<and> host_pos b = h)"
proof -
  obtain gs where gs: "guest_list fs = Some gs" "set gs = S" "distinct (map bid gs)"
    using assms unfolding wf_table_def by blast
  have "inj_on guest_pos (set gs)" using wf_table_inj(3) [OF assms] gs(2) by (auto intro: inj_onI)
  then have "distinct (map fst (map (\<lambda>b. (guest_pos b, bid b, host_pos b)) gs))"
    using gs(3) by (simp add: comp_def distinct_map)
  then have "mounts fs p = Some (i, h) \<longleftrightarrow> (p, i, h) \<in> set (map (\<lambda>b. (guest_pos b, bid b, host_pos b)) gs)"
    unfolding mounts_def head_list_def list_of_def gs(1) by (simp del: set_map)
  then show ?thesis using gs(2) by auto
qed

lemma mounts_None:
  assumes "wf_table fs S"
  shows "mounts fs p = None \<longleftrightarrow> (\<forall>b \<in> S. guest_pos b \<noteq> p)"
  using mounts_iff [OF assms, of p] by (cases "mounts fs p") auto

lemma mounts_eqI:
  assumes "wf_table fs S"
    and "\<And>i h. m = Some (i, h) \<longleftrightarrow> (\<exists>b \<in> S. guest_pos b = p \<and> bid b = i \<and> host_pos b = h)"
  shows "mounts fs p = m"
proof (rule option.expand)
  show "(mounts fs p = None) = (m = None)"
    using mounts_iff [OF assms(1), of p] assms(2) by (metis not_None_eq surj_pair)
  show "the (mounts fs p) = the m" if "mounts fs p \<noteq> None" "m \<noteq> None"
    using that mounts_iff [OF assms(1), of p] assms(2) by (metis option.collapse surj_pair)
qed

lemma mounts_insort:
  assumes t: "wf_table fs S" and c: "canonical h" "canonical g" "i \<notin> bid ` S"
  shows "mounts (insort_binding3 fs i h g) = (mounts fs)(names_of g \<mapsto> (i, names_of h))"
proof (rule ext)
  fix p
  define b where "b = with_need_substitution
    \<lparr>bid = i, host = h, guest = g, need_substitution = False, must_exist = False\<rparr>"
  have f: "bid b = i" "host b = h" "guest b = g" by (simp_all add: b_def)
  note t' = insort_table [OF t c, folded b_def]
  have "\<forall>x \<in> S. canonical (guest x)" using t unfolding wf_table_def wf_binding_def by blast
  then have k: "x \<in> S \<Longrightarrow> guest x = g \<longleftrightarrow> guest_pos x = names_of g" for x
    using guest_pos_inject [of x b] c(2) f by metis
  show "mounts (insort_binding3 fs i h g) p = ((mounts fs)(names_of g \<mapsto> (i, names_of h))) p"
  proof (rule mounts_eqI [OF t'])
    fix j l
    show "((mounts fs)(names_of g \<mapsto> (i, names_of h))) p = Some (j, l) \<longleftrightarrow>
        (\<exists>x \<in> insert b {x \<in> S. guest x \<noteq> g}. guest_pos x = p \<and> bid x = j \<and> host_pos x = l)"
      using k mounts_iff [OF t, of p j l] by (cases "p = names_of g") (auto simp: f)
  qed
qed

lemma mounts_remove:
  assumes t: "wf_table fs S"
  shows "mounts (remove_binding_from_all_lists fs b) p =
    (case mounts fs p of None \<Rightarrow> None | Some (i, h) \<Rightarrow> if i = bid b then None else Some (i, h))"
proof (rule mounts_eqI [OF remove_table [OF t]])
  fix j l
  show "(case mounts fs p of None \<Rightarrow> None | Some (i, h) \<Rightarrow> if i = bid b then None else Some (i, h)) = Some (j, l)
      \<longleftrightarrow> (\<exists>x \<in> {x \<in> S. bid x \<noteq> bid b}. guest_pos x = p \<and> bid x = j \<and> host_pos x = l)"
    using mounts_iff [OF t, of p j l] by (auto split: option.splits if_splits)
qed

text \<open>A state whose tables are well formed, with fresh addresses to come.\<close>

definition table_ok :: "'w path_state \<Rightarrow> bool" where
  "table_ok s \<longleftrightarrow> (\<exists>S. wf_table (fs_of s) S \<and> (\<forall>b \<in> S. bid b < next_bid s))"

definition mount_table :: "'w path_state \<Rightarrow> string list \<Rightarrow> (nat \<times> string list) option" where
  "mount_table s = mounts (fs_of s)"

lemma table_ok_frame: "frame s' = frame s \<Longrightarrow> table_ok s' = table_ok s \<and> mount_table s' = mount_table s"
  by (simp add: frame_def table_ok_def mount_table_def)

lemma insort_new_table:
  assumes "table_ok s" "canonical h" "canonical g"
  shows "table_ok (insort_new h g s) \<and> next_bid (insort_new h g s) = Suc (next_bid s) \<and>
    mount_table (insort_new h g s) = (mount_table s)(names_of g \<mapsto> (next_bid s, names_of h))"
proof -
  obtain S where S: "wf_table (fs_of s) S" "\<forall>b \<in> S. bid b < next_bid s" using assms(1) by (auto simp: table_ok_def)
  then have fresh: "next_bid s \<notin> bid ` S" by auto
  show ?thesis
    using insort_table [OF S(1) assms(2,3) fresh] mounts_insort [OF S(1) assms(2,3) fresh] S(2)
    unfolding table_ok_def mount_table_def insort_new_def by (fastforce simp: less_Suc_eq)
qed

lemma remove_binding_table:
  assumes "table_ok s"
  shows "table_ok (remove_binding b s) \<and> next_bid (remove_binding b s) = next_bid s \<and>
    mount_table (remove_binding b s) p = (case mount_table s p of
      None \<Rightarrow> None | Some (i, h) \<Rightarrow> if i = bid b then None else Some (i, h))"
proof -
  obtain S where S: "wf_table (fs_of s) S" "\<forall>b \<in> S. bid b < next_bid s" using assms by (auto simp: table_ok_def)
  then show ?thesis using remove_table [OF S(1), of b] mounts_remove [OF S(1), of b p]
    unfolding table_ok_def mount_table_def remove_binding_def by auto
qed

section \<open>Rebasing\<close>

lemma table_canonical:
  assumes "wf_table fs S" "b \<in> S"
  shows "canonical (guest b)" "canonical (host b)"
  using assms unfolding wf_table_def wf_binding_def by blast+

lemma spine_prefix_cut:
  assumes "names as" "names bs"
  shows "take (length (spine as)) (spine bs) = spine as \<and> c_at (spine bs) (length (spine as)) = CHR ''/'' \<longleftrightarrow>
    strict_prefix as bs"
proof
  assume l: "take (length (spine as)) (spine bs) = spine as \<and> c_at (spine bs) (length (spine as)) = CHR ''/''"
  then obtain t where t: "spine bs = spine as @ CHR ''/'' # t"
    by (metis (no_types) append_take_drop_id c_at_0_eq_slash c_at_append_right)
  have "names_of (spine bs) = names_of (spine as) @ names_of (CHR ''/'' # t)"
    unfolding t using names_of_append_slash [of "spine as" t] by (simp add: names_of_Cons)
  then have e: "bs = as @ names_of t" using names_of_spine assms by (simp add: names_of_Cons)
  have "names_of t \<noteq> []"
  proof
    assume "names_of t = []"
    then have "spine bs = spine as" using e by simp
    then show False using t by simp
  qed
  with e show "strict_prefix as bs" by (simp add: strict_prefix_def)
next
  assume "strict_prefix as bs"
  then obtain c cs where "bs = as @ c # cs" by (auto elim: strict_prefixE')
  then show "take (length (spine as)) (spine bs) = spine as \<and> c_at (spine bs) (length (spine as)) = CHR ''/''"
    by (simp add: c_at_def nth_append)
qed

lemma lies_under_iff:
  assumes "names as" "names bs"
  shows "lies_under (render as) (render bs) \<longleftrightarrow> as \<noteq> [] \<and> strict_prefix as bs"
proof (cases "as = []")
  case True
  have "c_at (render bs) 1 \<noteq> CHR ''/''" if "bs \<noteq> []"
    using assms(2) that by (cases bs) (auto simp: render_def name_def c_at_def nth_append neq_Nil_conv)
  then show ?thesis using True by (cases "bs = []") (auto simp: lies_under_def)
next
  case False
  then have a: "render as = spine as" by (rule render_not_Nil)
  have ne: "spine as \<noteq> []" using False by (cases as) auto
  show ?thesis
  proof (cases "bs = []")
    case True
    then have "\<not> length (render bs) > length (spine as)" using ne by (cases "spine as") simp_all
    then show ?thesis using True by (simp add: lies_under_def a strict_prefix_def)
  next
    case nb: False
    have "length (spine bs) > length (spine as)" if "c_at (spine bs) (length (spine as)) = CHR ''/''"
      using that by (simp add: c_at_def split: if_split_asm)
    then show ?thesis using spine_prefix_cut [OF assms] False ne
      unfolding lies_under_def a Let_def render_not_Nil [OF nb] by blast
  qed
qed

lemma drop_render:
  assumes "strict_prefix as bs" "as \<noteq> []"
  shows "drop (length (render as)) (render bs) = render (drop (length as) bs)"
proof -
  obtain c cs where "bs = as @ c # cs" using assms(1) by (auto elim: strict_prefixE')
  then show ?thesis using assms(2) by (simp add: render_def)
qed

lemma append_render: "as \<noteq> [] \<Longrightarrow> bs \<noteq> [] \<Longrightarrow> render as @ render bs = render (as @ bs)"
  by (simp add: render_def)

text \<open>The binding moves with the new root.\<close>

definition moves :: "string list \<Rightarrow> binding \<Rightarrow> bool" where
  "moves new b \<longleftrightarrow> new \<noteq> [] \<and> strict_prefix new (guest_pos b)"

definition exposed :: "string list option \<Rightarrow> string option" where
  "exposed po = map_option render po"

lemma rebase_table:
  assumes ok: "table_ok s" and b: "canonical (guest b)" "canonical (host b)" "bid b < next_bid s"
    and "names new" "\<forall>o' \<in> set_option po. names o' \<and> o' \<noteq> []"
    and p: "\<forall>o' \<in> set_option po. \<not> strict_prefix o' p"
  shows "table_ok (rebase root (render new) (exposed po) b s) \<and>
    next_bid s \<le> next_bid (rebase root (render new) (exposed po) b s) \<and>
    mount_table (rebase root (render new) (exposed po) b s) p =
      (if bid b = bid root \<or> guest_pos b = [] then mount_table s p
       else if moves new b then
         (if guest_pos b = new @ p then Some (next_bid s, host_pos b)
          else case mount_table s p of None \<Rightarrow> None | Some (i, h) \<Rightarrow> if i = bid b then None else Some (i, h))
       else mount_table s p)"
proof -
  have gb: "guest b = render (guest_pos b)" "names (guest_pos b)" using b(1) by (auto simp: canonical_def)
  have root: "guest b = ''/'' \<longleftrightarrow> guest_pos b = []" using canonical_root [OF b(1)] by simp
  have under: "lies_under (render new) (guest b) \<longleftrightarrow> moves new b"
    using lies_under_iff [OF assms(5) gb(2)] unfolding gb(1) [symmetric] moves_def .
  show ?thesis
  proof (cases "bid b = bid root \<or> guest_pos b = []")
    case True
    then have "rebase root (render new) (exposed po) b s = s" using root by (simp add: rebase_def)
    then show ?thesis using ok True by simp
  next
    case False
    show ?thesis
    proof (cases "moves new b")
      case True
      then obtain rs where rs: "guest_pos b = new @ rs" "rs \<noteq> []" "new \<noteq> []"
        by (auto simp: moves_def strict_prefix_def prefix_def)
      let ?d = "drop (length (render new)) (guest b)"
      have "drop (length (render new)) (render (guest_pos b)) = render (drop (length new) (guest_pos b))"
        using drop_render True by (simp add: moves_def)
      then have d: "?d = render rs" unfolding gb(1) [symmetric] by (simp add: rs(1))
      have "names rs" using gb(2) rs(1) by simp
      then have c: "canonical ?d" "names_of ?d = rs" unfolding d by (auto simp: canonical_render)
      let ?s1 = "insort_new (host b) ?d s"
      note i = insort_new_table [OF ok b(2) c(1)]
      note r = remove_binding_table [of ?s1 b p] i
      have "rebase root (render new) (exposed po) b s = remove_binding b ?s1"
        using False True under root by (simp add: rebase_def)
      moreover have "guest_pos b = new @ p \<longleftrightarrow> rs = p" using rs(1) by simp
      moreover have "mount_table ?s1 p = (if guest_pos b = new @ p then Some (next_bid s, host_pos b) else mount_table s p)"
        using i c(2) rs(1) by simp
      moreover have "next_bid s \<noteq> bid b" using b(3) by simp
      ultimately show ?thesis using r False True by (simp split: option.split)
    next
      case nm: False
      show ?thesis
      proof (cases po)
        case None
        then show ?thesis using False nm under root ok by (simp add: rebase_def exposed_def)
      next
        case (Some a)
        then have a: "names a" "a \<noteq> []" "\<not> strict_prefix a p" using assms(6) p by simp_all
        let ?g = "render a @ guest b"
        have g: "?g = render (a @ guest_pos b)" using append_render [OF a(2), of "guest_pos b"] False gb(1) by simp
        have c: "canonical ?g" "names_of ?g = a @ guest_pos b"
          unfolding g using a(1) gb(2) by (auto intro: canonical_render)
        have "a @ guest_pos b \<noteq> p" using a(3) False by (auto simp: strict_prefix_def)
        then show ?thesis using Some False nm under root ok insort_new_table [OF ok b(2) c(1)] c(2)
          by (auto simp: rebase_def exposed_def)
      qed
    qed
  qed
qed

lemma rebase_all:
  assumes "table_ok s" "\<forall>b \<in> set bs. canonical (guest b) \<and> canonical (host b) \<and> bid b < next_bid s"
    and "distinct (map guest_pos bs)" "\<forall>b \<in> set bs. bid b = bid root \<longrightarrow> guest_pos b = []"
    and "names new" "\<forall>o' \<in> set_option po. names o' \<and> o' \<noteq> []"
    and "\<forall>o' \<in> set_option po. \<not> strict_prefix o' p"
  defines "s' \<equiv> fold (rebase root (render new) (exposed po)) bs s"
  shows "table_ok s' \<and> map_option snd (mount_table s' p) =
    (case find (\<lambda>b. moves new b \<and> guest_pos b = new @ p) bs of
       Some b \<Rightarrow> Some (host_pos b)
     | None \<Rightarrow>
         if \<exists>b \<in> set bs. moves new b \<and> (\<exists>h. mount_table s p = Some (bid b, h)) then None
         else map_option snd (mount_table s p))"
  using assms(1-4) unfolding s'_def
proof (induction bs arbitrary: s)
  case Nil
  then show ?case by simp
next
  case (Cons b bs)
  let ?s1 = "rebase root (render new) (exposed po) b s"
  have b: "canonical (guest b)" "canonical (host b)" "bid b < next_bid s" using Cons.prems(2) by simp_all
  note st = rebase_table [OF Cons.prems(1) b assms(5-7), of root]
  have "\<forall>b \<in> set bs. canonical (guest b) \<and> canonical (host b) \<and> bid b < next_bid ?s1"
    using Cons.prems(2) st by force
  then have ih: "table_ok (fold (rebase root (render new) (exposed po)) bs ?s1) \<and>
      map_option snd (mount_table (fold (rebase root (render new) (exposed po)) bs ?s1) p) =
    (case find (\<lambda>b. moves new b \<and> guest_pos b = new @ p) bs of
       Some b \<Rightarrow> Some (host_pos b)
     | None \<Rightarrow>
         if \<exists>b \<in> set bs. moves new b \<and> (\<exists>h. mount_table ?s1 p = Some (bid b, h)) then None
         else map_option snd (mount_table ?s1 p))"
    using Cons.IH [of ?s1] st Cons.prems(3,4) by simp
  show ?case
  proof (cases "moves new b")
    case False
    then have e: "mount_table ?s1 p = mount_table s p" using st by simp
    have "find (\<lambda>b. moves new b \<and> guest_pos b = new @ p) (b # bs) = find (\<lambda>b. moves new b \<and> guest_pos b = new @ p) bs"
      using False by simp
    moreover have "(\<exists>x \<in> set (b # bs). moves new x \<and> (\<exists>h. mount_table s p = Some (bid x, h))) \<longleftrightarrow>
        (\<exists>x \<in> set bs. moves new x \<and> (\<exists>h. mount_table s p = Some (bid x, h)))" using False by simp
    ultimately show ?thesis using ih [unfolded e] by (simp only: fold_simps comp_def id_def)
  next
    case True
    then have ne: "guest_pos b \<noteq> []" by (auto simp: moves_def)
    then have nr: "bid b \<noteq> bid root" using Cons.prems(4) by auto
    show ?thesis
    proof (cases "guest_pos b = new @ p")
      case eq: True
      have e: "mount_table ?s1 p = Some (next_bid s, host_pos b)" using st True eq ne nr by (auto simp: moves_def)
      have f: "find (\<lambda>b. moves new b \<and> guest_pos b = new @ p) bs = None"
        unfolding find_None_iff using Cons.prems(3) eq by (auto simp: image_iff)
      have "\<forall>x \<in> set bs. bid x \<noteq> next_bid s" using Cons.prems(2) by auto
      then show ?thesis using ih [unfolded e f] True eq by auto
    next
      case ne': False
      have m1: "mount_table ?s1 p = (case mount_table s p of None \<Rightarrow> None
          | Some (i, h) \<Rightarrow> if i = bid b then None else Some (i, h))"
        using st True ne' ne nr by simp
      show ?thesis
      proof (cases "mount_table s p")
        case None
        then have e: "mount_table ?s1 p = None" using m1 by simp
        show ?thesis using ih [unfolded e] None True ne' by (simp split: option.split)
      next
        case (Some y)
        obtain i h where y: "y = (i, h)" by fastforce
        show ?thesis
        proof (cases "i = bid b")
          case True
          then have e: "mount_table ?s1 p = None" using m1 Some y by simp
          show ?thesis using ih [unfolded e] Some y True \<open>moves new b\<close> ne' by (simp split: option.split)
        next
          case False
          then have e: "mount_table ?s1 p = mount_table s p" using m1 Some y by simp
          show ?thesis using ih [unfolded e] Some y False ne' by (simp split: option.split)
        qed
      qed
    qed
  qed
qed

section \<open>The properties\<close>

lemma mount_source_frame:
  "glue_type e = None \<Longrightarrow> mount_source e src fstype flags s = (h, s') \<Longrightarrow> frame s' = frame s"
  by (auto simp: mount_source_def dest: translate_path_frame split: if_split_asm prod.splits sum.splits option.splits)

lemma frame_next: "frame s' = frame s \<Longrightarrow> next_bid s' = next_bid s"
  by (simp add: frame_def)

text \<open>
  What a mount shows at its target, in the words of \<open>mount\<close>(2): a bind mount the host path of its source, a
  mount of a virtual file-system the directory of the host where it is mounted, a \<open>tmpfs\<close> a new directory.
\<close>

definition BIND_BIT :: nat where "BIND_BIT = 12"
definition REMOUNT_BIT :: nat where "REMOUNT_BIT = 5"

definition virtual_mounts :: "(string \<times> string list) list" where
  "virtual_mounts = [(''proc'', [''proc'']), (''sysfs'', [''sys'']), (''devtmpfs'', [''dev'']), (''devpts'', [''dev'', ''pts''])]"

inductive shows_at_target ::
  "'w env \<Rightarrow> string \<Rightarrow> string \<Rightarrow> word_t \<Rightarrow> 'w path_state \<Rightarrow> string option \<Rightarrow> 'w path_state \<Rightarrow> bool"
  for e src fstype flags s where
  bound: "bit flags BIND_BIT \<Longrightarrow> translate_path e AT_FDCWD src True s = (Inr p, s') \<Longrightarrow>
    shows_at_target e src fstype flags s (Some p) s'"
| unbound: "bit flags BIND_BIT \<Longrightarrow> translate_path e AT_FDCWD src True s = (Inl err, s') \<Longrightarrow>
    shows_at_target e src fstype flags s None s'"
| virtual_mount: "\<not> bit flags BIND_BIT \<Longrightarrow> map_of virtual_mounts fstype = Some ns \<Longrightarrow>
    shows_at_target e src fstype flags s (Some (render ns)) s"
| temporary: "\<not> bit flags BIND_BIT \<Longrightarrow> fstype = ''tmpfs'' \<Longrightarrow> k_mkdtemp e (world s) = (Some d, w) \<Longrightarrow> length d < PATH_MAX \<Longrightarrow>
    shows_at_target e src fstype flags s (Some d) (s\<lparr>world := w\<rparr>)"
| no_temporary: "\<not> bit flags BIND_BIT \<Longrightarrow> fstype = ''tmpfs'' \<Longrightarrow> k_mkdtemp e (world s) = (None, w) \<Longrightarrow>
    shows_at_target e src fstype flags s None (s\<lparr>world := w\<rparr>)"
| unknown: "\<not> bit flags BIND_BIT \<Longrightarrow> fstype \<notin> insert ''tmpfs'' (fst ` set virtual_mounts) \<Longrightarrow>
    shows_at_target e src fstype flags s None s"

lemma flag_bits:
  "flags AND MS_BIND \<noteq> 0 \<longleftrightarrow> bit flags BIND_BIT" "flags AND MS_REMOUNT = 0 \<longleftrightarrow> \<not> bit flags REMOUNT_BIT"
proof -
  have e: "MS_BIND = 2 ^ BIND_BIT" "MS_REMOUNT = 2 ^ REMOUNT_BIT"
    by (simp_all add: MS_BIND_def BIND_BIT_def MS_REMOUNT_def REMOUNT_BIT_def)
  show "flags AND MS_BIND \<noteq> 0 \<longleftrightarrow> bit flags BIND_BIT" "flags AND MS_REMOUNT = 0 \<longleftrightarrow> \<not> bit flags REMOUNT_BIT"
    unfolding e and_exp_eq_0_iff_not_bit by simp_all
qed

lemma mount_source_fixed:
  assumes "flags AND MS_BIND = 0"
  shows "mount_source e src ''proc'' flags s = (Some ''/proc'', s)"
    "mount_source e src ''sysfs'' flags s = (Some ''/sys'', s)"
    "mount_source e src ''devtmpfs'' flags s = (Some ''/dev'', s)"
    "mount_source e src ''devpts'' flags s = (Some ''/dev/pts'', s)"
    "mount_source e src ''tmpfs'' flags s =
       (case k_mkdtemp e (world s) of
          (None, w) \<Rightarrow> (None, s\<lparr>world := w\<rparr>)
        | (Some tmpdir, w) \<Rightarrow> (Some (take (PATH_MAX - 1) tmpdir), s\<lparr>world := w\<rparr>))"
  unfolding mount_source_def using assms by simp_all

lemma mount_source_shows:
  assumes "shows_at_target e src fstype flags s h s'"
  shows "mount_source e src fstype flags s = (h, s')"
  using assms
proof cases
  case (bound p)
  then show ?thesis by (simp add: mount_source_def flag_bits)
next
  case (unbound err)
  then show ?thesis by (simp add: mount_source_def flag_bits)
next
  case (virtual_mount ns)
  have "flags AND MS_BIND = 0" using virtual_mount(3) flag_bits(1) by blast
  note fixed = mount_source_fixed [OF this, of e src s]
  have "(fstype, ns) \<in> set virtual_mounts" using virtual_mount(4) by (rule map_of_SomeD)
  then have "mount_source e src fstype flags s = (Some (render ns), s)"
    unfolding virtual_mounts_def set_simps insert_iff prod.inject
    by (elim disjE conjE emptyE; simp only: fixed; simp add: render_def)
  then show ?thesis using virtual_mount(1,2) by simp
next
  case (temporary d w)
  have "flags AND MS_BIND = 0" using temporary(3) flag_bits(1) by blast
  then show ?thesis using temporary mount_source_fixed(5) [of flags e src s] by (simp only: prod.case option.case) simp
next
  case (no_temporary w)
  have "flags AND MS_BIND = 0" using no_temporary(3) flag_bits(1) by blast
  then show ?thesis using no_temporary mount_source_fixed(5) [of flags e src s] by (simp only: prod.case option.case)
next
  case unknown
  have "flags AND MS_BIND = 0" using unknown(3) flag_bits(1) by blast
  then show ?thesis using unknown unfolding mount_source_def virtual_mounts_def by simp
qed

text \<open>C39: An emulated mount that is no remount binds its target, canonicalised as a guest path, to what the call
  asks to show there: the translation of the source for a bind mount, the directory \<open>/proc\<close>, \<open>/sys\<close>, \<open>/dev\<close> or
  \<open>/dev/pts\<close> of the host for a virtual file-system, a new directory for a \<open>tmpfs\<close>; the rest of the mount table is
  as before. A remount, a source or target that fails and an unknown type change nothing. (The comment of
  \<open>emulate_mount\<close> promises a fresh empty directory for \<open>devtmpfs\<close> and \<open>devpts\<close>; the code shares those of the
  host.) The host path and the target are canonical, as translation yields them.\<close>

theorem emulate_mount_binds:
  assumes "glue_type e = None" "table_ok s"
    and "shows_at_target e src fstype flags s h s1" "guest_canonicalize e target s1 = (g, s2)"
    and "\<forall>h' \<in> set_option h. canonical (chop_finality h')" "\<forall>g'. g = Inr g' \<longrightarrow> canonical g'"
  shows "table_ok (emulate_mount e src target fstype flags s) \<and>
    mount_table (emulate_mount e src target fstype flags s) =
      (case (bit flags REMOUNT_BIT, h, g) of
         (False, Some h', Inr g') \<Rightarrow> (mount_table s)(names_of g' \<mapsto> (next_bid s, names_of (chop_finality h')))
       | _ \<Rightarrow> mount_table s)"
proof (cases "bit flags REMOUNT_BIT")
  case True
  then show ?thesis using assms(2) by (simp add: emulate_mount_def flag_bits)
next
  case False
  note ms = mount_source_shows [OF assms(3)]
  have f1: "frame s1 = frame s" using mount_source_frame [OF assms(1) ms] .
  have f2: "frame s2 = frame s" using guest_canonicalize_frame [OF assms(1,4)] f1 by simp
  note ok = table_ok_frame [OF f1] table_ok_frame [OF f2] frame_next [OF f2]
  show ?thesis
  proof (cases h)
    case None
    then show ?thesis using False assms(2) ms ok by (simp add: emulate_mount_def flag_bits)
  next
    case h: (Some h')
    show ?thesis
    proof (cases g)
      case (Inl err)
      then show ?thesis using False h assms(2,4) ms ok by (simp add: emulate_mount_def flag_bits)
    next
      case (Inr g')
      then show ?thesis using False h assms(2,4-6) ms ok insort_new_table [of s2 "chop_finality h'" g']
        by (simp add: emulate_mount_def flag_bits)
    qed
  qed
qed

lemma root_bound: "table_ok s \<Longrightarrow> mount_table s [] \<noteq> None \<Longrightarrow> wf_fs (fs_of s)"
proof -
  assume "table_ok s" and r: "mount_table s [] \<noteq> None"
  then obtain S where S: "wf_table (fs_of s) S" by (auto simp: table_ok_def)
  then obtain b where b: "b \<in> S" "guest_pos b = []" 
    using r mounts_None [OF S, of "[]"] unfolding mount_table_def by auto
  then have "guest b = ''/''" using canonical_root [OF table_canonical(1) [OF S b(1)]] by simp
  then have "''/'' \<in> guest ` S" using b(1) by (metis image_eqI)
  then show "wf_fs (fs_of s)" using wf_fs_table S by blast
qed

text \<open>An emulated umount unbinds exactly its target, never the root.\<close>

theorem emulate_umount_unbinds:
  assumes "glue_type e = None" "table_ok s" "mount_table s [] \<noteq> None"
    and "guest_canonicalize e target s = (g, s1)" "\<forall>g'. g = Inr g' \<longrightarrow> canonical g'"
  shows "table_ok (emulate_umount e target s) \<and>
    mount_table (emulate_umount e target s) =
      (case g of
         Inl _ \<Rightarrow> mount_table s
       | Inr g' \<Rightarrow> if names_of g' = [] then mount_table s else (mount_table s)(names_of g' := None))"
proof -
  have f: "frame s1 = frame s" using guest_canonicalize_frame [OF assms(1,4)] .
  note ok = table_ok_frame [OF f]
  show ?thesis
  proof (cases g)
    case (Inl err)
    then show ?thesis using assms(2,4) ok by (simp add: emulate_umount_def)
  next
    case (Inr g')
    then have c: "canonical g'" using assms(5) by simp
    note root = canonical_root [OF c]
    show ?thesis
    proof (cases "names_of g' = []")
      case True
      then show ?thesis using Inr root assms(2,4) ok by (simp add: emulate_umount_def)
    next
      case False
      let ?p = "names_of g'"
      have wf: "wf_fs (fs_of s1)" using root_bound [of s1] assms(2,3) ok by simp
      obtain S where S: "wf_table (fs_of s1) S" "\<forall>b \<in> S. bid b < next_bid s1"
        using assms(2) ok by (auto simp: table_ok_def)
      have d: "denotes g' ?p" "names ?p" using c by (auto simp: canonical_def denotes_def)
      obtain b where b: "get_binding (fs_of s1) GUEST g' = Some b" "b \<in> S" "prefix (guest_pos b) ?p"
          "\<forall>b' \<in> S. prefix (guest_pos b') ?p \<longrightarrow> prefix (guest_pos b') (guest_pos b)"
        using get_binding_deepest [OF wf d] wf_table_head [OF S(1)] by blast
      have "g' = render ?p" "guest b = render (guest_pos b)"
        using c table_canonical(1) [OF S(1) b(2)] by (auto simp: canonical_def)
      then have e: "guest b = g' \<longleftrightarrow> guest_pos b = ?p" by metis
      show ?thesis
      proof (cases "guest_pos b = ?p")
        case True
        then have s': "emulate_umount e target s = remove_binding b s1"
          using Inr False root assms(4) b(1) e by (simp add: emulate_umount_def)
        have "mount_table (remove_binding b s1) p = ((mount_table s1)(?p := None)) p" for p
        proof -
          have "mount_table s1 p = Some (i, h) \<Longrightarrow> i = bid b \<longleftrightarrow> p = ?p" for i h
            using mounts_iff [OF S(1)] wf_table_inj(1) [OF S(1) _ b(2)] True
              wf_table_inj(3) [OF S(1) _ b(2)] unfolding mount_table_def by metis
          then show ?thesis using remove_binding_table [of s1 b p] assms(2) ok
            by (auto split: option.split)
        qed
        then show ?thesis unfolding s' using Inr False remove_binding_table [of s1 b] assms(2) ok by auto
      next
        case ne: False
        then have s': "emulate_umount e target s = s1" using Inr False root assms(4) b(1) e
          by (simp add: emulate_umount_def)
        have "\<forall>x \<in> S. guest_pos x \<noteq> ?p"
        proof
          fix x assume "x \<in> S"
          then show "guest_pos x \<noteq> ?p" using b(3,4) ne by (metis prefix_order.eq_iff)
        qed
        then have "mount_table s1 ?p = None" using mounts_None [OF S(1)] unfolding mount_table_def by simp
        then have "(mount_table s1)(?p := None) = mount_table s1" by (simp add: fun_upd_idem)
        then show ?thesis unfolding s' using Inr False assms(2) ok by simp
      qed
    qed
  qed
qed

lemma find_moved:
  assumes t: "wf_table fs S" and bs: "set bs = S" and "new \<noteq> []" "p \<noteq> []"
  shows "find (\<lambda>b. moves new b \<and> guest_pos b = new @ p) bs = None \<longleftrightarrow> mounts fs (new @ p) = None"
    and "find (\<lambda>b. moves new b \<and> guest_pos b = new @ p) bs = Some b \<Longrightarrow>
      mounts fs (new @ p) = Some (bid b, host_pos b)"
proof -
  have m: "moves new b \<and> guest_pos b = new @ p \<longleftrightarrow> guest_pos b = new @ p" for b
    using assms(3,4) by (auto simp: moves_def strict_prefix_def)
  show "find (\<lambda>b. moves new b \<and> guest_pos b = new @ p) bs = None \<longleftrightarrow> mounts fs (new @ p) = None"
    unfolding m find_None_iff mounts_None [OF t] bs by blast
  assume "find (\<lambda>b. moves new b \<and> guest_pos b = new @ p) bs = Some b"
  then have "b \<in> S" "guest_pos b = new @ p" unfolding m find_Some_iff using bs by auto
  then show "mounts fs (new @ p) = Some (bid b, host_pos b)" using mounts_iff [OF t] by auto
qed

text \<open>C40: \<open>pivot_root\<close>, with the names \<open>new\<close> of the new root and \<open>po\<close> of the path where the old one stays
  reachable: the root is the new root, what was bound below the new root moves with it, the old root
  appears at \<open>po\<close>, and everything outside of \<open>po\<close> stays.\<close>

theorem emulate_pivot_root_moves:
  assumes "glue_type e = None" "table_ok s" "mount_table s [] = Some (i, rh)"
    and t: "translate_path e AT_FDCWD new_root True s = (Inr nh, s1)"
    and g: "guest_canonicalize e new_root s1 = (Inr ng, s2)"
    and c: "canonicalize e put_old True (if c_at put_old 0 = CHR ''/'' then ''/'' else ng) 0 s2 = (Inr og, s3)"
    and "canonical (chop_finality nh)" "ng = render new" "names new"
    and po: "put_old_path ng og = exposed po" "\<forall>o' \<in> set_option po. names o' \<and> o' \<noteq> []"
    and "length (render rh) < PATH_MAX" "\<forall>o' \<in> set_option po. \<not> strict_prefix o' p"
  shows "map_option snd (mount_table (emulate_pivot_root e new_root put_old s) p) =
    (if p = [] then Some (names_of (chop_finality nh))
     else if new \<noteq> [] \<and> mount_table s (new @ p) \<noteq> None then map_option snd (mount_table s (new @ p))
     else if po = Some p then Some rh
     else if new \<noteq> [] \<and> strict_prefix new p then None
     else map_option snd (mount_table s p))"
proof -
  have f1: "frame s1 = frame s" using translate_path_frame [OF assms(1) t] .
  have f2: "frame s2 = frame s" using guest_canonicalize_frame [OF assms(1) g] f1 by simp
  have f3: "frame s3 = frame s" using canonicalize_frame(1) [OF assms(1) c] f2 by simp
  note ok = table_ok_frame [OF f3]
  obtain S where S: "wf_table (fs_of s3) S" "\<forall>b \<in> S. bid b < next_bid s3"
    using assms(2) ok by (auto simp: table_ok_def)
  have wf: "wf_fs (fs_of s3)" using root_bound [of s3] assms(2,3) ok by simp
  let ?bs = "head_list (fs_of s3) GUEST"
  have bs: "set ?bs = S" "distinct (map guest_pos ?bs)"
  proof -
    obtain gs where gs: "guest_list (fs_of s3) = Some gs" "set gs = S" "distinct (map bid gs)"
      using S(1) unfolding wf_table_def by blast
    then show "set ?bs = S" by (simp add: head_list_def list_of_def)
    have "inj_on guest_pos (set gs)" using wf_table_inj(3) [OF S(1)] gs(2) by (auto intro: inj_onI)
    then show "distinct (map guest_pos ?bs)" using gs by (simp add: head_list_def list_of_def distinct_map)
  qed
  have "denotes ''/'' []" "names []" by (simp_all add: denotes_def)
  then obtain root where root: "get_binding (fs_of s3) GUEST ''/'' = Some root" "root \<in> S" "guest_pos root = []"
    using get_binding_deepest [OF wf] bs(1) by fastforce
  have r: "i = bid root" "host_pos root = rh"
    using mounts_iff [OF S(1), of "[]" "bid root" "host_pos root"] root assms(3) ok
    unfolding mount_table_def by auto
  have hr: "host root = render rh" "canonical (host root)"
    using table_canonical(2) [OF S(1) root(2)] r(2) unfolding canonical_def by metis+
  then have th: "take (PATH_MAX - 1) (host root) = host root" using assms(12) by simp
  let ?s4 = "remove_binding root s3"
  let ?s5 = "insort_new (chop_finality nh) ''/'' ?s4"
  let ?s6 = "case exposed po of None \<Rightarrow> ?s5
    | Some after \<Rightarrow> insort_new (take (PATH_MAX - 1) (host root)) after ?s5"
  have e: "emulate_pivot_root e new_root put_old s = fold (rebase root (render new) (exposed po)) ?bs ?s6"
    unfolding assms(8) [symmetric]
    by (simp only: emulate_pivot_root_def t g c prod.case sum.case option.case root(1) Let_def po(1))
  have o4: "table_ok ?s4" "next_bid ?s4 = next_bid s3" using remove_binding_table [of s3 root] assms(2) ok by auto
  have "canonical ''/''" by (simp add: canonical_def names_of_def)
  note i5 = insort_new_table [OF o4(1) assms(7) this]
  have m4: "mount_table ?s4 q = (if q = [] then None else mount_table s q)" for q
  proof -
    have "mount_table s q = Some (j, h) \<Longrightarrow> j = bid root \<longleftrightarrow> q = []" for j h
      using mounts_iff [OF S(1), of q j h] wf_table_inj [OF S(1) _ root(2)] root(3) ok
      unfolding mount_table_def by auto
    then show ?thesis using remove_binding_table [of s3 root q] assms(2) ok by (auto split: option.split)
  qed
  have m5: "mount_table ?s5 q = (if q = [] then Some (next_bid s3, names_of (chop_finality nh)) else mount_table s q)"
    for q using i5 m4 [of q] o4(2) by (simp add: names_of_def)
  have s6: "table_ok ?s6 \<and> next_bid s3 < next_bid ?s6 \<and>
      (\<forall>q. mount_table ?s6 q = (if po = Some q then Some (Suc (next_bid s3), rh) else mount_table ?s5 q))"
  proof (cases po)
    case None
    then show ?thesis using i5 o4(2) by (simp add: exposed_def)
  next
    case (Some a)
    then have "canonical (render a)" "names_of (render a) = a" using po(2) by (auto intro: canonical_render)
    then show ?thesis using insort_new_table [OF conjunct1 [OF i5] hr(2), of "render a"] i5 o4(2) r(2)
      unfolding Some exposed_def option.map option.case th by simp
  qed
  have b6: "\<forall>b \<in> set ?bs. canonical (guest b) \<and> canonical (host b) \<and> bid b < next_bid ?s6"
    using S table_canonical [OF S(1)] bs(1) s6 by (auto intro: less_trans)
  have rb: "\<forall>b \<in> set ?bs. bid b = bid root \<longrightarrow> guest_pos b = []"
    using wf_table_inj(1) [OF S(1) _ root(2)] root(3) bs(1) by auto
  note all = rebase_all [OF conjunct1 [OF s6] b6 bs(2) rb assms(9) po(2) assms(13), folded e]
  have m6: "mount_table ?s6 p = (if po = Some p then Some (Suc (next_bid s3), rh)
      else if p = [] then Some (next_bid s3, names_of (chop_finality nh)) else mount_table s p)"
    using s6 m5 [of p] by simp
  have fresh: "\<forall>b \<in> set ?bs. bid b < next_bid s3" using S(2) bs(1) by simp
  show ?thesis
  proof (cases "p = []")
    case True
    then have "find (\<lambda>b. moves new b \<and> guest_pos b = new @ p) ?bs = None"
      by (auto simp: find_None_iff moves_def)
    moreover have "mount_table ?s6 p = Some (next_bid s3, names_of (chop_finality nh))"
      using m6 True po(2) by auto
    ultimately show ?thesis using all True fresh by auto
  next
    case False
    note m = find_moved [OF S(1) bs(1) _ False, of new]
    have up: "mounts (fs_of s3) = mount_table s" using ok by (simp add: mount_table_def)
    have gone: "(\<exists>b \<in> set ?bs. moves new b \<and> (\<exists>h. mount_table s p = Some (bid b, h))) \<longleftrightarrow>
        mount_table s p \<noteq> None \<and> new \<noteq> [] \<and> strict_prefix new p"
      unfolding moves_def bs(1) up [symmetric] using mounts_iff [OF S(1), of p] wf_table_inj(1) [OF S(1)]
      by (cases "mounts (fs_of s3) p") auto
    show ?thesis
    proof (cases "find (\<lambda>b. moves new b \<and> guest_pos b = new @ p) ?bs")
      case (Some b)
      then have n: "new \<noteq> []" by (auto simp: find_Some_iff moves_def)
      show ?thesis using all Some m(2) [OF n Some] False n unfolding up by simp
    next
      case None
      then have n: "\<not> (new \<noteq> [] \<and> mount_table s (new @ p) \<noteq> None)" using m(1) unfolding up by auto
      show ?thesis
      proof (cases "po = Some p")
        case True
        then show ?thesis using all [unfolded None option.case m6] fresh False n by auto
      next
        case np: False
        then have "mount_table ?s6 p = mount_table s p" using m6 False by simp
        then show ?thesis using all [unfolded None option.case] gone False n np by auto
      qed
    qed
  qed
qed

section \<open>Instances\<close>

lemma example_mount_table:
  "table_ok example_state" "mount_table example_state [] = Some (0, [''data'', ''rootfs''])"
  "mount_table example_state [''mnt''] = Some (1, [''sdcard''])" "next_bid example_state = 3"
  "glue_type directories_env = None"
proof -
  have "wf_fs (fs_of example_state)" using example_wf by (simp add: example_state_def)
  then obtain S where S: "wf_table (fs_of example_state) S" unfolding wf_fs_table by blast
  have "list_all (\<lambda>b. bid b < 3) (head_list (fs_of example_state) GUEST)" by code_simp
  then show "table_ok example_state" "next_bid example_state = 3"
    using S wf_table_head [OF S] unfolding table_ok_def list_all_iff by (auto simp: example_state_def)
  show "mount_table example_state [] = Some (0, [''data'', ''rootfs''])"
    "mount_table example_state [''mnt''] = Some (1, [''sdcard''])"
    "glue_type directories_env = None"
    by code_simp+
qed

lemma example_mount_steps:
  "translate_path directories_env AT_FDCWD ''/mnt'' True example_state = (Inr ''/sdcard'', example_state)"
  "guest_canonicalize directories_env ''/media/card'' example_state = (Inr ''/media/card'', example_state)"
  "canonical (chop_finality ''/sdcard'')" "canonical ''/media/card''" "MS_BIND AND MS_REMOUNT = 0"
  "guest_canonicalize directories_env ''/mnt/'' example_state = (Inr ''/mnt'', example_state)" "canonical ''/mnt''"
  "names_of ''/media/card'' = [''media'', ''card'']" "names_of (chop_finality ''/sdcard'') = [''sdcard'']"
  "names_of ''/mnt'' = [''mnt'']"
  by code_simp+

lemma emulate_mount_witness:
  "mount_table (emulate_mount directories_env ''/mnt'' ''/media/card'' '''' MS_BIND example_state)
     [''media'', ''card''] = Some (3, [''sdcard'']) \<and>
   mount_table (emulate_mount directories_env ''sys'' ''/media/card'' ''sysfs'' 0 example_state)
     [''media'', ''card''] = Some (3, [''sys''])"
proof -
  have "bit MS_BIND BIND_BIT" by code_simp
  note b = shows_at_target.bound [OF this example_mount_steps(1)]
  have "\<not> bit (0 :: word_t) BIND_BIT" "map_of virtual_mounts ''sysfs'' = Some [''sys'']" by (simp, code_simp)
  note v = shows_at_target.virtual_mount [OF this, of directories_env "''sys''" example_state]
  have c: "chop_finality (render [''sys'']) = ''/sys''" "canonical ''/sys''" "names_of ''/sys'' = [''sys'']"
    "\<not> bit MS_BIND REMOUNT_BIT"
    by code_simp+
  have "\<not> bit (0 :: word_t) REMOUNT_BIT" by simp
  then show ?thesis
    using emulate_mount_binds [OF example_mount_table(5,1) b example_mount_steps(2)]
      emulate_mount_binds [OF example_mount_table(5,1) v example_mount_steps(2)]
      example_mount_steps(3,4,8,9) example_mount_table(4) c by simp
qed

lemma emulate_umount_witness:
  "mount_table (emulate_umount directories_env ''/mnt/'' example_state) [''mnt''] = None"
proof -
  have "mount_table example_state [] \<noteq> None" using example_mount_table(2) by simp
  from emulate_umount_unbinds [OF example_mount_table(5,1) this example_mount_steps(6)] example_mount_steps(7,10)
  show ?thesis by simp
qed

lemma emulate_pivot_root_witness:
  "map_option snd (mount_table (emulate_pivot_root directories_env ''/mnt'' ''/mnt/old'' example_state) [''old'']) =
     Some [''data'', ''rootfs'']"
proof -
  have t: "translate_path directories_env AT_FDCWD ''/mnt'' True example_state = (Inr ''/sdcard'', example_state)"
    and g: "guest_canonicalize directories_env ''/mnt'' example_state = (Inr ''/mnt'', example_state)"
    and c: "canonicalize directories_env ''/mnt/old'' True
      (if c_at ''/mnt/old'' 0 = CHR ''/'' then ''/'' else ''/mnt'') 0 example_state = (Inr ''/mnt/old'', example_state)"
    and n: "''/mnt'' = render [''mnt'']" "names [''mnt'']" "mount_table example_state [''mnt'', ''old''] = None"
    and p: "put_old_path ''/mnt'' ''/mnt/old'' = exposed (Some [''old''])" "names [''old'']"
    and l: "length (render [''data'', ''rootfs'']) = 12"
    by code_simp+
  have o: "\<forall>o' \<in> set_option (Some [''old'']). names o' \<and> o' \<noteq> []" using p(2) by simp
  have l': "length (render [''data'', ''rootfs'']) < PATH_MAX" unfolding l by (simp add: PATH_MAX_def)
  have s: "\<forall>o' \<in> set_option (Some [''old'']). \<not> strict_prefix o' [''old'']" by simp
  show ?thesis
    using emulate_pivot_root_moves [OF example_mount_table(5,1,2) t g c example_mount_steps(3) n(1,2) p(1) o l' s] n(3)
    by simp
qed

end
