(* ===== verification/Regs.thy ===== *)
theory Regs
  imports Prelude
begin

text \<open>
  The cached register banks of a tracee, \<open>tracee/reg.c\<close> and \<open>tracee/abi.h\<close> as they are built for
  arm64: the offsets of the registers in \<open>struct user_regs_struct\<close> for a 64-bit tracee and for a
  32-bit one (\<open>is_aarch32\<close>), reading, writing, saving and pushing them. A bank is its 32-bit words by
  index. The locale \<open>register_file\<close> is what the clients of the registers rely on.
\<close>

section \<open>The code\<close>

datatype reg =
    SYSARG_NUM | SYSARG_1 | SYSARG_2 | SYSARG_3 | SYSARG_4 | SYSARG_5 | SYSARG_6 | SYSARG_RESULT
  | STACK_POINTER | INSTR_POINTER | RTLD_FINI | STATE_FLAGS | USERARG_1

datatype reg_version = CURRENT | ORIGINAL | MODIFIED | ORIGINAL_SECCOMP_REWRITE

type_synonym bank = "nat \<Rightarrow> u32"

datatype restart = NOT_CHOSEN | PTRACE_CONT | PTRACE_SYSCALL | PTRACE_SINGLESTEP | PTRACE_SINGLEBLOCK

datatype sysnum_workaround =
  SYSNUM_WORKAROUND_INACTIVE | SYSNUM_WORKAROUND_PROCESS_FAULTY_CALL
  | SYSNUM_WORKAROUND_PROCESS_REPLACED_CALL

record chained_syscall =
  ch_sysnum :: string
  ch_sysargs :: "word_t list"

record heap =
  heap_base :: word_t
  heap_size :: word_t
  heap_disabled :: bool

text \<open>
  The fields of \<open>struct tracee\<close> that the register, chain and heap code uses; \<open>restart_how\<close> is
  \<open>NOT_CHOSEN\<close> for 0, \<open>chain_syscalls\<close> is
  \<open>None\<close> for NULL, \<open>bss_end\<close> the end of the last mapping of \<open>load_info\<close>.
\<close>

record tracee =
  regs :: "reg_version \<Rightarrow> bank"
  regs_were_changed :: bool
  restore_original_regs :: bool
  restore_after_seccomp_event :: bool
  is_aarch32 :: bool
  restart_how :: restart
  chain_syscalls :: "chained_syscall list option"
  force_final_result :: bool
  final_result :: word_t
  workaround_state :: sysnum_workaround
  heap_of :: heap
  bss_end :: word_t

text \<open>
  \<open>reg_offset\<close> and \<open>reg_offset_armeabi\<close>, in 32-bit words instead of bytes. The entries that the
  initialisers leave out are 0.
\<close>

fun reg_offset :: "reg \<Rightarrow> nat" where
  "reg_offset SYSARG_NUM = 16"
| "reg_offset SYSARG_1 = 0"
| "reg_offset SYSARG_2 = 2"
| "reg_offset SYSARG_3 = 4"
| "reg_offset SYSARG_4 = 6"
| "reg_offset SYSARG_5 = 8"
| "reg_offset SYSARG_6 = 10"
| "reg_offset SYSARG_RESULT = 0"
| "reg_offset STACK_POINTER = 62"
| "reg_offset INSTR_POINTER = 64"
| "reg_offset RTLD_FINI = 0"
| "reg_offset STATE_FLAGS = 0"
| "reg_offset USERARG_1 = 0"

fun reg_offset_armeabi :: "reg \<Rightarrow> nat" where
  "reg_offset_armeabi SYSARG_NUM = 7"
| "reg_offset_armeabi SYSARG_1 = 0"
| "reg_offset_armeabi SYSARG_2 = 1"
| "reg_offset_armeabi SYSARG_3 = 2"
| "reg_offset_armeabi SYSARG_4 = 3"
| "reg_offset_armeabi SYSARG_5 = 4"
| "reg_offset_armeabi SYSARG_6 = 5"
| "reg_offset_armeabi SYSARG_RESULT = 0"
| "reg_offset_armeabi STACK_POINTER = 13"
| "reg_offset_armeabi INSTR_POINTER = 15"
| "reg_offset_armeabi RTLD_FINI = 0"
| "reg_offset_armeabi STATE_FLAGS = 0"
| "reg_offset_armeabi USERARG_1 = 0"

definition slot :: "tracee \<Rightarrow> reg \<Rightarrow> nat" where
  "slot t r = (if is_aarch32 t then reg_offset_armeabi r else reg_offset r)"

text \<open>A little-endian \<open>word_t\<close> at a slot of a bank, read and written.\<close>

definition read_word :: "bank \<Rightarrow> nat \<Rightarrow> word_t" where
  "read_word b i = ucast (b i) OR push_bit 32 (ucast (b (Suc i)))"

definition write_word :: "bank \<Rightarrow> nat \<Rightarrow> word_t \<Rightarrow> bank" where
  "write_word b i v = b(i := ucast v, Suc i := ucast (drop_bit 32 v))"

definition is_32on64_mode :: "tracee \<Rightarrow> bool" where
  "is_32on64_mode t = is_aarch32 t"

definition peek_reg :: "tracee \<Rightarrow> reg_version \<Rightarrow> reg \<Rightarrow> word_t" where
  "peek_reg t version r =
     (let result = read_word (regs t version) (slot t r) in
      if is_32on64_mode t then result AND 0xFFFFFFFF else result)"

definition set_bank :: "tracee \<Rightarrow> reg_version \<Rightarrow> bank \<Rightarrow> tracee" where
  "set_bank t version b = t\<lparr>regs := (regs t)(version := b)\<rparr>"

definition poke_reg :: "reg \<Rightarrow> word_t \<Rightarrow> tracee \<Rightarrow> tracee" where
  "poke_reg r v t =
     (if peek_reg t CURRENT r = v then t
      else
        (let b = regs t CURRENT;
             b' = (if is_32on64_mode t then b(slot t r := ucast v) else write_word b (slot t r) v) in
         (set_bank t CURRENT b')\<lparr>regs_were_changed := True\<rparr>))"

definition save_current_regs :: "reg_version \<Rightarrow> tracee \<Rightarrow> tracee" where
  "save_current_regs version t =
     set_bank (if version = ORIGINAL then t\<lparr>regs_were_changed := False\<rparr> else t)
       version (regs t CURRENT)"

text \<open>
  \<open>fetch_regs\<close>: the answer of the kernel is what \<open>PTRACE_GETREGSET\<close> leaves in the buffer.
\<close>

definition fetch_regs :: "(bank \<Rightarrow> bank) res \<Rightarrow> tracee \<Rightarrow> (unit res \<times> tracee)" where
  "fetch_regs answer t =
     (case answer of
        Inl err \<Rightarrow> (Inl EPERM, t)
      | Inr f \<Rightarrow> (Inr (), set_bank t CURRENT (f (regs t CURRENT))))"

text \<open>
  \<open>push_specific_regs\<close>. \<open>RESTORE\<close> copies a whole \<open>word_t\<close>, and skips the registers that share the
  slot of the result in the 64-bit table. The requests made to the kernel are returned in order;
  \<open>accepts\<close> is the kernel's answer.
\<close>

datatype ptrace_request = SET_SYSTEM_CALL word_t | SET_REGSET bank

definition restore_reg :: "reg_version \<Rightarrow> reg \<Rightarrow> tracee \<Rightarrow> tracee" where
  "restore_reg from r t =
     (if reg_offset SYSARG_RESULT = reg_offset r then t
      else set_bank t CURRENT
             (write_word (regs t CURRENT) (slot t r) (read_word (regs t from) (slot t r))))"

definition restored_regs :: "reg list" where
  "restored_regs =
     [SYSARG_NUM, SYSARG_1, SYSARG_2, SYSARG_3, SYSARG_4, SYSARG_5, SYSARG_6, STACK_POINTER]"

definition restore_regs :: "tracee \<Rightarrow> tracee" where
  "restore_regs t =
     (if restore_original_regs t then
        (let from = (if restore_after_seccomp_event t then ORIGINAL_SECCOMP_REWRITE else ORIGINAL);
             t = t\<lparr>restore_after_seccomp_event := False\<rparr> in
         fold (restore_reg from) restored_regs t)
      else t)"

definition push_specific_regs ::
  "(ptrace_request \<Rightarrow> bool) \<Rightarrow> bool \<Rightarrow> tracee \<Rightarrow> (unit res \<times> tracee \<times> ptrace_request list)" where
  "push_specific_regs accepts including_sysnum t =
     (if regs_were_changed t \<or> (restore_original_regs t \<and> restore_after_seccomp_event t) then
        (let t = restore_regs t;
             current_sysnum = read_word (regs t CURRENT) (slot t SYSARG_NUM);
             original_sysnum = read_word (regs t ORIGINAL) (slot t SYSARG_NUM);
             first = (if including_sysnum \<and> current_sysnum \<noteq> original_sysnum
                      then [SET_SYSTEM_CALL current_sysnum] else []);
             second = SET_REGSET (regs t CURRENT) in
         if \<not> list_all accepts first then (Inl EPERM, t, first)
         else if \<not> accepts second then (Inl EPERM, t, first @ [second])
         else (Inr (), t, first @ [second]))
      else (Inr (), t, []))"

definition push_regs ::
  "(ptrace_request \<Rightarrow> bool) \<Rightarrow> tracee \<Rightarrow> (unit res \<times> tracee \<times> ptrace_request list)" where
  "push_regs accepts t = push_specific_regs accepts True t"

definition SYSTRAP_SIZE :: word_t where
  "SYSTRAP_SIZE = 4"

text \<open>The byte at 0x40 of the bank is the low byte of word 16, the 32-bit \<open>cpsr\<close>.\<close>

definition get_systrap_size :: "tracee \<Rightarrow> word_t" where
  "get_systrap_size t =
     (if is_aarch32 t \<and> regs t CURRENT 16 AND 0x20 \<noteq> 0 then 2 else SYSTRAP_SIZE)"

section \<open>Words\<close>

lemma read_write_word: "read_word (write_word b i v) i = v"
  unfolding read_word_def write_word_def
  by (rule bit_word_eqI) (auto simp: bit_or_iff bit_push_bit_iff bit_ucast_iff bit_drop_bit_eq)

lemma read_write_other:
  "Suc i < j \<or> Suc j < i \<Longrightarrow> read_word (write_word b i v) j = read_word b j"
  by (auto simp: read_word_def write_word_def)

lemma bit_and_mask32: "bit (v AND 0xFFFFFFFF :: word_t) n \<longleftrightarrow> bit v n \<and> n < 32"
proof -
  have m: "(0xFFFFFFFF :: word_t) = mask 32" by (simp add: mask_eq_exp_minus_1)
  show ?thesis unfolding m bit_and_iff bit_mask_iff by (auto dest: bit_imp_le_length)
qed

lemma read_low: "read_word b i AND 0xFFFFFFFF = ucast (b i)"
proof (rule bit_word_eqI)
  fix n assume "n < LENGTH(64)"
  show "bit (read_word b i AND 0xFFFFFFFF) n = bit (ucast (b i) :: word_t) n"
    unfolding bit_and_mask32
    by (auto simp: read_word_def bit_or_iff bit_push_bit_iff bit_ucast_iff dest: bit_imp_le_length)
qed

lemma ucast_mask32: "ucast (ucast (v :: word_t) :: u32) = v AND (0xFFFFFFFF :: word_t)"
  by (rule bit_word_eqI, unfold bit_and_mask32) (auto simp: bit_ucast_iff)

section \<open>The contract of a register file\<close>

text \<open>
  What the clients of the registers rely on: a register reads back the written value, as the mode
  of the tracee can represent it, and a write leaves alone the registers that do not share its slot.
\<close>

locale register_file =
  fixes get :: "'s \<Rightarrow> reg \<Rightarrow> word_t"
    and put :: "reg \<Rightarrow> word_t \<Rightarrow> 's \<Rightarrow> 's"
    and norm :: "'s \<Rightarrow> word_t \<Rightarrow> word_t"
    and apart :: "reg \<Rightarrow> reg \<Rightarrow> bool"
  assumes get_put: "get (put r v s) r = norm s v"
    and get_put_other: "apart r q \<Longrightarrow> get (put r v s) q = get s q"
    and norm_put: "norm (put r v s) = norm s"
begin

definition put_all :: "(reg \<times> word_t) list \<Rightarrow> 's \<Rightarrow> 's" where
  "put_all l s = fold (\<lambda>(r, v). put r v) l s"

lemma put_all_simps [simp]: "put_all [] s = s" "put_all ((r, v) # l) s = put_all l (put r v s)"
  by (simp_all add: put_all_def)

lemma norm_put_all: "norm (put_all l s) = norm s"
  by (induction l arbitrary: s) (auto simp: norm_put)

lemma get_put_all_other: "\<forall>(r, v) \<in> set l. apart r q \<Longrightarrow> get (put_all l s) q = get s q"
  by (induction l arbitrary: s) (auto simp: get_put_other)

lemma get_put_all:
  assumes "(q, w) \<in> set l" "sorted_wrt (\<lambda>a b. apart (fst b) (fst a)) l"
  shows "get (put_all l s) q = norm s w"
  using assms
proof (induction l arbitrary: s)
  case (Cons x l)
  obtain r v where x: "x = (r, v)" by (cases x)
  show ?case
  proof (cases "(q, w) \<in> set l")
    case True
    with Cons x show ?thesis by (simp add: norm_put)
  next
    case False
    with Cons.prems x have e: "q = r" "w = v" by auto
    from Cons.prems(2) have "\<forall>(r', v') \<in> set l. apart r' q" by (auto simp: x e)
    with x e show ?thesis using get_put_all_other [of l q "put r v s"] by (simp add: get_put)
  qed
qed simp

end

definition apart :: "reg \<Rightarrow> reg \<Rightarrow> bool" where
  "apart r q \<longleftrightarrow> reg_offset r \<noteq> reg_offset q"

definition reg_norm :: "tracee \<Rightarrow> word_t \<Rightarrow> word_t" where
  "reg_norm t v = (if is_aarch32 t then v AND 0xFFFFFFFF else v)"

definition current_reg :: "tracee \<Rightarrow> reg \<Rightarrow> word_t" where
  "current_reg t r = peek_reg t CURRENT r"

lemma slots_apart:
  "apart r q \<Longrightarrow> reg_offset r \<noteq> Suc (reg_offset q) \<and> Suc (reg_offset r) \<noteq> reg_offset q"
  "apart r q \<Longrightarrow> reg_offset_armeabi r \<noteq> reg_offset_armeabi q"
  by (cases r; cases q; simp add: apart_def)+

lemma set_bank_simps [simp]:
  "regs (set_bank t v b) v' = (if v' = v then b else regs t v')"
  "regs_were_changed (set_bank t v b) = regs_were_changed t"
  "restore_original_regs (set_bank t v b) = restore_original_regs t"
  "restore_after_seccomp_event (set_bank t v b) = restore_after_seccomp_event t"
  "is_aarch32 (set_bank t v b) = is_aarch32 t" "restart_how (set_bank t v b) = restart_how t"
  "chain_syscalls (set_bank t v b) = chain_syscalls t"
  "force_final_result (set_bank t v b) = force_final_result t"
  "final_result (set_bank t v b) = final_result t"
  "workaround_state (set_bank t v b) = workaround_state t"
  "heap_of (set_bank t v b) = heap_of t" "bss_end (set_bank t v b) = bss_end t"
  by (simp_all add: set_bank_def)

lemma poke_reg_simps [simp]:
  "restore_original_regs (poke_reg r v t) = restore_original_regs t"
  "restore_after_seccomp_event (poke_reg r v t) = restore_after_seccomp_event t"
  "is_aarch32 (poke_reg r v t) = is_aarch32 t" "restart_how (poke_reg r v t) = restart_how t"
  "chain_syscalls (poke_reg r v t) = chain_syscalls t"
  "force_final_result (poke_reg r v t) = force_final_result t"
  "final_result (poke_reg r v t) = final_result t"
  "workaround_state (poke_reg r v t) = workaround_state t"
  "heap_of (poke_reg r v t) = heap_of t" "bss_end (poke_reg r v t) = bss_end t"
  "version \<noteq> CURRENT \<Longrightarrow> regs (poke_reg r v t) version = regs t version"
  by (simp_all add: poke_reg_def Let_def)

lemma slot_set [simp]: "slot (t\<lparr>regs_were_changed := x\<rparr>) = slot t" "slot (set_bank t w b) = slot t"
  "slot (poke_reg r v t) = slot t"
  by (simp_all add: slot_def fun_eq_iff)

lemma peek_poke_same: "peek_reg (poke_reg r v t) CURRENT r = reg_norm t v"
proof (cases "peek_reg t CURRENT r = v")
  case True
  then show ?thesis
    by (auto simp: poke_reg_def reg_norm_def peek_reg_def is_32on64_mode_def Let_def and.assoc)
next
  case False
  then show ?thesis
    by (simp add: poke_reg_def peek_reg_def [of "_\<lparr>regs_were_changed := True\<rparr>"] reg_norm_def
        is_32on64_mode_def Let_def read_write_word read_low ucast_mask32)
qed

lemma peek_poke_other:
  assumes "apart r q"
  shows "peek_reg (poke_reg r v t) CURRENT q = peek_reg t CURRENT q"
proof (cases "peek_reg t CURRENT r = v")
  case True
  then show ?thesis by (simp add: poke_reg_def)
next
  case False
  have "reg_offset r \<noteq> reg_offset q" using assms by (simp add: apart_def)
  then have "Suc (reg_offset r) < reg_offset q \<or> Suc (reg_offset q) < reg_offset r"
    using slots_apart(1) [OF assms] by linarith
  then show ?thesis using False slots_apart(2) [OF assms]
    by (auto simp: poke_reg_def peek_reg_def [of "_\<lparr>regs_were_changed := True\<rparr>"] peek_reg_def [of t _ q]
        is_32on64_mode_def Let_def read_write_other read_low slot_def)
qed

interpretation cached: register_file current_reg poke_reg reg_norm apart
  by unfold_locales
    (auto simp: current_reg_def peek_poke_same peek_poke_other, simp add: reg_norm_def fun_eq_iff)

section \<open>Properties\<close>

text \<open>After a sequence of writes to registers with different slots, every written register reads
  back its value (its low 32 bits for a 32-bit tracee), every register outside the slots keeps its
  value, and the saved banks are not touched.\<close>

theorem poke_sequence:
  assumes "distinct (map (reg_offset \<circ> fst) l)"
  shows "(\<forall>(q, w) \<in> set l. peek_reg (fold (\<lambda>(r, v). poke_reg r v) l t) CURRENT q = reg_norm t w) \<and>
    (\<forall>q. reg_offset q \<notin> reg_offset ` fst ` set l \<longrightarrow>
       peek_reg (fold (\<lambda>(r, v). poke_reg r v) l t) CURRENT q = peek_reg t CURRENT q) \<and>
    (\<forall>version. version \<noteq> CURRENT \<longrightarrow>
       regs (fold (\<lambda>(r, v). poke_reg r v) l t) version = regs t version)"
proof (intro conjI)
  have s: "sorted_wrt (\<lambda>a b. apart (fst b) (fst a)) l"
    using assms by (induction l) (force simp: apart_def)+
  show "\<forall>(q, w) \<in> set l. peek_reg (fold (\<lambda>(r, v). poke_reg r v) l t) CURRENT q = reg_norm t w"
    using cached.get_put_all [OF _ s] by (auto simp: current_reg_def cached.put_all_def)
  show "\<forall>q. reg_offset q \<notin> reg_offset ` fst ` set l \<longrightarrow>
       peek_reg (fold (\<lambda>(r, v). poke_reg r v) l t) CURRENT q = peek_reg t CURRENT q"
  proof (intro allI impI)
    fix q assume "reg_offset q \<notin> reg_offset ` fst ` set l"
    then have "\<forall>(r, v) \<in> set l. apart r q" unfolding apart_def by (auto intro: rev_image_eqI)
    then show "peek_reg (fold (\<lambda>(r, v). poke_reg r v) l t) CURRENT q = peek_reg t CURRENT q"
      using cached.get_put_all_other [of l q t] by (simp add: current_reg_def cached.put_all_def)
  qed
  show "\<forall>version. version \<noteq> CURRENT \<longrightarrow>
       regs (fold (\<lambda>(r, v). poke_reg r v) l t) version = regs t version"
    by (induction l arbitrary: t) auto
qed

text \<open>Restoring copies the words of the restored registers, except those of the result.\<close>

lemma write_read_word: "write_word b i (read_word f i) = b(i := f i, Suc i := f (Suc i))"
proof -
  have "ucast (read_word f i) = f i" "ucast (drop_bit 32 (read_word f i)) = f (Suc i)"
    unfolding read_word_def
    by (rule bit_word_eqI, auto simp: bit_ucast_iff bit_or_iff bit_push_bit_iff bit_drop_bit_eq
          dest: bit_imp_le_length)+
  then show ?thesis by (simp add: write_word_def)
qed

definition restored_words :: "tracee \<Rightarrow> nat set" where
  "restored_words t =
     (if is_aarch32 t then {1, 2, 3, 4, 5, 6, 7, 8, 13, 14}
      else {2, 3, 4, 5, 6, 7, 8, 9, 10, 11, 16, 17, 62, 63})"

lemma restore_fold:
  assumes "from \<noteq> CURRENT"
  shows "regs (fold (restore_reg from) restored_regs t) CURRENT =
    (\<lambda>i. if i \<in> restored_words t then regs t from i else regs t CURRENT i)"
  using assms
  by (auto simp: restored_regs_def restore_reg_def write_read_word slot_def restored_words_def
      fun_eq_iff)

lemma restore_fold_simps [simp]:
  "is_aarch32 (fold (restore_reg from) l t) = is_aarch32 t"
  "regs_were_changed (fold (restore_reg from) l t) = regs_were_changed t"
  "version \<noteq> CURRENT \<Longrightarrow> regs (fold (restore_reg from) l t) version = regs t version"
  by (induction l arbitrary: t) (auto simp: restore_reg_def)

lemma restored_slots:
  "r \<in> set restored_regs \<Longrightarrow> reg_offset r \<noteq> 0 \<Longrightarrow> slot t r \<in> restored_words t \<and> Suc (slot t r) \<in> restored_words t"
  by (auto simp: restored_regs_def slot_def restored_words_def)

lemma kept_slots:
  "r \<in> {SYSARG_RESULT, INSTR_POINTER} \<Longrightarrow> slot t r \<notin> restored_words t \<and>
     (\<not> is_aarch32 t \<longrightarrow> Suc (slot t r) \<notin> restored_words t)"
  by (auto simp: slot_def restored_words_def)

lemma peek_reg_cong:
  assumes "is_aarch32 t' = is_aarch32 t" "regs t' v (slot t r) = regs t w (slot t r)"
    and "\<not> is_aarch32 t \<Longrightarrow> regs t' v (Suc (slot t r)) = regs t w (Suc (slot t r))"
  shows "peek_reg t' v r = peek_reg t w r"
proof -
  have s: "slot t' r = slot t r" using assms(1) by (simp add: slot_def)
  show ?thesis
  proof (cases "is_aarch32 t")
    case True
    then show ?thesis using assms s by (simp add: peek_reg_def is_32on64_mode_def read_low)
  next
    case False
    then show ?thesis using assms s by (simp add: peek_reg_def is_32on64_mode_def read_word_def)
  qed
qed

text \<open>The bank that a push restores the registers from.\<close>

definition restored_from :: "tracee \<Rightarrow> reg_version" where
  "restored_from t = (if restore_after_seccomp_event t then ORIGINAL_SECCOMP_REWRITE else ORIGINAL)"

lemma push_specific_restores:
  assumes "regs_were_changed t \<or> restore_after_seccomp_event t" "restore_original_regs t"
    and "including_sysnum \<Longrightarrow> restored_from t = ORIGINAL"
    and "push_specific_regs accepts including_sysnum t = (status, t', requests)"
  shows "requests = [SET_REGSET (regs t' CURRENT)] \<and> is_aarch32 t' = is_aarch32 t \<and>
    (\<forall>r \<in> {SYSARG_NUM, SYSARG_2, SYSARG_3, SYSARG_4, SYSARG_5, SYSARG_6, STACK_POINTER}.
       peek_reg t' CURRENT r = peek_reg t (restored_from t) r) \<and>
    peek_reg t' CURRENT SYSARG_RESULT = peek_reg t CURRENT SYSARG_RESULT \<and>
    peek_reg t' CURRENT INSTR_POINTER = peek_reg t CURRENT INSTR_POINTER"
proof -
  let ?from = "restored_from t"
  let ?plain = "t\<lparr>restore_after_seccomp_event := False\<rparr>"
  let ?t = "fold (restore_reg ?from) restored_regs ?plain"
  have f: "?from \<noteq> CURRENT" by (simp add: restored_from_def)
  have t0: "regs ?plain = regs t" "restored_words ?plain = restored_words t"
    by (simp_all add: restored_words_def)
  have bank: "regs ?t CURRENT = (\<lambda>i. if i \<in> restored_words t then regs t ?from i else regs t CURRENT i)"
    using restore_fold [OF f, of ?plain] unfolding t0 by simp
  have r: "restore_regs t = ?t" using assms(2) by (simp add: restore_regs_def restored_from_def)
  have mode: "is_aarch32 ?t = is_aarch32 t" "slot ?t = slot t"
    by (simp_all add: slot_def fun_eq_iff)
  have orig: "regs ?t ORIGINAL = regs t ORIGINAL" by simp
  have in_restored: "SYSARG_NUM \<in> set restored_regs" by (simp add: restored_regs_def)
  have num: "including_sysnum \<Longrightarrow>
      read_word (regs ?t CURRENT) (slot ?t SYSARG_NUM) = read_word (regs ?t ORIGINAL) (slot ?t SYSARG_NUM)"
    using restored_slots [of SYSARG_NUM t] in_restored assms(3) unfolding bank mode(2) orig read_word_def
    by simp
  have t': "t' = ?t" "requests = [SET_REGSET (regs ?t CURRENT)]"
    using assms(1,2,4) num by (auto simp: push_specific_regs_def r Let_def split: if_splits)
  have "peek_reg ?t CURRENT r = peek_reg t ?from r" if "r \<in> set restored_regs" "reg_offset r \<noteq> 0" for r
    using restored_slots [OF that, of t] by (intro peek_reg_cong mode(1)) (simp_all add: bank)
  moreover have "peek_reg ?t CURRENT r = peek_reg t CURRENT r" if "r \<in> {SYSARG_RESULT, INSTR_POINTER}" for r
    using kept_slots [OF that, of t] by (intro peek_reg_cong mode(1)) (simp_all add: bank)
  ultimately show ?thesis unfolding t' using mode(1) by (simp add: restored_regs_def)
qed

text \<open>When the original registers have to be restored, pushing a changed bank hands the kernel a
  bank in which the system call number, the stack pointer and every argument that does not share the
  slot of the result are those of the entry, while the result and the instruction pointer are
  the current ones; the number is then not sent on its own.\<close>

theorem push_restores_original:
  assumes "regs_were_changed t" "restore_original_regs t" "\<not> restore_after_seccomp_event t"
    and "push_regs accepts t = (status, t', requests)"
  shows "requests = [SET_REGSET (regs t' CURRENT)] \<and>
    (\<forall>r \<in> {SYSARG_NUM, SYSARG_2, SYSARG_3, SYSARG_4, SYSARG_5, SYSARG_6, STACK_POINTER}.
       peek_reg t' CURRENT r = peek_reg t ORIGINAL r) \<and>
    peek_reg t' CURRENT SYSARG_RESULT = peek_reg t CURRENT SYSARG_RESULT \<and>
    peek_reg t' CURRENT INSTR_POINTER = peek_reg t CURRENT INSTR_POINTER"
  using push_specific_restores [OF _ assms(2) _ assms(4) [unfolded push_regs_def]] assms(1,3)
  by (simp add: restored_from_def)

section \<open>A concrete tracee\<close>

definition example_tracee :: tracee where
  "example_tracee = \<lparr>regs = (\<lambda>version i. if version = CURRENT then of_nat i else of_nat (100 + i)),
     regs_were_changed = True, restore_original_regs = True, restore_after_seccomp_event = False,
     is_aarch32 = False, restart_how = PTRACE_CONT, chain_syscalls = None,
     force_final_result = False, final_result = 0, workaround_state = SYSNUM_WORKAROUND_INACTIVE,
     heap_of = \<lparr>heap_base = 0, heap_size = 0, heap_disabled = False\<rparr>, bss_end = 0x10000\<rparr>"

lemma poke_sequence_witness:
  "peek_reg (fold (\<lambda>(r, v). poke_reg r v) [(USERARG_1, 2 ^ 40), (SYSARG_2, 5)] example_tracee)
    CURRENT USERARG_1 = 2 ^ 40"
proof -
  have "reg_norm example_tracee (2 ^ 40) = 2 ^ 40" by (simp add: reg_norm_def example_tracee_def)
  then show ?thesis
    using poke_sequence [of "[(USERARG_1, 2 ^ 40), (SYSARG_2, 5)]" example_tracee] by fastforce
qed

lemma push_restores_witness:
  "peek_reg (fst (snd (push_regs (\<lambda>r. True) example_tracee))) CURRENT SYSARG_2 =
     peek_reg example_tracee ORIGINAL SYSARG_2"
proof -
  obtain status t' requests where
    "push_regs (\<lambda>r. True) example_tracee = (status, t', requests)" by (metis prod_cases3)
  with push_restores_original [OF _ _ _ this] show ?thesis by (simp add: example_tracee_def)
qed

end
