(* ===== verification/Sysnums.thy ===== *)
theory Sysnums
  imports Regs
begin

text \<open>
  System call numbers: the tables of \<open>syscall/sysnums-arm64.h\<close> and \<open>syscall/sysnums-arm.h\<close> and the
  conversions of \<open>syscall/sysnum.c\<close>. A neutral number \<open>PR_x\<close> is its name \<open>''x''\<close>; \<open>PR_void\<close>, the value
  of the entries that a table leaves out, is \<open>''void''\<close>.
\<close>

section \<open>The tables\<close>

type_synonym sysnum = string

definition sysnums_arm64 :: "sysnum list" where
  "sysnums_arm64 =
    [''io_setup'', ''io_destroy'', ''io_submit'', ''io_cancel'', ''io_getevents'', ''setxattr'',
     ''lsetxattr'', ''fsetxattr'', ''getxattr'', ''lgetxattr'', ''fgetxattr'', ''listxattr'',
     ''llistxattr'', ''flistxattr'', ''removexattr'', ''lremovexattr'', ''fremovexattr'',
     ''getcwd'', ''lookup_dcookie'', ''eventfd2'', ''epoll_create1'', ''epoll_ctl'',
     ''epoll_pwait'', ''dup'', ''dup3'', ''fcntl'', ''inotify_init1'', ''inotify_add_watch'',
     ''inotify_rm_watch'', ''ioctl'', ''ioprio_set'', ''ioprio_get'', ''flock'', ''mknodat'',
     ''mkdirat'', ''unlinkat'', ''symlinkat'', ''linkat'', ''renameat'', ''umount2'', ''mount'',
     ''pivot_root'', ''nfsservctl'', ''statfs'', ''fstatfs'', ''truncate'', ''ftruncate'',
     ''fallocate'', ''faccessat'', ''chdir'', ''fchdir'', ''chroot'', ''fchmod'', ''fchmodat'',
     ''fchownat'', ''fchown'', ''openat'', ''close'', ''vhangup'', ''pipe2'', ''quotactl'',
     ''getdents64'', ''lseek'', ''read'', ''write'', ''readv'', ''writev'', ''pread64'',
     ''pwrite64'', ''preadv'', ''pwritev'', ''sendfile'', ''pselect6'', ''ppoll'', ''signalfd4'',
     ''vmsplice'', ''splice'', ''tee'', ''readlinkat'', ''fstatat64'', ''fstat'', ''sync'',
     ''fsync'', ''fdatasync'', ''sync_file_range'', ''timerfd_create'', ''timerfd_settime'',
     ''timerfd_gettime'', ''utimensat'', ''acct'', ''capget'', ''capset'', ''personality'',
     ''exit'', ''exit_group'', ''waitid'', ''set_tid_address'', ''unshare'', ''futex'',
     ''set_robust_list'', ''get_robust_list'', ''nanosleep'', ''getitimer'', ''setitimer'',
     ''kexec_load'', ''init_module'', ''delete_module'', ''timer_create'', ''timer_gettime'',
     ''timer_getoverrun'', ''timer_settime'', ''timer_delete'', ''clock_settime'',
     ''clock_gettime'', ''clock_getres'', ''clock_nanosleep'', ''syslog'', ''ptrace'',
     ''sched_setparam'', ''sched_setscheduler'', ''sched_getscheduler'', ''sched_getparam'',
     ''sched_setaffinity'', ''sched_getaffinity'', ''sched_yield'', ''sched_get_priority_max'',
     ''sched_get_priority_min'', ''sched_rr_get_interval'', ''restart_syscall'', ''kill'',
     ''tkill'', ''tgkill'', ''sigaltstack'', ''rt_sigsuspend'', ''rt_sigaction'',
     ''rt_sigprocmask'', ''rt_sigpending'', ''rt_sigtimedwait'', ''rt_sigqueueinfo'',
     ''rt_sigreturn'', ''setpriority'', ''getpriority'', ''reboot'', ''setregid'', ''setgid'',
     ''setreuid'', ''setuid'', ''setresuid'', ''getresuid'', ''setresgid'', ''getresgid'',
     ''setfsuid'', ''setfsgid'', ''times'', ''setpgid'', ''getpgid'', ''getsid'', ''setsid'',
     ''getgroups'', ''setgroups'', ''uname'', ''sethostname'', ''setdomainname'', ''getrlimit'',
     ''setrlimit'', ''getrusage'', ''umask'', ''prctl'', ''getcpu'', ''gettimeofday'',
     ''settimeofday'', ''adjtimex'', ''getpid'', ''getppid'', ''getuid'', ''geteuid'',
     ''getgid'', ''getegid'', ''gettid'', ''sysinfo'', ''mq_open'', ''mq_unlink'',
     ''mq_timedsend'', ''mq_timedreceive'', ''mq_notify'', ''mq_getsetattr'', ''msgget'',
     ''msgctl'', ''msgrcv'', ''msgsnd'', ''semget'', ''semctl'', ''semtimedop'', ''semop'',
     ''shmget'', ''shmctl'', ''shmat'', ''shmdt'', ''socket'', ''socketpair'', ''bind'',
     ''listen'', ''accept'', ''connect'', ''getsockname'', ''getpeername'', ''sendto'',
     ''recvfrom'', ''setsockopt'', ''getsockopt'', ''shutdown'', ''sendmsg'', ''recvmsg'',
     ''readahead'', ''brk'', ''munmap'', ''mremap'', ''add_key'', ''request_key'', ''keyctl'',
     ''clone'', ''execve'', ''mmap'', ''fadvise64'', ''swapon'', ''swapoff'', ''mprotect'',
     ''msync'', ''mlock'', ''munlock'', ''mlockall'', ''munlockall'', ''mincore'', ''madvise'',
     ''remap_file_pages'', ''mbind'', ''get_mempolicy'', ''set_mempolicy'', ''migrate_pages'',
     ''move_pages'', ''rt_tgsigqueueinfo'', ''perf_event_open'', ''accept4'', ''recvmmsg'',
     ''arch_specific_syscall''] @
    replicate 15 ''void'' @
    [''wait4'', ''prlimit64'', ''fanotify_init'', ''fanotify_mark'', ''name_to_handle_at'',
     ''open_by_handle_at'', ''clock_adjtime'', ''syncfs'', ''setns'', ''sendmmsg'',
     ''process_vm_readv'', ''process_vm_writev'', ''kcmp'', ''finit_module'', ''sched_setattr'',
     ''sched_getattr'', ''renameat2'', ''seccomp'', ''getrandom'', ''memfd_create'', ''bpf'',
     ''execveat'', ''userfaultfd'', ''membarrier'', ''mlock2'', ''copy_file_range'', ''preadv2'',
     ''pwritev2'', ''pkey_mprotect'', ''pkey_alloc'', ''pkey_free'', ''statx''] @
    replicate 143 ''void'' @
    [''clone3'', ''void'', ''openat2'', ''void'', ''faccessat2'']"

definition sysnums_arm :: "sysnum list" where
  "sysnums_arm =
    [''restart_syscall'', ''exit'', ''fork'', ''read'', ''write'', ''open'', ''close'', ''void'',
     ''creat'', ''link'', ''unlink'', ''execve'', ''chdir'', ''void'', ''mknod'', ''chmod'',
     ''lchown'', ''void'', ''void'', ''lseek'', ''getpid'', ''mount'', ''void'', ''setuid'',
     ''getuid'', ''void'', ''ptrace'', ''void'', ''void'', ''pause'', ''utime'', ''void'',
     ''void'', ''access'', ''nice'', ''void'', ''sync'', ''kill'', ''rename'', ''mkdir'',
     ''rmdir'', ''dup'', ''pipe'', ''times'', ''void'', ''brk'', ''setgid'', ''getgid'',
     ''void'', ''geteuid'', ''getegid'', ''acct'', ''umount2'', ''void'', ''ioctl'', ''fcntl'',
     ''void'', ''setpgid'', ''void'', ''void'', ''umask'', ''chroot'', ''ustat'', ''dup2'',
     ''getppid'', ''getpgrp'', ''setsid'', ''sigaction'', ''void'', ''void'', ''setreuid'',
     ''setregid'', ''sigsuspend'', ''sigpending'', ''sethostname'', ''setrlimit'', ''void'',
     ''getrusage'', ''gettimeofday'', ''settimeofday'', ''getgroups'', ''setgroups'', ''void'',
     ''symlink'', ''void'', ''readlink'', ''uselib'', ''swapon'', ''reboot'', ''void'', ''void'',
     ''munmap'', ''truncate'', ''ftruncate'', ''fchmod'', ''fchown'', ''getpriority'',
     ''setpriority'', ''void'', ''statfs'', ''fstatfs'', ''void'', ''void'', ''syslog'',
     ''setitimer'', ''getitimer'', ''stat'', ''lstat'', ''fstat'', ''void'', ''void'',
     ''vhangup'', ''void'', ''void'', ''wait4'', ''swapoff'', ''sysinfo'', ''void'', ''fsync'',
     ''sigreturn'', ''clone'', ''setdomainname'', ''uname'', ''void'', ''adjtimex'',
     ''mprotect'', ''sigprocmask'', ''void'', ''init_module'', ''delete_module'', ''void'',
     ''quotactl'', ''getpgid'', ''fchdir'', ''bdflush'', ''sysfs'', ''personality'', ''void'',
     ''setfsuid'', ''setfsgid'', ''_llseek'', ''getdents'', ''_newselect'', ''flock'', ''msync'',
     ''readv'', ''writev'', ''getsid'', ''fdatasync'', ''_sysctl'', ''mlock'', ''munlock'',
     ''mlockall'', ''munlockall'', ''sched_setparam'', ''sched_getparam'',
     ''sched_setscheduler'', ''sched_getscheduler'', ''sched_yield'', ''sched_get_priority_max'',
     ''sched_get_priority_min'', ''sched_rr_get_interval'', ''nanosleep'', ''mremap'',
     ''setresuid'', ''getresuid'', ''void'', ''void'', ''poll'', ''nfsservctl'', ''setresgid'',
     ''getresgid'', ''prctl'', ''rt_sigreturn'', ''rt_sigaction'', ''rt_sigprocmask'',
     ''rt_sigpending'', ''rt_sigtimedwait'', ''rt_sigqueueinfo'', ''rt_sigsuspend'', ''pread64'',
     ''pwrite64'', ''chown'', ''getcwd'', ''capget'', ''capset'', ''sigaltstack'', ''sendfile'',
     ''void'', ''void'', ''vfork'', ''ugetrlimit'', ''mmap2'', ''truncate64'', ''ftruncate64'',
     ''stat64'', ''lstat64'', ''fstat64'', ''lchown32'', ''getuid32'', ''getgid32'',
     ''geteuid32'', ''getegid32'', ''setreuid32'', ''setregid32'', ''getgroups32'',
     ''setgroups32'', ''fchown32'', ''setresuid32'', ''getresuid32'', ''setresgid32'',
     ''getresgid32'', ''chown32'', ''setuid32'', ''setgid32'', ''setfsuid32'', ''setfsgid32'',
     ''getdents64'', ''pivot_root'', ''mincore'', ''madvise'', ''fcntl64'', ''void'', ''void'',
     ''gettid'', ''readahead'', ''setxattr'', ''lsetxattr'', ''fsetxattr'', ''getxattr'',
     ''lgetxattr'', ''fgetxattr'', ''listxattr'', ''llistxattr'', ''flistxattr'',
     ''removexattr'', ''lremovexattr'', ''fremovexattr'', ''tkill'', ''sendfile64'', ''futex'',
     ''sched_setaffinity'', ''sched_getaffinity'', ''io_setup'', ''io_destroy'',
     ''io_getevents'', ''io_submit'', ''io_cancel'', ''exit_group'', ''lookup_dcookie'',
     ''epoll_create'', ''epoll_ctl'', ''epoll_wait'', ''remap_file_pages'', ''void'', ''void'',
     ''set_tid_address'', ''timer_create'', ''timer_settime'', ''timer_gettime'',
     ''timer_getoverrun'', ''timer_delete'', ''clock_settime'', ''clock_gettime'',
     ''clock_getres'', ''clock_nanosleep'', ''statfs64'', ''fstatfs64'', ''tgkill'', ''utimes'',
     ''arm_fadvise64_64'', ''pciconfig_iobase'', ''pciconfig_read'', ''pciconfig_write'',
     ''mq_open'', ''mq_unlink'', ''mq_timedsend'', ''mq_timedreceive'', ''mq_notify'',
     ''mq_getsetattr'', ''waitid'', ''socket'', ''bind'', ''connect'', ''listen'', ''accept'',
     ''getsockname'', ''getpeername'', ''socketpair'', ''send'', ''sendto'', ''recv'',
     ''recvfrom'', ''shutdown'', ''setsockopt'', ''getsockopt'', ''sendmsg'', ''recvmsg'',
     ''semop'', ''semget'', ''semctl'', ''msgsnd'', ''msgrcv'', ''msgget'', ''msgctl'',
     ''shmat'', ''shmdt'', ''shmget'', ''shmctl'', ''add_key'', ''request_key'', ''keyctl'',
     ''semtimedop'', ''vserver'', ''ioprio_set'', ''ioprio_get'', ''inotify_init'',
     ''inotify_add_watch'', ''inotify_rm_watch'', ''mbind'', ''get_mempolicy'',
     ''set_mempolicy'', ''openat'', ''mkdirat'', ''mknodat'', ''fchownat'', ''futimesat'',
     ''fstatat64'', ''unlinkat'', ''renameat'', ''linkat'', ''symlinkat'', ''readlinkat'',
     ''fchmodat'', ''faccessat'', ''pselect6'', ''ppoll'', ''unshare'', ''set_robust_list'',
     ''get_robust_list'', ''splice'', ''arm_sync_file_range'', ''tee'', ''vmsplice'',
     ''move_pages'', ''getcpu'', ''epoll_pwait'', ''kexec_load'', ''utimensat'', ''signalfd'',
     ''timerfd_create'', ''eventfd'', ''fallocate'', ''timerfd_settime'', ''timerfd_gettime'',
     ''signalfd4'', ''eventfd2'', ''epoll_create1'', ''dup3'', ''pipe2'', ''inotify_init1'',
     ''preadv'', ''pwritev'', ''rt_tgsigqueueinfo'', ''perf_event_open'', ''recvmmsg'',
     ''accept4'', ''fanotify_init'', ''fanotify_mark'', ''prlimit64'', ''name_to_handle_at'',
     ''open_by_handle_at'', ''clock_adjtime'', ''syncfs'', ''sendmmsg'', ''setns'',
     ''process_vm_readv'', ''process_vm_writev'', ''kcmp'', ''finit_module'', ''sched_setattr'',
     ''sched_getattr'', ''renameat2'', ''seccomp'', ''getrandom'', ''memfd_create'', ''bpf'',
     ''execveat'', ''userfaultfd'', ''membarrier'', ''mlock2'', ''copy_file_range'', ''preadv2'',
     ''pwritev2'', ''pkey_mprotect'', ''pkey_alloc'', ''pkey_free'', ''statx''] @
    replicate 37 ''void'' @
    [''clone3'', ''void'', ''openat2'', ''void'', ''faccessat2'']"

section \<open>The code\<close>

text \<open>The ABIs of an arm64 build; \<open>ABI_3\<close> is x32 only and is never returned by \<open>get_abi\<close>.\<close>

datatype abi = ABI_DEFAULT | ABI_2

definition get_abi :: "tracee \<Rightarrow> abi" where
  "get_abi t = (if is_aarch32 t then ABI_2 else ABI_DEFAULT)"

record sysnums =
  sn_table :: "sysnum list"
  sn_offset :: word_t
  sn_length :: word_t

fun get_sysnums :: "abi \<Rightarrow> sysnums" where
  "get_sysnums ABI_DEFAULT = \<lparr>sn_table = sysnums_arm64, sn_offset = 0, sn_length = of_nat (length sysnums_arm64)\<rparr>"
| "get_sysnums ABI_2 = \<lparr>sn_table = sysnums_arm, sn_offset = 0, sn_length = of_nat (length sysnums_arm)\<rparr>"

definition SYSCALL_AVOIDER :: word_t where
  "SYSCALL_AVOIDER = - 2"

text \<open>
  \<open>translate_sysnum\<close>. The bound check lets the index that is equal to the length of the table
  through; \<open>beyond\<close> is what the program finds in memory after the table.
\<close>

definition translate_sysnum :: "(abi \<Rightarrow> sysnum) \<Rightarrow> abi \<Rightarrow> word_t \<Rightarrow> sysnum" where
  "translate_sysnum beyond abi sysnum =
     (let sysnums = get_sysnums abi in
      if sysnum < sn_offset sysnums then ''void''
      else
        (let index = sysnum - sn_offset sysnums in
         if index > sn_length sysnums then ''void''
         else if unat index < length (sn_table sysnums) then sn_table sysnums ! unat index
         else beyond abi))"

fun detranslate_loop :: "sysnum list \<Rightarrow> word_t \<Rightarrow> word_t \<Rightarrow> sysnum \<Rightarrow> word_t" where
  "detranslate_loop [] i offset sysnum = SYSCALL_AVOIDER"
| "detranslate_loop (x # xs) i offset sysnum =
     (if x \<noteq> sysnum then detranslate_loop xs (i + 1) offset sysnum else i + offset)"

definition detranslate_sysnum :: "abi \<Rightarrow> sysnum \<Rightarrow> word_t" where
  "detranslate_sysnum abi sysnum =
     (if sysnum = ''void'' then SYSCALL_AVOIDER
      else detranslate_loop (sn_table (get_sysnums abi)) 0 (sn_offset (get_sysnums abi)) sysnum)"

definition get_sysnum :: "(abi \<Rightarrow> sysnum) \<Rightarrow> tracee \<Rightarrow> reg_version \<Rightarrow> sysnum" where
  "get_sysnum beyond t version = translate_sysnum beyond (get_abi t) (peek_reg t version SYSARG_NUM)"

definition set_sysnum :: "sysnum \<Rightarrow> tracee \<Rightarrow> tracee" where
  "set_sysnum sysnum t = poke_reg SYSARG_NUM (detranslate_sysnum (get_abi t) sysnum) t"

section \<open>Properties\<close>

lemma table_lengths: "length sysnums_arm64 = 440" "length sysnums_arm = 440"
  by (simp_all add: sysnums_arm64_def sysnums_arm_def)

lemma get_sysnums_simps:
  "sn_offset (get_sysnums abi) = 0" "length (sn_table (get_sysnums abi)) = 440"
  "sn_length (get_sysnums abi) = 440"
  by (cases abi; simp add: table_lengths)+

lemma detranslate_loop_found:
  assumes "sysnum \<in> set xs"
  shows "\<exists>k < length xs. xs ! k = sysnum \<and> detranslate_loop xs i offset sysnum = i + of_nat k + offset"
  using assms
proof (induction xs arbitrary: i)
  case (Cons x xs)
  show ?case
  proof (cases "x = sysnum")
    case False
    with Cons obtain k where "k < length xs" "xs ! k = sysnum"
        "detranslate_loop xs (i + 1) offset sysnum = i + 1 + of_nat k + offset"
      by fastforce
    with False show ?thesis by (intro exI [of _ "Suc k"]) (simp add: algebra_simps)
  qed (intro exI [of _ 0], simp)
qed simp

lemma detranslate_loop_missing:
  "sysnum \<notin> set xs \<Longrightarrow> detranslate_loop xs i offset sysnum = SYSCALL_AVOIDER"
  by (induction xs arbitrary: i) auto

lemma detranslate_cases:
  obtains (avoided) "sysnum = ''void'' \<or> sysnum \<notin> set (sn_table (get_sysnums abi))"
      "detranslate_sysnum abi sysnum = SYSCALL_AVOIDER"
    | (found) k where "sysnum \<noteq> ''void''" "k < 440" "sn_table (get_sysnums abi) ! k = sysnum"
      "detranslate_sysnum abi sysnum = of_nat k"
proof (cases "sysnum = ''void'' \<or> sysnum \<notin> set (sn_table (get_sysnums abi))")
  case True
  then show thesis using detranslate_loop_missing by (intro avoided) (auto simp: detranslate_sysnum_def)
next
  case False
  then have ne: "sysnum \<noteq> ''void''" and "sysnum \<in> set (sn_table (get_sysnums abi))" by auto
  from detranslate_loop_found [OF this(2), of 0 0] obtain k where k: "k < 440"
      "sn_table (get_sysnums abi) ! k = sysnum"
      "detranslate_loop (sn_table (get_sysnums abi)) 0 0 sysnum = of_nat k"
    by (auto simp: get_sysnums_simps)
  with ne show thesis by (intro found [OF ne k(1,2)]) (simp add: detranslate_sysnum_def get_sysnums_simps)
qed

lemma avoider_translates: "translate_sysnum beyond abi SYSCALL_AVOIDER = ''void''"
  by (simp add: translate_sysnum_def get_sysnums_simps SYSCALL_AVOIDER_def)

lemma translate_in_table:
  "k < 440 \<Longrightarrow> translate_sysnum beyond abi (of_nat k) = sn_table (get_sysnums abi) ! k"
  by (simp add: translate_sysnum_def get_sysnums_simps unat_of_nat word_less_nat_alt not_less)

lemma detranslate_translate_sysnum:
  "translate_sysnum beyond abi (detranslate_sysnum abi sysnum) =
     (if sysnum \<in> set (sn_table (get_sysnums abi)) then sysnum else ''void'')"
  by (rule detranslate_cases [of sysnum abi]) (auto simp: avoider_translates translate_in_table get_sysnums_simps)

lemma reg_norm_detranslate:
  "translate_sysnum beyond abi (reg_norm t (detranslate_sysnum abi sysnum)) =
     translate_sysnum beyond abi (detranslate_sysnum abi sysnum)"
proof (rule detranslate_cases [of sysnum abi])
  assume "detranslate_sysnum abi sysnum = SYSCALL_AVOIDER"
  then show ?thesis
    by (simp add: avoider_translates)
      (simp add: reg_norm_def translate_sysnum_def get_sysnums_simps SYSCALL_AVOIDER_def)
next
  fix k :: nat
  assume k: "k < 440" "detranslate_sysnum abi sysnum = of_nat k"
  have "(of_nat k :: word_t) AND 0xFFFFFFFF = of_nat k"
  proof -
    have "(0xFFFFFFFF :: word_t) = mask 32" by (simp add: mask_eq_exp_minus_1)
    then have "(of_nat k :: word_t) AND 0xFFFFFFFF = take_bit 32 (of_nat k)"
      by (simp only: take_bit_eq_mask)
    also have "\<dots> = of_nat (take_bit 32 k)" by (simp add: take_bit_of_nat)
    also have "take_bit 32 k = k" using k(1) by (simp add: take_bit_nat_eq_self)
    finally show ?thesis .
  qed
  then show ?thesis using k by (simp add: reg_norm_def)
qed

lemma set_sysnum_reads:
  "get_sysnum beyond (set_sysnum sysnum t) CURRENT =
     (if sysnum \<in> set (sn_table (get_sysnums (get_abi t))) then sysnum else ''void'')"
  by (simp add: get_sysnum_def set_sysnum_def get_abi_def peek_poke_same reg_norm_detranslate
      detranslate_translate_sysnum)

text \<open>C19: Writing a neutral system call number to the registers of a tracee, of either width, and
  reading it back gives the number if the ABI of the tracee has it, and \<open>PR_void\<close> otherwise.\<close>

theorem set_get_sysnum:
  "get_sysnum beyond (set_sysnum sysnum t) CURRENT =
     (if sysnum \<in> set (sn_table (get_sysnums (get_abi t))) then sysnum else ''void'')"
  by (rule set_sysnum_reads)

text \<open>C20: The bound check of \<open>translate_sysnum\<close> is off by one: for the number that equals the length of
  the table, and for this number only, the result is what lies in memory after the table.\<close>

theorem translate_reads_beyond:
  "(\<forall>beyond. translate_sysnum beyond abi sysnum = beyond abi) \<longleftrightarrow> sysnum = 440"
proof
  assume all: "\<forall>beyond. translate_sysnum beyond abi sysnum = beyond abi"
  show "sysnum = 440"
  proof (rule ccontr)
    assume n: "sysnum \<noteq> 440"
    have "translate_sysnum beyond abi sysnum = translate_sysnum beyond' abi sysnum" for beyond beyond'
    proof (cases "sysnum > 440")
      case True
      then show ?thesis by (simp add: translate_sysnum_def get_sysnums_simps)
    next
      case False
      with n have "sysnum < 440" by simp
      then have "unat sysnum < 440" by (simp add: word_less_nat_alt)
      then show ?thesis by (simp add: translate_sysnum_def get_sysnums_simps Let_def)
    qed
    from this [of "\<lambda>_. ''a''" "\<lambda>_. ''b''"]
    show False unfolding all [rule_format] by simp
  qed
qed (simp add: translate_sysnum_def get_sysnums_simps)

end
