(* ===== verification/Mem.thy ===== *)
theory Mem
  imports Sysnums
begin

text \<open>
  The memory of a tracee as PRoot reads and writes it, \<open>tracee/mem.c\<close>, \<open>tracee/mem.h\<close> and the accesses
  to the arguments of a system call of \<open>syscall/syscall.c\<close>: word by word with \<open>ptrace(2)\<close>, or in one
  go with \<open>process_vm_readv(2)\<close> and \<open>process_vm_writev(2)\<close>. The requests to the kernel are an argument
  over a state of any type; what they do to the bytes of the tracee is the hypothesis
  \<open>memory_laws\<close>. The build is the one for arm64.
\<close>

section \<open>The kernel\<close>

type_synonym byte = "8 word"

datatype wait_status = STOPPED int | ENDED

definition SIGILL :: int where "SIGILL = 4"
definition SIGSTOP :: int where "SIGSTOP = 19"
definition SIGSYS :: int where "SIGSYS = 31"

text \<open>
  \<open>k_readv\<close> gives the bytes that were transferred and \<open>k_writev\<close> their number; an error is no byte at
  all. \<open>k_conts\<close> continues the tracee until it reports a stop other than those that are skipped, and
  gives what it reported. A request that the kernel does not accept leaves it as it is.
\<close>

record 'k kernel =
  have_process_vm :: bool
  k_peekdata :: "'k \<Rightarrow> word_t \<Rightarrow> word_t res"
  k_pokedata :: "word_t \<Rightarrow> word_t \<Rightarrow> 'k \<Rightarrow> unit res \<times> 'k"
  k_readv :: "'k \<Rightarrow> word_t \<Rightarrow> nat \<Rightarrow> byte list"
  k_writev :: "word_t \<Rightarrow> byte list \<Rightarrow> 'k \<Rightarrow> nat \<times> 'k"
  k_accepts :: "'k \<Rightarrow> ptrace_request \<Rightarrow> bool"
  k_request :: "ptrace_request \<Rightarrow> 'k \<Rightarrow> 'k"
  k_block_signals :: "'k \<Rightarrow> 'k"
  k_restore_signals :: "'k \<Rightarrow> 'k"
  k_conts :: "'k \<Rightarrow> wait_status list \<times> 'k"
  k_kill_stop :: "'k \<Rightarrow> 'k"

text \<open>
  A tracee with its kernel side. The first two fields are the static variables of
  \<open>ptrace_pokedata_or_via_stub\<close>, the next three those of the tracee for the same workaround.
\<close>

record 'k machine =
  tr :: tracee
  krn :: 'k
  workaround_needed :: bool
  workaround_checked :: bool
  stub_addr :: word_t
  cancelled_syscall :: bool
  relaunched_syscall :: bool

section \<open>Words and bytes\<close>

definition bytes_of :: "word_t \<Rightarrow> byte list" where
  "bytes_of w = map (\<lambda>i. ucast (drop_bit (8 * i) w)) [0..<8]"

definition word_of :: "byte list \<Rightarrow> word_t" where
  "word_of bs = foldr (\<lambda>b w. ucast b OR push_bit 8 w) bs 0"

definition untag_pointer :: "word_t \<Rightarrow> word_t" where
  "untag_pointer addr = addr AND 0x00FFFFFFFFFFFFFF"

definition sizeof_word :: "tracee \<Rightarrow> nat" where
  "sizeof_word t = (if is_32on64_mode t then 4 else 8)"

section \<open>The workaround for a broken POKEDATA\<close>

fun stub_loop :: "wait_status list \<Rightarrow> bool \<Rightarrow> wait_status \<times> bool" where
  "stub_loop [] redeliver_sigstop = (ENDED, redeliver_sigstop)"
| "stub_loop (wstatus # ws) redeliver_sigstop =
     (let redeliver_sigstop = (redeliver_sigstop \<or> wstatus = STOPPED SIGSTOP) in
      if wstatus = STOPPED SIGSYS \<or> wstatus = STOPPED SIGSTOP then stub_loop ws redeliver_sigstop
      else (wstatus, redeliver_sigstop))"

definition run_stub :: "'k kernel \<Rightarrow> word_t \<Rightarrow> word_t \<Rightarrow> 'k machine \<Rightarrow> bool \<times> 'k machine" where
  "run_stub k addr word m =
     (let t = tr m;
          orig_regs = regs t CURRENT;
          s = k_block_signals k (krn m);
          t = poke_reg INSTR_POINTER (stub_addr m) t;
          t = poke_reg SYSARG_2 word t;
          t = poke_reg SYSARG_3 addr t;
          t = set_sysnum ''void'' t;
          (r, t, requests) = push_specific_regs (k_accepts k s) True
             (t\<lparr>regs_were_changed := True, restore_original_regs := False\<rparr>);
          s = fold (k_request k) requests s;
          (ws, s) = k_conts k s;
          (wstatus, redeliver_sigstop) = stub_loop ws False;
          s = (if redeliver_sigstop then k_kill_stop k s else s);
          s = k_restore_signals k s;
          t = (set_bank t CURRENT orig_regs)
                \<lparr>regs_were_changed := True, restore_original_regs := restore_original_regs (tr m)\<rparr> in
      (wstatus = STOPPED SIGILL, m\<lparr>tr := t, krn := s, cancelled_syscall := True\<rparr>))"

text \<open>The result is whether the word was written.\<close>

definition ptrace_pokedata_or_via_stub ::
  "'k kernel \<Rightarrow> word_t \<Rightarrow> word_t \<Rightarrow> 'k machine \<Rightarrow> bool \<times> 'k machine" where
  "ptrace_pokedata_or_via_stub k addr word m =
     (let (success, m) =
            (if workaround_needed m then (False, m)
             else (let (r, s) = k_pokedata k addr word (krn m) in (r = Inr (), m\<lparr>krn := s\<rparr>)));
          m = (if workaround_checked m then m
               else m\<lparr>workaround_needed := \<not> success, workaround_checked := True\<rparr>) in
      if workaround_needed m then
        (if is_aarch32 (tr m) then (False, m) else run_stub k addr word m)
      else (success, m))"

definition mem_prepare_after_execve :: "word_t \<Rightarrow> 'k machine \<Rightarrow> 'k machine" where
  "mem_prepare_after_execve offset_to_pokedata_workaround m =
     m\<lparr>stub_addr := peek_reg (tr m) CURRENT INSTR_POINTER + offset_to_pokedata_workaround\<rparr>"

definition mem_prepare_before_first_execve :: "word_t \<Rightarrow> 'k machine \<Rightarrow> 'k machine" where
  "mem_prepare_before_first_execve launcher_pokedata_workaround m =
     m\<lparr>stub_addr := launcher_pokedata_workaround\<rparr>"

section \<open>Reading and writing\<close>

text \<open>The full words of \<open>write_data\<close>; what is left is the address and the bytes of the last word.\<close>

function write_words ::
  "'k kernel \<Rightarrow> word_t \<Rightarrow> byte list \<Rightarrow> 'k machine \<Rightarrow> (word_t \<times> byte list) res \<times> 'k machine" where
  "write_words k dest src m =
     (if length src < 8 then (Inr (dest, src), m)
      else
        (let (success, m) = ptrace_pokedata_or_via_stub k dest (word_of (take 8 src)) m in
         if \<not> success then (Inl EFAULT, m) else write_words k (dest + 8) (drop 8 src) m))"
  by pat_completeness auto

termination
  by (relation "measure (\<lambda>(k, dest, src, m). length src)") auto

declare write_words.simps [simp del]

definition write_last :: "'k kernel \<Rightarrow> word_t \<Rightarrow> byte list \<Rightarrow> 'k machine \<Rightarrow> unit res \<times> 'k machine" where
  "write_last k dest src m =
     (if src = [] then (Inr (), m)
      else
        (case k_peekdata k (krn m) dest of
           Inl _ \<Rightarrow> (Inl EFAULT, m)
         | Inr word \<Rightarrow>
             (let word = word_of (src @ drop (length src) (bytes_of word));
                  (success, m) = ptrace_pokedata_or_via_stub k dest word m in
              (if success then Inr () else Inl EFAULT, m))))"

definition write_data :: "'k kernel \<Rightarrow> word_t \<Rightarrow> byte list \<Rightarrow> 'k machine \<Rightarrow> unit res \<times> 'k machine" where
  "write_data k dest_tracee src m =
     (let dest = untag_pointer dest_tracee;
          (status, s) = (if have_process_vm k then k_writev k dest src (krn m) else (0, krn m));
          m = m\<lparr>krn := s\<rparr> in
      if have_process_vm k \<and> status = length src then (Inr (), m)
      else
        (case write_words k dest src m of
           (Inl err, m) \<Rightarrow> (Inl err, m)
         | (Inr (dest, src), m) \<Rightarrow> write_last k dest src m))"

text \<open>\<open>writev_data\<close>: the buffers in one go, or one after the other.\<close>

fun write_buffers :: "'k kernel \<Rightarrow> word_t \<Rightarrow> byte list list \<Rightarrow> 'k machine \<Rightarrow> unit res \<times> 'k machine" where
  "write_buffers k dest [] m = (Inr (), m)"
| "write_buffers k dest (src # srcs) m =
     (case write_data k dest src m of
        (Inl err, m) \<Rightarrow> (Inl err, m)
      | (Inr _, m) \<Rightarrow> write_buffers k (dest + of_nat (length src)) srcs m)"

definition writev_data :: "'k kernel \<Rightarrow> word_t \<Rightarrow> byte list list \<Rightarrow> 'k machine \<Rightarrow> unit res \<times> 'k machine" where
  "writev_data k dest_tracee srcs m =
     (let dest = untag_pointer dest_tracee;
          (status, s) = (if have_process_vm k then k_writev k dest (concat srcs) (krn m) else (0, krn m));
          m = m\<lparr>krn := s\<rparr> in
      if have_process_vm k \<and> status = length (concat srcs) then (Inr (), m)
      else write_buffers k dest srcs m)"

fun read_words :: "'k kernel \<Rightarrow> 'k \<Rightarrow> word_t \<Rightarrow> nat \<Rightarrow> byte list res" where
  "read_words k s src 0 = Inr []"
| "read_words k s src (Suc nb_full_words) =
     (case k_peekdata k s src of
        Inl _ \<Rightarrow> Inl EFAULT
      | Inr word \<Rightarrow> bindE (read_words k s (src + 8) nb_full_words) (\<lambda>bs. Inr (bytes_of word @ bs)))"

definition read_data :: "'k kernel \<Rightarrow> word_t \<Rightarrow> nat \<Rightarrow> 'k machine \<Rightarrow> byte list res" where
  "read_data k src_tracee n m =
     (let src = untag_pointer src_tracee;
          fast = (if have_process_vm k then k_readv k (krn m) src n else []);
          nb_trailing_bytes = n mod 8;
          nb_full_words = (n - nb_trailing_bytes) div 8 in
      if have_process_vm k \<and> length fast = n then Inr fast
      else
        bindE (read_words k (krn m) src nb_full_words) (\<lambda>bs.
          if nb_trailing_bytes = 0 then Inr bs
          else
            (case k_peekdata k (krn m) (src + of_nat (8 * nb_full_words)) of
               Inl _ \<Rightarrow> Inl EFAULT
             | Inr word \<Rightarrow> Inr (bs @ take nb_trailing_bytes (bytes_of word)))))"

section \<open>Strings\<close>

text \<open>
  \<open>read_string\<close> gives the bytes that it has put into the buffer and its status. The chunks are those
  of a page size that is a multiple of 1024; the loop needs at most one round per byte.
\<close>

definition chunk_size :: nat where
  "chunk_size = 1024"

definition chunk_left :: "word_t \<Rightarrow> nat" where
  "chunk_left address = chunk_size - unat address mod chunk_size"

function read_chunks :: "'k kernel \<Rightarrow> 'k \<Rightarrow> word_t \<Rightarrow> nat \<Rightarrow> nat \<Rightarrow> (byte list \<times> nat) option" where
  "read_chunks k s src max_size offset =
     (let n = min (chunk_left (src + of_nat offset)) (max_size - offset);
          got = k_readv k s (src + of_nat offset) n in
      if length got \<noteq> n then None
      else if 0 \<in> set got then
        (let status = length (takeWhile (\<lambda>b. b \<noteq> 0) got) in Some (got, offset + status + 1))
      else if offset + n < max_size then
        map_option (\<lambda>(bs, n). (got @ bs, n)) (read_chunks k s src max_size (offset + n))
      else None)"
  by pat_completeness auto

termination
proof (relation "measure (\<lambda>(k, s, src, max_size, offset). max_size - offset)", goal_cases)
  case (2 k s src max_size offset n got)
  have "chunk_left (src + of_nat offset) > 0"
    by (simp add: chunk_left_def chunk_size_def)
  moreover have "offset + n < max_size" by (rule 2(5))
  ultimately have "0 < n" unfolding 2(1) by linarith
  with \<open>offset + n < max_size\<close> show ?case by simp
qed simp

declare read_chunks.simps [simp del]

text \<open>The fallback: whole words up to the terminator, then the bytes of the last word.\<close>

definition last_bytes :: "byte list \<Rightarrow> nat \<Rightarrow> byte list \<times> nat" where
  "last_bytes src_word nb_trailing_bytes =
     (let bs = take nb_trailing_bytes src_word; j = length (takeWhile (\<lambda>b. b \<noteq> 0) bs) in
      (take (j + 1) bs, j))"

fun read_string_words :: "'k kernel \<Rightarrow> 'k \<Rightarrow> word_t \<Rightarrow> nat \<Rightarrow> nat \<Rightarrow> nat \<Rightarrow> (byte list \<times> nat) res" where
  "read_string_words k s src i 0 nb_trailing_bytes =
     (case k_peekdata k s (src + of_nat (8 * i)) of
        Inl _ \<Rightarrow> Inl EFAULT
      | Inr word \<Rightarrow>
          (let (bs, j) = last_bytes (bytes_of word) nb_trailing_bytes in Inr (bs, i * 8 + j + 1)))"
| "read_string_words k s src i (Suc nb_full_words) nb_trailing_bytes =
     (case k_peekdata k s (src + of_nat (8 * i)) of
        Inl _ \<Rightarrow> Inl EFAULT
      | Inr word \<Rightarrow>
          if 0 \<in> set (bytes_of word)
          then Inr (bytes_of word, i * 8 + length (takeWhile (\<lambda>b. b \<noteq> 0) (bytes_of word)) + 1)
          else bindE (read_string_words k s src (Suc i) nb_full_words nb_trailing_bytes)
                 (\<lambda>(bs, n). Inr (bytes_of word @ bs, n)))"

definition read_string :: "'k kernel \<Rightarrow> word_t \<Rightarrow> nat \<Rightarrow> 'k machine \<Rightarrow> (byte list \<times> nat) res" where
  "read_string k src_tracee max_size m =
     (let src = untag_pointer src_tracee;
          nb_trailing_bytes = max_size mod 8;
          nb_full_words = (max_size - nb_trailing_bytes) div 8 in
      case (if have_process_vm k then read_chunks k (krn m) src max_size 0 else None) of
        Some r \<Rightarrow> Inr r
      | None \<Rightarrow> read_string_words k (krn m) src 0 nb_full_words nb_trailing_bytes)"

definition mem_PATH_MAX :: nat where
  "mem_PATH_MAX = 4096"

definition read_path :: "'k kernel \<Rightarrow> word_t \<Rightarrow> 'k machine \<Rightarrow> (byte list \<times> nat) res" where
  "read_path k src_tracee m =
     bindE (read_string k src_tracee mem_PATH_MAX m) (\<lambda>(bs, status).
       if status \<ge> mem_PATH_MAX then Inl ENAMETOOLONG else Inr (bs, status))"

section \<open>Words of the tracee\<close>

definition fault :: "errno \<Rightarrow> errno" where
  "fault err = (if err = EIO then EFAULT else err)"

definition peek_word :: "'k kernel \<Rightarrow> word_t \<Rightarrow> 'k machine \<Rightarrow> word_t res" where
  "peek_word k address m =
     (let address = untag_pointer address;
          got = (if have_process_vm k then k_readv k (krn m) address (sizeof_word (tr m)) else []) in
      if got \<noteq> [] then Inr (word_of got)
      else
        (case k_peekdata k (krn m) address of
           Inl err \<Rightarrow> Inl (fault err)
         | Inr result \<Rightarrow> Inr (if is_32on64_mode (tr m) then result AND 0xFFFFFFFF else result)))"

definition poke_word :: "'k kernel \<Rightarrow> word_t \<Rightarrow> word_t \<Rightarrow> 'k machine \<Rightarrow> unit res \<times> 'k machine" where
  "poke_word k address v m =
     (let address = untag_pointer address;
          (status, s) = (if have_process_vm k
                         then k_writev k address (take (sizeof_word (tr m)) (bytes_of v)) (krn m)
                         else (0, krn m));
          m = m\<lparr>krn := s\<rparr> in
      if status > 0 then (Inr (), m)
      else
        (case (if is_32on64_mode (tr m) then
                 (case k_peekdata k (krn m) address of
                    Inl err \<Rightarrow> Inl err
                  | Inr tmp \<Rightarrow> Inr (v OR (tmp AND 0xFFFFFFFF00000000)))
               else Inr v) of
           Inl err \<Rightarrow> (Inl err, m)
         | Inr v \<Rightarrow>
             (let (r, s) = k_pokedata k address v (krn m) in
              (case r of Inl err \<Rightarrow> Inl (fault err) | Inr _ \<Rightarrow> Inr (), m\<lparr>krn := s\<rparr>))))"

text \<open>The functions that \<open>GENERATE_peek\<close> and \<open>GENERATE_poke\<close> make, for a size in bytes.\<close>

definition peek_uint :: "'k kernel \<Rightarrow> nat \<Rightarrow> word_t \<Rightarrow> 'k machine \<Rightarrow> word_t res" where
  "peek_uint k n address m = bindE (read_data k address n m) (\<lambda>bs. Inr (word_of bs))"

definition poke_uint :: "'k kernel \<Rightarrow> nat \<Rightarrow> word_t \<Rightarrow> word_t \<Rightarrow> 'k machine \<Rightarrow> unit res \<times> 'k machine" where
  "poke_uint k n address v m = write_data k address (take n (bytes_of v)) m"

section \<open>Allocation\<close>

definition RED_ZONE_SIZE :: int where
  "RED_ZONE_SIZE = 0"

definition ULONG_MAX :: word_t where
  "ULONG_MAX = - 1"

text \<open>
  \<open>alloc_mem\<close>; the result 0 is the error. The assertion that the tracee is at its enter stage is not repeated:
  the status of the call belongs to the state of the stages, not to that of the machine.
\<close>

definition alloc_mem :: "int \<Rightarrow> 'k machine \<Rightarrow> word_t \<times> 'k machine" where
  "alloc_mem n m =
     (let stack_pointer = peek_reg (tr m) CURRENT STACK_POINTER;
          n = (if stack_pointer = peek_reg (tr m) ORIGINAL STACK_POINTER then n + RED_ZONE_SIZE else n) in
      if (n > 0 \<and> stack_pointer \<le> word_of_int n)
         \<or> (n < 0 \<and> stack_pointer \<ge> ULONG_MAX + word_of_int n)
      then (0, m)
      else
        (let stack_pointer = stack_pointer - word_of_int n in
         (stack_pointer, m\<lparr>tr := poke_reg STACK_POINTER stack_pointer (tr m)\<rparr>)))"

text \<open>\<open>clear_mem\<close>; the answer of \<open>mmap\<close> is an argument.\<close>

definition clear_mem :: "'k kernel \<Rightarrow> unit res \<Rightarrow> word_t \<Rightarrow> nat \<Rightarrow> 'k machine \<Rightarrow> unit res \<times> 'k machine" where
  "clear_mem k zeros address n m =
     (case zeros of
        Inl err \<Rightarrow> (Inl err, m)
      | Inr _ \<Rightarrow> write_data k (untag_pointer address) (replicate n 0) m)"

section \<open>The arguments of a system call\<close>

text \<open>The bytes of a C string, and the string that a buffer holds.\<close>

definition bytes_of_string :: "string \<Rightarrow> byte list" where
  "bytes_of_string s = map (\<lambda>c. word_of_nat (of_char c)) s @ [0]"

definition string_of_bytes :: "byte list \<Rightarrow> string" where
  "string_of_bytes bs = map (\<lambda>b. char_of (unat b)) (takeWhile (\<lambda>b. b \<noteq> 0) bs)"

definition get_sysarg_path :: "'k kernel \<Rightarrow> reg \<Rightarrow> 'k machine \<Rightarrow> string res" where
  "get_sysarg_path k r m =
     (let src = peek_reg (tr m) CURRENT r in
      if src = 0 then Inr []
      else bindE (read_path k src m) (\<lambda>(bs, n). Inr (string_of_bytes (take n bs))))"

definition set_sysarg_data :: "'k kernel \<Rightarrow> byte list \<Rightarrow> reg \<Rightarrow> 'k machine \<Rightarrow> unit res \<times> 'k machine" where
  "set_sysarg_data k tracer_ptr r m =
     (let (tracee_ptr, m) = alloc_mem (int (length tracer_ptr)) m in
      if tracee_ptr = 0 then (Inl EFAULT, m)
      else
        (case write_data k tracee_ptr tracer_ptr m of
           (Inl err, m) \<Rightarrow> (Inl err, m)
         | (Inr _, m) \<Rightarrow> (Inr (), m\<lparr>tr := poke_reg r tracee_ptr (tr m)\<rparr>)))"

definition set_sysarg_path :: "'k kernel \<Rightarrow> string \<Rightarrow> reg \<Rightarrow> 'k machine \<Rightarrow> unit res \<times> 'k machine" where
  "set_sysarg_path k path r m = set_sysarg_data k (bytes_of_string path) r m"

section \<open>Bytes\<close>

lemma bit_word_of:
  "bit (word_of bs) n \<longleftrightarrow> n < 64 \<and> n div 8 < length bs \<and> bit (bs ! (n div 8)) (n mod 8)"
proof (induction bs arbitrary: n)
  case (Cons b bs)
  have step: "word_of (b # bs) = ucast b OR push_bit 8 (word_of bs)" by (simp add: word_of_def)
  show ?case
  proof (cases "n < 8")
    case True
    then show ?thesis unfolding step by (simp add: bit_or_iff bit_push_bit_iff bit_ucast_iff)
  next
    case False
    then obtain m where n: "n = m + 8" by (metis add.commute le_iff_add not_less)
    have "\<not> bit b n" using False by (auto dest: bit_imp_le_length)
    moreover have "(m + 8) div 8 = Suc (m div 8)" "(m + 8) mod 8 = m mod 8" by simp_all
    ultimately show ?thesis unfolding step n
      by (auto simp: bit_or_iff bit_push_bit_iff bit_ucast_iff Cons.IH simp del: div_add_self2 mod_add_self2)
  qed
qed (simp add: word_of_def)

lemma length_bytes_of [simp]: "length (bytes_of w) = 8"
  by (simp add: bytes_of_def)

lemma nth_bytes_of: "i < 8 \<Longrightarrow> bytes_of w ! i = ucast (drop_bit (8 * i) w)"
  by (simp add: bytes_of_def)

lemma word_of_bytes_of [simp]: "word_of (bytes_of w) = w"
proof (rule bit_word_eqI)
  fix n
  assume n: "n < LENGTH(64)"
  then have i: "n div 8 < 8" by simp
  have "8 * (n div 8) + n mod 8 = n" by presburger
  then show "bit (word_of (bytes_of w)) n = bit w n"
    using n i by (simp add: bit_word_of nth_bytes_of [OF i] bit_ucast_iff bit_drop_bit_eq)
qed

lemma bytes_of_word_of: "length bs = 8 \<Longrightarrow> bytes_of (word_of bs) = bs"
proof (rule nth_equalityI)
  fix i
  assume l: "length bs = 8" and "i < length (bytes_of (word_of bs))"
  then have i: "i < 8" by simp
  show "bytes_of (word_of bs) ! i = bs ! i"
  proof (rule bit_word_eqI)
    fix n
    assume "n < LENGTH(8)"
    then have n: "n < 8" by simp
    then have "8 * i + n < 64" "(8 * i + n) div 8 = i" "(8 * i + n) mod 8 = n" using i by simp_all
    then show "bit (bytes_of (word_of bs) ! i) n = bit (bs ! i) n"
      using i n l by (simp add: nth_bytes_of bit_ucast_iff bit_drop_bit_eq bit_word_of)
  qed
qed simp

section \<open>The bytes of a tracee\<close>

type_synonym memory = "word_t \<Rightarrow> byte option"

definition present :: "memory \<Rightarrow> word_t \<Rightarrow> nat \<Rightarrow> bool" where
  "present b a n \<longleftrightarrow> (\<forall>i < n. b (a + of_nat i) \<noteq> None)"

definition bytes_at :: "memory \<Rightarrow> word_t \<Rightarrow> nat \<Rightarrow> byte list" where
  "bytes_at b a n = map (\<lambda>i. the (b (a + of_nat i))) [0..<n]"

definition put_bytes :: "memory \<Rightarrow> word_t \<Rightarrow> byte list \<Rightarrow> memory" where
  "put_bytes b a bs = (\<lambda>x. if unat (x - a) < length bs then Some (bs ! unat (x - a)) else b x)"

text \<open>
  What \<open>ptrace(2)\<close>, \<open>process_vm_readv(2)\<close> and \<open>process_vm_writev(2)\<close> do: a word is read or written as a
  whole or not at all; the other two transfer the first bytes, as many as they want to.
\<close>

definition memory_laws :: "'k kernel \<Rightarrow> ('k \<Rightarrow> memory) \<Rightarrow> bool" where
  "memory_laws k v \<longleftrightarrow>
     (\<forall>s a. case k_peekdata k s a of
        Inl _ \<Rightarrow> \<not> present (v s) a 8 | Inr w \<Rightarrow> present (v s) a 8 \<and> bytes_of w = bytes_at (v s) a 8) \<and>
     (\<forall>s a w. case k_pokedata k a w s of
        (Inl _, s') \<Rightarrow> \<not> present (v s) a 8 \<and> v s' = v s
      | (Inr _, s') \<Rightarrow> present (v s) a 8 \<and> v s' = put_bytes (v s) a (bytes_of w)) \<and>
     (\<forall>s a n. \<exists>j \<le> n. k_readv k s a n = bytes_at (v s) a j \<and> present (v s) a j) \<and>
     (\<forall>s a bs. \<exists>j \<le> length bs. fst (k_writev k a bs s) = j \<and> present (v s) a j \<and>
        v (snd (k_writev k a bs s)) = put_bytes (v s) a (take j bs))"

lemma memory_lawsD:
  assumes "memory_laws k v"
  shows "k_peekdata k s a = Inl e \<Longrightarrow> \<not> present (v s) a 8"
    and "k_peekdata k s a = Inr w \<Longrightarrow> present (v s) a 8 \<and> bytes_of w = bytes_at (v s) a 8"
    and "k_pokedata k a w s = (Inl e, s') \<Longrightarrow> \<not> present (v s) a 8 \<and> v s' = v s"
    and "k_pokedata k a w s = (Inr u, s') \<Longrightarrow> present (v s) a 8 \<and> v s' = put_bytes (v s) a (bytes_of w)"
    and "\<exists>j \<le> n. k_readv k s a n = bytes_at (v s) a j \<and> present (v s) a j"
    and "\<exists>j \<le> length bs. fst (k_writev k a bs s) = j \<and> present (v s) a j \<and>
        v (snd (k_writev k a bs s)) = put_bytes (v s) a (take j bs)"
proof -
  note l = assms [unfolded memory_laws_def]
  note p = l [THEN conjunct1, THEN spec, THEN spec, of s a]
  note q = l [THEN conjunct2, THEN conjunct1, THEN spec, THEN spec, THEN spec, of s a w]
  show "k_peekdata k s a = Inl e \<Longrightarrow> \<not> present (v s) a 8"
    and "k_peekdata k s a = Inr w \<Longrightarrow> present (v s) a 8 \<and> bytes_of w = bytes_at (v s) a 8"
    using p by simp_all
  show "k_pokedata k a w s = (Inl e, s') \<Longrightarrow> \<not> present (v s) a 8 \<and> v s' = v s"
    and "k_pokedata k a w s = (Inr u, s') \<Longrightarrow> present (v s) a 8 \<and> v s' = put_bytes (v s) a (bytes_of w)"
    using q by simp_all
  show "\<exists>j \<le> n. k_readv k s a n = bytes_at (v s) a j \<and> present (v s) a j"
    and "\<exists>j \<le> length bs. fst (k_writev k a bs s) = j \<and> present (v s) a j \<and>
        v (snd (k_writev k a bs s)) = put_bytes (v s) a (take j bs)"
    by (rule l [THEN conjunct2, THEN conjunct2, THEN conjunct1, THEN spec, THEN spec, THEN spec],
        rule l [THEN conjunct2, THEN conjunct2, THEN conjunct2, THEN spec, THEN spec, THEN spec])
qed

lemma length_bytes_at [simp]: "length (bytes_at b a n) = n"
  by (simp add: bytes_at_def)

lemma nth_bytes_at [simp]: "i < n \<Longrightarrow> bytes_at b a n ! i = the (b (a + of_nat i))"
  by (simp add: bytes_at_def)

lemma bytes_at_add: "bytes_at b a (n + m) = bytes_at b a n @ bytes_at b (a + of_nat n) m"
proof -
  have "map f [n..<n + m] = map (\<lambda>i. f (n + i)) [0..<m]" for f :: "nat \<Rightarrow> byte"
    by (rule nth_equalityI) auto
  then show ?thesis unfolding bytes_at_def upt_add_eq_append [OF le0] map_append by (simp add: add.assoc)
qed

lemma present_add: "present b a (n + m) \<longleftrightarrow> present b a n \<and> present b (a + of_nat n) m"
proof
  assume l: "present b a (n + m)"
  have "b (a + of_nat n + of_nat i) \<noteq> None" if "i < m" for i
    using l that unfolding present_def by (auto dest!: spec [of _ "n + i"] simp: add.assoc)
  with l show "present b a n \<and> present b (a + of_nat n) m" by (auto simp: present_def)
next
  assume r: "present b a n \<and> present b (a + of_nat n) m"
  show "present b a (n + m)" unfolding present_def
  proof (intro allI impI)
    fix i
    assume i: "i < n + m"
    show "b (a + of_nat i) \<noteq> None"
    proof (cases "i < n")
      case False
      then have "i = n + (i - n)" "i - n < m" using i by simp_all
      then show ?thesis using r unfolding present_def
        by (metis add.assoc of_nat_add)
    qed (use r in \<open>simp add: present_def\<close>)
  qed
qed

lemma present_le: "present b a n \<Longrightarrow> m \<le> n \<Longrightarrow> present b a m"
  by (auto simp: present_def)

lemma take_bytes_at: "m \<le> n \<Longrightarrow> take m (bytes_at b a n) = bytes_at b a m"
  by (rule nth_equalityI) auto

lemma put_bytes_Nil [simp]: "put_bytes b a [] = b"
  by (simp add: put_bytes_def)

lemma unat_diff_of_nat:
  fixes d :: word_t
  assumes "n < 2 ^ 64"
  shows "unat (d - of_nat n) = (if n \<le> unat d then unat d - n else 2 ^ 64 + unat d - n)"
proof -
  have u: "unat (of_nat n :: word_t) = n" using assms by (simp add: unat_of_nat)
  show ?thesis using unat_sub_if' [of d "of_nat n"] unfolding u by (auto split: if_split_asm)
qed

lemma put_bytes_append:
  assumes "length (xs @ ys) \<le> 2 ^ 64"
  shows "put_bytes (put_bytes b a xs) (a + of_nat (length xs)) ys = put_bytes b a (xs @ ys)"
proof (cases "ys = []")
  case False
  then have n: "length xs < 2 ^ 64" using assms by (cases ys) auto
  show ?thesis
  proof (rule ext)
    fix x
    have d: "unat (x - (a + of_nat (length xs))) =
        (if length xs \<le> unat (x - a) then unat (x - a) - length xs else 2 ^ 64 + unat (x - a) - length xs)"
      using unat_diff_of_nat [OF n, of "x - a"] by (simp add: algebra_simps)
    show "put_bytes (put_bytes b a xs) (a + of_nat (length xs)) ys x = put_bytes b a (xs @ ys) x"
      unfolding put_bytes_def d using assms by (auto simp: nth_append)
  qed
qed simp

lemma present_put_bytes: "present b a n \<Longrightarrow> present (put_bytes b c bs) a n"
  by (auto simp: present_def put_bytes_def)

lemma bytes_at_put_same:
  assumes "length bs \<le> 2 ^ 64"
  shows "bytes_at (put_bytes b a bs) a (length bs) = bs"
  by (rule nth_equalityI) (use assms in \<open>auto simp: put_bytes_def unat_of_nat\<close>)

lemma put_bytes_own: "present b a n \<Longrightarrow> n < 2 ^ 64 \<Longrightarrow> put_bytes b a (bytes_at b a n) = b"
proof (rule ext)
  fix x
  assume p: "present b a n"
  have x: "x = a + of_nat (unat (x - a))" by simp
  show "put_bytes b a (bytes_at b a n) x = b x"
  proof (cases "unat (x - a) < n")
    case True
    then have "b (a + of_nat (unat (x - a))) \<noteq> None" using p unfolding present_def by blast
    then show ?thesis using True by (simp add: put_bytes_def)
  qed (simp add: put_bytes_def)
qed

lemma put_bytes_again:
  assumes "j \<le> length bs"
  shows "put_bytes (put_bytes b a (take j bs)) a bs = put_bytes b a bs"
  using assms by (auto simp: put_bytes_def fun_eq_iff)

lemma put_bytes_rest:
  assumes "present b a 8" "length bs \<le> 8"
  shows "put_bytes b a (bs @ drop (length bs) (bytes_at b a 8)) = put_bytes b a bs"
proof (rule ext)
  fix x
  have x: "a + of_nat (unat (x - a)) = x" by simp
  have "b x \<noteq> None" if "unat (x - a) < 8"
    using assms(1) that x unfolding present_def by metis
  then show "put_bytes b a (bs @ drop (length bs) (bytes_at b a 8)) x = put_bytes b a bs x"
    using assms(2) by (auto simp: put_bytes_def nth_append)
qed

lemma dom_put_bytes: "present b a (length bs) \<Longrightarrow> dom (put_bytes b a bs) = dom b"
proof -
  assume p: "present b a (length bs)"
  have "x \<in> dom b" if "unat (x - a) < length bs" for x
  proof -
    have "a + of_nat (unat (x - a)) = x" by simp
    with p that show ?thesis unfolding present_def by (metis domIff)
  qed
  then show ?thesis by (auto simp: put_bytes_def dom_def split: if_split_asm)
qed

lemma present_dom: "dom b = dom b' \<Longrightarrow> present b a n = present b' a n"
  by (auto simp: present_def dom_def set_eq_iff)

section \<open>What writing and reading do\<close>

text \<open>The workaround is settled as not needed, as it is after a first successful request.\<close>

definition steady :: "'k machine \<Rightarrow> bool" where
  "steady m \<longleftrightarrow> workaround_checked m \<and> \<not> workaround_needed m"

lemma steady_krn [simp]: "steady (m\<lparr>krn := s\<rparr>) = steady m"
  by (simp add: steady_def)

lemma poke_steady:
  assumes "memory_laws k v" "steady m" "ptrace_pokedata_or_via_stub k a w m = (success, m')"
  shows "\<exists>s. m' = m\<lparr>krn := s\<rparr> \<and> success = present (v (krn m)) a 8 \<and>
    v s = (if success then put_bytes (v (krn m)) a (bytes_of w) else v (krn m))"
proof -
  obtain r s where p: "k_pokedata k a w (krn m) = (r, s)" by fastforce
  have e: "success = (r = Inr ())" "m' = m\<lparr>krn := s\<rparr>"
    using assms(2,3) by (auto simp: ptrace_pokedata_or_via_stub_def steady_def p)
  show ?thesis
  proof (cases r)
    case (Inl err)
    then show ?thesis using memory_lawsD(3) [OF assms(1), of a w "krn m" err s] p e by (intro exI [of _ s]) simp
  next
    case (Inr u)
    then show ?thesis using memory_lawsD(4) [OF assms(1), of a w "krn m" u s] p e by (intro exI [of _ s]) simp
  qed
qed

lemma write_words_steady:
  assumes "memory_laws k v" "steady m" "length src < 2 ^ 64" "write_words k dest src m = (r, m')"
  defines "q \<equiv> 8 * (length src div 8)"
  shows "\<exists>s. m' = m\<lparr>krn := s\<rparr> \<and> dom (v s) = dom (v (krn m)) \<and>
    (case r of
       Inr (dest', src') \<Rightarrow> present (v (krn m)) dest q \<and> dest' = dest + of_nat q \<and> src' = drop q src \<and>
         v s = put_bytes (v (krn m)) dest (take q src)
     | Inl e \<Rightarrow> e = EFAULT \<and> \<not> present (v (krn m)) dest q \<and>
         (\<forall>x. q \<le> unat (x - dest) \<longrightarrow> v s x = v (krn m) x))"
  using assms(1-4) unfolding q_def
proof (induction k dest src m arbitrary: r m' rule: write_words.induct)
  case (1 k dest src m)
  show ?case
  proof (cases "length src < 8")
    case True
    then have "r = Inr (dest, src)" "m' = m" using 1(5) by (simp_all add: write_words.simps [of k dest src])
    then show ?thesis using True by (intro exI [of _ "krn m"]) (simp add: present_def)
  next
    case False
    obtain n where n: "length src = n + 8" using False by (metis add.commute le_iff_add not_less)
    define d where "d = n div 8"
    have q: "length src div 8 = Suc d" "length (drop 8 src) div 8 = d" "8 * d \<le> n" by (simp_all add: n d_def)
    obtain success m1 where p: "ptrace_pokedata_or_via_stub k dest (word_of (take 8 src)) m = (success, m1)" by fastforce
    have b: "bytes_of (word_of (take 8 src)) = take 8 src" using False by (simp add: bytes_of_word_of)
    from poke_steady [OF 1(2,3) p] obtain s1 where s1: "m1 = m\<lparr>krn := s1\<rparr>" "success = present (v (krn m)) dest 8"
        "v s1 = (if success then put_bytes (v (krn m)) dest (take 8 src) else v (krn m))" unfolding b by blast
    have split: "present (v (krn m)) dest (8 * Suc d) \<longleftrightarrow> present (v (krn m)) dest 8 \<and> present (v (krn m)) (dest + 8) (8 * d)"
      using present_add [of "v (krn m)" dest 8 "8 * d"] by simp
    show ?thesis
    proof (cases success)
      case False
      then have "r = Inl EFAULT" "m' = m1" using 1(5) \<open>\<not> length src < 8\<close> p
        by (simp_all add: write_words.simps [of k dest src])
      then show ?thesis using s1 False split by (intro exI [of _ s1]) (simp add: q)
    next
      case True
      have e: "write_words k (dest + 8) (drop 8 src) m1 = (r, m')" using 1(5) \<open>\<not> length src < 8\<close> p True
        by (simp add: write_words.simps [of k dest src])
      have st: "steady m1" "length (drop 8 src) < 2 ^ 64" using 1(3,4) s1(1) by simp_all
      have v1: "v s1 = put_bytes (v (krn m)) dest (take 8 src)" using s1 True by simp
      have dom1: "dom (v s1) = dom (v (krn m))"
        unfolding v1 using s1(2) True False by (intro dom_put_bytes) simp
      have k1: "krn (m\<lparr>krn := s1\<rparr>) = s1" by simp
      note pres = present_dom [OF dom1, of "dest + 8" "8 * d"]
      from 1(1) [OF False p [symmetric] refl _ 1(2) st e] True obtain s where s: "m' = m1\<lparr>krn := s\<rparr>"
          "dom (v s) = dom (v s1)" and r: "case r of
             Inr (dest', src') \<Rightarrow> present (v s1) (dest + 8) (8 * d) \<and> dest' = dest + 8 + of_nat (8 * d) \<and>
               src' = drop (8 * d) (drop 8 src) \<and> v s = put_bytes (v s1) (dest + 8) (take (8 * d) (drop 8 src))
           | Inl e \<Rightarrow> e = EFAULT \<and> \<not> present (v s1) (dest + 8) (8 * d) \<and>
               (\<forall>x. 8 * d \<le> unat (x - (dest + 8)) \<longrightarrow> v s x = v s1 x)"
        unfolding q s1(1) k1 by blast
      have m': "m' = m\<lparr>krn := s\<rparr>" "dom (v s) = dom (v (krn m))" using s s1(1) dom1 by simp_all
      show ?thesis
      proof (cases r)
        case (Inl err)
        have "v s x = v (krn m) x" if "8 * Suc d \<le> unat (x - dest)" for x
        proof -
          have "unat (x - dest - of_nat 8) = unat (x - dest) - 8" using that by (subst unat_diff_of_nat) auto
          then have "8 * d \<le> unat (x - (dest + 8))" using that by (simp add: algebra_simps)
          then have "v s x = v s1 x" using r Inl by simp
          then show ?thesis using that by (simp add: v1 put_bytes_def)
        qed
        then show ?thesis using m' r Inl split pres by (intro exI [of _ s]) (simp add: q)
      next
        case (Inr y)
        obtain dest' src' where y: "y = (dest', src')" by fastforce
        have "put_bytes (put_bytes (v (krn m)) dest (take 8 src)) (dest + of_nat (length (take 8 src)))
            (take (8 * d) (drop 8 src)) = put_bytes (v (krn m)) dest (take 8 src @ take (8 * d) (drop 8 src))"
          using 1(4) by (intro put_bytes_append) simp
        moreover have "take 8 src @ take (8 * d) (drop 8 src) = take (8 * Suc d) src"
          by (simp add: take_add [symmetric])
        ultimately have "v s = put_bytes (v (krn m)) dest (take (8 * Suc d) src)"
          using r Inr y v1 False by simp
        moreover have "dest' = dest + of_nat (8 * Suc d)" "src' = drop (8 * Suc d) src"
          using r Inr y by (simp_all add: add.commute add.left_commute)
        ultimately show ?thesis using m' r Inr y split pres s1(2) True by (intro exI [of _ s]) (simp add: q)
      qed
    qed
  qed
qed

lemma write_last_steady:
  assumes "memory_laws k v" "steady m" "length src < 8" "write_last k dest src m = (r, m')"
  shows "\<exists>s. m' = m\<lparr>krn := s\<rparr> \<and> dom (v s) = dom (v (krn m)) \<and>
    (case r of
       Inr _ \<Rightarrow> present (v (krn m)) dest (length src) \<and> v s = put_bytes (v (krn m)) dest src
     | Inl e \<Rightarrow> e = EFAULT \<and> \<not> present (v (krn m)) dest 8 \<and> src \<noteq> [] \<and> v s = v (krn m))"
proof (cases "src = []")
  case True
  then show ?thesis using assms(4) by (intro exI [of _ "krn m"]) (auto simp: write_last_def present_def)
next
  case False
  show ?thesis
  proof (cases "k_peekdata k (krn m) dest")
    case (Inl err)
    then show ?thesis using assms(4) False memory_lawsD(1) [OF assms(1) Inl]
      by (intro exI [of _ "krn m"]) (auto simp: write_last_def)
  next
    case (Inr word)
    let ?bs = "src @ drop (length src) (bytes_of word)"
    obtain success m1 where p: "ptrace_pokedata_or_via_stub k dest (word_of ?bs) m = (success, m1)" by fastforce
    from memory_lawsD(2) [OF assms(1) Inr] have w: "present (v (krn m)) dest 8" "bytes_of word = bytes_at (v (krn m)) dest 8"
      by simp_all
    have b: "bytes_of (word_of ?bs) = ?bs" using assms(3) by (simp add: bytes_of_word_of)
    from poke_steady [OF assms(1,2) p] obtain s where s: "m1 = m\<lparr>krn := s\<rparr>" "success" 
        "v s = put_bytes (v (krn m)) dest ?bs" unfolding b using w(1) by auto
    have "v s = put_bytes (v (krn m)) dest src" unfolding s(3) w(2) using w(1) assms(3) by (intro put_bytes_rest) simp_all
    moreover have "present (v (krn m)) dest (length src)" using w(1) assms(3) by (simp add: present_le)
    moreover have "r = Inr ()" "m' = m1" using assms(4) False Inr p s(2) by (simp_all add: write_last_def Let_def)
    ultimately show ?thesis using s(1) by (intro exI [of _ s]) (simp add: dom_put_bytes)
  qed
qed

definition rounded :: "nat \<Rightarrow> nat" where
  "rounded n = 8 * ((n + 7) div 8)"

lemma rounded_split: "rounded n = (if n mod 8 = 0 then 8 * (n div 8) else 8 * (n div 8) + 8)" "n \<le> rounded n"
  unfolding rounded_def by presburger+

lemma write_data_steady:
  assumes "memory_laws k v" "steady m" "length src < 2 ^ 64" "write_data k dest src m = (r, m')"
  defines "a \<equiv> untag_pointer dest"
  shows "\<exists>s. m' = m\<lparr>krn := s\<rparr> \<and> dom (v s) = dom (v (krn m)) \<and>
    (case r of
       Inr _ \<Rightarrow> present (v (krn m)) a (length src) \<and> v s = put_bytes (v (krn m)) a src
     | Inl e \<Rightarrow> e = EFAULT \<and> \<not> present (v (krn m)) a (rounded (length src)) \<and>
         (\<forall>x. length src \<le> unat (x - a) \<longrightarrow> v s x = v (krn m) x))"
proof -
  define j where "j = (if have_process_vm k then fst (k_writev k a src (krn m)) else 0)"
  define s1 where "s1 = (if have_process_vm k then snd (k_writev k a src (krn m)) else krn m)"
  define m1 where "m1 = m\<lparr>krn := s1\<rparr>"
  have j: "j \<le> length src" "present (v (krn m)) a j" "v s1 = put_bytes (v (krn m)) a (take j src)"
    using memory_lawsD(6) [OF assms(1), of src a "krn m"] by (auto simp: j_def s1_def present_def)
  then have dom1: "dom (v s1) = dom (v (krn m))" by (simp add: dom_put_bytes)
  have wd: "write_data k dest src m = (if have_process_vm k \<and> j = length src then (Inr (), m1)
      else case write_words k a src m1 of
          (Inl err, m) \<Rightarrow> (Inl err, m) | (Inr (dest, src), m) \<Rightarrow> write_last k dest src m)"
    by (cases "have_process_vm k")
      (simp_all add: write_data_def a_def j_def s1_def m1_def Let_def case_prod_beta cong: sum.case_cong)
  show ?thesis
  proof (cases "have_process_vm k \<and> j = length src")
    case True
    then have "r = Inr ()" "m' = m1"
      using assms(4) wd by simp_all
    then show ?thesis using j dom1 True by (intro exI [of _ s1]) (simp add: m1_def)
  next
    case False
    define c where "c = length src div 8"
    obtain r1 m2 where w: "write_words k a src m1 = (r1, m2)" by fastforce
    have e: "(r, m') = (case r1 of Inl err \<Rightarrow> (Inl err, m2) | Inr (dest, src) \<Rightarrow> write_last k dest src m2)"
      using assms(4) False w wd by (auto split: sum.splits)
    have st: "steady m1" and k1: "krn m1 = s1" using assms(2) by (simp_all add: m1_def)
    from write_words_steady [OF assms(1) st assms(3) w, folded c_def] obtain s2 where s2: "m2 = m1\<lparr>krn := s2\<rparr>"
        "dom (v s2) = dom (v s1)" and r1: "case r1 of
           Inr (dest', src') \<Rightarrow> present (v s1) a (8 * c) \<and> dest' = a + of_nat (8 * c) \<and> src' = drop (8 * c) src \<and>
             v s2 = put_bytes (v s1) a (take (8 * c) src)
         | Inl e \<Rightarrow> e = EFAULT \<and> \<not> present (v s1) a (8 * c) \<and> (\<forall>x. 8 * c \<le> unat (x - a) \<longrightarrow> v s2 x = v s1 x)"
      unfolding k1 by blast
    have le: "8 * c \<le> length src" by (simp add: c_def)
    have out: "v s1 x = v (krn m) x" if "length src \<le> unat (x - a)" for x
      using that j(1) by (simp add: j(3) put_bytes_def)
    show ?thesis
    proof (cases r1)
      case (Inl err)
      have "\<not> present (v (krn m)) a (rounded (length src))"
      proof
        assume "present (v (krn m)) a (rounded (length src))"
        then have "present (v s1) a (8 * c)" using present_dom [OF dom1] present_le le rounded_split(2) le_trans by blast
        with r1 Inl show False by simp
      qed
      moreover have "r = Inl EFAULT" "m' = m2" using e Inl r1 by simp_all
      moreover have "v s2 x = v (krn m) x" if "length src \<le> unat (x - a)" for x
        using r1 Inl out [OF that] that le by auto
      ultimately show ?thesis using s2 dom1 by (intro exI [of _ s2]) (simp add: m1_def)
    next
      case (Inr y)
      have y: "y = (a + of_nat (8 * c), drop (8 * c) src)" using r1 Inr by auto
      have w2: "write_last k (a + of_nat (8 * c)) (drop (8 * c) src) m2 = (r, m')" using e Inr y by simp
      have "length (drop (8 * c) src) < 8" by (simp add: c_def)
      have st2: "steady m2" and k2: "krn m2 = s2" using st s2(1) by simp_all
      from write_last_steady [OF assms(1) st2 \<open>length (drop (8 * c) src) < 8\<close> w2] obtain s3 where s3: "m' = m2\<lparr>krn := s3\<rparr>"
          "dom (v s3) = dom (v s2)" and r3: "case r of
             Inr _ \<Rightarrow> present (v s2) (a + of_nat (8 * c)) (length (drop (8 * c) src)) \<and>
               v s3 = put_bytes (v s2) (a + of_nat (8 * c)) (drop (8 * c) src)
           | Inl e \<Rightarrow> e = EFAULT \<and> \<not> present (v s2) (a + of_nat (8 * c)) 8 \<and> drop (8 * c) src \<noteq> [] \<and> v s3 = v s2"
        unfolding k2 by blast
      have v2: "v s2 = put_bytes (v s1) a (take (8 * c) src)" "present (v s1) a (8 * c)" using r1 Inr by auto
      have dom2: "dom (v s2) = dom (v (krn m))" using s2 dom1 by simp
      have m': "m' = m\<lparr>krn := s3\<rparr>" "dom (v s3) = dom (v (krn m))" using s3 s2 dom1 by (simp_all add: m1_def)
      show ?thesis
      proof (cases r)
        case (Inl err)
        have "drop (8 * c) src \<noteq> []" using r3 Inl by simp
        then have "8 * (length src div 8) < length src" by (simp only: c_def drop_eq_Nil not_le)
        then have "length src mod 8 \<noteq> 0" by presburger
        then have "rounded (length src) = 8 * c + 8" by (simp add: rounded_split c_def)
        moreover have "\<not> present (v (krn m)) (a + of_nat (8 * c)) 8" using r3 Inl present_dom [OF dom2] by simp
        ultimately have "\<not> present (v (krn m)) a (rounded (length src))" by (simp add: present_add)
        moreover have "v s3 x = v (krn m) x" if "length src \<le> unat (x - a)" for x
          using r3 Inl out [OF that] that le by (simp add: v2 put_bytes_def)
        ultimately show ?thesis using m' r3 Inl by (intro exI [of _ s3]) simp
      next
        case (Inr u)
        have pt: "put_bytes (put_bytes (v s1) a (take (8 * c) src)) (a + of_nat (length (take (8 * c) src)))
            (drop (8 * c) src) = put_bytes (v s1) a (take (8 * c) src @ drop (8 * c) src)"
          using assms(3) by (intro put_bytes_append) simp
        have "v s3 = put_bytes (v s1) a src" using r3 Inr v2 pt le by simp
        then have "v s3 = put_bytes (v (krn m)) a src" using j by (simp add: put_bytes_again)
        moreover have "present (v (krn m)) a (8 * c + length (drop (8 * c) src))"
          using r3 Inr v2(2) present_dom [OF dom2] present_dom [OF dom1] unfolding present_add by simp
        ultimately show ?thesis using m' Inr le by (intro exI [of _ s3]) simp
      qed
    qed
  qed
qed

text \<open>Reading.\<close>

lemma read_words_bytes:
  assumes "memory_laws k v"
  shows "read_words k s src n =
    (if present (v s) src (8 * n) then Inr (bytes_at (v s) src (8 * n)) else Inl EFAULT)"
proof (induction n arbitrary: src)
  case 0
  show ?case by (simp add: present_def bytes_at_def)
next
  case (Suc n)
  have split: "present (v s) src (8 * Suc n) \<longleftrightarrow> present (v s) src 8 \<and> present (v s) (src + 8) (8 * n)"
      "bytes_at (v s) src (8 * Suc n) = bytes_at (v s) src 8 @ bytes_at (v s) (src + 8) (8 * n)"
    using present_add [of "v s" src 8 "8 * n"] bytes_at_add [of "v s" src 8 "8 * n"] by simp_all
  show ?case
  proof (cases "k_peekdata k s src")
    case (Inl e)
    then show ?thesis using memory_lawsD(1) [OF assms Inl] split by simp
  next
    case (Inr w)
    then show ?thesis using memory_lawsD(2) [OF assms Inr] split Suc [of "src + 8"] by simp
  qed
qed

lemma read_data_bytes:
  fixes src :: word_t
  assumes "memory_laws k v"
  defines "a \<equiv> untag_pointer src"
  shows "case read_data k src n m of
      Inr bs \<Rightarrow> present (v (krn m)) a n \<and> bs = bytes_at (v (krn m)) a n
    | Inl e \<Rightarrow> e = EFAULT \<and> \<not> present (v (krn m)) a (rounded n)"
proof -
  let ?v = "v (krn m)"
  define fast where "fast = (if have_process_vm k then k_readv k (krn m) a n else [])"
  define c where "c = n div 8"
  have c: "(n - n mod 8) div 8 = c" unfolding c_def by presburger
  have n: "n = 8 * c + n mod 8" by (simp add: c_def)
  show ?thesis
  proof (cases "have_process_vm k \<and> length fast = n")
    case True
    then have f: "k_readv k (krn m) a n = fast" "length fast = n" unfolding fast_def by auto
    from True have "fast = bytes_at ?v a n" "present ?v a n"
      using memory_lawsD(5) [OF assms(1), of n "krn m" a] by (auto simp: fast_def)
    moreover have "read_data k src n m = Inr fast" using True f by (simp add: read_data_def Let_def flip: a_def)
    ultimately show ?thesis by simp
  next
    case False
    then have r: "read_data k src n m = bindE (read_words k (krn m) a c) (\<lambda>bs.
          if n mod 8 = 0 then Inr bs
          else (case k_peekdata k (krn m) (a + of_nat (8 * c)) of
               Inl _ \<Rightarrow> Inl EFAULT
             | Inr word \<Rightarrow> Inr (bs @ take (n mod 8) (bytes_of word))))"
      unfolding read_data_def Let_def c a_def [symmetric] fast_def by auto
    show ?thesis
    proof (cases "present ?v a (8 * c)")
      case False
      then have "\<not> present ?v a (rounded n)" using present_le n rounded_split(2) [of n]
        by (metis le_add1 le_trans)
      then show ?thesis using False by (simp add: r read_words_bytes [OF assms(1)])
    next
      case True
      show ?thesis
      proof (cases "n mod 8 = 0")
        case True
        then have "read_data k src n m = Inr (bytes_at ?v a (8 * c))"
          using \<open>present ?v a (8 * c)\<close> unfolding r by (simp add: read_words_bytes [OF assms(1)])
        moreover have "8 * c = n" using n True by simp
        ultimately show ?thesis using \<open>present ?v a (8 * c)\<close> by simp
      next
        case False
        then have rn: "rounded n = 8 * c + 8" by (simp add: rounded_split c_def)
        show ?thesis
        proof (cases "k_peekdata k (krn m) (a + of_nat (8 * c))")
          case (Inl e)
          then show ?thesis using True False memory_lawsD(1) [OF assms(1) Inl]
            by (simp add: r read_words_bytes [OF assms(1)] rn present_add)
        next
          case (Inr w)
          note pw = memory_lawsD(2) [OF assms(1) Inr]
          have "bytes_at ?v a (8 * c + n mod 8) = bytes_at ?v a (8 * c) @ take (n mod 8) (bytes_of w)"
            unfolding bytes_at_add using pw by (simp add: take_bytes_at)
          moreover have "present ?v a (8 * c + n mod 8)"
            unfolding present_add using True pw by (auto intro: present_le)
          ultimately show ?thesis using True False Inr n by (simp add: r read_words_bytes [OF assms(1)])
        qed
      qed
    qed
  qed
qed

section \<open>What reading a string does\<close>

definition no_nul :: "memory \<Rightarrow> word_t \<Rightarrow> nat \<Rightarrow> bool" where
  "no_nul b a n \<longleftrightarrow> present b a n \<and> 0 \<notin> set (bytes_at b a n)"

text \<open>A string with its terminator, of \<open>n\<close> bytes.\<close>

definition cstring_at :: "memory \<Rightarrow> word_t \<Rightarrow> nat \<Rightarrow> bool" where
  "cstring_at b a n \<longleftrightarrow> (case n of 0 \<Rightarrow> False | Suc j \<Rightarrow> no_nul b a j \<and> b (a + of_nat j) = Some 0)"

lemma cstring_at_simps [simp]:
  "\<not> cstring_at b a 0" "cstring_at b a (Suc j) \<longleftrightarrow> no_nul b a j \<and> b (a + of_nat j) = Some 0"
  by (simp_all add: cstring_at_def)

lemma no_nul_add: "no_nul b a (n + m) \<longleftrightarrow> no_nul b a n \<and> no_nul b (a + of_nat n) m"
  by (auto simp: no_nul_def present_add bytes_at_add)

lemma cstring_at_add:
  assumes "no_nul b a n" "cstring_at b (a + of_nat n) m"
  shows "cstring_at b a (n + m)"
  using assms by (cases m) (simp_all add: no_nul_add add.assoc)

lemma cstring_in:
  assumes "present b a n" "0 \<in> set (bytes_at b a n)"
  defines "j \<equiv> length (takeWhile (\<lambda>x. x \<noteq> 0) (bytes_at b a n))"
  shows "j < n \<and> cstring_at b a (Suc j) \<and> take (Suc j) (bytes_at b a n) = bytes_at b a (Suc j)"
proof -
  have "takeWhile (\<lambda>x. x \<noteq> 0) (bytes_at b a n) \<noteq> bytes_at b a n"
    using assms(2) by (auto simp: takeWhile_eq_all_conv)
  then have "j \<noteq> n" unfolding j_def by (metis length_bytes_at takeWhile_eq_take take_all order_refl)
  moreover have "j \<le> n" unfolding j_def using length_takeWhile_le [of "\<lambda>x. x \<noteq> 0" "bytes_at b a n"] by simp
  ultimately have j: "j < n" by simp
  have "takeWhile (\<lambda>x. x \<noteq> 0) (bytes_at b a n) = take j (bytes_at b a n)" unfolding j_def by (rule takeWhile_eq_take)
  then have "takeWhile (\<lambda>x. x \<noteq> 0) (bytes_at b a n) = bytes_at b a j" using j by (simp add: take_bytes_at)
  then have "0 \<notin> set (bytes_at b a j)" by (metis (mono_tags, lifting) set_takeWhileD)
  moreover have "bytes_at b a n ! j = 0" unfolding j_def
    using nth_length_takeWhile [of "\<lambda>x. x \<noteq> 0" "bytes_at b a n"] j unfolding j_def by simp
  then have "b (a + of_nat j) = Some 0" using assms(1) j by (auto simp: present_def)
  ultimately show ?thesis using j assms(1)
    by (simp add: no_nul_def present_le take_bytes_at)
qed

lemma cstring_unique: "cstring_at b a n \<Longrightarrow> cstring_at b a m \<Longrightarrow> n = m"
proof -
  have "\<not> n < m" if c: "cstring_at b a n" "cstring_at b a m" for n m
  proof
    assume "n < m"
    then obtain i j where e: "n = Suc i" "m = Suc j" "i < j" using c by (cases n; cases m) auto
    then have "bytes_at b a j ! i = 0" using c by simp
    then show False using e c(2) unfolding e(2) cstring_at_simps no_nul_def
      by (metis length_bytes_at nth_mem)
  qed
  then show "cstring_at b a n \<Longrightarrow> cstring_at b a m \<Longrightarrow> n = m" by (metis linorder_neqE_nat)
qed

lemma cstring_no_nul: "cstring_at b a n \<Longrightarrow> no_nul b a m \<Longrightarrow> m < n"
proof (rule ccontr)
  assume "cstring_at b a n" "no_nul b a m" "\<not> m < n"
  then have "bytes_at b a m ! (n - 1) = 0" "n - 1 < m" by (cases n; simp)+
  with \<open>no_nul b a m\<close> show False unfolding no_nul_def by (metis length_bytes_at nth_mem)
qed

lemma cstring_last: "cstring_at b a n \<Longrightarrow> bytes_at b a n = bytes_at b a (n - 1) @ [0]"
  using bytes_at_add [of b a "n - 1" 1] by (cases n) (simp_all add: bytes_at_def)

lemma cstring_present: "cstring_at b a n \<Longrightarrow> present b a n"
  using present_add [of b a "n - 1" 1] by (cases n) (simp_all add: no_nul_def present_def [of _ _ "Suc 0"])

lemma read_chunks_string:
  assumes "memory_laws k v" "read_chunks k s src max_size offset = Some (bs, n)" "offset \<le> max_size"
  defines "b \<equiv> v s"
  shows "\<exists>l. n = offset + l \<and> n \<le> max_size \<and> cstring_at b (src + of_nat offset) l \<and>
    take l bs = bytes_at b (src + of_nat offset) l"
  using assms(1-3) unfolding b_def
proof (induction k s src max_size offset arbitrary: bs n rule: read_chunks.induct)
  case (1 k s src max_size offset)
  let ?a = "src + of_nat offset"
  define m where "m = min (chunk_left ?a) (max_size - offset)"
  define got where "got = k_readv k s ?a m"
  from 1(3) have m: "length got = m"
    by (auto simp: read_chunks.simps [of k s src max_size offset] m_def got_def Let_def split: if_split_asm)
  from memory_lawsD(5) [OF 1(2), of m s ?a] m have got: "got = bytes_at (v s) ?a m" "present (v s) ?a m"
    by (auto simp: got_def)
  have le: "offset + m \<le> max_size" using 1(4) by (simp add: m_def)
  show ?case
  proof (cases "0 \<in> set got")
    case True
    then have "read_chunks k s src max_size offset = Some (got, offset + Suc (length (takeWhile (\<lambda>b. b \<noteq> 0) got)))"
      using m by (simp add: read_chunks.simps [of k s src max_size offset] Let_def flip: m_def got_def)
    then have "got = bs" "n = offset + Suc (length (takeWhile (\<lambda>b. b \<noteq> 0) got))" using 1(3) by simp_all
    moreover have "length (takeWhile (\<lambda>b. b \<noteq> 0) got) < m \<and>
        cstring_at (v s) ?a (Suc (length (takeWhile (\<lambda>b. b \<noteq> 0) got))) \<and>
        take (Suc (length (takeWhile (\<lambda>b. b \<noteq> 0) got))) got = bytes_at (v s) ?a (Suc (length (takeWhile (\<lambda>b. b \<noteq> 0) got)))"
      using cstring_in [OF got(2)] True unfolding got(1) by blast
    ultimately show ?thesis using le
      by (intro exI [of _ "Suc (length (takeWhile (\<lambda>b. b \<noteq> 0) got))"]) simp
  next
    case False
    then have less: "offset + m < max_size" and
      "map_option (\<lambda>(bs, n). (got @ bs, n)) (read_chunks k s src max_size (offset + m)) = Some (bs, n)"
      using 1(3) m by (auto simp: read_chunks.simps [of k s src max_size offset] Let_def
          split: if_split_asm simp flip: m_def got_def)
    then obtain bs' where r: "read_chunks k s src max_size (offset + m) = Some (bs', n)" "bs = got @ bs'" by auto
    from 1(1) [OF m_def got_def _ False less 1(2) r(1)] m less obtain l where l: "n = offset + m + l" "n \<le> max_size"
        "cstring_at (v s) (src + of_nat (offset + m)) l" "take l bs' = bytes_at (v s) (src + of_nat (offset + m)) l"
      by auto
    have "cstring_at (v s) ?a (m + l)"
      using got False l(3) by (intro cstring_at_add) (simp_all add: no_nul_def add.assoc)
    moreover have "take (m + l) bs = bytes_at (v s) ?a (m + l)"
      using m l(4) r(2) got(1) by (simp add: bytes_at_add add.assoc)
    ultimately show ?thesis using l by (intro exI [of _ "m + l"]) simp
  qed
qed

lemma read_string_words_spec:
  assumes "memory_laws k v" "nb_trailing_bytes < 8"
  shows "case read_string_words k s src i nb_full_words nb_trailing_bytes of
      Inl e \<Rightarrow> e = EFAULT \<and> (\<exists>q \<le> nb_full_words. no_nul (v s) (src + of_nat (8 * i)) (8 * q) \<and>
        \<not> present (v s) (src + of_nat (8 * i) + of_nat (8 * q)) 8)
    | Inr (bs, n) \<Rightarrow> \<exists>l. n = 8 * i + l \<and>
        (l \<le> 8 * nb_full_words + nb_trailing_bytes \<and> cstring_at (v s) (src + of_nat (8 * i)) l \<and>
           take l bs = bytes_at (v s) (src + of_nat (8 * i)) l
         \<or> l = 8 * nb_full_words + nb_trailing_bytes + 1 \<and>
           no_nul (v s) (src + of_nat (8 * i)) (8 * nb_full_words + nb_trailing_bytes) \<and>
           bs = bytes_at (v s) (src + of_nat (8 * i)) (8 * nb_full_words + nb_trailing_bytes))"
proof (induction nb_full_words arbitrary: i)
  case 0
  let ?a = "src + of_nat (8 * i)"
  show ?case
  proof (cases "k_peekdata k s ?a")
    case (Inl e)
    then show ?thesis using memory_lawsD(1) [OF assms(1) Inl] by (simp add: no_nul_def present_def bytes_at_def)
  next
    case (Inr w)
    note w = memory_lawsD(2) [OF assms(1) Inr]
    let ?t = nb_trailing_bytes
    have bt: "take ?t (bytes_of w) = bytes_at (v s) ?a ?t" using w assms(2) by (simp add: take_bytes_at)
    have pt: "present (v s) ?a ?t" using w assms(2) by (auto intro: present_le)
    show ?thesis
    proof (cases "0 \<in> set (bytes_at (v s) ?a ?t)")
      case True
      then show ?thesis using Inr cstring_in [OF pt True]
        by (auto simp: last_bytes_def bt Let_def)
    next
      case False
      then have tw: "takeWhile (\<lambda>x. x \<noteq> 0) (bytes_at (v s) ?a ?t) = bytes_at (v s) ?a ?t"
        by (auto simp: takeWhile_eq_all_conv)
      have "last_bytes (bytes_of w) ?t = (bytes_at (v s) ?a ?t, ?t)"
        unfolding last_bytes_def bt Let_def tw by simp
      then show ?thesis using Inr False pt by (simp add: no_nul_def)
    qed
  qed
next
  case (Suc nb)
  let ?a = "src + of_nat (8 * i)"
  have next_a: "src + of_nat (8 * Suc i) = ?a + 8" by (simp add: algebra_simps)
  show ?case
  proof (cases "k_peekdata k s ?a")
    case (Inl e)
    then show ?thesis using memory_lawsD(1) [OF assms(1) Inl]
      by (auto simp: no_nul_def present_def [of _ _ 0] bytes_at_def intro!: exI [of _ 0])
  next
    case (Inr w)
    note w = memory_lawsD(2) [OF assms(1) Inr]
    show ?thesis
    proof (cases "0 \<in> set (bytes_of w)")
      case True
      then show ?thesis using Inr w cstring_in [of "v s" ?a 8] by fastforce
    next
      case False
      then have nn: "no_nul (v s) ?a 8" using w by (simp add: no_nul_def)
      note ih = Suc [of "Suc i", unfolded next_a]
      show ?thesis
      proof (cases "read_string_words k s src (Suc i) nb nb_trailing_bytes")
        case (Inl e)
        with ih obtain q where q: "e = EFAULT" "q \<le> nb" "no_nul (v s) (?a + 8) (8 * q)"
            "\<not> present (v s) (?a + 8 + of_nat (8 * q)) 8" by auto
        have "no_nul (v s) ?a (8 * Suc q)" using no_nul_add [of "v s" ?a 8 "8 * q"] nn q(3) by simp
        moreover have "\<not> present (v s) (?a + of_nat (8 * Suc q)) 8" using q(4) by (simp add: algebra_simps)
        ultimately show ?thesis using Inr Inl False q(1,2) by (auto intro!: exI [of _ "Suc q"])
      next
        case r: (Inr y)
        obtain bs n where y: "y = (bs, n)" by fastforce
        from ih r y obtain l where l: "n = 8 * Suc i + l"
          "l \<le> 8 * nb + nb_trailing_bytes \<and> cstring_at (v s) (?a + 8) l \<and> take l bs = bytes_at (v s) (?a + 8) l
           \<or> l = 8 * nb + nb_trailing_bytes + 1 \<and> no_nul (v s) (?a + 8) (8 * nb + nb_trailing_bytes) \<and>
             bs = bytes_at (v s) (?a + 8) (8 * nb + nb_trailing_bytes)" by auto
        have e: "read_string_words k s src i (Suc nb) nb_trailing_bytes = Inr (bytes_of w @ bs, n)"
          using Inr False r y by simp
        have n: "n = 8 * i + (8 + l)" using l(1) by simp
        from l(2) show ?thesis
        proof
          assume c: "l \<le> 8 * nb + nb_trailing_bytes \<and> cstring_at (v s) (?a + 8) l \<and> take l bs = bytes_at (v s) (?a + 8) l"
          then have "cstring_at (v s) ?a (8 + l)" using cstring_at_add [of "v s" ?a 8 l] nn by simp
          moreover have "take (8 + l) (bytes_of w @ bs) = bytes_at (v s) ?a (8 + l)"
            using c w bytes_at_add [of "v s" ?a 8 l] by simp
          ultimately show ?thesis unfolding e using c n by (auto intro!: exI [of _ "8 + l"])
        next
          assume c: "l = 8 * nb + nb_trailing_bytes + 1 \<and> no_nul (v s) (?a + 8) (8 * nb + nb_trailing_bytes) \<and>
             bs = bytes_at (v s) (?a + 8) (8 * nb + nb_trailing_bytes)"
          have "no_nul (v s) ?a (8 + (8 * nb + nb_trailing_bytes))"
            using c nn by (simp only: no_nul_add) simp
          moreover have "bytes_of w @ bs = bytes_at (v s) ?a (8 + (8 * nb + nb_trailing_bytes))"
            using c w bytes_at_add [of "v s" ?a 8 "8 * nb + nb_trailing_bytes"] by simp
          ultimately show ?thesis unfolding e using c n by (auto intro!: exI [of _ "8 + l"] simp: add.assoc)
        qed
      qed
    qed
  qed
qed

definition read_string_ok :: "memory \<Rightarrow> word_t \<Rightarrow> nat \<Rightarrow> (byte list \<times> nat) res \<Rightarrow> bool" where
  "read_string_ok b a max_size r =
     (case r of
        Inl e \<Rightarrow> e = EFAULT \<and> (\<exists>q \<le> max_size div 8. no_nul b a (8 * q) \<and> \<not> present b (a + of_nat (8 * q)) 8)
      | Inr (bs, n) \<Rightarrow>
          n \<le> max_size \<and> cstring_at b a n \<and> take n bs = bytes_at b a n
          \<or> n = max_size + 1 \<and> no_nul b a max_size \<and> bs = bytes_at b a max_size)"

lemma read_string_spec:
  assumes "memory_laws k v"
  shows "read_string_ok (v (krn m)) (untag_pointer src) max_size (read_string k src max_size m)"
proof -
  let ?a = "untag_pointer src"
  have d: "(max_size - max_size mod 8) div 8 = max_size div 8" "8 * (max_size div 8) + max_size mod 8 = max_size"
    by presburger+
  show ?thesis
  proof (cases "if have_process_vm k then read_chunks k (krn m) ?a max_size 0 else None")
    case (Some y)
    obtain bs n where y: "y = (bs, n)" by fastforce
    have "read_chunks k (krn m) ?a max_size 0 = Some (bs, n)" using Some y by (simp split: if_split_asm)
    from read_chunks_string [OF assms this] have "n \<le> max_size \<and> cstring_at (v (krn m)) ?a n \<and>
        take n bs = bytes_at (v (krn m)) ?a n" by auto
    then show ?thesis using Some y by (simp add: read_string_def read_string_ok_def Let_def)
  next
    case None
    then have r: "read_string k src max_size m =
        read_string_words k (krn m) ?a 0 (max_size div 8) (max_size mod 8)"
      unfolding read_string_def Let_def d by simp
    show ?thesis using read_string_words_spec [OF assms, of "max_size mod 8" "max_size div 8" "krn m" ?a 0]
      unfolding r read_string_ok_def d(2) by (auto split: sum.splits)
  qed
qed

text \<open>A chunk stays within 1024 bytes whose addresses only differ in the last ten bits.\<close>

lemma div_stays:
  fixes n i d :: nat
  assumes "n mod d + i < d"
  shows "(n + i) div d = n div d"
  using assms div_add1_eq [of n i d] by simp

lemma chunk_stays:
  assumes "i < chunk_left a"
  shows "unat (a + of_nat i) div chunk_size = unat a div chunk_size"
proof -
  have i: "unat a mod 1024 + i < 1024" using assms unfolding chunk_left_def chunk_size_def by linarith
  have "unat a < 2 ^ LENGTH(64)" by (rule unsigned_less)
  moreover have "(2 :: nat) ^ LENGTH(64) = 2 ^ 64" by simp
  ultimately have "unat a < 2 ^ 64" by (simp only:)
  then have "unat a div 1024 < 2 ^ 54" by (intro less_mult_imp_div_less) simp
  then have "unat a div 1024 < 18014398509481984" by simp
  then have "unat a + i < 18446744073709551616" using i mult_div_mod_eq [of 1024 "unat a"] by linarith
  then have a: "unat a + i < 2 ^ 64" by simp
  have "unat (of_nat i :: word_t) = i" using i by (simp add: unat_of_nat)
  then have "unat (a + of_nat i) = unat a + i" using a unfolding unat_word_ariths(1) by simp
  then show ?thesis using div_stays [OF i] by (simp add: chunk_size_def)
qed

section \<open>Arguments\<close>

lemma string_of_bytes_of_string: "cstr s \<Longrightarrow> string_of_bytes (bytes_of_string s) = s"
proof (induction s)
  case (Cons c s)
  have u: "unat (word_of_nat (of_char c) :: byte) = of_char c" by (simp add: unat_of_nat)
  have "c \<noteq> CHR 0x00" using Cons.prems by (auto simp: cstr_def)
  moreover have "c = CHR 0x00" if "(word_of_nat (of_char c) :: byte) = 0"
  proof -
    have "(of_char c :: nat) = of_char CHR 0x00" using u that by simp
    then show ?thesis by (simp only: of_char_eq_iff)
  qed
  ultimately have "(word_of_nat (of_char c) :: byte) \<noteq> 0" by blast
  then show ?case using Cons u by (simp add: string_of_bytes_def bytes_of_string_def cstr_def)
qed (simp add: string_of_bytes_def bytes_of_string_def)

lemma bytes_of_string_nul: "cstr s \<Longrightarrow> 0 \<notin> set (map (\<lambda>c. word_of_nat (of_char c) :: byte) s)"
proof
  assume c: "cstr s" and "0 \<in> set (map (\<lambda>c. word_of_nat (of_char c) :: byte) s)"
  then obtain c where "c \<in> set s" "(word_of_nat (of_char c) :: byte) = 0" by auto
  then have "unat (word_of_nat (of_char c) :: byte) = 0" by simp
  then have "(of_char c :: nat) = of_char CHR 0x00" by (simp add: unat_of_nat)
  then have "c = CHR 0x00" by (simp only: of_char_eq_iff)
  then show False using c \<open>c \<in> set s\<close> by (simp add: cstr_def)
qed

lemma cstring_at_put:
  assumes "cstr s" "length s < 2 ^ 64"
  shows "cstring_at (put_bytes b a (bytes_of_string s)) a (Suc (length s))"
proof -
  let ?b = "put_bytes b a (bytes_of_string s)"
  have l: "length (bytes_of_string s) = Suc (length s)" by (simp add: bytes_of_string_def)
  have at: "bytes_at ?b a (Suc (length s)) = bytes_of_string s"
    using bytes_at_put_same [of "bytes_of_string s" b a] assms(2) unfolding l by simp
  have p: "present ?b a (Suc (length s))"
    using assms(2) by (auto simp: present_def put_bytes_def unat_of_nat l)
  have "bytes_at ?b a (length s) = take (length s) (bytes_of_string s)"
    using at take_bytes_at [of "length s" "Suc (length s)" ?b a] by simp
  then have "no_nul ?b a (length s)"
    using bytes_of_string_nul [OF assms(1)] p by (auto simp: no_nul_def bytes_of_string_def intro: present_le)
  moreover have "the (?b (a + of_nat (length s))) = 0"
    using arg_cong [OF at, of "\<lambda>l. l ! length s"] by (simp add: bytes_of_string_def nth_append)
  ultimately show ?thesis using p by (auto simp: present_def)
qed

lemma alloc_mem_ok:
  assumes "alloc_mem (int n) m = (ptr, m')" "ptr \<noteq> 0" "n < 2 ^ 64" "0 < n"
  shows "ptr = peek_reg (tr m) CURRENT STACK_POINTER - of_nat n" "m' = m\<lparr>tr := poke_reg STACK_POINTER ptr (tr m)\<rparr>"
    "unat ptr + n = unat (peek_reg (tr m) CURRENT STACK_POINTER)" "reg_norm (tr m) ptr = ptr"
proof -
  let ?sp = "peek_reg (tr m) CURRENT STACK_POINTER"
  have big: "\<not> ?sp \<le> of_nat n"
    using assms by (auto simp: alloc_mem_def RED_ZONE_SIZE_def Let_def split: if_split_asm)
  show ptr: "ptr = ?sp - of_nat n" and "m' = m\<lparr>tr := poke_reg STACK_POINTER ptr (tr m)\<rparr>"
    using assms by (auto simp: alloc_mem_def RED_ZONE_SIZE_def Let_def split: if_split_asm)
  have u: "unat (of_nat n :: word_t) = n" using assms(3) by (simp add: unat_of_nat)
  have le: "n \<le> unat ?sp" using big u by (simp add: word_le_nat_alt)
  show s: "unat ptr + n = unat ?sp" unfolding ptr using unat_diff_of_nat [OF assms(3), of ?sp] le by simp
  show "reg_norm (tr m) ptr = ptr"
  proof (cases "is_aarch32 (tr m)")
    case True
    have m32: "(0xFFFFFFFF :: word_t) = mask 32" by (simp add: mask_eq_exp_minus_1)
    have "?sp = read_word (regs (tr m) CURRENT) (slot (tr m) STACK_POINTER) AND mask 32"
      using True by (simp add: peek_reg_def is_32on64_mode_def Let_def m32)
    then have "?sp = take_bit 32 (read_word (regs (tr m) CURRENT) (slot (tr m) STACK_POINTER))"
      by (simp add: take_bit_eq_mask)
    then have "unat ?sp < 2 ^ 32" by (simp only: unsigned_take_bit_eq take_bit_nat_less_exp)
    then have "unat ptr < 2 ^ 32" using s by simp
    then have "take_bit 32 ptr = ptr" by (simp add: word_unat_eq_iff unsigned_take_bit_eq take_bit_nat_eq_self)
    then show ?thesis using True by (simp add: reg_norm_def m32 take_bit_eq_mask)
  qed (simp add: reg_norm_def)
qed

section \<open>Properties\<close>

lemma rounded_pointer: "8 * q < n \<Longrightarrow> 8 * q + 8 \<le> rounded n"
  unfolding rounded_def by presburger

text \<open>C36: What PRoot has written to the memory of a tracee it reads back, through either pointer tag, by
  any mix of the two methods: the same bytes, or a fault because the last word of the data is not wholly
  mapped. Nothing else in the memory has changed.\<close>

theorem write_read_data:
  assumes "memory_laws k v" "steady m" "length src < 2 ^ 64"
    and "write_data k dest src m = (Inr (), m')" "untag_pointer dest' = untag_pointer dest"
  shows "(read_data k dest' (length src) m' = Inr src \<or>
      read_data k dest' (length src) m' = Inl EFAULT \<and>
        \<not> present (v (krn m)) (untag_pointer dest) (8 * ((length src + 7) div 8))) \<and>
    v (krn m') = put_bytes (v (krn m)) (untag_pointer dest) src \<and> tr m' = tr m"
proof -
  from write_data_steady [OF assms(1-4)] obtain s where s: "m' = m\<lparr>krn := s\<rparr>" "dom (v s) = dom (v (krn m))"
      "present (v (krn m)) (untag_pointer dest) (length src)" "v s = put_bytes (v (krn m)) (untag_pointer dest) src"
    by auto
  have same: "bytes_at (v s) (untag_pointer dest) (length src) = src"
    unfolding s(4) using assms(3) by (intro bytes_at_put_same) simp
  have "read_data k dest' (length src) m' = Inr src \<or>
      read_data k dest' (length src) m' = Inl EFAULT \<and>
        \<not> present (v (krn m)) (untag_pointer dest) (8 * ((length src + 7) div 8))"
    using read_data_bytes [OF assms(1), where m = m' and src = dest' and n = "length src"] same s(1) present_dom [OF s(2)]
    by (auto simp: assms(5) rounded_def split: sum.splits)
  then show ?thesis using s by simp
qed

text \<open>C37: A path that is set as an argument of a system call lies below the stack pointer of the tracee,
  which is lowered by its size; nothing else in its memory changes, and the argument reads as this path.
  The alternative is a fault in the word that holds the terminator.\<close>

theorem set_get_sysarg_path:
  assumes "memory_laws k v" "steady m" "cstr path" "length path < 4095"
    and "r \<in> {SYSARG_1, SYSARG_2, SYSARG_3, SYSARG_4, SYSARG_5, SYSARG_6}"
    and "set_sysarg_path k path r m = (Inr (), m')"
  shows "(let sp = peek_reg (tr m) CURRENT STACK_POINTER - of_nat (Suc (length path)) in
      unat sp + Suc (length path) = unat (peek_reg (tr m) CURRENT STACK_POINTER) \<and>
      peek_reg (tr m') CURRENT STACK_POINTER = sp \<and> peek_reg (tr m') CURRENT r = sp \<and>
      v (krn m') = put_bytes (v (krn m)) (untag_pointer sp) (bytes_of_string path) \<and>
      (get_sysarg_path k r m' = Inr path \<or>
       get_sysarg_path k r m' = Inl EFAULT \<and>
         \<not> present (v (krn m)) (untag_pointer sp) (8 * ((length path + 8) div 8))))"
proof -
  let ?n = "Suc (length path)"
  let ?bs = "bytes_of_string path"
  have n: "length ?bs = ?n" by (simp add: bytes_of_string_def)
  obtain ptr m1 where a: "alloc_mem (int ?n) m = (ptr, m1)" by fastforce
  have ptr: "ptr \<noteq> 0" using assms(6) a by (auto simp: set_sysarg_path_def set_sysarg_data_def n)
  have al: "ptr = peek_reg (tr m) CURRENT STACK_POINTER - of_nat ?n"
    "m1 = m\<lparr>tr := poke_reg STACK_POINTER ptr (tr m)\<rparr>"
    "unat ptr + ?n = unat (peek_reg (tr m) CURRENT STACK_POINTER)" "reg_norm (tr m) ptr = ptr"
    using alloc_mem_ok [OF a ptr] assms(4) by simp_all
  have st: "steady m1" "krn m1 = krn m" using assms(2) al(2) by (simp_all add: steady_def)
  obtain m2 where w: "write_data k ptr ?bs m1 = (Inr (), m2)" "m' = m2\<lparr>tr := poke_reg r ptr (tr m2)\<rparr>"
    using assms(6) a ptr by (auto simp: set_sysarg_path_def set_sysarg_data_def n split: prod.splits sum.splits)
  have len: "length ?bs < 2 ^ 64" using assms(4) by (simp add: n)
  from write_data_steady [OF assms(1) st(1) len w(1)] obtain s where s: "m2 = m1\<lparr>krn := s\<rparr>"
      "dom (v s) = dom (v (krn m))" "v s = put_bytes (v (krn m)) (untag_pointer ptr) ?bs" by (auto simp: st(2))
  have tr': "tr m' = poke_reg r ptr (poke_reg STACK_POINTER ptr (tr m))" and krn': "krn m' = s"
    using w(2) s(1) al(2) by simp_all
  have r: "peek_reg (tr m') CURRENT r = ptr"
    unfolding tr' peek_poke_same using al(4) by (simp add: reg_norm_def)
  have "apart r STACK_POINTER" using assms(5) by (auto simp: apart_def)
  then have sp: "peek_reg (tr m') CURRENT STACK_POINTER = ptr"
    unfolding tr' using al(4) by (simp add: peek_poke_other peek_poke_same)
  have cs: "cstring_at (v s) (untag_pointer ptr) ?n"
    unfolding s(3) using assms(3,4) by (intro cstring_at_put) simp_all
  have get: "get_sysarg_path k r m' = bindE (read_path k ptr m') (\<lambda>(bs, n). Inr (string_of_bytes (take n bs)))"
    using ptr by (simp add: get_sysarg_path_def r)
  note ok = read_string_spec [OF assms(1), where m = m' and src = ptr and max_size = mem_PATH_MAX, unfolded krn']
  have "get_sysarg_path k r m' = Inr path \<or>
      get_sysarg_path k r m' = Inl EFAULT \<and> \<not> present (v (krn m)) (untag_pointer ptr) (rounded ?n)"
  proof (cases "read_string k ptr mem_PATH_MAX m'")
    case (Inl e)
    with ok obtain q where q: "e = EFAULT" "no_nul (v s) (untag_pointer ptr) (8 * q)"
        "\<not> present (v s) (untag_pointer ptr + of_nat (8 * q)) 8" by (auto simp: read_string_ok_def)
    have "8 * q < ?n" using cstring_no_nul [OF cs q(2)] .
    then have "8 * q + 8 \<le> rounded ?n" by (rule rounded_pointer)
    then have "\<not> present (v s) (untag_pointer ptr) (rounded ?n)"
      using q(3) present_le [of "v s" "untag_pointer ptr" "rounded ?n" "8 * q + 8"] unfolding present_add by blast
    then show ?thesis using Inl q(1) present_dom [OF s(2)] by (simp add: get read_path_def)
  next
    case (Inr y)
    obtain bs l where y: "y = (bs, l)" by fastforce
    have "\<not> no_nul (v s) (untag_pointer ptr) 4096" using cstring_no_nul [OF cs] assms(4) by fastforce
    with ok Inr y have l: "cstring_at (v s) (untag_pointer ptr) l" "take l bs = bytes_at (v s) (untag_pointer ptr) l"
      by (auto simp: read_string_ok_def mem_PATH_MAX_def)
    then have "l = ?n" using cstring_unique cs by blast
    moreover have "bytes_at (v s) (untag_pointer ptr) ?n = ?bs"
      unfolding s(3) n [symmetric] using len by (intro bytes_at_put_same) simp
    ultimately have "take l bs = ?bs" using l(2) by simp
    then show ?thesis using Inr y \<open>l = ?n\<close> assms(4) string_of_bytes_of_string [OF assms(3)]
      by (simp add: get read_path_def mem_PATH_MAX_def)
  qed
  then show ?thesis using al r sp s(3) krn' unfolding Let_def rounded_def by (simp add: add.commute)
qed

text \<open>
  One failed request is enough for the workaround, whatever its reason: an address that the tracee has
  given suffices. From then on every word is written by the tracee itself.
\<close>

lemma workaround_is_kept:
  assumes "\<not> workaround_checked m" "k_pokedata k addr word (krn m) = (Inl e, s)"
  shows "workaround_needed (snd (ptrace_pokedata_or_via_stub k addr word m))"
  using assms by (simp add: ptrace_pokedata_or_via_stub_def run_stub_def Let_def case_prod_beta)

text \<open>The stub leaves the registers of the tracee as they were, to be pushed again.\<close>

lemma stub_restores:
  assumes "run_stub k addr word m = (success, m')"
  shows "regs (tr m') CURRENT = regs (tr m) CURRENT \<and> regs_were_changed (tr m') \<and> cancelled_syscall m' \<and>
    restore_original_regs (tr m') = restore_original_regs (tr m)"
  using assms by (auto simp: run_stub_def Let_def case_prod_beta)

section \<open>Witnesses\<close>

text \<open>A kernel whose state is the memory, that transfers at most five bytes at once.\<close>

definition small_kernel :: "memory kernel" where
  "small_kernel = \<lparr>have_process_vm = True,
     k_peekdata = (\<lambda>s a. if present s a 8 then Inr (word_of (bytes_at s a 8)) else Inl EIO),
     k_pokedata = (\<lambda>a w s. if present s a 8 then (Inr (), put_bytes s a (bytes_of w)) else (Inl EIO, s)),
     k_readv = (\<lambda>s a n. if present s a (min n 5) then bytes_at s a (min n 5) else []),
     k_writev = (\<lambda>a bs s. if present s a (min (length bs) 5)
       then (min (length bs) 5, put_bytes s a (take (min (length bs) 5) bs)) else (0, s)),
     k_accepts = (\<lambda>s r. True), k_request = (\<lambda>r s. s), k_block_signals = id, k_restore_signals = id,
     k_conts = (\<lambda>s. ([STOPPED SIGILL], s)), k_kill_stop = id\<rparr>"

lemma small_kernel_laws: "memory_laws small_kernel id"
proof -
  have "\<exists>j \<le> n. k_readv small_kernel s a n = bytes_at s a j \<and> present s a j" for s :: memory and a n
    by (cases "present s a (min n 5)")
      (auto simp: small_kernel_def bytes_at_def present_def intro: exI [of _ "min n 5"] exI [of _ 0])
  moreover have "\<exists>j \<le> length bs. fst (k_writev small_kernel a bs s) = j \<and> present s a j \<and>
      snd (k_writev small_kernel a bs s) = put_bytes s a (take j bs)" for s :: memory and a bs
    by (cases "present s a (min (length bs) 5)") (simp_all add: small_kernel_def present_def [of _ _ 0])
  ultimately show ?thesis
    by (simp add: memory_laws_def) (simp add: small_kernel_def bytes_of_word_of)
qed

definition example_machine :: "memory machine" where
  "example_machine = \<lparr>tr = set_bank example_tracee CURRENT (write_word (\<lambda>_. 0) 62 4096),
     krn = (\<lambda>a. if a < 8192 then Some 7 else None), workaround_needed = False, workaround_checked = True,
     stub_addr = 0, cancelled_syscall = False, relaunched_syscall = False\<rparr>"

lemma example_steady: "steady example_machine"
  by (simp add: steady_def example_machine_def)

lemma example_present:
  assumes "unat a + n \<le> 8192"
  shows "present (krn example_machine) a n"
  unfolding present_def
proof (intro allI impI)
  fix i
  assume "i < n"
  then have "unat (of_nat i :: word_t) = i" "unat a + i < 8192" using assms by (simp_all add: unat_of_nat)
  then have "a + of_nat i < 8192" by (simp add: word_less_nat_alt unat_word_ariths(1))
  then show "krn example_machine (a + of_nat i) \<noteq> None" by (simp add: example_machine_def)
qed

lemma example_write:
  assumes "unat (untag_pointer a) + rounded (length src) \<le> 8192" "tr m = t" "krn m = krn example_machine" "steady m"
  shows "\<exists>m'. write_data small_kernel a src m = (Inr (), m')"
proof -
  obtain r m' where w: "write_data small_kernel a src m = (r, m')" by fastforce
  have "length src < 2 ^ 64" using assms(1) rounded_split(2) [of "length src"] by simp
  from write_data_steady [OF small_kernel_laws assms(4) this w] example_present [OF assms(1)]
  have "\<nexists>e. r = Inl e" by (auto simp: assms(3))
  then show ?thesis using w by (cases r) auto
qed

lemma write_read_witness:
  "\<exists>m'. write_data small_kernel (2 ^ 60 + 100) [1, 2, 3, 4, 5, 6, 7, 8, 9] example_machine = (Inr (), m') \<and>
     krn m' = put_bytes (krn example_machine) 100 [1, 2, 3, 4, 5, 6, 7, 8, 9]"
proof -
  let ?src = "[1, 2, 3, 4, 5, 6, 7, 8, 9] :: byte list"
  have t: "untag_pointer (2 ^ 60 + 100) = 100" "untag_pointer 100 = 100" by (simp_all add: untag_pointer_def)
  have "unat (untag_pointer (2 ^ 60 + 100)) + rounded (length ?src) \<le> 8192" unfolding t by (simp add: rounded_def)
  from example_write [OF this refl refl example_steady] obtain m' where
    w: "write_data small_kernel (2 ^ 60 + 100) ?src example_machine = (Inr (), m')" by blast
  then show ?thesis
    using write_read_data [OF small_kernel_laws example_steady _ w, of 100] t by auto
qed

lemma set_get_witness:
  "\<exists>m'. set_sysarg_path small_kernel ''/bin'' SYSARG_2 example_machine = (Inr (), m') \<and>
     peek_reg (tr m') CURRENT SYSARG_2 = 4091"
proof -
  let ?bs = "bytes_of_string ''/bin''"
  have sp: "peek_reg (tr example_machine) CURRENT STACK_POINTER = 4096"
    by (simp add: example_machine_def peek_reg_def is_32on64_mode_def example_tracee_def slot_def read_write_word)
  have l: "length ?bs = 5" by (simp add: bytes_of_string_def)
  define m1 where "m1 = example_machine\<lparr>tr := poke_reg STACK_POINTER 4091 (tr example_machine)\<rparr>"
  have al: "alloc_mem 5 example_machine = (4091, m1)"
    by (simp add: alloc_mem_def sp RED_ZONE_SIZE_def m1_def)
  have "unat (untag_pointer 4091) + rounded (length ?bs) \<le> 8192" by (simp add: l rounded_def untag_pointer_def)
  moreover have "steady m1" "krn m1 = krn example_machine" using example_steady by (simp_all add: m1_def steady_def)
  ultimately obtain m2 where "write_data small_kernel 4091 ?bs m1 = (Inr (), m2)"
    using example_write refl by blast
  then have e: "set_sysarg_path small_kernel ''/bin'' SYSARG_2 example_machine =
      (Inr (), m2\<lparr>tr := poke_reg SYSARG_2 4091 (tr m2)\<rparr>)"
    by (simp add: set_sysarg_path_def set_sysarg_data_def l al)
  have c: "cstr ''/bin''" "length ''/bin'' < 4095"
    "SYSARG_2 \<in> {SYSARG_1, SYSARG_2, SYSARG_3, SYSARG_4, SYSARG_5, SYSARG_6}" by (simp_all add: cstr_def)
  show ?thesis using set_get_sysarg_path [OF small_kernel_laws example_steady c e] e sp by (simp add: Let_def)
qed

end
