(* ===== verification/Netlink.thy ===== *)
theory Netlink
  imports Mem
begin

text \<open>
  Emulated netlink, \<open>syscall/enter.c\<close>: the messages of \<open>NETLINK_ROUTE\<close> that PRoot answers itself when the
  host denies the socket. The buffer of a reply is the list of the bytes before its current offset, a
  struct the bytes of its little-endian layout. The queries to the host are an argument.
\<close>

section \<open>Layout\<close>

definition le :: "nat \<Rightarrow> 'a::len word \<Rightarrow> byte list" where
  "le n w = map (\<lambda>i. ucast (drop_bit (8 * i) w)) [0..<n]"

definition u16_at :: "byte list \<Rightarrow> nat \<Rightarrow> u16" where
  "u16_at bs i = ucast (word_of (take 2 (drop i bs)))"

definition u32_at :: "byte list \<Rightarrow> nat \<Rightarrow> u32" where
  "u32_at bs i = ucast (word_of (take 4 (drop i bs)))"

definition put_at :: "nat \<Rightarrow> byte list \<Rightarrow> byte list \<Rightarrow> byte list" where
  "put_at i x bs = take i bs @ x @ drop (i + length x) bs"

definition NLMSG_ALIGN :: "nat \<Rightarrow> nat" where "NLMSG_ALIGN n = 4 * ((n + 3) div 4)"
definition NLMSG_HDRLEN :: nat where "NLMSG_HDRLEN = 16"
definition RTA_ALIGN :: "nat \<Rightarrow> nat" where "RTA_ALIGN n = 4 * ((n + 3) div 4)"
definition RTA_LENGTH :: "nat \<Rightarrow> nat" where "RTA_LENGTH n = 4 + n"
definition RTA_SPACE :: "nat \<Rightarrow> nat" where "RTA_SPACE n = RTA_ALIGN (RTA_LENGTH n)"
definition IFNAMSIZ :: nat where "IFNAMSIZ = 16"
definition MAX_FAKE_NETLINK_REPLY :: nat where "MAX_FAKE_NETLINK_REPLY = 8192"

definition NLMSG_ERROR :: u16 where "NLMSG_ERROR = 2"
definition NLMSG_DONE :: u16 where "NLMSG_DONE = 3"
definition RTM_NEWLINK :: u16 where "RTM_NEWLINK = 16"
definition RTM_GETLINK :: u16 where "RTM_GETLINK = 18"
definition RTM_NEWADDR :: u16 where "RTM_NEWADDR = 20"
definition RTM_GETADDR :: u16 where "RTM_GETADDR = 22"
definition RTM_GETROUTE :: u16 where "RTM_GETROUTE = 26"
definition NLM_F_MULTI :: u16 where "NLM_F_MULTI = 2"
definition NLM_F_DUMP :: u16 where "NLM_F_DUMP = 0x300"
definition IFLA_IFNAME :: u16 where "IFLA_IFNAME = 3"
definition IFF_UP :: u32 where "IFF_UP = 1"
definition IFF_LOOPBACK :: u32 where "IFF_LOOPBACK = 8"
definition IFF_RUNNING :: u32 where "IFF_RUNNING = 0x40"
definition IFF_LOWER_UP :: u32 where "IFF_LOWER_UP = 0x10000"
definition ARPHRD_ETHER :: u16 where "ARPHRD_ETHER = 1"
definition ARPHRD_LOOPBACK :: u16 where "ARPHRD_LOOPBACK = 772"
definition AF_INET :: nat where "AF_INET = 2"
definition AF_INET6 :: nat where "AF_INET6 = 10"
definition ENODEV :: int where "ENODEV = 19"

text \<open>\<open>struct nlmsghdr\<close>.\<close>

definition nlmsghdr :: "nat \<Rightarrow> u16 \<Rightarrow> u16 \<Rightarrow> u32 \<Rightarrow> u32 \<Rightarrow> byte list" where
  "nlmsghdr len type flags seq pid =
     le 4 (of_nat len :: u32) @ le 2 type @ le 2 flags @ le 4 seq @ le 4 pid"

section \<open>Building a message\<close>

text \<open>Every piece that is appended is a multiple of four bytes long, so that the offset is aligned.\<close>

definition nl_add_attr :: "nat \<Rightarrow> u16 \<Rightarrow> byte list \<Rightarrow> byte list \<Rightarrow> byte list" where
  "nl_add_attr lim type data buf =
     (let dlen = length data mod 65536; space = RTA_SPACE dlen in
      if length buf + space > lim then buf
      else buf @ le 2 (of_nat (RTA_LENGTH dlen) :: u16) @ le 2 type @ take dlen data @ replicate (space - RTA_LENGTH dlen) 0)"

definition nl_build_link ::
  "nat \<Rightarrow> u32 \<Rightarrow> u32 \<Rightarrow> u16 \<Rightarrow> int \<Rightarrow> u16 \<Rightarrow> u32 \<Rightarrow> u32 \<Rightarrow> string \<Rightarrow> byte list \<Rightarrow> byte list \<Rightarrow> byte list" where
  "nl_build_link lim seq pid nlflags ifindex iftype ifflags mtu ifname hwaddr buf =
     (let start = length buf in
      if start + NLMSG_HDRLEN + NLMSG_ALIGN 16 > lim then buf
      else
        (let operstate = (if ifflags AND IFF_UP \<noteq> 0 then 6 else 2);
             ifi_flags = ifflags OR (if ifflags AND IFF_RUNNING \<noteq> 0 then IFF_LOWER_UP else 0);
             ifi = [0, 0] @ le 2 iftype @ le 4 (word_of_int ifindex :: u32) @ le 4 ifi_flags @ le 4 (0 :: u32);
             b = buf @ replicate NLMSG_HDRLEN 0 @ ifi;
             b = nl_add_attr lim IFLA_IFNAME (bytes_of_string ifname) b;
             b = nl_add_attr lim 4 (le 4 mtu) b;
             b = nl_add_attr lim 13 (le 4 (1000 :: u32)) b;
             b = nl_add_attr lim 16 [operstate] b;
             b = (if hwaddr = [] then b
                  else
                    (let brd = (if iftype = ARPHRD_LOOPBACK then 0 else 0xff) in
                     nl_add_attr lim 2 (replicate (length hwaddr) brd) (nl_add_attr lim 1 hwaddr b))) in
         put_at start (nlmsghdr (length b - start) RTM_NEWLINK nlflags seq pid) b))"

definition nl_build_addr ::
  "nat \<Rightarrow> u32 \<Rightarrow> u32 \<Rightarrow> u16 \<Rightarrow> nat \<Rightarrow> int \<Rightarrow> byte list \<Rightarrow> byte \<Rightarrow> byte \<Rightarrow> string option \<Rightarrow> byte list \<Rightarrow> byte list" where
  "nl_build_addr lim seq pid nlflags family ifindex addr prefixlen scope label buf =
     (let start = length buf in
      if start + NLMSG_HDRLEN + NLMSG_ALIGN 8 > lim then buf
      else
        (let ifa = [of_nat family, prefixlen, 0x80, scope] @ le 4 (word_of_int ifindex :: u32);
             b = buf @ replicate NLMSG_HDRLEN 0 @ ifa;
             b = nl_add_attr lim 1 addr b;
             b = nl_add_attr lim 2 addr b;
             b = (case label of
                    None \<Rightarrow> b
                  | Some l \<Rightarrow> if family = AF_INET then nl_add_attr lim 3 (bytes_of_string l) b else b) in
         put_at start (nlmsghdr (length b - start) RTM_NEWADDR nlflags seq pid) b))"

definition nl_build_done :: "nat \<Rightarrow> u32 \<Rightarrow> u32 \<Rightarrow> byte list \<Rightarrow> byte list" where
  "nl_build_done lim seq pid buf =
     (let len = NLMSG_HDRLEN + 4 in
      if length buf + NLMSG_ALIGN len > lim then buf
      else buf @ nlmsghdr len NLMSG_DONE NLM_F_MULTI seq pid @ le 4 (0 :: u32))"

definition nl_build_error :: "nat \<Rightarrow> u32 \<Rightarrow> u32 \<Rightarrow> int \<Rightarrow> byte list \<Rightarrow> byte list" where
  "nl_build_error lim seq pid error buf =
     (let len = NLMSG_HDRLEN + 20 in
      if length buf + NLMSG_ALIGN len > lim then buf
      else buf @ nlmsghdr len NLMSG_ERROR 0 seq pid @ le 4 (word_of_int error :: u32) @ replicate 16 0)"

section \<open>Reading a request\<close>

text \<open>
  The loop over the attributes of \<open>nl_request_is_loopback\<close> and \<open>nl_request_link_target\<close>: the last
  \<open>IFLA_IFNAME\<close>.
\<close>

function last_ifname :: "byte list \<Rightarrow> nat \<Rightarrow> string option \<Rightarrow> string option" where
  "last_ifname req off found =
     (if off + 4 \<le> length req then
        (let rlen = unat (u16_at req off) in
         if rlen < 4 \<or> off + rlen > length req then found
         else
           (let found =
              (if u16_at req (off + 2) = IFLA_IFNAME then
                 (let dlen = rlen - RTA_LENGTH 0;
                      cpy = (if dlen < IFNAMSIZ then dlen else IFNAMSIZ - 1) in
                  Some (string_of_bytes (take cpy (drop (off + 4) req))))
               else found) in
            last_ifname req (off + RTA_ALIGN rlen) found))
      else found)"
  by pat_completeness auto
termination
  by (relation "measure (\<lambda>(req, off, found). length req - off)") (auto simp: RTA_ALIGN_def)

declare last_ifname.simps [simp del]

definition nl_request_is_loopback :: "byte list \<Rightarrow> bool" where
  "nl_request_is_loopback req =
     (if length req < NLMSG_HDRLEN + 16 then True
      else
        (let ifindex = u32_at req (NLMSG_HDRLEN + 4) in
         case last_ifname req (NLMSG_HDRLEN + NLMSG_ALIGN 16) None of
           Some n \<Rightarrow> n = ''lo''
         | None \<Rightarrow> ifindex = 0 \<or> ifindex = 1))"

definition nl_request_link_target :: "byte list \<Rightarrow> int \<times> string" where
  "nl_request_link_target req =
     (if length req < NLMSG_HDRLEN + 16 then (0, [])
      else
        (sint (u32_at req (NLMSG_HDRLEN + 4)),
         case last_ifname req (NLMSG_HDRLEN + NLMSG_ALIGN 16) None of None \<Rightarrow> [] | Some n \<Rightarrow> n))"

definition nl_prefixlen_byte :: "byte \<Rightarrow> nat" where
  "nl_prefixlen_byte b = length (takeWhile (\<lambda>i. bit b (7 - i)) [0..<8])"

fun nl_prefixlen :: "byte list \<Rightarrow> nat" where
  "nl_prefixlen [] = 0"
| "nl_prefixlen (b # netmask) = (if b = 0xff then 8 + nl_prefixlen netmask else nl_prefixlen_byte b)"

definition nl_addr_scope :: "nat \<Rightarrow> byte list \<Rightarrow> byte" where
  "nl_addr_scope family addr =
     (if family = AF_INET then
        (if addr ! 0 = 127 then 254 else if addr ! 0 = 169 \<and> addr ! 1 = 254 then 253 else 0)
      else
        (if addr = replicate 15 0 @ [1] then 254
         else if addr ! 0 = 0xfe \<and> addr ! 1 AND 0xc0 = 0x80 then 253 else 0))"

definition nl_build_loopback_link :: "nat \<Rightarrow> u32 \<Rightarrow> u32 \<Rightarrow> u16 \<Rightarrow> byte list \<Rightarrow> byte list" where
  "nl_build_loopback_link lim seq pid nlflags buf =
     nl_build_link lim seq pid nlflags 1 ARPHRD_LOOPBACK (IFF_UP OR IFF_LOOPBACK OR IFF_RUNNING) 65536 ''lo''
       (replicate 6 0) buf"

definition nl_build_loopback_addr :: "nat \<Rightarrow> u32 \<Rightarrow> u32 \<Rightarrow> nat \<Rightarrow> u16 \<Rightarrow> byte list \<Rightarrow> byte list" where
  "nl_build_loopback_addr lim seq pid family nlflags buf =
     (if family = AF_INET6
      then nl_build_addr lim seq pid nlflags AF_INET6 1 (replicate 15 0 @ [1]) 128 254 None buf
      else nl_build_addr lim seq pid nlflags AF_INET 1 [127, 0, 0, 1] 8 254 (Some ''lo'') buf)"

section \<open>The host's interfaces\<close>

datatype sockaddr =
    SA_INET "byte list" | SA_INET6 "byte list" | SA_PACKET int u16 nat "byte list" | SA_OTHER

record ifaddrs =
  ifa_name :: "string option"
  ifa_flags :: u32
  ifa_addr :: "sockaddr option"
  ifa_netmask :: "byte list option"

text \<open>
  What the host answers: \<open>getifaddrs\<close> (\<open>None\<close> for an error), \<open>if_nametoindex\<close>, whether a socket for the
  ioctls is available with the answers of \<open>SIOCGIFMTU\<close> and \<open>SIOCGIFHWADDR\<close> (the type and six bytes), and
  the datagrams that follow a request for the routes of a family (\<open>None\<close> when the socket or the request
  fails), up to the first failed \<open>recv\<close>.
\<close>

record net =
  n_ifaddrs :: "ifaddrs list option"
  n_index :: "string \<Rightarrow> int"
  n_sock :: bool
  n_mtu :: "string \<Rightarrow> u32 option"
  n_hwaddr :: "string \<Rightarrow> (u16 \<times> byte list) option"
  n_routes :: "byte \<Rightarrow> u32 \<Rightarrow> byte list list option"

text \<open>One turn of the loop of \<open>build_host_links\<close>: the fields of the link of an entry with a name.\<close>

definition host_link :: "net \<Rightarrow> ifaddrs \<Rightarrow> string \<Rightarrow> int \<times> u16 \<times> u32 \<times> byte list" where
  "host_link n ifa ifname =
     (let ifflags = ifa_flags ifa;
          iftype = (if ifflags AND IFF_LOOPBACK \<noteq> 0 then ARPHRD_LOOPBACK else ARPHRD_ETHER);
          mtu = (if ifflags AND IFF_LOOPBACK \<noteq> 0 then 65536 else 1500);
          ifindex = n_index n ifname;
          (ifindex, iftype, hwaddr) =
            (case ifa_addr ifa of
               Some (SA_PACKET sll_ifindex sll_hatype sll_halen sll_addr) \<Rightarrow>
                 (if sll_ifindex \<noteq> 0 then sll_ifindex else ifindex, sll_hatype,
                  if sll_halen > 0 \<and> sll_halen \<le> 8 then take sll_halen sll_addr else [])
             | _ \<Rightarrow> (ifindex, iftype, []));
          ifr_name = take (IFNAMSIZ - 1) ifname;
          mtu = (case (if n_sock n then n_mtu n ifr_name else None) of None \<Rightarrow> mtu | Some m \<Rightarrow> m);
          (iftype, hwaddr) =
            (case (if n_sock n \<and> hwaddr = [] then n_hwaddr n ifr_name else None) of
               None \<Rightarrow> (iftype, hwaddr) | Some (t, h) \<Rightarrow> (t, take 6 h)) in
      (ifindex, iftype, mtu, hwaddr))"

definition wanted_link :: "bool \<Rightarrow> string \<Rightarrow> int \<Rightarrow> string \<Rightarrow> int \<Rightarrow> bool" where
  "wanted_link dump want_name want_index ifname ifindex =
     (dump \<or> (if want_name \<noteq> [] then want_name = ifname else \<not> (want_index > 0 \<and> ifindex \<noteq> want_index)))"

fun host_links ::
  "net \<Rightarrow> nat \<Rightarrow> u32 \<Rightarrow> u32 \<Rightarrow> string \<Rightarrow> int \<Rightarrow> bool \<Rightarrow> ifaddrs list \<Rightarrow> string list \<Rightarrow> byte list \<Rightarrow> nat \<Rightarrow> byte list \<times> nat"
where
  "host_links n lim seq pid want_name want_index dump [] seen buf built = (buf, built)"
| "host_links n lim seq pid want_name want_index dump (ifa # ifas) seen buf built =
     (case ifa_name ifa of
        None \<Rightarrow> host_links n lim seq pid want_name want_index dump ifas seen buf built
      | Some ifname \<Rightarrow>
          if list_ex (\<lambda>s. take IFNAMSIZ s = take IFNAMSIZ ifname) seen
          then host_links n lim seq pid want_name want_index dump ifas seen buf built
          else
            (let seen = (if length seen < 64 then seen @ [take (IFNAMSIZ - 1) ifname] else seen);
                 (ifindex, iftype, mtu, hwaddr) = host_link n ifa ifname in
             if \<not> wanted_link dump want_name want_index ifname ifindex
             then host_links n lim seq pid want_name want_index dump ifas seen buf built
             else if length buf + 256 > lim then (buf, built)
             else
               (let buf = nl_build_link lim seq pid (if dump then NLM_F_MULTI else 0) ifindex iftype
                            (ifa_flags ifa) mtu ifname hwaddr buf in
                if \<not> dump then (buf, Suc built)
                else host_links n lim seq pid want_name want_index dump ifas seen buf (Suc built))))"

definition build_host_links ::
  "net \<Rightarrow> nat \<Rightarrow> u32 \<Rightarrow> u32 \<Rightarrow> string \<Rightarrow> int \<Rightarrow> bool \<Rightarrow> byte list \<times> nat" where
  "build_host_links n lim seq pid want_name want_index dump =
     (case n_ifaddrs n of None \<Rightarrow> ([], 0)
      | Some ifas \<Rightarrow> host_links n lim seq pid want_name want_index dump ifas [] [] 0)"

text \<open>One turn of the loop of \<open>build_host_addrs\<close>: family, address and netmask of an entry that counts.\<close>

definition host_addr :: "nat \<Rightarrow> ifaddrs \<Rightarrow> (nat \<times> byte list \<times> byte list option) option" where
  "host_addr want_family ifa =
     (case ifa_addr ifa of
        Some (SA_INET a) \<Rightarrow>
          if want_family \<noteq> 0 \<and> AF_INET \<noteq> want_family then None
          else Some (AF_INET, take 4 a, map_option (take 4) (ifa_netmask ifa))
      | Some (SA_INET6 a) \<Rightarrow>
          if want_family \<noteq> 0 \<and> AF_INET6 \<noteq> want_family then None
          else Some (AF_INET6, take 16 a, map_option (take 16) (ifa_netmask ifa))
      | _ \<Rightarrow> None)"

fun host_addrs ::
  "net \<Rightarrow> nat \<Rightarrow> u32 \<Rightarrow> u32 \<Rightarrow> nat \<Rightarrow> bool \<Rightarrow> ifaddrs list \<Rightarrow> byte list \<Rightarrow> nat \<Rightarrow> byte list \<times> nat"
where
  "host_addrs n lim seq pid want_family dump [] buf built = (buf, built)"
| "host_addrs n lim seq pid want_family dump (ifa # ifas) buf built =
     (case (ifa_name ifa, host_addr want_family ifa) of
        (Some ifname, Some (family, addr, netmask)) \<Rightarrow>
          (let prefixlen = (case netmask of Some m \<Rightarrow> nl_prefixlen m | None \<Rightarrow> if family = AF_INET then 32 else 128) in
           if length buf + 256 > lim then (buf, built)
           else
             host_addrs n lim seq pid want_family dump ifas
               (nl_build_addr lim seq pid (if dump then NLM_F_MULTI else 0) family (n_index n ifname) addr
                  (of_nat prefixlen) (nl_addr_scope family addr) (Some ifname) buf) (Suc built))
      | _ \<Rightarrow> host_addrs n lim seq pid want_family dump ifas buf built)"

definition build_host_addrs :: "net \<Rightarrow> nat \<Rightarrow> u32 \<Rightarrow> u32 \<Rightarrow> nat \<Rightarrow> bool \<Rightarrow> byte list \<times> nat" where
  "build_host_addrs n lim seq pid want_family dump =
     (case n_ifaddrs n of None \<Rightarrow> ([], 0)
      | Some ifas \<Rightarrow> host_addrs n lim seq pid want_family dump ifas [] 0)"

section \<open>Relaying the routes\<close>

text \<open>
  The messages of one datagram: the buffer, \<open>done\<close> and \<open>saw_done\<close>. \<open>NLMSG_NEXT\<close> subtracts the aligned length
  from the unsigned \<open>len\<close>: past the end of the datagram the code goes on in foreign memory, \<open>None\<close> here.
\<close>

function relay_messages ::
  "nat \<Rightarrow> u32 \<Rightarrow> u32 \<Rightarrow> byte list \<Rightarrow> byte list \<Rightarrow> (byte list \<times> bool \<times> bool) option" where
  "relay_messages lim seq pid h out =
     (let mlen = unat (u32_at h 0); aligned = NLMSG_ALIGN mlen in
      if length h < 16 \<or> mlen < 16 \<or> mlen > length h then Some (out, False, False)
      else if length out + aligned + 64 > lim then Some (out, True, False)
      else
        (let out = out @ take mlen (put_at 8 (le 4 seq @ le 4 pid) h) @ replicate (aligned - mlen) 0 in
         if u16_at h 4 = NLMSG_DONE then Some (out, True, True)
         else if aligned > length h then None
         else relay_messages lim seq pid (drop aligned h) out))"
  by pat_completeness auto
termination
  by (relation "measure (\<lambda>(lim, seq, pid, h, out). length h)") (auto simp: NLMSG_ALIGN_def)

declare relay_messages.simps [simp del]

fun relay_rounds :: "nat \<Rightarrow> u32 \<Rightarrow> u32 \<Rightarrow> byte list list \<Rightarrow> byte list \<Rightarrow> (byte list \<times> bool) option" where
  "relay_rounds lim seq pid [] out = Some (out, False)"
| "relay_rounds lim seq pid (buf # bufs) out =
     (if buf = [] then Some (out, False)
      else
        (case relay_messages lim seq pid (take 8192 buf) out of
           None \<Rightarrow> None
         | Some (out, is_done, saw_done) \<Rightarrow>
             if is_done then Some (out, saw_done) else relay_rounds lim seq pid bufs out))"

definition relay_route_dump :: "net \<Rightarrow> byte list \<Rightarrow> nat \<Rightarrow> u32 \<Rightarrow> u32 \<Rightarrow> byte list option" where
  "relay_route_dump n req lim seq pid =
     (let family = (if length req > NLMSG_HDRLEN then req ! NLMSG_HDRLEN else 0) in
      case n_routes n family seq of
        None \<Rightarrow> Some []
      | Some bufs \<Rightarrow>
          (case relay_rounds lim seq pid (take 64 bufs) [] of
             None \<Rightarrow> None
           | Some (out, saw_done) \<Rightarrow>
               if out = [] then Some [] else Some (if saw_done then out else nl_build_done lim seq pid out)))"

section \<open>The reply\<close>

definition link_reply :: "net \<Rightarrow> nat \<Rightarrow> u32 \<Rightarrow> u32 \<Rightarrow> bool \<Rightarrow> byte list \<Rightarrow> byte list" where
  "link_reply n lim seq pid dump req =
     (let (want_index, want_name) = nl_request_link_target req;
          (out, built) = build_host_links n lim seq pid (if dump then [] else want_name) (if dump then 0 else want_index) dump;
          out = (if built = 0 then
                   (if dump then nl_build_loopback_link lim seq pid NLM_F_MULTI []
                    else if nl_request_is_loopback req then nl_build_loopback_link lim seq pid 0 []
                    else nl_build_error lim seq pid (- ENODEV) [])
                 else out) in
      if dump then nl_build_done lim seq pid out else out)"

definition addr_reply :: "net \<Rightarrow> nat \<Rightarrow> u32 \<Rightarrow> u32 \<Rightarrow> bool \<Rightarrow> byte list \<Rightarrow> byte list" where
  "addr_reply n lim seq pid dump req =
     (let family = (if length req > NLMSG_HDRLEN then unat (req ! NLMSG_HDRLEN) else 0);
          want_family = (if family = AF_INET \<or> family = AF_INET6 then family else 0);
          (out, built) = build_host_addrs n lim seq pid want_family dump;
          flags = (if dump then NLM_F_MULTI else 0);
          out = (if built = 0 then
                   (let out = (if family = 0 \<or> family = AF_INET
                               then nl_build_loopback_addr lim seq pid AF_INET flags [] else []) in
                    if family = 0 \<or> family = AF_INET6
                    then nl_build_loopback_addr lim seq pid AF_INET6 flags out else out)
                 else out) in
      if dump then nl_build_done lim seq pid out else out)"

definition route_reply :: "net \<Rightarrow> nat \<Rightarrow> u32 \<Rightarrow> u32 \<Rightarrow> bool \<Rightarrow> byte list \<Rightarrow> byte list option" where
  "route_reply n lim seq pid dump req =
     (if dump then
        (case relay_route_dump n req lim seq pid of
           None \<Rightarrow> None
         | Some out \<Rightarrow> Some (if out = [] then nl_build_done lim seq pid out else out))
      else Some (nl_build_error lim seq pid 0 []))"

text \<open>\<open>build_fake_netlink_reply\<close> from the request on, which has at least the 16 bytes of its header.\<close>

definition netlink_reply :: "net \<Rightarrow> u32 \<Rightarrow> byte list \<Rightarrow> byte list option" where
  "netlink_reply n pid req =
     (let lim = MAX_FAKE_NETLINK_REPLY;
          type = u16_at req 4; flags = u16_at req 6; seq = u32_at req 8;
          dump = (flags AND NLM_F_DUMP = NLM_F_DUMP) in
      if type = RTM_GETLINK then Some (link_reply n lim seq pid dump req)
      else if type = RTM_GETADDR then Some (addr_reply n lim seq pid dump req)
      else if type = RTM_GETROUTE then route_reply n lim seq pid dump req
      else if dump then Some (nl_build_done lim seq pid [])
      else Some (nl_build_error lim seq pid 0 []))"

definition build_fake_netlink_reply ::
  "'k kernel \<Rightarrow> net \<Rightarrow> u32 \<Rightarrow> word_t \<Rightarrow> word_t \<Rightarrow> 'k machine \<Rightarrow> byte list option" where
  "build_fake_netlink_reply k n pid buf_addr buf_len m =
     (if buf_addr = 0 \<or> buf_len < 16 then Some []
      else
        (case read_data k buf_addr (if buf_len < 256 then unat buf_len else 256) m of
           Inl _ \<Rightarrow> Some []
         | Inr req \<Rightarrow> netlink_reply n pid req))"

section \<open>Reading back\<close>

lemma bit_le: "i < n \<Longrightarrow> bit (le n w ! i) j \<longleftrightarrow> j < 8 \<and> bit w (8 * i + j)"
  by (simp add: le_def bit_simps)

lemma length_le [simp]: "length (le n w) = n"
  by (simp add: le_def)

lemma word_of_le:
  "ucast (word_of (le 4 (w :: u32))) = w" "ucast (word_of (le 2 (v :: u16))) = v"
  by (auto intro!: bit_word_eqI simp: bit_simps bit_word_of bit_le div_mult_mod_eq [symmetric])

lemma at_append_left:
  "i + 4 \<le> length xs \<Longrightarrow> u32_at (xs @ ys) i = u32_at xs i"
  "i + 2 \<le> length xs \<Longrightarrow> u16_at (xs @ ys) i = u16_at xs i"
  by (simp_all add: u32_at_def u16_at_def)

lemma u32_at_le: "length xs = i \<Longrightarrow> u32_at (xs @ le 4 (w :: u32) @ ys) i = w"
  by (simp add: u32_at_def word_of_le)

lemma u16_at_le: "length xs = i \<Longrightarrow> u16_at (xs @ le 2 (w :: u16) @ ys) i = w"
  by (simp add: u16_at_def word_of_le)

lemma length_nlmsghdr [simp]: "length (nlmsghdr len type flags seq pid) = 16"
  by (simp add: nlmsghdr_def)

lemma nlmsghdr_not_Nil [simp]: "nlmsghdr len type flags seq pid \<noteq> []"
  by (metis length_nlmsghdr list.size(3) zero_neq_numeral)

lemma nlmsghdr_at:
  "u32_at (nlmsghdr len type flags seq pid @ b) 0 = of_nat len"
  "u16_at (nlmsghdr len type flags seq pid @ b) 4 = type"
  "u16_at (nlmsghdr len type flags seq pid @ b) 6 = flags"
  "u32_at (nlmsghdr len type flags seq pid @ b) 8 = seq"
  "u32_at (nlmsghdr len type flags seq pid @ b) 12 = pid"
  unfolding nlmsghdr_def append_assoc
  using u32_at_le [of "[]" 0] u16_at_le [of "le 4 (of_nat len :: u32)" 4]
    u16_at_le [of "le 4 (of_nat len :: u32) @ le 2 type" 6]
    u32_at_le [of "le 4 (of_nat len :: u32) @ le 2 type @ le 2 flags" 8]
    u32_at_le [of "le 4 (of_nat len :: u32) @ le 2 type @ le 2 flags @ le 4 seq" 12]
  by simp_all

text \<open>What a receiver makes of the bytes, with \<open>NLMSG_OK\<close> and \<open>NLMSG_NEXT\<close>: type, flags, sequence number,
  port and body of each message.\<close>

type_synonym message = "u16 \<times> u16 \<times> u32 \<times> u32 \<times> byte list"

function messages :: "byte list \<Rightarrow> message list option" where
  "messages bs =
     (if bs = [] then Some []
      else
        (let len = unat (u32_at bs 0) in
         if length bs < 16 \<or> len < 16 \<or> len > length bs then None
         else
           map_option ((#) (u16_at bs 4, u16_at bs 6, u32_at bs 8, u32_at bs 12, drop 16 (take len bs)))
             (messages (drop (NLMSG_ALIGN len) bs))))"
  by pat_completeness auto
termination
  by (relation "measure length") (auto simp: NLMSG_ALIGN_def)

declare messages.simps [simp del]

lemma messages_Nil [simp]: "messages [] = Some []"
  by (simp add: messages.simps)

lemma align_le: "4 dvd n \<Longrightarrow> len \<le> n \<Longrightarrow> NLMSG_ALIGN len \<le> n"
  unfolding NLMSG_ALIGN_def by presburger

lemma dvd_align [simp]: "4 dvd NLMSG_ALIGN n" "4 dvd RTA_SPACE n" "NLMSG_ALIGN 16 = 16" "NLMSG_ALIGN 8 = 8"
  by (simp_all add: NLMSG_ALIGN_def RTA_SPACE_def RTA_ALIGN_def)

lemma messages_append:
  "messages a = Some ms \<Longrightarrow> 4 dvd length a \<Longrightarrow> messages (a @ b) = map_option ((@) ms) (messages b)"
proof (induction a arbitrary: ms rule: messages.induct)
  case (1 a)
  show ?case
  proof (cases "a = []")
    case True
    then show ?thesis using 1(2) by (simp add: option.map_ident)
  next
    case False
    define len where "len = unat (u32_at a 0)"
    let ?x = "(u16_at a 4, u16_at a 6, u32_at a 8, u32_at a 12, drop 16 (take len a))"
    have ok: "\<not> (length a < 16 \<or> len < 16 \<or> len > length a)"
      using 1(2) False by (auto simp: messages.simps [of a] len_def [symmetric] split: if_split_asm)
    then obtain ms' where ms': "messages (drop (NLMSG_ALIGN len) a) = Some ms'" "ms = ?x # ms'"
      using 1(2) False by (auto simp: messages.simps [of a] len_def [symmetric] Let_def)
    have al: "NLMSG_ALIGN len \<le> length a" using 1(3) ok by (simp add: align_le)
    have "4 dvd length (drop (NLMSG_ALIGN len) a)" using 1(3) by (simp add: dvd_diff_nat)
    from 1(1) [OF False len_def ok ms'(1) this]
    have "messages (drop (NLMSG_ALIGN len) a @ b) = map_option ((@) ms') (messages b)" .
    moreover have "u32_at (a @ b) 0 = u32_at a 0" "u16_at (a @ b) 4 = u16_at a 4" "u16_at (a @ b) 6 = u16_at a 6"
      "u32_at (a @ b) 8 = u32_at a 8" "u32_at (a @ b) 12 = u32_at a 12"
      using ok by (simp_all add: at_append_left)
    ultimately show ?thesis using False ok al ms'(2)
      by (simp add: messages.simps [of "a @ b"] len_def [symmetric] option.map_comp comp_def)
  qed
qed

lemma messages_single:
  assumes "4 dvd length body" "length body < 65536"
  shows "messages (nlmsghdr (16 + length body) type flags seq pid @ body) = Some [(type, flags, seq, pid, body)]"
proof -
  have "unat (of_nat (16 + length body) :: u32) = 16 + length body" using assms(2) by (simp add: unat_of_nat del: of_nat_add)
  moreover have "NLMSG_ALIGN (16 + length body) = 16 + length body"
    using assms(1) unfolding NLMSG_ALIGN_def by presburger
  ultimately show ?thesis by (simp add: messages.simps [of "nlmsghdr _ _ _ _ _ @ _"] nlmsghdr_at)
qed

definition reply_ok :: "nat \<Rightarrow> u32 \<Rightarrow> u32 \<Rightarrow> byte list \<Rightarrow> message list \<Rightarrow> bool" where
  "reply_ok lim seq pid buf ms \<longleftrightarrow>
     4 dvd length buf \<and> length buf \<le> lim \<and> messages buf = Some ms \<and>
     (\<forall>(type, flags, s, p, body) \<in> set ms. s = seq \<and> p = pid)"

lemma reply_ok_Nil [simp]: "reply_ok lim seq pid [] []"
  by (simp add: reply_ok_def)

lemma reply_ok_snoc:
  assumes "reply_ok lim seq pid buf ms" "4 dvd length body" "length buf + 16 + length body \<le> lim" "lim < 65536"
  shows "reply_ok lim seq pid (buf @ nlmsghdr (16 + length body) type flags seq pid @ body)
    (ms @ [(type, flags, seq, pid, body)])"
proof -
  have "length body < 65536" using assms(3,4) by simp
  then show ?thesis using assms messages_append [of buf ms] messages_single [OF assms(2)]
    by (auto simp: reply_ok_def dvd_add)
qed

text \<open>A buffer that has grown by whole attributes, by \<open>n\<close> bytes at most.\<close>

definition grows :: "nat \<Rightarrow> nat \<Rightarrow> byte list \<Rightarrow> byte list \<Rightarrow> bool" where
  "grows lim n b b' \<longleftrightarrow> (\<exists>x. b' = b @ x \<and> 4 dvd length x \<and> length x \<le> n \<and> (length b \<le> lim \<longrightarrow> length b' \<le> lim))"

lemma grows_refl: "grows lim n b b"
  by (simp add: grows_def)

lemma grows_attr:
  assumes "grows lim n a b"
  shows "grows lim (n + RTA_SPACE (length data mod 65536)) a (nl_add_attr lim type data b)"
proof -
  obtain x where x: "b = a @ x" "4 dvd length x" "length x \<le> n" "length a \<le> lim \<longrightarrow> length b \<le> lim"
    using assms by (auto simp: grows_def)
  let ?d = "length data mod 65536"
  have l: "RTA_LENGTH ?d \<le> RTA_SPACE ?d" by (simp add: RTA_SPACE_def RTA_ALIGN_def)
  then have s: "4 + (?d + (RTA_SPACE ?d - RTA_LENGTH ?d)) = RTA_SPACE ?d" by (simp add: RTA_LENGTH_def)
  show ?thesis
  proof (cases "length b + RTA_SPACE ?d > lim")
    case True
    then show ?thesis using x by (auto simp: grows_def nl_add_attr_def Let_def intro!: exI [of _ x])
  next
    case False
    let ?y = "le 2 (of_nat (RTA_LENGTH ?d) :: u16) @ le 2 type @ take ?d data @ replicate (RTA_SPACE ?d - RTA_LENGTH ?d) 0"
    have "length (take ?d data) = ?d" by simp
    then have y: "length ?y = RTA_SPACE ?d" using s by (simp only: length_append length_le length_replicate)
    have "nl_add_attr lim type data b = a @ (x @ ?y)"
      using False x(1) by (simp add: nl_add_attr_def Let_def)
    then show ?thesis unfolding grows_def using x False y by (auto intro!: exI [of _ "x @ ?y"] dvd_add)
  qed
qed

lemma grows_mono: "grows lim n a b \<Longrightarrow> n \<le> m \<Longrightarrow> grows lim m a b"
  by (auto simp: grows_def)

lemma space_simps [simp]: "RTA_SPACE 4 = 8" "RTA_SPACE 1 = 8" "RTA_SPACE (Suc 0) = 8"
  by (simp_all add: RTA_SPACE_def RTA_LENGTH_def RTA_ALIGN_def)

lemma put_header:
  "length h = 16 \<Longrightarrow> put_at (length buf) h (buf @ replicate NLMSG_HDRLEN 0 @ b) = buf @ h @ b"
  by (simp add: put_at_def NLMSG_HDRLEN_def)

lemma header_of_grown:
  assumes "grows lim n (buf @ replicate NLMSG_HDRLEN 0 @ ifi) b" "4 dvd length ifi"
    and "length buf + 16 + length ifi \<le> lim"
  shows "\<exists>body. put_at (length buf) (nlmsghdr (length b - length buf) type flags seq pid) b =
      buf @ nlmsghdr (16 + length body) type flags seq pid @ body \<and>
    4 dvd length body \<and> length body \<le> length ifi + n \<and> length buf + 16 + length body \<le> lim"
proof -
  obtain x where x: "b = buf @ replicate NLMSG_HDRLEN 0 @ ifi @ x" "4 dvd length x" "length x \<le> n" "length b \<le> lim"
    using assms by (auto simp: grows_def NLMSG_HDRLEN_def)
  have "length b - length buf = 16 + length (ifi @ x)" unfolding x(1) by (simp add: NLMSG_HDRLEN_def)
  then have "put_at (length buf) (nlmsghdr (length b - length buf) type flags seq pid) b =
      buf @ nlmsghdr (16 + length (ifi @ x)) type flags seq pid @ ifi @ x"
    unfolding x(1) by (simp only: put_header length_nlmsghdr)
  moreover have "length buf + 16 + length (ifi @ x) \<le> lim" using x(4) unfolding x(1) by (simp add: NLMSG_HDRLEN_def)
  ultimately show ?thesis using x(2,3) assms(2) by (intro exI [of _ "ifi @ x"]) (simp add: dvd_add)
qed

lemma build_link_ok:
  assumes "reply_ok lim seq pid buf ms" "lim < 65536"
  shows "\<exists>ms'. reply_ok lim seq pid (nl_build_link lim seq pid nlflags ifindex iftype ifflags mtu ifname hwaddr buf) (ms @ ms')"
    and "length (nl_build_link lim seq pid nlflags ifindex iftype ifflags mtu ifname hwaddr buf) \<le>
      length buf + 56 + RTA_SPACE (Suc (length ifname) mod 65536) + 2 * RTA_SPACE (length hwaddr mod 65536)"
proof -
  let ?r = "nl_build_link lim seq pid nlflags ifindex iftype ifflags mtu ifname hwaddr buf"
  have "(\<exists>ms'. reply_ok lim seq pid ?r (ms @ ms')) \<and>
    length ?r \<le> length buf + 56 + RTA_SPACE (Suc (length ifname) mod 65536) + 2 * RTA_SPACE (length hwaddr mod 65536)"
  proof (cases "length buf + NLMSG_HDRLEN + NLMSG_ALIGN 16 > lim")
    case True
    then have "?r = buf" unfolding nl_build_link_def Let_def by simp
    then show ?thesis using assms(1) by (auto intro: exI [of _ "[]"])
  next
    case False
    define operstate :: byte where "operstate = (if ifflags AND IFF_UP \<noteq> 0 then 6 else 2)"
    define brd :: byte where "brd = (if iftype = ARPHRD_LOOPBACK then 0 else 0xff)"
    define ifi where "ifi = [0, 0] @ le 2 iftype @ le 4 (word_of_int ifindex :: u32) @
      le 4 (ifflags OR (if ifflags AND IFF_RUNNING \<noteq> 0 then IFF_LOWER_UP else 0)) @ le 4 (0 :: u32)"
    let ?initial = "buf @ replicate NLMSG_HDRLEN 0 @ ifi"
    let ?attrs = "nl_add_attr lim 16 [operstate] (nl_add_attr lim 13 (le 4 (1000 :: u32)) (nl_add_attr lim 4 (le 4 mtu)
      (nl_add_attr lim IFLA_IFNAME (bytes_of_string ifname) ?initial)))"
    let ?b = "if hwaddr = [] then ?attrs
      else nl_add_attr lim 2 (replicate (length hwaddr) brd) (nl_add_attr lim 1 hwaddr ?attrs)"
    let ?n = "24 + RTA_SPACE (Suc (length ifname) mod 65536) + 2 * RTA_SPACE (length hwaddr mod 65536)"
    have "?r = put_at (length buf) (nlmsghdr (length ?b - length buf) RTM_NEWLINK nlflags seq pid) ?b"
      using False unfolding nl_build_link_def Let_def operstate_def brd_def ifi_def by simp
    moreover have "grows lim ?n ?initial ?b"
    proof -
      note g = grows_attr [OF grows_attr [OF grows_attr [OF grows_attr [OF grows_refl]]],
        where data = "[operstate]" and type = 16]
      have "grows lim (24 + RTA_SPACE (Suc (length ifname) mod 65536)) ?initial ?attrs"
        by (rule grows_mono [OF g]) (simp add: bytes_of_string_def)
      from grows_attr [OF grows_attr [OF this, of hwaddr], of "replicate (length hwaddr) brd"] this
      show ?thesis by (cases "hwaddr = []") (auto elim: grows_mono simp: ac_simps)
    qed
    moreover have "4 dvd length ifi" "length buf + 16 + length ifi \<le> lim" "length ifi = 16"
      using False by (simp_all add: ifi_def NLMSG_HDRLEN_def)
    ultimately obtain body where "?r = buf @ nlmsghdr (16 + length body) RTM_NEWLINK nlflags seq pid @ body"
        "4 dvd length body" "length body \<le> 16 + ?n" "length buf + 16 + length body \<le> lim"
      using header_of_grown [of lim ?n buf ifi ?b RTM_NEWLINK nlflags seq pid] by auto
    then show ?thesis using reply_ok_snoc [OF assms(1) _ _ assms(2), of body RTM_NEWLINK nlflags] by auto
  qed
  then show "\<exists>ms'. reply_ok lim seq pid ?r (ms @ ms')"
    "length ?r \<le> length buf + 56 + RTA_SPACE (Suc (length ifname) mod 65536) + 2 * RTA_SPACE (length hwaddr mod 65536)"
    by simp_all
qed

lemma build_addr_ok:
  fixes label :: "string option" and addr :: "byte list"
  assumes "reply_ok lim seq pid buf ms" "lim < 65536"
  defines "n \<equiv> 2 * RTA_SPACE (length addr mod 65536) +
    (case label of None \<Rightarrow> 0 | Some l \<Rightarrow> RTA_SPACE (Suc (length l) mod 65536))"
  shows "\<exists>ms'. reply_ok lim seq pid (nl_build_addr lim seq pid nlflags family ifindex addr prefixlen scope label buf) (ms @ ms')"
    and "length (nl_build_addr lim seq pid nlflags family ifindex addr prefixlen scope label buf) \<le> length buf + 24 + n"
proof -
  let ?r = "nl_build_addr lim seq pid nlflags family ifindex addr prefixlen scope label buf"
  have "(\<exists>ms'. reply_ok lim seq pid ?r (ms @ ms')) \<and> length ?r \<le> length buf + 24 + n"
  proof (cases "length buf + NLMSG_HDRLEN + NLMSG_ALIGN 8 > lim")
    case True
    then have "?r = buf" unfolding nl_build_addr_def Let_def by simp
    then show ?thesis using assms(1) by (auto intro: exI [of _ "[]"])
  next
    case False
    define ifa where "ifa = [of_nat family, prefixlen, 0x80, scope] @ le 4 (word_of_int ifindex :: u32)"
    let ?initial = "buf @ replicate NLMSG_HDRLEN 0 @ ifa"
    let ?attrs = "nl_add_attr lim 2 addr (nl_add_attr lim 1 addr ?initial)"
    let ?b = "case label of None \<Rightarrow> ?attrs
      | Some l \<Rightarrow> if family = AF_INET then nl_add_attr lim 3 (bytes_of_string l) ?attrs else ?attrs"
    have "?r = put_at (length buf) (nlmsghdr (length ?b - length buf) RTM_NEWADDR nlflags seq pid) ?b"
      using False unfolding nl_build_addr_def Let_def ifa_def by simp
    moreover have "grows lim n ?initial ?b"
    proof -
      have g: "grows lim (2 * RTA_SPACE (length addr mod 65536)) ?initial ?attrs"
        by (rule grows_mono [OF grows_attr [OF grows_attr [OF grows_refl]]]) simp
      show ?thesis
      proof (cases label)
        case None
        then show ?thesis using g by (simp add: n_def)
      next
        case (Some l)
        have "grows lim n ?initial (nl_add_attr lim 3 (bytes_of_string l) ?attrs)"
          by (rule grows_mono [OF grows_attr [OF g]]) (simp add: n_def Some bytes_of_string_def)
        then show ?thesis using Some g by (auto elim: grows_mono simp: n_def)
      qed
    qed
    moreover have "4 dvd length ifa" "length buf + 16 + length ifa \<le> lim" "length ifa = 8"
      using False by (simp_all add: ifa_def NLMSG_HDRLEN_def)
    ultimately obtain body where "?r = buf @ nlmsghdr (16 + length body) RTM_NEWADDR nlflags seq pid @ body"
        "4 dvd length body" "length body \<le> 8 + n" "length buf + 16 + length body \<le> lim"
      using header_of_grown [of lim n buf ifa ?b RTM_NEWADDR nlflags seq pid] by auto
    then show ?thesis using reply_ok_snoc [OF assms(1) _ _ assms(2), of body RTM_NEWADDR nlflags] by auto
  qed
  then show "\<exists>ms'. reply_ok lim seq pid ?r (ms @ ms')" "length ?r \<le> length buf + 24 + n" by simp_all
qed

text \<open>A dump is finished: its last message is \<open>NLMSG_DONE\<close>.\<close>

definition finished :: "message list \<Rightarrow> bool" where
  "finished ms \<longleftrightarrow> ms \<noteq> [] \<and> fst (last ms) = NLMSG_DONE"

lemma build_done_ok:
  assumes "reply_ok lim seq pid buf ms" "lim < 65536" "length buf + 20 \<le> lim"
  shows "\<exists>ms'. reply_ok lim seq pid (nl_build_done lim seq pid buf) ms' \<and> finished ms'"
proof -
  have "nl_build_done lim seq pid buf = buf @ nlmsghdr (16 + length (le 4 (0 :: u32))) NLMSG_DONE NLM_F_MULTI seq pid @ le 4 (0 :: u32)"
    using assms(3) by (simp add: nl_build_done_def Let_def NLMSG_HDRLEN_def NLMSG_ALIGN_def)
  then show ?thesis using reply_ok_snoc [OF assms(1) _ _ assms(2), of "le 4 (0 :: u32)" NLMSG_DONE NLM_F_MULTI] assms(3)
    by (auto simp: finished_def)
qed

lemma build_error_ok:
  assumes "lim < 65536" "36 \<le> lim"
  shows "\<exists>x. reply_ok lim seq pid (nl_build_error lim seq pid err []) [x]"
proof -
  let ?body = "le 4 (word_of_int err :: u32) @ replicate 16 0"
  have "nl_build_error lim seq pid err [] = [] @ nlmsghdr (16 + length ?body) NLMSG_ERROR 0 seq pid @ ?body"
    using assms(2) by (simp add: nl_build_error_def Let_def NLMSG_HDRLEN_def NLMSG_ALIGN_def)
  then show ?thesis using reply_ok_snoc [OF reply_ok_Nil _ _ assms(1), of ?body seq pid NLMSG_ERROR 0] assms(2)
    by (auto simp del: split_paired_Ex)
qed

text \<open>What the host's interface names and hardware addresses look like.\<close>

definition net_ok :: "net \<Rightarrow> bool" where
  "net_ok n \<longleftrightarrow> (\<forall>ifas ifa nm. n_ifaddrs n = Some ifas \<and> ifa \<in> set ifas \<and> ifa_name ifa = Some nm \<longrightarrow> length nm < IFNAMSIZ)"

lemma length_host_link: "host_link n ifa ifname = (ifindex, iftype, mtu, hwaddr) \<Longrightarrow> length hwaddr \<le> 8"
  by (auto simp: host_link_def Let_def split: prod.splits option.splits sockaddr.splits if_splits)

lemma space_mono: "a \<le> b \<Longrightarrow> RTA_SPACE a \<le> RTA_SPACE b"
  by (simp add: RTA_SPACE_def RTA_ALIGN_def RTA_LENGTH_def div_le_mono)

lemma space_16: "a \<le> 16 \<Longrightarrow> RTA_SPACE (a mod 65536) \<le> 20" "a \<le> 8 \<Longrightarrow> RTA_SPACE (a mod 65536) \<le> 12"
  using space_mono [of a 16] space_mono [of a 8] by (simp_all add: RTA_SPACE_def RTA_ALIGN_def RTA_LENGTH_def)

text \<open>There is always room for the end of a dump.\<close>

lemma host_links_ok:
  assumes "lim < 65536" "256 \<le> lim"
  shows "\<forall>ifa \<in> set ifas. \<forall>nm. ifa_name ifa = Some nm \<longrightarrow> length nm < IFNAMSIZ \<Longrightarrow>
    reply_ok lim seq pid buf ms \<Longrightarrow> length buf + 20 \<le> lim \<Longrightarrow>
    host_links n lim seq pid want_name want_index dump ifas seen buf built = (r, k) \<Longrightarrow>
    length r + 20 \<le> lim \<and> (\<exists>ms'. reply_ok lim seq pid r (ms @ ms'))"
proof (induction ifas arbitrary: seen buf built ms)
  case Nil
  then show ?case by (auto intro: exI [of _ "[]"])
next
  case (Cons ifa ifas)
  have tl: "\<forall>ifa \<in> set ifas. \<forall>nm. ifa_name ifa = Some nm \<longrightarrow> length nm < IFNAMSIZ" using Cons.prems(1) by simp
  note ih = Cons.IH [OF tl]
  show ?case
  proof (cases "ifa_name ifa")
    case None
    then show ?thesis using ih [OF Cons.prems(2,3)] Cons.prems(4) by simp
  next
    case (Some ifname)
    obtain ifindex iftype mtu hwaddr where h: "host_link n ifa ifname = (ifindex, iftype, mtu, hwaddr)"
      by (metis prod_cases4)
    let ?buf = "nl_build_link lim seq pid (if dump then NLM_F_MULTI else 0) ifindex iftype (ifa_flags ifa) mtu ifname hwaddr buf"
    have len: "length ifname < 16" "length hwaddr \<le> 8"
      using Cons.prems(1) Some length_host_link [OF h] by (auto simp: IFNAMSIZ_def)
    obtain ms1 where ok: "reply_ok lim seq pid ?buf (ms @ ms1)"
      using build_link_ok(1) [OF Cons.prems(2) assms(1)] by blast
    have l: "length ?buf \<le> length buf + 100"
      using build_link_ok(2) [OF Cons.prems(2) assms(1), of "if dump then NLM_F_MULTI else 0" ifindex iftype
          "ifa_flags ifa" mtu ifname hwaddr] space_16(1) [of "Suc (length ifname)"] space_16(2) [of "length hwaddr"] len
      by linarith
    let ?seen = "if length seen < 64 then seen @ [take (IFNAMSIZ - 1) ifname] else seen"
    note step = host_links.simps(2) [of n lim seq pid want_name want_index dump ifa ifas seen buf built,
        unfolded Some option.case Let_def h prod.case]
    show ?thesis
    proof (cases "list_ex (\<lambda>s. take IFNAMSIZ s = take IFNAMSIZ ifname) seen \<or>
        \<not> wanted_link dump want_name want_index ifname ifindex")
      case True
      then show ?thesis using ih [OF Cons.prems(2,3)] Cons.prems(4) step by (auto split: if_split_asm)
    next
      case go: False
      show ?thesis
      proof (cases "length buf + 256 > lim")
        case True
        then show ?thesis using Cons.prems step go by (auto intro: exI [of _ "[]"])
      next
        case False
        then have room: "length ?buf + 20 \<le> lim" using l by simp
        show ?thesis
        proof (cases dump)
          case True
          with step go False have "host_links n lim seq pid want_name want_index dump ifas ?seen ?buf (Suc built) = (r, k)"
            using Cons.prems(4) by simp
          from ih [OF ok room this] show ?thesis by force
        next
          case nd: False
          then have "r = ?buf" using step go False Cons.prems(4) by simp
          then show ?thesis using ok room by auto
        qed
      qed
    qed
  qed
qed

lemma host_addr_lengths:
  "host_addr want ifa = Some (family, addr, netmask) \<Longrightarrow> length addr \<le> 16"
  by (auto simp: host_addr_def split: option.splits sockaddr.splits if_splits)

lemma host_addrs_ok:
  assumes "lim < 65536" "256 \<le> lim"
  shows "\<forall>ifa \<in> set ifas. \<forall>nm. ifa_name ifa = Some nm \<longrightarrow> length nm < IFNAMSIZ \<Longrightarrow>
    reply_ok lim seq pid buf ms \<Longrightarrow> length buf + 20 \<le> lim \<Longrightarrow>
    host_addrs n lim seq pid want_family dump ifas buf built = (r, k) \<Longrightarrow>
    length r + 20 \<le> lim \<and> (\<exists>ms'. reply_ok lim seq pid r (ms @ ms'))"
proof (induction ifas arbitrary: buf built ms)
  case Nil
  then show ?case by (auto intro: exI [of _ "[]"])
next
  case (Cons ifa ifas)
  have tl: "\<forall>ifa \<in> set ifas. \<forall>nm. ifa_name ifa = Some nm \<longrightarrow> length nm < IFNAMSIZ" using Cons.prems(1) by simp
  note ih = Cons.IH [OF tl]
  show ?case
  proof (cases "ifa_name ifa = None \<or> host_addr want_family ifa = None")
    case True
    then have "host_addrs n lim seq pid want_family dump (ifa # ifas) buf built =
        host_addrs n lim seq pid want_family dump ifas buf built"
      by (auto split: option.split)
    then show ?thesis using ih [OF Cons.prems(2,3)] Cons.prems(4) by simp
  next
    case False
    then obtain ifname family addr netmask where s: "ifa_name ifa = Some ifname"
        "host_addr want_family ifa = Some (family, addr, netmask)" by auto
    let ?buf = "nl_build_addr lim seq pid (if dump then NLM_F_MULTI else 0) family (n_index n ifname) addr
      (of_nat (case netmask of Some m \<Rightarrow> nl_prefixlen m | None \<Rightarrow> if family = AF_INET then 32 else 128))
      (nl_addr_scope family addr) (Some ifname) buf"
    note step = host_addrs.simps(2) [of n lim seq pid want_family dump ifa ifas buf built,
        unfolded s option.case Let_def prod.case]
    have len: "length ifname < 16" "length addr \<le> 16"
      using Cons.prems(1) s(1) host_addr_lengths [OF s(2)] by (auto simp: IFNAMSIZ_def)
    obtain ms1 where ok: "reply_ok lim seq pid ?buf (ms @ ms1)"
      using build_addr_ok(1) [OF Cons.prems(2) assms(1)] by blast
    have "RTA_SPACE (Suc (length ifname) mod 65536) \<le> 20" "RTA_SPACE (length addr mod 65536) \<le> 20"
      using space_16(1) len by simp_all
    moreover have "length ?buf \<le> length buf + 24 +
        (2 * RTA_SPACE (length addr mod 65536) + RTA_SPACE (Suc (length ifname) mod 65536))"
      using build_addr_ok(2) [OF Cons.prems(2) assms(1), where label = "Some ifname", unfolded option.case] .
    ultimately have l: "length ?buf \<le> length buf + 84" by linarith
    show ?thesis
    proof (cases "length buf + 256 > lim")
      case True
      then show ?thesis using Cons.prems step by (auto intro: exI [of _ "[]"])
    next
      case False
      then have room: "length ?buf + 20 \<le> lim" using l by simp
      from ih [OF ok room] step False Cons.prems(4) show ?thesis by force
    qed
  qed
qed

text \<open>Relayed messages.\<close>

lemma relayed_message:
  fixes seq pid :: u32
  assumes "16 \<le> mlen" "mlen \<le> length h" "mlen = unat (u32_at h 0)"
  defines "m \<equiv> take mlen (put_at 8 (le 4 seq @ le 4 pid) h) @ replicate (NLMSG_ALIGN mlen - mlen) 0"
  shows "messages m = Some [(u16_at h 4, u16_at h 6, seq, pid, drop 16 (take mlen h))] \<and> length m = NLMSG_ALIGN mlen"
proof -
  have l: "mlen \<le> NLMSG_ALIGN mlen" by (simp add: NLMSG_ALIGN_def)
  let ?p = "take 8 h @ (le 4 seq @ le 4 pid) @ drop 16 h"
  have p: "take mlen (put_at 8 (le 4 seq @ le 4 pid) h) = take 8 h @ (le 4 seq @ le 4 pid) @ drop 16 (take mlen h)"
    using assms(1,2) by (simp add: put_at_def drop_take min_def)
  have m: "m = take 8 h @ le 4 seq @ le 4 pid @ drop 16 (take mlen h) @ replicate (NLMSG_ALIGN mlen - mlen) 0"
    unfolding m_def p by simp
  have len: "length m = NLMSG_ALIGN mlen" using assms(1,2) l by (simp add: m)
  have at: "u32_at m 0 = u32_at h 0" "u16_at m 4 = u16_at h 4" "u16_at m 6 = u16_at h 6"
    unfolding m u32_at_def u16_at_def using assms(1,2) by (simp_all add: drop_take)
  have fields: "u32_at m 8 = seq" "u32_at m 12 = pid"
    unfolding m using assms(1,2) u32_at_le [of "take 8 h" 8 seq] u32_at_le [of "take 8 h @ le 4 seq" 12 pid] by simp_all
  have "drop 16 (take mlen m) = drop 16 (take mlen h)"
    unfolding m using assms(1,2) by (simp add: min_def)
  then show ?thesis using assms len at fields l
    by (subst messages.simps) (auto simp: Let_def)
qed

text \<open>A datagram of the kernel is a sequence of aligned messages.\<close>

function aligned_datagram :: "byte list \<Rightarrow> bool" where
  "aligned_datagram h =
     (let mlen = unat (u32_at h 0) in
      if length h < 16 \<or> mlen < 16 \<or> mlen > length h then True
      else NLMSG_ALIGN mlen \<le> length h \<and> aligned_datagram (drop (NLMSG_ALIGN mlen) h))"
  by pat_completeness auto
termination
  by (relation "measure length") (auto simp: NLMSG_ALIGN_def)

declare aligned_datagram.simps [simp del]

lemma relay_messages_ok:
  "aligned_datagram h \<Longrightarrow> reply_ok lim seq pid out ms \<Longrightarrow> lim < 65536 \<Longrightarrow> out = [] \<or> length out + 64 \<le> lim \<Longrightarrow>
    \<exists>r d saw ms'. relay_messages lim seq pid h out = Some (r, d, saw) \<and> reply_ok lim seq pid r (ms @ ms') \<and>
      (r = [] \<or> length r + 64 \<le> lim) \<and> (saw \<longrightarrow> finished (ms @ ms'))"
proof (induction h arbitrary: out ms rule: aligned_datagram.induct)
  case (1 h)
  define mlen where "mlen = unat (u32_at h 0)"
  note step = relay_messages.simps [of lim seq pid h out, unfolded Let_def, folded mlen_def]
  show ?case
  proof (cases "length h < 16 \<or> mlen < 16 \<or> mlen > length h")
    case True
    then have "relay_messages lim seq pid h out = Some (out, False, False)" using step by simp
    then show ?thesis using 1(3,5) by (intro exI [of _ out] exI [of _ False] exI [of _ "[]"]) simp
  next
    case ok: False
    then have al: "NLMSG_ALIGN mlen \<le> length h" "aligned_datagram (drop (NLMSG_ALIGN mlen) h)"
      using 1(2) by (auto simp: aligned_datagram.simps [of h] mlen_def Let_def)
    show ?thesis
    proof (cases "length out + NLMSG_ALIGN mlen + 64 > lim")
      case True
      then have "relay_messages lim seq pid h out = Some (out, True, False)" using step ok by simp
      then show ?thesis using 1(3,5) by (intro exI [of _ out] exI [of _ False] exI [of _ "[]"] exI [of _ True]) simp
    next
      case room: False
      let ?m = "take mlen (put_at 8 (le 4 seq @ le 4 pid) h) @ replicate (NLMSG_ALIGN mlen - mlen) 0"
      let ?x = "(u16_at h 4, u16_at h 6, seq, pid, drop 16 (take mlen h))"
      have m: "messages ?m = Some [?x]" "length ?m = NLMSG_ALIGN mlen"
        using relayed_message [of mlen h seq pid] ok mlen_def by auto
      have r: "reply_ok lim seq pid (out @ ?m) (ms @ [?x])"
        using 1(3) messages_append [of out ms ?m] m room unfolding reply_ok_def
        by (auto simp del: length_append simp: length_append [of out ?m] dvd_add)
      have l: "length (out @ ?m) + 64 \<le> lim" using room m(2) by (simp only: length_append)
      show ?thesis
      proof (cases "u16_at h 4 = NLMSG_DONE")
        case True
        then have e: "relay_messages lim seq pid h out = Some (out @ ?m, True, True)" using step ok room by simp
        have "finished (ms @ [?x])" using True by (simp add: finished_def)
        with e r l show ?thesis
          by (intro exI [of _ "out @ ?m"] exI [of _ True] exI [of _ "[?x]"]) blast
      next
        case False
        then have "relay_messages lim seq pid h out = relay_messages lim seq pid (drop (NLMSG_ALIGN mlen) h) (out @ ?m)"
          using step ok room al(1) by simp
        moreover have "\<exists>r d saw ms'. relay_messages lim seq pid (drop (NLMSG_ALIGN mlen) h) (out @ ?m) = Some (r, d, saw) \<and>
            reply_ok lim seq pid r ((ms @ [?x]) @ ms') \<and> (r = [] \<or> length r + 64 \<le> lim) \<and>
            (saw \<longrightarrow> finished ((ms @ [?x]) @ ms'))"
          using l by (intro 1(1) [OF mlen_def ok al(2) r 1(4)]) simp
        ultimately show ?thesis by (metis append_assoc)
      qed
    qed
  qed
qed

lemma relay_rounds_ok:
  "\<forall>b \<in> set bufs. aligned_datagram (take 8192 b) \<Longrightarrow> reply_ok lim seq pid out ms \<Longrightarrow> lim < 65536 \<Longrightarrow>
    out = [] \<or> length out + 64 \<le> lim \<Longrightarrow>
    \<exists>r saw ms'. relay_rounds lim seq pid bufs out = Some (r, saw) \<and> reply_ok lim seq pid r ms' \<and>
      (r = [] \<or> length r + 64 \<le> lim) \<and> (saw \<longrightarrow> finished ms')"
proof (induction bufs arbitrary: out ms)
  case Nil
  then show ?case by auto
next
  case (Cons b bufs)
  show ?case
  proof (cases "b = []")
    case True
    then show ?thesis using Cons.prems by auto
  next
    case False
    have al: "aligned_datagram (take 8192 b)" "\<forall>b \<in> set bufs. aligned_datagram (take 8192 b)" using Cons.prems(1) by simp_all
    obtain r d saw ms' where r: "relay_messages lim seq pid (take 8192 b) out = Some (r, d, saw)"
        "reply_ok lim seq pid r (ms @ ms')" "r = [] \<or> length r + 64 \<le> lim" "saw \<longrightarrow> finished (ms @ ms')"
      using relay_messages_ok [OF al(1) Cons.prems(2-4)] by blast
    show ?thesis
    proof (cases d)
      case True
      then show ?thesis using False r by auto
    next
      case nd: False
      then show ?thesis using Cons.IH [OF al(2) r(2) Cons.prems(3) r(3)] False r(1) by simp
    qed
  qed
qed

definition routes_ok :: "net \<Rightarrow> bool" where
  "routes_ok n \<longleftrightarrow> (\<forall>family seq bufs. n_routes n family seq = Some bufs \<longrightarrow>
     (\<forall>b \<in> set bufs. aligned_datagram (take 8192 b)))"

lemma route_reply_ok:
  assumes "routes_ok n" "lim < 65536" "64 \<le> lim"
  shows "\<exists>r ms. route_reply n lim seq pid dump req = Some r \<and> reply_ok lim seq pid r ms \<and> ms \<noteq> [] \<and>
    (dump \<longrightarrow> finished ms)"
proof (cases dump)
  case False
  then show ?thesis using build_error_ok [OF assms(2), of seq pid 0] assms(3)
    by (fastforce simp: route_reply_def)
next
  case True
  let ?family = "if length req > NLMSG_HDRLEN then req ! NLMSG_HDRLEN else 0"
  obtain r ms where r: "(\<exists>out. relay_route_dump n req lim seq pid = Some out \<and> (if out = [] then nl_build_done lim seq pid out else out) = r)"
      "reply_ok lim seq pid r ms" "finished ms"
  proof (cases "n_routes n ?family seq")
    case None
    then have "relay_route_dump n req lim seq pid = Some []" by (simp add: relay_route_dump_def)
    moreover obtain ms where "reply_ok lim seq pid (nl_build_done lim seq pid []) ms" "finished ms"
      using build_done_ok [OF reply_ok_Nil assms(2)] assms(3) by auto
    ultimately show ?thesis using that by simp
  next
    case (Some bufs)
    then have al: "\<forall>b \<in> set (take 64 bufs). aligned_datagram (take 8192 b)"
      using assms(1) unfolding routes_ok_def by (meson in_set_takeD)
    obtain out saw ms' where o: "relay_rounds lim seq pid (take 64 bufs) [] = Some (out, saw)"
        "reply_ok lim seq pid out ms'" "out = [] \<or> length out + 64 \<le> lim" "saw \<longrightarrow> finished ms'"
      using relay_rounds_ok [OF al reply_ok_Nil assms(2), of seq pid] by blast
    obtain ms where d: "reply_ok lim seq pid (nl_build_done lim seq pid out) ms" "finished ms"
      using build_done_ok [OF o(2) assms(2)] o(3) assms(3) by auto
    note e = relay_route_dump_def [of n req lim seq pid, unfolded Let_def Some option.case o(1) prod.case]
    show ?thesis
    proof (cases "out = [] \<or> \<not> saw")
      case True
      then have "\<exists>x. relay_route_dump n req lim seq pid = Some x \<and>
          (if x = [] then nl_build_done lim seq pid x else x) = nl_build_done lim seq pid out"
        using e d(1,2) by (auto simp: reply_ok_def finished_def)
      then show ?thesis using that d by blast
    next
      case False
      then show ?thesis using that [of out ms'] e o by auto
    qed
  qed
  then show ?thesis using True r(2,3) by (auto simp: route_reply_def finished_def)
qed

lemma loopback_ok:
  assumes "lim < 65536"
  shows "\<exists>ms. reply_ok lim seq pid (nl_build_loopback_link lim seq pid flags []) ms"
    and "length (nl_build_loopback_link lim seq pid flags []) \<le> 92"
    and "reply_ok lim seq pid buf ms \<Longrightarrow>
      \<exists>ms'. reply_ok lim seq pid (nl_build_loopback_addr lim seq pid family flags buf) ms'"
    and "reply_ok lim seq pid buf ms \<Longrightarrow>
      length (nl_build_loopback_addr lim seq pid family flags buf) \<le> length buf + 84"
proof -
  have s: "RTA_SPACE 3 = 8" "RTA_SPACE 6 = 12" "RTA_SPACE 16 = 20"
    by (simp_all add: RTA_SPACE_def RTA_ALIGN_def RTA_LENGTH_def)
  show "\<exists>ms. reply_ok lim seq pid (nl_build_loopback_link lim seq pid flags []) ms"
    using build_link_ok(1) [OF reply_ok_Nil assms] unfolding nl_build_loopback_link_def by simp
  show "length (nl_build_loopback_link lim seq pid flags []) \<le> 92"
    unfolding nl_build_loopback_link_def by (rule order_trans [OF build_link_ok(2) [OF reply_ok_Nil assms]]) (simp add: s)
  assume ok: "reply_ok lim seq pid buf ms"
  show "\<exists>ms'. reply_ok lim seq pid (nl_build_loopback_addr lim seq pid family flags buf) ms'"
    unfolding nl_build_loopback_addr_def
    using build_addr_ok(1) [OF ok assms, of flags AF_INET6 1 "replicate 15 0 @ [1]" 128 254 None]
      build_addr_ok(1) [OF ok assms, of flags AF_INET 1 "[127, 0, 0, 1]" 8 254 "Some ''lo''"] by auto
  show "length (nl_build_loopback_addr lim seq pid family flags buf) \<le> length buf + 84"
    unfolding nl_build_loopback_addr_def
    using build_addr_ok(2) [OF ok assms, of flags AF_INET6 1 "replicate 15 0 @ [1]" 128 254 None]
      build_addr_ok(2) [OF ok assms, of flags AF_INET 1 "[127, 0, 0, 1]" 8 254 "Some ''lo''"] by (simp add: s)
qed

lemma link_reply_ok:
  assumes "net_ok n" "lim < 65536" "256 \<le> lim"
  shows "\<exists>ms. reply_ok lim seq pid (link_reply n lim seq pid dump req) ms \<and> (dump \<longrightarrow> finished ms)"
proof -
  obtain want_index want_name where w: "nl_request_link_target req = (want_index, want_name)" by fastforce
  obtain out built where b: "build_host_links n lim seq pid (if dump then [] else want_name) (if dump then 0 else want_index) dump
      = (out, built)" by fastforce
  let ?out = "if built = 0 then
      (if dump then nl_build_loopback_link lim seq pid NLM_F_MULTI []
       else if nl_request_is_loopback req then nl_build_loopback_link lim seq pid 0 []
       else nl_build_error lim seq pid (- ENODEV) []) else out"
  have o: "length out + 20 \<le> lim" "\<exists>ms. reply_ok lim seq pid out ms"
  proof (atomize (full), cases "n_ifaddrs n")
    case None
    then show "length out + 20 \<le> lim \<and> (\<exists>ms. reply_ok lim seq pid out ms)"
      using b assms(3) by (auto simp: build_host_links_def intro: reply_ok_Nil)
  next
    case (Some ifas)
    then have "\<forall>ifa \<in> set ifas. \<forall>nm. ifa_name ifa = Some nm \<longrightarrow> length nm < IFNAMSIZ"
      using assms(1) unfolding net_ok_def by blast
    from host_links_ok [OF assms(2,3) this reply_ok_Nil] b Some
    show "length out + 20 \<le> lim \<and> (\<exists>ms. reply_ok lim seq pid out ms)"
      using assms(3) by (auto simp: build_host_links_def)
  qed
  have "\<exists>ms. reply_ok lim seq pid ?out ms" "dump \<longrightarrow> length ?out + 20 \<le> lim"
    using o loopback_ok(1,2) [OF assms(2)] build_error_ok [OF assms(2), of seq pid "- ENODEV"] assms(3)
      order_trans [OF add_right_mono [OF loopback_ok(2) [OF assms(2), of seq pid NLM_F_MULTI], of 20], of lim]
    by (auto simp del: split_paired_Ex)
  then show ?thesis using build_done_ok [OF _ assms(2)] w b by (auto simp: link_reply_def Let_def)
qed

lemma addr_reply_ok:
  assumes "net_ok n" "lim < 65536" "256 \<le> lim"
  shows "\<exists>ms. reply_ok lim seq pid (addr_reply n lim seq pid dump req) ms \<and> (dump \<longrightarrow> finished ms)"
proof -
  let ?family = "if length req > NLMSG_HDRLEN then unat (req ! NLMSG_HDRLEN) else 0"
  let ?want = "if ?family = AF_INET \<or> ?family = AF_INET6 then ?family else 0"
  let ?flags = "if dump then NLM_F_MULTI else 0"
  obtain out built where b: "build_host_addrs n lim seq pid ?want dump = (out, built)" by fastforce
  let ?out4 = "if ?family = 0 \<or> ?family = AF_INET then nl_build_loopback_addr lim seq pid AF_INET ?flags [] else []"
  let ?out6 = "if ?family = 0 \<or> ?family = AF_INET6 then nl_build_loopback_addr lim seq pid AF_INET6 ?flags ?out4 else ?out4"
  let ?out = "if built = 0 then ?out6 else out"
  have o: "length out + 20 \<le> lim \<and> (\<exists>ms. reply_ok lim seq pid out ms)"
  proof (cases "n_ifaddrs n")
    case None
    then show ?thesis using b assms(3) by (auto simp: build_host_addrs_def intro: reply_ok_Nil)
  next
    case (Some ifas)
    then have "\<forall>ifa \<in> set ifas. \<forall>nm. ifa_name ifa = Some nm \<longrightarrow> length nm < IFNAMSIZ"
      using assms(1) unfolding net_ok_def by blast
    from host_addrs_ok [OF assms(2,3) this reply_ok_Nil] b Some
    show ?thesis using assms(3) by (auto simp: build_host_addrs_def)
  qed
  have "Ex (reply_ok lim seq pid [])" using reply_ok_Nil by blast
  then have "\<exists>ms4. reply_ok lim seq pid ?out4 ms4" "length ?out4 \<le> 84"
    using loopback_ok(3,4) [OF assms(2) reply_ok_Nil, of seq pid AF_INET ?flags] reply_ok_Nil [of lim seq pid]
    by (auto split: if_split simp del: split_paired_Ex)
  then obtain ms4 where o4: "reply_ok lim seq pid ?out4 ms4" "length ?out4 \<le> 84" by blast
  have "\<exists>ms6. reply_ok lim seq pid ?out6 ms6"
  proof (cases "?family = 0 \<or> ?family = AF_INET6")
    case True
    show ?thesis unfolding if_P [OF True] by (rule loopback_ok(3) [OF assms(2) o4(1)])
  next
    case False
    show ?thesis unfolding if_not_P [OF False] using o4(1) by blast
  qed
  then obtain ms6 where o6: "reply_ok lim seq pid ?out6 ms6" by blast
  have "length (nl_build_loopback_addr lim seq pid AF_INET6 ?flags ?out4) \<le> length ?out4 + 84"
    by (rule loopback_ok(4) [OF assms(2) o4(1)])
  then have "length ?out6 \<le> 168" using o4(2) by (auto split: if_split)
  then have "\<exists>ms. reply_ok lim seq pid ?out ms" "length ?out + 20 \<le> lim" using o o6 assms(3) by auto
  then show ?thesis using build_done_ok [OF _ assms(2)] b
    by (auto simp: addr_reply_def Let_def simp del: split_paired_Ex)
qed

section \<open>The properties\<close>

lemma netlink_reply_ok:
  assumes "net_ok n" "routes_ok n"
  shows "\<exists>r ms. netlink_reply n pid req = Some r \<and> reply_ok MAX_FAKE_NETLINK_REPLY (u32_at req 8) pid r ms \<and>
    (u16_at req 6 AND NLM_F_DUMP = NLM_F_DUMP \<longrightarrow> finished ms)"
proof -
  let ?lim = MAX_FAKE_NETLINK_REPLY
  have lim: "?lim < 65536" "256 \<le> ?lim" "64 \<le> ?lim" by (simp_all add: MAX_FAKE_NETLINK_REPLY_def)
  let ?seq = "u32_at req 8" and ?dump = "u16_at req 6 AND NLM_F_DUMP = NLM_F_DUMP"
  show ?thesis
    using link_reply_ok [OF assms(1) lim(1,2), of ?seq pid ?dump req]
      addr_reply_ok [OF assms(1) lim(1,2), of ?seq pid ?dump req]
      route_reply_ok [OF assms(2) lim(1,3), of ?seq pid ?dump req]
      build_done_ok [OF reply_ok_Nil lim(1), of ?seq pid] build_error_ok [OF lim(1), of ?seq pid 0] lim(2)
    by (cases "u16_at req 4 = RTM_GETLINK"; cases "u16_at req 4 = RTM_GETADDR"; cases "u16_at req 4 = RTM_GETROUTE";
      cases ?dump) (auto simp: netlink_reply_def Let_def simp del: split_paired_Ex)
qed

text \<open>C38: Whatever a tracee asks, PRoot's reply fits its buffer, a receiver can split it into messages that
  all answer this request to this process, and a dump is terminated; the relayed messages of the host
  never make it read outside of a datagram.\<close>

theorem netlink_reply_well_formed:
  assumes "net_ok n" "routes_ok n"
  shows "\<exists>r ms. netlink_reply n pid req = Some r \<and> length r \<le> MAX_FAKE_NETLINK_REPLY \<and> messages r = Some ms \<and>
    (\<forall>(type, flags, s, p, body) \<in> set ms. s = u32_at req 8 \<and> p = pid) \<and>
    (u16_at req 6 AND NLM_F_DUMP = NLM_F_DUMP \<longrightarrow> finished ms)"
  using netlink_reply_ok [OF assms, of pid req] unfolding reply_ok_def by blast

text \<open>An attribute that fits, and the reader's loop over attributes.\<close>

definition attr_bytes :: "u16 \<Rightarrow> byte list \<Rightarrow> byte list" where
  "attr_bytes type data = le 2 (of_nat (RTA_LENGTH (length data)) :: u16) @ le 2 type @ data @
     replicate (RTA_SPACE (length data) - RTA_LENGTH (length data)) 0"

lemma length_attr_bytes: "length (attr_bytes type data) = RTA_SPACE (length data)"
proof -
  have "RTA_LENGTH (length data) \<le> RTA_SPACE (length data)" by (simp add: RTA_SPACE_def RTA_ALIGN_def)
  then show ?thesis by (simp add: attr_bytes_def RTA_LENGTH_def)
qed

lemma add_attr_fits:
  "length data < 65536 \<Longrightarrow> length buf + RTA_SPACE (length data) \<le> lim \<Longrightarrow>
    nl_add_attr lim type data buf = buf @ attr_bytes type data"
  by (simp add: nl_add_attr_def attr_bytes_def Let_def)

definition name_read :: "byte list \<Rightarrow> string" where
  "name_read data = string_of_bytes (take (if length data < IFNAMSIZ then length data else IFNAMSIZ - 1) data)"

lemma last_ifname_step:
  assumes "length data < 65532"
  shows "last_ifname (pre @ attr_bytes type data @ post) (length pre) found =
    last_ifname (pre @ attr_bytes type data @ post) (length pre + RTA_SPACE (length data))
      (if type = IFLA_IFNAME then Some (name_read data) else found)"
proof -
  define req where "req = pre @ attr_bytes type data @ post"
  have len: "unat (u16_at req (length pre)) = 4 + length data"
    unfolding req_def attr_bytes_def append_assoc using u16_at_le [of pre "length pre"] assms
    by (simp add: RTA_LENGTH_def unat_of_nat del: of_nat_add of_nat_Suc)
  have type: "u16_at req (length pre + 2) = type"
    unfolding req_def attr_bytes_def append_assoc
    using u16_at_le [of "pre @ le 2 (of_nat (RTA_LENGTH (length data)) :: u16)" "length pre + 2" type] by simp
  have space: "RTA_ALIGN (4 + length data) = RTA_SPACE (length data)" "4 + length data \<le> RTA_SPACE (length data)"
    by (simp_all add: RTA_SPACE_def RTA_LENGTH_def RTA_ALIGN_def)
  have "take (length data) (drop (length pre + 4) req) = data"
    unfolding req_def attr_bytes_def by simp
  then have read: "take k (drop (length pre + 4) req) = take k data" if "k \<le> length data" for k
    using that by (metis min_absorb1 take_take)
  have fits: "length pre + 4 \<le> length req" "\<not> (4 + length data < 4 \<or> length pre + (4 + length data) > length req)"
    using space(2) by (simp_all add: req_def length_attr_bytes)
  have name: "string_of_bytes (take (if 4 + length data - RTA_LENGTH 0 < IFNAMSIZ then 4 + length data - RTA_LENGTH 0
      else IFNAMSIZ - 1) (drop (length pre + 4) req)) = name_read data"
    unfolding name_read_def by (subst read) (simp_all add: RTA_LENGTH_def IFNAMSIZ_def)
  show ?thesis
    unfolding req_def [symmetric]
    by (subst last_ifname.simps) (simp only: Let_def len fits type if_True if_False name space)
qed

lemma last_ifname_end: "last_ifname req (length req) found = found"
  by (subst last_ifname.simps) simp

lemma last_ifname_attrs:
  "\<forall>(type, data) \<in> set ads. length data < 65532 \<Longrightarrow>
    last_ifname (pre @ concat (map (\<lambda>(type, data). attr_bytes type data) ads)) (length pre) found =
    fold (\<lambda>(type, data) found. if type = IFLA_IFNAME then Some (name_read data) else found) ads found"
proof (induction ads arbitrary: pre found)
  case Nil
  then show ?case by (simp add: last_ifname_end)
next
  case (Cons ad ads)
  obtain type data where ad: "ad = (type, data)" by fastforce
  let ?post = "concat (map (\<lambda>(type, data). attr_bytes type data) ads)"
  have "last_ifname (pre @ attr_bytes type data @ ?post) (length pre) found =
      last_ifname ((pre @ attr_bytes type data) @ ?post) (length (pre @ attr_bytes type data))
        (if type = IFLA_IFNAME then Some (name_read data) else found)"
    using last_ifname_step [of data pre type ?post found] Cons.prems ad by (simp add: length_attr_bytes)
  then show ?case using Cons.IH [of "pre @ attr_bytes type data"] Cons.prems by (simp add: ad)
qed

lemma name_read_of_string:
  assumes "cstr s" "length s < IFNAMSIZ"
  shows "name_read (bytes_of_string s) = s"
proof -
  let ?b = "map (\<lambda>c. word_of_nat (of_char c)) s :: byte list"
  have b: "bytes_of_string s = ?b @ [0]" by (simp add: bytes_of_string_def)
  have "string_of_bytes (?b @ [0]) = s" using string_of_bytes_of_string [OF assms(1)] unfolding b .
  moreover have "string_of_bytes (?b @ [0]) = string_of_bytes ?b"
    unfolding string_of_bytes_def by (subst takeWhile_tail) simp_all
  ultimately show ?thesis using assms(2) unfolding name_read_def b by (cases "Suc (length s) < IFNAMSIZ") auto
qed

text \<open>A link that PRoot describes is the link its own reader of requests finds in the message: the
  encoding of the name and of the index agrees with their decoding.\<close>

theorem link_target_of_link:
  assumes "cstr ifname" "length ifname < IFNAMSIZ" "length hwaddr \<le> 8" "256 \<le> lim" "- (2 ^ 31) \<le> ifindex" "ifindex < 2 ^ 31"
  shows "nl_request_link_target (nl_build_link lim seq pid nlflags ifindex iftype ifflags mtu ifname hwaddr []) =
    (ifindex, ifname)"
proof -
  define operstate :: byte where "operstate = (if ifflags AND IFF_UP \<noteq> 0 then 6 else 2)"
  define brd :: byte where "brd = (if iftype = ARPHRD_LOOPBACK then 0 else 0xff)"
  define fl where "fl = le 4 (ifflags OR (if ifflags AND IFF_RUNNING \<noteq> 0 then IFF_LOWER_UP else 0)) @ le 4 (0 :: u32)"
  define ifi where "ifi = ([0, 0] @ le 2 iftype) @ le 4 (word_of_int ifindex :: u32) @ fl"
  let ?ads = "[(IFLA_IFNAME, bytes_of_string ifname), (4, le 4 mtu), (13, le 4 (1000 :: u32)), (16, [operstate])] @
    (if hwaddr = [] then [] else [(1, hwaddr), (2, replicate (length hwaddr) brd)])"
  let ?attrs = "concat (map (\<lambda>(type, data). attr_bytes type data) ?ads)"
  have li: "length ifi = 16" by (simp add: ifi_def fl_def)
  have n: "length (bytes_of_string ifname) \<le> 16" using assms(2) by (simp add: bytes_of_string_def IFNAMSIZ_def)
  have sp: "RTA_SPACE (length (bytes_of_string ifname)) \<le> 20" "RTA_SPACE (length hwaddr) \<le> 12"
    using space_mono [OF n] space_mono [OF assms(3)] by (simp_all add: RTA_SPACE_def RTA_ALIGN_def RTA_LENGTH_def)
  let ?hdr = "\<lambda>len. nlmsghdr len RTM_NEWLINK nlflags seq pid"
  have b: "\<exists>len. nl_build_link lim seq pid nlflags ifindex iftype ifflags mtu ifname hwaddr [] = ?hdr len @ ifi @ ?attrs"
  proof -
    let ?initial = "replicate NLMSG_HDRLEN 0 @ ifi"
    let ?a = "attr_bytes IFLA_IFNAME (bytes_of_string ifname)"
    let ?four = "nl_add_attr lim 16 [operstate] (nl_add_attr lim 13 (le 4 (1000 :: u32)) (nl_add_attr lim 4 (le 4 mtu)
      (nl_add_attr lim IFLA_IFNAME (bytes_of_string ifname) ?initial)))"
    let ?fours = "?initial @ ?a @ attr_bytes 4 (le 4 mtu) @ attr_bytes 13 (le 4 (1000 :: u32)) @ attr_bytes 16 [operstate]"
    have four: "?four = ?fours"
      using li sp(1) n assms(4) by (simp add: add_attr_fits length_attr_bytes NLMSG_HDRLEN_def)
    have six: "nl_add_attr lim 2 (replicate (length hwaddr) brd) (nl_add_attr lim 1 hwaddr ?fours) =
        ?fours @ attr_bytes 1 hwaddr @ attr_bytes 2 (replicate (length hwaddr) brd)"
      using li sp assms(3,4) by (simp add: add_attr_fits length_attr_bytes NLMSG_HDRLEN_def)
    have "nl_build_link lim seq pid nlflags ifindex iftype ifflags mtu ifname hwaddr [] =
        (let b = (if hwaddr = [] then ?four
           else nl_add_attr lim 2 (replicate (length hwaddr) brd) (nl_add_attr lim 1 hwaddr ?four)) in
         put_at 0 (?hdr (length b - 0)) b)"
      using assms(4) unfolding nl_build_link_def Let_def operstate_def brd_def ifi_def fl_def
      by (simp add: NLMSG_HDRLEN_def)
    then show ?thesis
      unfolding four six Let_def by (auto simp: put_at_def NLMSG_HDRLEN_def)
  qed
  then obtain len where e: "nl_build_link lim seq pid nlflags ifindex iftype ifflags mtu ifname hwaddr [] = ?hdr len @ ifi @ ?attrs"
    by blast
  have i: "u32_at (?hdr len @ ifi @ ?attrs) (NLMSG_HDRLEN + 4) = word_of_int ifindex"
    unfolding ifi_def append_assoc
    using u32_at_le [of "?hdr len @ [0, 0] @ le 2 iftype" 20 "word_of_int ifindex"] by (simp add: NLMSG_HDRLEN_def)
  have "last_ifname ((?hdr len @ ifi) @ ?attrs) (length (?hdr len @ ifi)) None =
      fold (\<lambda>(type, data) found. if type = IFLA_IFNAME then Some (name_read data) else found) ?ads None"
    using assms(3) n by (intro last_ifname_attrs) auto
  also have "\<dots> = Some ifname" using name_read_of_string [OF assms(1,2)] by (simp add: IFLA_IFNAME_def)
  finally have l: "last_ifname (?hdr len @ ifi @ ?attrs) (NLMSG_HDRLEN + NLMSG_ALIGN 16) None = Some ifname"
    using li by (simp add: NLMSG_HDRLEN_def)
  have "sint (word_of_int ifindex :: u32) = ifindex"
    using assms(5,6) unfolding sint_sbintrunc' by (simp add: signed_take_bit_int_eq_self)
  moreover have "\<not> length (?hdr len @ ifi @ ?attrs) < NLMSG_HDRLEN + 16" using li by (simp add: NLMSG_HDRLEN_def)
  ultimately show ?thesis unfolding e nl_request_link_target_def i l by simp
qed

section \<open>Instances\<close>

text \<open>A host with a loopback and an Ethernet interface, whose route dump is one terminator.\<close>

definition example_net :: net where
  "example_net = \<lparr>n_ifaddrs = Some
       [\<lparr>ifa_name = Some ''lo'', ifa_flags = 73, ifa_addr = Some (SA_INET [127, 0, 0, 1]), ifa_netmask = Some [255, 0, 0, 0]\<rparr>,
        \<lparr>ifa_name = Some ''eth0'', ifa_flags = 65, ifa_addr = Some (SA_PACKET 2 1 6 [2, 0, 0, 0, 0, 1, 0, 0]), ifa_netmask = None\<rparr>],
     n_index = (\<lambda>s. if s = ''lo'' then 1 else 0), n_sock = False, n_mtu = (\<lambda>s. None), n_hwaddr = (\<lambda>s. None),
     n_routes = (\<lambda>family seq. Some [nlmsghdr 20 NLMSG_DONE NLM_F_MULTI 7 0 @ [0, 0, 0, 0]])\<rparr>"

lemma example_net_ok: "net_ok example_net" "routes_ok example_net"
proof -
  show "net_ok example_net" by (auto simp: net_ok_def example_net_def IFNAMSIZ_def)
  have "aligned_datagram (take 8192 (nlmsghdr 20 NLMSG_DONE NLM_F_MULTI 7 0 @ [0, 0, 0, 0]))" by code_simp
  then show "routes_ok example_net" by (simp add: routes_ok_def example_net_def)
qed

lemma netlink_reply_witness:
  "\<exists>r. netlink_reply example_net 42 (nlmsghdr 20 RTM_GETLINK (NLM_F_DUMP OR 1) 5 0 @ [0, 0, 0, 0]) = Some r \<and>
     length r \<le> MAX_FAKE_NETLINK_REPLY"
  using netlink_reply_well_formed [OF example_net_ok] by blast

lemma link_target_witness:
  "nl_request_link_target (nl_build_link 8192 1 42 0 2 1 65 1500 ''eth0'' [2, 0, 0, 0, 0, 1] []) = (2, ''eth0'')"
  by (rule link_target_of_link) (simp_all add: cstr_def IFNAMSIZ_def)

end
