(* ===== verification/Chain.thy ===== *)
theory Chain
  imports Sysnums
begin

text \<open>
  The chain of system calls that PRoot inserts after the one a tracee made, \<open>syscall/chain.c\<close>: a
  FIFO of numbers and arguments that \<open>chain_next_syscall\<close> forges into registers one at a time.
  Memory allocation is taken to succeed.
\<close>

section \<open>The code\<close>

text \<open>\<open>register_chained_syscall_internal\<close>.\<close>

definition register_chained_syscall_internal ::
  "sysnum \<Rightarrow> word_t list \<Rightarrow> bool \<Rightarrow> tracee \<Rightarrow> tracee" where
  "register_chained_syscall_internal sysnum sysargs at_front t =
     (let queue = (case chain_syscalls t of None \<Rightarrow> [] | Some q \<Rightarrow> q);
          syscall = \<lparr>ch_sysnum = sysnum, ch_sysargs = sysargs\<rparr> in
      t\<lparr>chain_syscalls := Some (if at_front then syscall # queue else queue @ [syscall])\<rparr>)"

definition register_chained_syscall :: "sysnum \<Rightarrow> word_t list \<Rightarrow> tracee \<Rightarrow> tracee" where
  "register_chained_syscall sysnum sysargs t = register_chained_syscall_internal sysnum sysargs False t"

definition sysarg_regs :: "reg list" where
  "sysarg_regs = [SYSARG_1, SYSARG_2, SYSARG_3, SYSARG_4, SYSARG_5, SYSARG_6]"

definition poke_all :: "(reg \<times> word_t) list \<Rightarrow> tracee \<Rightarrow> tracee" where
  "poke_all l t = fold (\<lambda>(r, v). poke_reg r v) l t"

text \<open>
  \<open>chain_next_syscall\<close>. It is called with a chain, possibly empty; without one (the assertion) the
  model does nothing. \<open>SYSTRAP_NUM\<close> is \<open>SYSARG_NUM\<close> on arm64.
\<close>

definition chain_next_syscall :: "tracee \<Rightarrow> tracee" where
  "chain_next_syscall t =
     (case chain_syscalls t of
        None \<Rightarrow> t
      | Some [] \<Rightarrow>
          (let t = t\<lparr>chain_syscalls := None\<rparr>;
               t = (if force_final_result t then poke_reg SYSARG_RESULT (final_result t) t else t) in
           t\<lparr>force_final_result := False, final_result := 0\<rparr>)
      | Some (syscall # queue) \<Rightarrow>
          (let t = t\<lparr>restore_original_regs := False, chain_syscalls := Some queue\<rparr>;
               t = poke_all (zip sysarg_regs (ch_sysargs syscall)) t;
               sysnum = detranslate_sysnum (get_abi t) (ch_sysnum syscall);
               t = poke_reg SYSARG_NUM sysnum t;
               instr_pointer = peek_reg t CURRENT INSTR_POINTER;
               t = poke_reg INSTR_POINTER (instr_pointer - get_systrap_size t) t in
           t\<lparr>restart_how := PTRACE_SYSCALL\<rparr>))"

definition force_chain_final_result :: "word_t \<Rightarrow> tracee \<Rightarrow> tracee" where
  "force_chain_final_result forced_result t =
     t\<lparr>force_final_result := True, final_result := forced_result\<rparr>"

definition sysargs_of :: "tracee \<Rightarrow> reg_version \<Rightarrow> word_t list" where
  "sysargs_of t version = map (peek_reg t version) sysarg_regs"

definition restart_original_syscall :: "(abi \<Rightarrow> sysnum) \<Rightarrow> tracee \<Rightarrow> tracee" where
  "restart_original_syscall beyond t =
     register_chained_syscall (get_sysnum beyond t ORIGINAL) (sysargs_of t ORIGINAL) t"

definition restart_current_syscall_as_chained :: "(abi \<Rightarrow> sysnum) \<Rightarrow> tracee \<Rightarrow> tracee" where
  "restart_current_syscall_as_chained beyond t =
     (let t = t\<lparr>workaround_state := SYSNUM_WORKAROUND_PROCESS_FAULTY_CALL\<rparr> in
      register_chained_syscall_internal (get_sysnum beyond t CURRENT) (sysargs_of t CURRENT) True t)"

section \<open>One step\<close>

lemma poke_all_simps [simp]:
  "restore_original_regs (poke_all l t) = restore_original_regs t"
  "is_aarch32 (poke_all l t) = is_aarch32 t" "restart_how (poke_all l t) = restart_how t"
  "chain_syscalls (poke_all l t) = chain_syscalls t"
  "force_final_result (poke_all l t) = force_final_result t"
  "final_result (poke_all l t) = final_result t" "heap_of (poke_all l t) = heap_of t"
  "get_abi (poke_all l t) = get_abi t"
proof -
  have "restore_original_regs (poke_all l t) = restore_original_regs t \<and>
    is_aarch32 (poke_all l t) = is_aarch32 t \<and> restart_how (poke_all l t) = restart_how t \<and>
    chain_syscalls (poke_all l t) = chain_syscalls t \<and>
    force_final_result (poke_all l t) = force_final_result t \<and>
    final_result (poke_all l t) = final_result t \<and> heap_of (poke_all l t) = heap_of t"
    unfolding poke_all_def by (induction l arbitrary: t) (simp_all add: split_beta)
  then show "restore_original_regs (poke_all l t) = restore_original_regs t"
    "is_aarch32 (poke_all l t) = is_aarch32 t" "restart_how (poke_all l t) = restart_how t"
    "chain_syscalls (poke_all l t) = chain_syscalls t"
    "force_final_result (poke_all l t) = force_final_result t"
    "final_result (poke_all l t) = final_result t" "heap_of (poke_all l t) = heap_of t"
    "get_abi (poke_all l t) = get_abi t"
    by (simp_all add: get_abi_def)
qed

lemma poke_all_put_all: "poke_all l t = cached.put_all l t"
  by (simp add: poke_all_def cached.put_all_def)

lemma peek_reg_updates [simp]:
  "peek_reg (t\<lparr>restart_how := a\<rparr>) v r = peek_reg t v r"
  "peek_reg (t\<lparr>chain_syscalls := b\<rparr>) v r = peek_reg t v r"
  "peek_reg (t\<lparr>restore_original_regs := c\<rparr>) v r = peek_reg t v r"
  "peek_reg (t\<lparr>force_final_result := c\<rparr>) v r = peek_reg t v r"
  "peek_reg (t\<lparr>final_result := w\<rparr>) v r = peek_reg t v r"
  "peek_reg (t\<lparr>heap_of := h\<rparr>) v r = peek_reg t v r"
  by (simp_all add: peek_reg_def is_32on64_mode_def slot_def)

lemma get_abi_updates [simp]:
  "get_abi (t\<lparr>chain_syscalls := b\<rparr>) = get_abi t" "get_abi (t\<lparr>restore_original_regs := c\<rparr>) = get_abi t"
  "get_abi (poke_reg r w t) = get_abi t" "get_abi (t\<lparr>heap_of := h\<rparr>) = get_abi t"
  by (simp_all add: get_abi_def)

lemma reg_norm_updates [simp]:
  "reg_norm (t\<lparr>chain_syscalls := b\<rparr>) = reg_norm t" "reg_norm (t\<lparr>restore_original_regs := c\<rparr>) = reg_norm t"
  "reg_norm (poke_all l t) = reg_norm t" "reg_norm (poke_reg r w t) = reg_norm t"
  by (simp_all add: reg_norm_def fun_eq_iff)

text \<open>The size of the trap does not depend on the registers that a chained call writes.\<close>

lemma systrap_size_poke:
  assumes "r \<in> set sysarg_regs \<or> r = SYSARG_NUM"
  shows "get_systrap_size (poke_reg r v t) = get_systrap_size t"
proof (cases "is_aarch32 t")
  case True
  then have "slot t r \<noteq> 16" using assms by (auto simp: slot_def sysarg_regs_def)
  then have "regs (poke_reg r v t) CURRENT 16 = regs t CURRENT 16"
    using True by (auto simp: poke_reg_def is_32on64_mode_def Let_def)
  then show ?thesis by (simp add: get_systrap_size_def)
qed (simp add: get_systrap_size_def)

lemma systrap_size_poke_all:
  "fst ` set l \<subseteq> set sysarg_regs \<Longrightarrow> get_systrap_size (poke_all l t) = get_systrap_size t"
  unfolding poke_all_def
  by (induction l arbitrary: t) (auto simp: systrap_size_poke)

lemma get_systrap_size_updates [simp]:
  "get_systrap_size (t\<lparr>chain_syscalls := b\<rparr>) = get_systrap_size t"
  "get_systrap_size (t\<lparr>restore_original_regs := c\<rparr>) = get_systrap_size t"
  by (simp_all add: get_systrap_size_def)

text \<open>The registers that make a tracee execute a call.\<close>

definition loaded :: "chained_syscall \<Rightarrow> tracee \<Rightarrow> bool" where
  "loaded c t \<longleftrightarrow>
     list_all (\<lambda>(r, v). peek_reg t CURRENT r = reg_norm t v) (zip sysarg_regs (ch_sysargs c)) \<and>
     peek_reg t CURRENT SYSARG_NUM = reg_norm t (detranslate_sysnum (get_abi t) (ch_sysnum c))"

lemma sysarg_zip_apart:
  "sorted_wrt (\<lambda>a b. apart (fst b) (fst a)) (zip sysarg_regs vs)"
proof -
  have "sorted_wrt (\<lambda>a b. apart b a) sysarg_regs" by (simp add: sysarg_regs_def apart_def)
  then show ?thesis
    by (auto simp: sorted_wrt_iff_nth_less)
qed

lemma fst_zip_subset: "fst ` set (zip xs ys) \<subseteq> set xs"
  by (auto dest: set_zip_leftD)

lemma chain_next_loaded:
  assumes "chain_syscalls t = Some (c # queue)"
  shows "loaded c (chain_next_syscall t) \<and> chain_syscalls (chain_next_syscall t) = Some queue \<and>
    peek_reg (chain_next_syscall t) CURRENT INSTR_POINTER =
      reg_norm t (peek_reg t CURRENT INSTR_POINTER - get_systrap_size t) \<and>
    restart_how (chain_next_syscall t) = PTRACE_SYSCALL \<and>
    \<not> restore_original_regs (chain_next_syscall t)"
proof -
  let ?l = "zip sysarg_regs (ch_sysargs c)"
  let ?a = "t\<lparr>restore_original_regs := False, chain_syscalls := Some queue\<rparr>"
  let ?t1 = "poke_all ?l ?a"
  let ?n = "detranslate_sysnum (get_abi t) (ch_sysnum c)"
  let ?t2 = "poke_reg SYSARG_NUM ?n ?t1"
  let ?t3 = "poke_reg INSTR_POINTER (peek_reg ?t2 CURRENT INSTR_POINTER - get_systrap_size ?t2) ?t2"
  have e: "chain_next_syscall t = ?t3\<lparr>restart_how := PTRACE_SYSCALL\<rparr>"
    using assms by (simp add: chain_next_syscall_def Let_def)
  have sub: "fst ` set ?l \<subseteq> set sysarg_regs" by (rule fst_zip_subset)
  have args: "peek_reg ?t3 CURRENT r = reg_norm t v" if "(r, v) \<in> set ?l" for r v
  proof -
    have r: "r \<in> set sysarg_regs" using that sub by force
    then have "apart INSTR_POINTER r" "apart SYSARG_NUM r" by (auto simp: sysarg_regs_def apart_def)
    then have "peek_reg ?t3 CURRENT r = peek_reg ?t1 CURRENT r" by (simp add: peek_poke_other)
    also have "\<dots> = reg_norm t v"
      using cached.get_put_all [OF that sysarg_zip_apart, of ?a]
      by (simp add: current_reg_def poke_all_put_all)
    finally show ?thesis .
  qed
  have "apart INSTR_POINTER SYSARG_NUM" "apart SYSARG_NUM INSTR_POINTER" by (auto simp: apart_def)
  then have num: "peek_reg ?t3 CURRENT SYSARG_NUM = reg_norm t ?n"
    and ip2: "peek_reg ?t2 CURRENT INSTR_POINTER = peek_reg ?t1 CURRENT INSTR_POINTER"
    by (simp_all add: peek_poke_other peek_poke_same)
  have "\<forall>(r, v) \<in> set ?l. apart r INSTR_POINTER"
    using sub by (fastforce simp: sysarg_regs_def apart_def)
  then have ip1: "peek_reg ?t1 CURRENT INSTR_POINTER = peek_reg t CURRENT INSTR_POINTER"
    using cached.get_put_all_other [of ?l INSTR_POINTER ?a] by (simp add: current_reg_def poke_all_put_all)
  have size: "get_systrap_size ?t2 = get_systrap_size t"
    using systrap_size_poke [of SYSARG_NUM] systrap_size_poke_all [OF sub] by simp
  have norm: "reg_norm (?t3\<lparr>restart_how := PTRACE_SYSCALL\<rparr>) = reg_norm t"
    "get_abi (?t3\<lparr>restart_how := PTRACE_SYSCALL\<rparr>) = get_abi t"
    by (simp_all add: reg_norm_def get_abi_def fun_eq_iff)
  have "loaded c (chain_next_syscall t)"
    unfolding e loaded_def norm using args num by (auto simp: list_all_iff)
  then show ?thesis
    unfolding e by (simp add: peek_poke_same ip2 ip1 size)
qed

text \<open>The next call of a chain is loaded into the registers, the instruction pointer moves back to the
  trap, the tracee is made to stop again at the exit of the call, and the original registers are
  not restored.\<close>

theorem chain_next_loads:
  assumes "chain_syscalls t = Some (c # queue)"
  shows "loaded c (chain_next_syscall t) \<and> chain_syscalls (chain_next_syscall t) = Some queue \<and>
    peek_reg (chain_next_syscall t) CURRENT INSTR_POINTER =
      reg_norm t (peek_reg t CURRENT INSTR_POINTER - get_systrap_size t) \<and>
    restart_how (chain_next_syscall t) = PTRACE_SYSCALL \<and>
    \<not> restore_original_regs (chain_next_syscall t)"
  using assms by (rule chain_next_loaded)

section \<open>A whole chain\<close>

text \<open>
  The stops of a tracee under a chain: what runs in the meantime (\<open>between i\<close>) may change any register but
  not the chain, its forced result and the width of the tracee.
\<close>

fun chain_steps :: "(nat \<Rightarrow> tracee \<Rightarrow> tracee) \<Rightarrow> nat \<Rightarrow> tracee \<Rightarrow> tracee" where
  "chain_steps between 0 t = t"
| "chain_steps between (Suc i) t = chain_next_syscall (between i (chain_steps between i t))"

definition chain_frame :: "tracee \<Rightarrow> chained_syscall list option \<times> bool \<times> word_t \<times> bool" where
  "chain_frame t = (chain_syscalls t, force_final_result t, final_result t, is_aarch32 t)"

lemma chain_next_frame:
  "chain_syscalls t = Some (c # queue) \<Longrightarrow>
     chain_frame (chain_next_syscall t) = (Some queue, force_final_result t, final_result t, is_aarch32 t)"
  by (simp add: chain_next_syscall_def chain_frame_def Let_def)

lemma chain_steps_frame:
  assumes "\<And>i t. chain_frame (between i t) = chain_frame t" "chain_syscalls t = Some cs" "i \<le> length cs"
  shows "chain_frame (chain_steps between i t) =
    (Some (drop i cs), force_final_result t, final_result t, is_aarch32 t)"
  using assms(3)
proof (induction i)
  case 0
  then show ?case using assms(2) by (simp add: chain_frame_def)
next
  case (Suc i)
  let ?t = "between i (chain_steps between i t)"
  have f: "chain_frame ?t = (Some (drop i cs), force_final_result t, final_result t, is_aarch32 t)"
    using assms(1) Suc by simp
  have "drop i cs = cs ! i # drop (Suc i) cs" using Suc.prems by (simp add: Cons_nth_drop_Suc)
  with f have "chain_syscalls ?t = Some (cs ! i # drop (Suc i) cs)" by (simp add: chain_frame_def)
  from chain_next_frame [OF this] f show ?case by (simp add: chain_frame_def)
qed

text \<open>C21: A chain runs first in, first out, whatever happens between two stops: the i-th stop loads the i-th
  registered call, and the stop after the last one ends the chain and leaves the forced result, if
  there is one, in the result register.\<close>

theorem chain_runs_in_order:
  assumes "\<And>i t. chain_frame (between i t) = chain_frame t" "chain_syscalls t = Some cs"
  shows "(\<forall>i < length cs. loaded (cs ! i) (chain_steps between (Suc i) t)) \<and>
    chain_syscalls (chain_steps between (Suc (length cs)) t) = None \<and>
    (force_final_result t \<longrightarrow>
       peek_reg (chain_steps between (Suc (length cs)) t) CURRENT SYSARG_RESULT = reg_norm t (final_result t))"
proof (intro conjI allI impI)
  fix i assume i: "i < length cs"
  let ?t = "between i (chain_steps between i t)"
  have "chain_frame ?t = (Some (drop i cs), force_final_result t, final_result t, is_aarch32 t)"
    using assms chain_steps_frame [of between t cs i] i by simp
  then have "chain_syscalls ?t = Some (cs ! i # drop (Suc i) cs)"
    using i by (simp add: chain_frame_def Cons_nth_drop_Suc)
  from chain_next_loaded [OF this] show "loaded (cs ! i) (chain_steps between (Suc i) t)" by simp
next
  let ?t = "between (length cs) (chain_steps between (length cs) t)"
  have f: "chain_frame ?t = (Some [], force_final_result t, final_result t, is_aarch32 t)"
    using assms chain_steps_frame [of between t cs "length cs"] by simp
  then show "chain_syscalls (chain_steps between (Suc (length cs)) t) = None"
    by (simp add: chain_frame_def chain_next_syscall_def Let_def)
  assume "force_final_result t"
  with f show "peek_reg (chain_steps between (Suc (length cs)) t) CURRENT SYSARG_RESULT =
      reg_norm t (final_result t)"
    by (simp add: chain_frame_def chain_next_syscall_def Let_def peek_poke_same)
      (simp add: reg_norm_def)
qed

text \<open>Registering appends, and a restarted current call goes first.\<close>

lemma register_chained_appends:
  "chain_syscalls (fold (\<lambda>(n, args). register_chained_syscall n args) calls t) =
     (if calls = [] then chain_syscalls t
      else Some ((case chain_syscalls t of None \<Rightarrow> [] | Some q \<Rightarrow> q) @
             map (\<lambda>(n, args). \<lparr>ch_sysnum = n, ch_sysargs = args\<rparr>) calls))"
  by (induction calls arbitrary: t)
    (auto simp: register_chained_syscall_def register_chained_syscall_internal_def Let_def split: option.splits)

definition example_chain :: tracee where
  "example_chain = force_chain_final_result 7
     (register_chained_syscall ''getpid'' [1, 2, 3, 4, 5, 6] (register_chained_syscall ''close'' [3, 0, 0, 0, 0, 0]
       example_tracee))"

lemma example_chain_syscalls:
  "chain_syscalls example_chain = Some [\<lparr>ch_sysnum = ''close'', ch_sysargs = [3, 0, 0, 0, 0, 0]\<rparr>,
     \<lparr>ch_sysnum = ''getpid'', ch_sysargs = [1, 2, 3, 4, 5, 6]\<rparr>]"
  by (simp add: example_chain_def register_chained_syscall_def register_chained_syscall_internal_def
      force_chain_final_result_def example_tracee_def)

lemma chain_next_loads_witness:
  "peek_reg (chain_next_syscall example_chain) CURRENT SYSARG_1 = 3"
proof -
  have "loaded \<lparr>ch_sysnum = ''close'', ch_sysargs = [3, 0, 0, 0, 0, 0]\<rparr> (chain_next_syscall example_chain)"
    using chain_next_loads [OF example_chain_syscalls] by blast
  moreover have "reg_norm (chain_next_syscall example_chain) 3 = 3" by (simp add: reg_norm_def)
  ultimately show ?thesis by (simp add: loaded_def sysarg_regs_def)
qed

lemma chain_order_witness:
  "chain_syscalls (chain_steps (\<lambda>i t. poke_reg SYSARG_RESULT (of_nat i) t) 3 example_chain) = None"
proof -
  have "chain_frame (poke_reg SYSARG_RESULT (of_nat i) t) = chain_frame t" for i t
    by (simp add: chain_frame_def)
  from chain_runs_in_order [of "\<lambda>i. poke_reg SYSARG_RESULT (of_nat i)", OF this example_chain_syscalls]
  show ?thesis by (simp add: eval_nat_numeral)
qed

end
