(* ===== verification/Heap.thy ===== *)
theory Heap
  imports Chain
begin

text \<open>
  The emulation of \<open>brk\<close> with a memory mapping, \<open>syscall/heap.c\<close>: the calls that replace it at the
  entry, the bookkeeping at the exit, and the abstract heap that the two implement together.
\<close>

section \<open>The code\<close>

text \<open>
  \<open>heap_offset\<close>, a static variable of the program, is computed from \<open>_SC_PAGE_SIZE\<close> by the first
  call and is an argument of the model.
\<close>

definition heap_offset_of :: "word_t \<Rightarrow> word_t" where
  "heap_offset_of page_size = (if sint (ucast page_size :: u32) \<le> 0 then 0x1000 else page_size)"

definition PROT_READ_WRITE :: word_t where
  "PROT_READ_WRITE = 3"

definition MAP_PRIVATE_ANONYMOUS :: word_t where
  "MAP_PRIVATE_ANONYMOUS = 0x22"

definition translate_brk_enter :: "word_t \<Rightarrow> tracee \<Rightarrow> tracee" where
  "translate_brk_enter heap_offset t =
     (if heap_disabled (heap_of t) then t
      else
        (let new_brk_address = peek_reg t CURRENT SYSARG_1;
             base = heap_base (heap_of t) in
         if base = 0 then
           (if new_brk_address \<noteq> 0 then t
            else
              (let new_brk_address = bss_end t;
                   sysnum = (if detranslate_sysnum (get_abi t) ''mmap2'' \<noteq> SYSCALL_AVOIDER
                             then ''mmap2'' else ''mmap'') in
               poke_all [(SYSARG_1, new_brk_address), (SYSARG_2, heap_offset),
                   (SYSARG_3, PROT_READ_WRITE), (SYSARG_4, MAP_PRIVATE_ANONYMOUS),
                   (SYSARG_5, - 1), (SYSARG_6, 0)] (set_sysnum sysnum t)))
         else if new_brk_address < base then set_sysnum ''void'' t
         else
           (let new_heap_size = new_brk_address - base;
                old_heap_size = heap_size (heap_of t) in
            poke_all [(SYSARG_1, base - heap_offset), (SYSARG_2, old_heap_size + heap_offset),
                (SYSARG_3, new_heap_size + heap_offset), (SYSARG_4, 0), (SYSARG_5, 0)]
              (set_sysnum ''mremap'' t))))"

text \<open>\<open>tracee_errno < 0 && tracee_errno > -4096\<close>, with \<open>tracee_errno\<close> the low 32 bits as an \<open>int\<close>.\<close>

definition is_errno :: "word_t \<Rightarrow> bool" where
  "is_errno result = (let tracee_errno = sint (ucast result :: u32) in tracee_errno < 0 \<and> tracee_errno > - 4096)"

text \<open>The default case of the switch is an assertion; the model leaves the tracee alone there.\<close>

definition translate_brk_exit :: "(abi \<Rightarrow> sysnum) \<Rightarrow> word_t \<Rightarrow> tracee \<Rightarrow> tracee" where
  "translate_brk_exit beyond heap_offset t =
     (if heap_disabled (heap_of t) then t
      else
        (let sysnum = get_sysnum beyond t MODIFIED;
             result = peek_reg t CURRENT SYSARG_RESULT;
             h = heap_of t;
             the_break = (\<lambda>h. heap_base h + heap_size h) in
         if sysnum = ''void'' then poke_reg SYSARG_RESULT (the_break h) t
         else if sysnum = ''mmap'' \<or> sysnum = ''mmap2'' then
           (if is_errno result then poke_reg SYSARG_RESULT 0 t
            else
              (let h = h\<lparr>heap_base := result + heap_offset, heap_size := 0\<rparr> in
               poke_reg SYSARG_RESULT (the_break h) (t\<lparr>heap_of := h\<rparr>)))
         else if sysnum = ''mremap'' then
           (if is_errno result \<or> heap_base h \<noteq> result + heap_offset
            then poke_reg SYSARG_RESULT (the_break h) t
            else
              (let h = h\<lparr>heap_size := peek_reg t MODIFIED SYSARG_3 - heap_offset\<rparr> in
               poke_reg SYSARG_RESULT (the_break h) (t\<lparr>heap_of := h\<rparr>)))
         else if sysnum = ''brk'' then
           (if result = peek_reg t ORIGINAL SYSARG_1 then t\<lparr>heap_of := h\<lparr>heap_disabled := True\<rparr>\<rparr> else t)
         else t))"

section \<open>The emulated heap\<close>

text \<open>
  A heap is its base and its size; \<open>r\<close> is what the kernel answers to the replacing \<open>mremap\<close>. The break
  moves exactly when the mapping is resized in place, and never below the base.
\<close>

definition brk_spec ::
  "word_t \<Rightarrow> word_t \<times> word_t \<Rightarrow> word_t \<Rightarrow> word_t \<Rightarrow> word_t \<times> word_t \<times> word_t" where
  "brk_spec heap_offset h addr r =
     (case h of (base, len) \<Rightarrow>
        if addr < base \<or> r \<noteq> base - heap_offset then (base, len, base + len)
        else (base, addr - base, addr))"

text \<open>A page-aligned address is never taken for an error number.\<close>

lemma low_bits_clear:
  fixes v :: u32
  assumes "\<And>n. n < 12 \<Longrightarrow> \<not> bit v n"
  shows "sint v mod 4096 = 0"
proof -
  have "take_bit 12 (sint v) = 0"
  proof (rule bit_eqI)
    fix n
    show "bit (take_bit 12 (sint v)) n = bit 0 n"
      using assms [of n]
      by (auto simp only: bit_take_bit_iff bit_sint_iff bit_0_eq bot_fun_def bot_bool_def len_num1 len_bit0)
  qed
  then show ?thesis by (simp add: take_bit_eq_mod)
qed

lemma aligned_not_errno:
  assumes "w AND 0xFFF = 0"
  shows "\<not> is_errno w"
proof
  assume e: "is_errno w"
  have m: "(0xFFF :: word_t) = mask 12" by (simp add: mask_eq_exp_minus_1)
  have b: "\<not> bit w n" if "n < 12" for n
  proof
    assume "bit w n"
    then have "bit (w AND mask 12) n" using that by (simp only: bit_and_iff bit_mask_iff) simp
    then show False using assms unfolding m by simp
  qed
  have d: "sint (ucast w :: u32) mod 4096 = 0" by (rule low_bits_clear) (simp add: bit_ucast_iff b)
  have r: "sint (ucast w :: u32) < 0 \<and> - 4096 < sint (ucast w :: u32)"
    using e unfolding is_errno_def Let_def .
  have "False" if "z mod 4096 = 0" "z < 0 \<and> - 4096 < z" for z :: int
    using that zmod_zminus1_eq_if [of z 4096] by (simp add: mod_pos_pos_trivial)
  from this [OF d r] show False .
qed

lemma peek_version_cong:
  "regs t' v = regs t w \<Longrightarrow> is_aarch32 t' = is_aarch32 t \<Longrightarrow> peek_reg t' v r = peek_reg t w r"
  by (simp add: peek_reg_def is_32on64_mode_def slot_def)

lemma get_sysnum_cong:
  "regs t' v = regs t w \<Longrightarrow> is_aarch32 t' = is_aarch32 t \<Longrightarrow> get_sysnum beyond t' v = get_sysnum beyond t w"
  using peek_version_cong [of t' v t w] by (simp add: get_sysnum_def get_abi_def)

lemma set_sysnum_simps [simp]:
  "is_aarch32 (set_sysnum n t) = is_aarch32 t" "heap_of (set_sysnum n t) = heap_of t"
  by (simp_all add: set_sysnum_def)

lemma get_sysnum_poke_all:
  assumes "fst ` set l \<subseteq> set sysarg_regs"
  shows "get_sysnum beyond (poke_all l t) CURRENT = get_sysnum beyond t CURRENT"
proof -
  have "apart r SYSARG_NUM" if "r \<in> set sysarg_regs" for r
    using that by (auto simp: sysarg_regs_def apart_def)
  then have "\<forall>(r, v) \<in> set l. apart r SYSARG_NUM" using assms by force
  then show ?thesis
    using cached.get_put_all_other [of l SYSARG_NUM t]
    by (simp add: get_sysnum_def poke_all_put_all [symmetric] current_reg_def)
qed

lemma peek_poke_all:
  assumes "(r, v) \<in> set l" "sorted_wrt (\<lambda>a b. apart (fst b) (fst a)) l"
  shows "peek_reg (poke_all l t) CURRENT r = reg_norm t v"
  using cached.get_put_all [OF assms, of t] by (simp add: poke_all_put_all current_reg_def)

lemma in_arm64_table:
  "''mremap'' \<in> set sysnums_arm64" "''mmap'' \<in> set sysnums_arm64" "''mmap2'' \<notin> set sysnums_arm64"
  "''void'' \<in> set sysnums_arm64"
  by (simp_all add: sysnums_arm64_def)

lemma get_sysnum_wide:
  "\<not> is_aarch32 t \<Longrightarrow> get_sysnum beyond (set_sysnum n t) CURRENT = (if n \<in> set sysnums_arm64 then n else ''void'')"
  by (simp add: set_sysnum_reads [of beyond n t] get_abi_def)

text \<open>
  The state in which the exit of a call is handled: \<open>t1\<close> was saved as the modified bank at the
  entry, and the kernel left \<open>r\<close> in the result register.
\<close>

definition returned :: "tracee \<Rightarrow> word_t \<Rightarrow> tracee \<Rightarrow> bool" where
  "returned t1 r t2 \<longleftrightarrow> regs t2 MODIFIED = regs t1 CURRENT \<and> heap_of t2 = heap_of t1 \<and>
     is_aarch32 t2 = is_aarch32 t1 \<and> peek_reg t2 CURRENT SYSARG_RESULT = r"

text \<open>C22: For a 64-bit tracee with an emulated heap whose mapping is page-aligned, the entry and
  the exit of \<open>brk\<close> together implement the abstract heap, whatever the kernel answers.\<close>

theorem brk_refines:
  assumes "\<not> is_aarch32 t" "heap_of t = \<lparr>heap_base = base, heap_size = len, heap_disabled = False\<rparr>"
    and "base \<noteq> 0" "(base - off) AND 0xFFF = 0" "peek_reg t CURRENT SYSARG_1 = addr"
    and "returned (translate_brk_enter off t) r t2"
  shows "(heap_base (heap_of (translate_brk_exit beyond off t2)),
      heap_size (heap_of (translate_brk_exit beyond off t2)),
      peek_reg (translate_brk_exit beyond off t2) CURRENT SYSARG_RESULT) = brk_spec off (base, len) addr r"
proof (cases "addr < base")
  case True
  then have e: "translate_brk_enter off t = set_sysnum ''void'' t"
    using assms(2,3,5) by (simp add: translate_brk_enter_def Let_def)
  have t2: "heap_of t2 = heap_of t" "\<not> is_aarch32 t2" using assms(1,6) by (auto simp: returned_def e)
  have "get_sysnum beyond t2 MODIFIED = get_sysnum beyond (set_sysnum ''void'' t) CURRENT"
    using assms(1,6) by (intro get_sysnum_cong) (auto simp: returned_def e)
  then have "get_sysnum beyond t2 MODIFIED = ''void''"
    using get_sysnum_wide [OF assms(1)] in_arm64_table by simp
  then have "translate_brk_exit beyond off t2 = poke_reg SYSARG_RESULT (base + len) t2"
    using assms(2) t2 by (simp add: translate_brk_exit_def Let_def)
  with True show ?thesis using assms(2) t2 by (simp add: brk_spec_def peek_poke_same reg_norm_def)
next
  case False
  let ?l = "[(SYSARG_1, base - off), (SYSARG_2, len + off), (SYSARG_3, addr - base + off), (SYSARG_4, 0),
      (SYSARG_5, 0)]"
  have e: "translate_brk_enter off t = poke_all ?l (set_sysnum ''mremap'' t)"
    using False assms(2,3,5) by (simp add: translate_brk_enter_def Let_def)
  have t2: "heap_of t2 = heap_of t" "\<not> is_aarch32 t2" and r: "peek_reg t2 CURRENT SYSARG_RESULT = r"
    using assms(1,6) by (auto simp: returned_def e)
  have "get_sysnum beyond t2 MODIFIED = get_sysnum beyond (poke_all ?l (set_sysnum ''mremap'' t)) CURRENT"
    using assms(1,6) by (intro get_sysnum_cong) (auto simp: returned_def e)
  also have "\<dots> = ''mremap''"
    using get_sysnum_wide [OF assms(1)] in_arm64_table
    by (subst get_sysnum_poke_all) (simp_all add: sysarg_regs_def)
  finally have num: "get_sysnum beyond t2 MODIFIED = ''mremap''" .
  have "peek_reg t2 MODIFIED SYSARG_3 = peek_reg (poke_all ?l (set_sysnum ''mremap'' t)) CURRENT SYSARG_3"
    using assms(1,6) by (intro peek_version_cong) (auto simp: returned_def e)
  also have "\<dots> = addr - base + off"
    using assms(1) by (subst peek_poke_all [of _ "addr - base + off"]) (simp_all add: apart_def reg_norm_def)
  finally have a3: "peek_reg t2 MODIFIED SYSARG_3 = addr - base + off" .
  have eq: "base = r + off \<longleftrightarrow> r = base - off" by (auto simp: algebra_simps)
  show ?thesis
  proof (cases "r = base - off")
    case True
    then have "\<not> is_errno r" using aligned_not_errno assms(4) by simp
    then show ?thesis using True False assms(2) t2 num a3 r eq
      by (simp add: translate_brk_exit_def Let_def brk_spec_def peek_poke_same reg_norm_def)
  next
    case False
    then show ?thesis using \<open>\<not> addr < base\<close> assms(2) t2 num r eq
      by (simp add: translate_brk_exit_def Let_def brk_spec_def peek_poke_same reg_norm_def)
  qed
qed

text \<open>The first \<open>brk(0)\<close> of a 64-bit tracee is replaced by an anonymous private mapping of one heap offset at the
  end of the BSS, and a page-aligned answer becomes an empty heap whose break is reported.\<close>

theorem brk_first_call:
  assumes "\<not> is_aarch32 t" "heap_of t = \<lparr>heap_base = 0, heap_size = len, heap_disabled = False\<rparr>"
    and "peek_reg t CURRENT SYSARG_1 = 0" "r AND 0xFFF = 0"
    and "returned (translate_brk_enter off t) r t2"
  shows "get_sysnum beyond (translate_brk_enter off t) CURRENT = ''mmap'' \<and>
    sysargs_of (translate_brk_enter off t) CURRENT = [bss_end t, off, 3, 0x22, - 1, 0] \<and>
    heap_of (translate_brk_exit beyond off t2) =
      \<lparr>heap_base = r + off, heap_size = 0, heap_disabled = False\<rparr> \<and>
    peek_reg (translate_brk_exit beyond off t2) CURRENT SYSARG_RESULT = r + off"
proof -
  let ?l = "[(SYSARG_1, bss_end t), (SYSARG_2, off), (SYSARG_3, PROT_READ_WRITE),
      (SYSARG_4, MAP_PRIVATE_ANONYMOUS), (SYSARG_5, - 1), (SYSARG_6, 0)]"
  have "detranslate_sysnum (get_abi t) ''mmap2'' = SYSCALL_AVOIDER"
    using assms(1) in_arm64_table(3) by (simp add: get_abi_def detranslate_sysnum_def detranslate_loop_missing)
  then have e: "translate_brk_enter off t = poke_all ?l (set_sysnum ''mmap'' t)"
    using assms(2,3) by (simp add: translate_brk_enter_def Let_def)
  have num: "get_sysnum beyond (poke_all ?l (set_sysnum ''mmap'' t)) CURRENT = ''mmap''"
    using get_sysnum_wide [OF assms(1)] in_arm64_table
    by (subst get_sysnum_poke_all) (simp_all add: sysarg_regs_def)
  have srt: "sorted_wrt (\<lambda>a b. apart (fst b) (fst a)) ?l" by (simp add: apart_def)
  have "peek_reg (poke_all ?l (set_sysnum ''mmap'' t)) CURRENT q = v" if "(q, v) \<in> set ?l" for q v
    using peek_poke_all [OF that srt] assms(1) by (simp add: reg_norm_def)
  then have args: "sysargs_of (poke_all ?l (set_sysnum ''mmap'' t)) CURRENT = [bss_end t, off, 3, 0x22, - 1, 0]"
    by (simp add: sysargs_of_def sysarg_regs_def PROT_READ_WRITE_def MAP_PRIVATE_ANONYMOUS_def)
  have t2: "heap_of t2 = heap_of t" "\<not> is_aarch32 t2" and r: "peek_reg t2 CURRENT SYSARG_RESULT = r"
    using assms(1,5) by (auto simp: returned_def e)
  have "get_sysnum beyond t2 MODIFIED = get_sysnum beyond (poke_all ?l (set_sysnum ''mmap'' t)) CURRENT"
    using assms(1,5) by (intro get_sysnum_cong) (auto simp: returned_def e)
  then have "translate_brk_exit beyond off t2 =
      poke_reg SYSARG_RESULT (r + off) (t2\<lparr>heap_of := (heap_of t)\<lparr>heap_base := r + off, heap_size := 0\<rparr>\<rparr>)"
    using assms(2) t2 r num aligned_not_errno [OF assms(4)]
    by (simp add: translate_brk_exit_def Let_def)
  then show ?thesis
    using num args t2 assms(2) unfolding e by (simp add: peek_poke_same reg_norm_def)
qed

section \<open>Concrete calls\<close>

definition example_heap :: tracee where
  "example_heap = poke_reg SYSARG_1 0x24000
     (example_tracee\<lparr>heap_of := \<lparr>heap_base = 0x20000, heap_size = 0x1000, heap_disabled = False\<rparr>\<rparr>)"

definition after_kernel :: "word_t \<Rightarrow> tracee \<Rightarrow> tracee" where
  "after_kernel r t = poke_reg SYSARG_RESULT r (save_current_regs MODIFIED t)"

lemma after_kernel_returned: "\<not> is_aarch32 t \<Longrightarrow> returned t r (after_kernel r t)"
  by (simp add: returned_def after_kernel_def save_current_regs_def peek_poke_same reg_norm_def)

lemma brk_enter_aarch32 [simp]: "is_aarch32 (translate_brk_enter off t) = is_aarch32 t"
  by (simp add: translate_brk_enter_def Let_def)

lemma brk_refines_witness:
  "heap_size (heap_of (translate_brk_exit (\<lambda>_. ''void'') 0x1000
     (after_kernel 0x1F000 (translate_brk_enter 0x1000 example_heap)))) = 0x4000"
proof -
  have h: "\<not> is_aarch32 example_heap"
    "heap_of example_heap = \<lparr>heap_base = 0x20000, heap_size = 0x1000, heap_disabled = False\<rparr>"
    "peek_reg example_heap CURRENT SYSARG_1 = 0x24000"
    by (simp_all add: example_heap_def example_tracee_def peek_poke_same reg_norm_def)
  have "returned (translate_brk_enter 0x1000 example_heap) 0x1F000
      (after_kernel 0x1F000 (translate_brk_enter 0x1000 example_heap))"
    using h(1) by (intro after_kernel_returned) simp
  from brk_refines [OF h(1,2) _ _ h(3) this, of "\<lambda>_. ''void''"] show ?thesis
    by (simp add: brk_spec_def)
qed

definition example_first :: tracee where
  "example_first = poke_reg SYSARG_1 0 example_tracee"

lemma brk_first_witness:
  "heap_of (translate_brk_exit (\<lambda>_. ''void'') 0x1000
     (after_kernel 0x10000 (translate_brk_enter 0x1000 example_first))) =
   \<lparr>heap_base = 0x11000, heap_size = 0, heap_disabled = False\<rparr>"
proof -
  have h: "\<not> is_aarch32 example_first"
    "heap_of example_first = \<lparr>heap_base = 0, heap_size = 0, heap_disabled = False\<rparr>"
    "peek_reg example_first CURRENT SYSARG_1 = 0"
    by (simp_all add: example_first_def example_tracee_def peek_poke_same reg_norm_def)
  have "returned (translate_brk_enter 0x1000 example_first) 0x10000
      (after_kernel 0x10000 (translate_brk_enter 0x1000 example_first))"
    using h(1) by (intro after_kernel_returned) simp
  from brk_first_call [OF h _ this, of "\<lambda>_. ''void''"] show ?thesis by simp
qed

end
