(* ===== verification/Guest.thy ===== *)
theory Guest
  imports Mounts Netlink Heap
begin

text \<open>
  The state that the two stages of a system call work on: the registers and the memory of a tracee, its file
  name space, its \<open>status\<close> (0 between two calls), and its fields for emulated namespaces and sockets. On it the helpers of \<open>syscall/enter.c\<close>:
  translated path arguments, emulated mounts and netlink answers. A function that returns a C status gives
  an \<open>int\<close>.
\<close>

section \<open>State and environment\<close>

datatype seccomp_mode = DISABLED | DISABLING | ENABLED

record ('k, 'w) guest =
  mach :: "'k machine"
  paths :: "'w path_state"
  clone_stripped_newns :: bool
  fake_netlink_fds :: "int list"
  pending_fake_netlink_socket :: bool
  fake_netlink_reply :: "byte list"
  netlink_probe :: "bool option"
  execfn_addr :: word_t
  auxv_fd :: int
  sysexit_pending :: bool
  call_status :: int
  no_new_privs :: bool
  seen_execve :: bool
  seccomp :: seccomp_mode

datatype event =
    SYSCALL_ENTER_START | SYSCALL_ENTER_END int | SYSCALL_EXIT_START | SYSCALL_EXIT_END
  | SYSCALL_CHAINED_ENTER | SYSCALL_CHAINED_EXIT | SIGSYS_OCC | NEW_STATUS int

text \<open>
  What the tracee cannot change: the kernel below its memory, the environment of the paths, the value
  beyond a table of numbers, the answers of \<open>lstat\<close> on a directory (its search permission for the owner),
  of \<open>create_temp_name\<close> with \<open>mktemp\<close>, of the host's network with the two calls of the netlink probe, whether
  the kernel reports seccomp events, the offset of the emulated heap in its pages; then the callbacks of the extensions in the order of their list.
\<close>

record ('k, 'w) host =
  h_mem :: "'k kernel"
  h_env :: "'w env"
  h_beyond :: "abi \<Rightarrow> sysnum"
  h_lstat :: "'w \<Rightarrow> string \<Rightarrow> bool res"
  h_temp_name :: "'w \<Rightarrow> (string \<times> string) option"
  h_net :: "'w \<Rightarrow> net"
  h_probe :: "'w \<Rightarrow> bool \<times> bool"
  h_seccomp_ptrace_event :: bool
  h_heap_offset :: word_t
  h_callbacks :: "(event \<Rightarrow> ('k, 'w) guest \<Rightarrow> int \<times> ('k, 'w) guest) list"

definition status_of :: "'a res \<Rightarrow> int" where
  "status_of r = (case r of Inl err \<Rightarrow> neg err | Inr _ \<Rightarrow> 0)"

definition regs_of :: "('k, 'w) guest \<Rightarrow> tracee" where
  "regs_of g = tr (mach g)"

definition on_regs :: "(tracee \<Rightarrow> tracee) \<Rightarrow> ('k, 'w) guest \<Rightarrow> ('k, 'w) guest" where
  "on_regs f g = g\<lparr>mach := (mach g)\<lparr>tr := f (tr (mach g))\<rparr>\<rparr>"

definition on_mach :: "('k machine \<Rightarrow> 'a \<times> 'k machine) \<Rightarrow> ('k, 'w) guest \<Rightarrow> 'a \<times> ('k, 'w) guest" where
  "on_mach f g = (let (x, m) = f (mach g) in (x, g\<lparr>mach := m\<rparr>))"

definition on_paths :: "('w path_state \<Rightarrow> 'a \<times> 'w path_state) \<Rightarrow> ('k, 'w) guest \<Rightarrow> 'a \<times> ('k, 'w) guest" where
  "on_paths f g = (let (x, s) = f (paths g) in (x, g\<lparr>paths := s\<rparr>))"

text \<open>A register of the current version, and the two writes that make a call do nothing with a result.\<close>

definition sysarg :: "('k, 'w) guest \<Rightarrow> reg \<Rightarrow> word_t" where
  "sysarg g r = peek_reg (regs_of g) CURRENT r"

definition poke :: "reg \<Rightarrow> word_t \<Rightarrow> ('k, 'w) guest \<Rightarrow> ('k, 'w) guest" where
  "poke r w g = on_regs (poke_reg r w) g"

definition void_call :: "word_t \<Rightarrow> ('k, 'w) guest \<Rightarrow> ('k, 'w) guest" where
  "void_call result g = on_regs (set_sysnum ''void'') (poke SYSARG_RESULT result g)"

definition force_sysexit :: "('k, 'w) guest \<Rightarrow> ('k, 'w) guest" where
  "force_sysexit g = on_regs (\<lambda>t. t\<lparr>restart_how := PTRACE_SYSCALL\<rparr>) (g\<lparr>sysexit_pending := True\<rparr>)"

text \<open>\<open>notify_extensions\<close>.\<close>

fun notify ::
  "(event \<Rightarrow> ('k, 'w) guest \<Rightarrow> int \<times> ('k, 'w) guest) list \<Rightarrow> event \<Rightarrow> ('k, 'w) guest \<Rightarrow> int \<times> ('k, 'w) guest"
where
  "notify [] event g = (0, g)"
| "notify (callback # cs) event g =
     (let (status, g) = callback event g in if status \<noteq> 0 then (status, g) else notify cs event g)"

section \<open>Path arguments\<close>

datatype path_type = REGULAR | SYMLINK

definition translate_path2 ::
  "('k, 'w) host \<Rightarrow> int \<Rightarrow> string \<Rightarrow> reg \<Rightarrow> path_type \<Rightarrow> ('k, 'w) guest \<Rightarrow> int \<times> ('k, 'w) guest" where
  "translate_path2 h dir_fd path r type g =
     (if path = [] then (0, g)
      else
        (case on_paths (translate_path (h_env h) dir_fd path (type \<noteq> SYMLINK)) g of
           (Inl err, g) \<Rightarrow> (neg err, g)
         | (Inr new_path, g) \<Rightarrow>
             (let (res, g) = on_mach (set_sysarg_path (h_mem h) new_path r) g in (status_of res, g))))"

definition translate_sysarg ::
  "('k, 'w) host \<Rightarrow> reg \<Rightarrow> path_type \<Rightarrow> ('k, 'w) guest \<Rightarrow> int \<times> ('k, 'w) guest" where
  "translate_sysarg h r type g =
     (case get_sysarg_path (h_mem h) r (mach g) of
        Inl err \<Rightarrow> (neg err, g)
      | Inr old_path \<Rightarrow> translate_path2 h AT_FDCWD old_path r type g)"

section \<open>Emulated mounts\<close>

text \<open>The buffer for the type of the file system has 256 bytes, the last one pinned to 0.\<close>

definition fstype_of :: "('k, 'w) host \<Rightarrow> ('k, 'w) guest \<Rightarrow> string" where
  "fstype_of h g =
     (let fstype_addr = sysarg g SYSARG_3 in
      if fstype_addr = 0 then []
      else
        (case read_string (h_mem h) fstype_addr 255 (mach g) of
           Inl _ \<Rightarrow> []
         | Inr (bs, _) \<Rightarrow> string_of_bytes bs))"

definition apply_emulated_mount :: "('k, 'w) host \<Rightarrow> ('k, 'w) guest \<Rightarrow> ('k, 'w) guest" where
  "apply_emulated_mount h g =
     (case get_sysarg_path (h_mem h) SYSARG_1 (mach g) of
        Inl _ \<Rightarrow> g
      | Inr src_user \<Rightarrow>
          (case get_sysarg_path (h_mem h) SYSARG_2 (mach g) of
             Inl _ \<Rightarrow> g
           | Inr target_user \<Rightarrow>
               g\<lparr>paths := emulate_mount (h_env h) src_user target_user (fstype_of h g) (sysarg g SYSARG_4) (paths g)\<rparr>))"

definition apply_emulated_umount :: "('k, 'w) host \<Rightarrow> ('k, 'w) guest \<Rightarrow> ('k, 'w) guest" where
  "apply_emulated_umount h g =
     (case get_sysarg_path (h_mem h) SYSARG_1 (mach g) of
        Inl _ \<Rightarrow> g
      | Inr target_user \<Rightarrow> g\<lparr>paths := emulate_umount (h_env h) target_user (paths g)\<rparr>)"

definition apply_emulated_pivot_root :: "('k, 'w) host \<Rightarrow> ('k, 'w) guest \<Rightarrow> ('k, 'w) guest" where
  "apply_emulated_pivot_root h g =
     (case get_sysarg_path (h_mem h) SYSARG_1 (mach g) of
        Inl _ \<Rightarrow> g
      | Inr new_root_user \<Rightarrow>
          (case get_sysarg_path (h_mem h) SYSARG_2 (mach g) of
             Inl _ \<Rightarrow> g
           | Inr put_old_user \<Rightarrow>
               g\<lparr>paths := emulate_pivot_root (h_env h) new_root_user put_old_user (paths g)\<rparr>))"

section \<open>Descriptors of emulated netlink sockets\<close>

definition MAX_FAKE_NETLINK_FDS :: nat where "MAX_FAKE_NETLINK_FDS = 8"

text \<open>The probe is made once; its outcome is a static variable.\<close>

definition host_blocks_af_netlink :: "('k, 'w) host \<Rightarrow> ('k, 'w) guest \<Rightarrow> bool \<times> ('k, 'w) guest" where
  "host_blocks_af_netlink h g =
     (case netlink_probe g of
        Some blocked \<Rightarrow> (blocked, g)
      | None \<Rightarrow>
          (let (socket_ok, bind_ok) = h_probe h (world (paths g)); blocked = (\<not> socket_ok \<or> \<not> bind_ok) in
           (blocked, g\<lparr>netlink_probe := Some blocked\<rparr>)))"

definition is_fake_netlink_fd :: "('k, 'w) guest \<Rightarrow> int \<Rightarrow> bool" where
  "is_fake_netlink_fd g fd = (fd \<ge> 0 \<and> fd \<in> set (fake_netlink_fds g))"

text \<open>The last descriptor takes the place of the first one that is equal.\<close>

fun unmark_fd :: "int \<Rightarrow> int list \<Rightarrow> int list" where
  "unmark_fd fd [] = []"
| "unmark_fd fd (x # xs) =
     (if x = fd then (if xs = [] then [] else last xs # butlast xs) else x # unmark_fd fd xs)"

definition unmark_fake_netlink_fd :: "int \<Rightarrow> ('k, 'w) guest \<Rightarrow> ('k, 'w) guest" where
  "unmark_fake_netlink_fd fd g = g\<lparr>fake_netlink_fds := unmark_fd fd (fake_netlink_fds g)\<rparr>"

section \<open>Answers on emulated netlink sockets\<close>

text \<open>\<open>struct sockaddr_nl\<close> with a port, 12 bytes.\<close>

definition sockaddr_nl :: "u32 \<Rightarrow> byte list" where
  "sockaddr_nl nl_pid = le 2 (16 :: u16) @ [0, 0] @ le 4 nl_pid @ le 4 (0 :: u32)"

definition tracee_port :: "('k, 'w) host \<Rightarrow> u32" where
  "tracee_port h = word_of_int (tracee_pid (h_env h))"

text \<open>The value of \<open>peek_word\<close>, -1 when \<open>ptrace\<close> fails, with the success.\<close>

definition peeked :: "('k, 'w) host \<Rightarrow> word_t \<Rightarrow> ('k, 'w) guest \<Rightarrow> word_t \<times> bool" where
  "peeked h address g =
     (case peek_word (h_mem h) address (mach g) of
        Inr w \<Rightarrow> (w, True)
      | Inl _ \<Rightarrow> (if is_32on64_mode (regs_of g) then 0xFFFFFFFF else - 1, False))"

definition write_fake_netlink_sockname ::
  "('k, 'w) host \<Rightarrow> word_t \<Rightarrow> word_t \<Rightarrow> ('k, 'w) guest \<Rightarrow> int \<times> ('k, 'w) guest" where
  "write_fake_netlink_sockname h addr_ptr size_ptr g =
     (if size_ptr = 0 then (neg EINVAL, g)
      else
        (case peek_uint (h_mem h) 4 size_ptr (mach g) of
           Inl err \<Rightarrow> (neg err, g)
         | Inr in_size \<Rightarrow>
             (let snl = sockaddr_nl (tracee_port h);
                  (res, g) =
                    (if addr_ptr \<noteq> 0 \<and> in_size > 0
                     then on_mach (write_data (h_mem h) addr_ptr (take (min (unat in_size) 12) snl)) g
                     else (Inr (), g)) in
              case res of
                Inl _ \<Rightarrow> (neg EFAULT, g)
              | Inr _ \<Rightarrow> (let (res, g) = on_mach (poke_uint (h_mem h) 4 size_ptr 12) g in (status_of res, g)))))"

text \<open>\<open>scatter_fake_netlink_reply\<close>: the remaining elements of the vector, the address of the next one and
  the bytes that are left of the reply.\<close>

fun scatter ::
  "('k, 'w) host \<Rightarrow> nat \<Rightarrow> word_t \<Rightarrow> byte list \<Rightarrow> nat \<Rightarrow> ('k, 'w) guest \<Rightarrow> nat \<times> ('k, 'w) guest"
where
  "scatter h 0 iov reply n g = (n, g)"
| "scatter h (Suc iov_count) iov reply n g =
     (if reply = [] then (n, g)
      else
        (let w = of_nat (sizeof_word (regs_of g));
             (base, ok) = peeked h iov g;
             len = (if ok then fst (peeked h (iov + w) g) else 0);
             chunk = min (length reply) (unat len);
             (res, g) = (if base \<noteq> 0 \<and> chunk > 0 then on_mach (write_data (h_mem h) base (take chunk reply)) g
                         else (Inr (), g)) in
         case res of
           Inl _ \<Rightarrow> (n, g)
         | Inr _ \<Rightarrow> scatter h iov_count (iov + 2 * w) (drop chunk reply) (n + chunk) g))"

definition scatter_fake_netlink_reply ::
  "('k, 'w) host \<Rightarrow> word_t \<Rightarrow> word_t \<Rightarrow> ('k, 'w) guest \<Rightarrow> nat \<times> ('k, 'w) guest" where
  "scatter_fake_netlink_reply h iov_ptr iov_count g = scatter h (unat iov_count) iov_ptr (fake_netlink_reply g) 0 g"

text \<open>\<open>build_fake_netlink_reply\<close> on the tracee; a read outside of a datagram of the host is \<open>None\<close>.\<close>

definition netlink_request :: "('k, 'w) host \<Rightarrow> word_t \<Rightarrow> word_t \<Rightarrow> ('k, 'w) guest \<Rightarrow> ('k, 'w) guest option" where
  "netlink_request h buf_addr buf_len g =
     map_option (\<lambda>reply. g\<lparr>fake_netlink_reply := reply\<rparr>)
       (build_fake_netlink_reply (h_mem h) (h_net h (world (paths g))) (tracee_port h) buf_addr buf_len (mach g))"

definition SIOCGIFINDEX :: word_t where "SIOCGIFINDEX = 0x8933"

definition maybe_fake_siocgifindex ::
  "('k, 'w) host \<Rightarrow> word_t \<Rightarrow> word_t \<Rightarrow> ('k, 'w) guest \<Rightarrow> bool \<times> ('k, 'w) guest" where
  "maybe_fake_siocgifindex h cmd arg g =
     (if cmd \<noteq> SIOCGIFINDEX \<or> arg = 0 then (False, g)
      else
        (case read_data (h_mem h) arg IFNAMSIZ (mach g) of
           Inl _ \<Rightarrow> (False, g)
         | Inr bs \<Rightarrow>
             (let ifname = string_of_bytes (take (IFNAMSIZ - 1) bs);
                  ifindex = n_index (h_net h (world (paths g))) ifname in
              if ifindex \<le> 0 \<and> ifname \<noteq> ''lo'' then (False, g)
              else
                (let ifindex = (if ifindex \<le> 0 then 1 else ifindex);
                     (res, g) = on_mach (write_data (h_mem h) (arg + of_nat IFNAMSIZ)
                                  (le 4 (word_of_int ifindex :: u32))) g in
                 (case res of Inl _ \<Rightarrow> False | Inr _ \<Rightarrow> True, g)))))"

section \<open>Files of user namespaces\<close>

definition is_proc_userns_file :: "string \<Rightarrow> bool" where
  "is_proc_userns_file path =
     (if take 6 path \<noteq> ''/proc/'' then False
      else
        (let p = drop 6 path;
             suffix =
               (if take 5 p = ''self/'' then Some (drop 5 p)
                else
                  (let rest = dropWhile is_digit p in
                   if rest = p \<or> c_at rest 0 \<noteq> CHR ''/'' then None else Some (drop 1 rest))) in
         suffix \<in> {Some ''uid_map'', Some ''gid_map'', Some ''setgroups''}))"

definition maybe_redirect_userns_file :: "('k, 'w) host \<Rightarrow> reg \<Rightarrow> ('k, 'w) guest \<Rightarrow> ('k, 'w) guest" where
  "maybe_redirect_userns_file h r g =
     (case get_sysarg_path (h_mem h) r (mach g) of
        Inl _ \<Rightarrow> g
      | Inr host_path \<Rightarrow>
          if \<not> is_proc_userns_file host_path then g
          else snd (on_mach (set_sysarg_path (h_mem h) ''/dev/null'' r) g))"

section \<open>A path in the memory of a tracee\<close>

lemma unat_untag: "unat (untag_pointer y) = unat y mod 72057594037927936"
proof -
  have "(0x00FFFFFFFFFFFFFF :: word_t) = mask 56" by (simp add: mask_eq_exp_minus_1)
  then have "untag_pointer y = take_bit 56 y" by (simp add: untag_pointer_def take_bit_eq_mask)
  then show ?thesis by (simp only: unsigned_take_bit_eq) (simp add: take_bit_eq_mod)
qed

lemma untag_add:
  assumes "unat x + n < 2 ^ 64" "n < 2 ^ 55"
  shows "\<exists>j. (j = n \<or> j = n + 18374686479671623680) \<and> untag_pointer (x + of_nat n) = untag_pointer x + of_nat j"
proof -
  have n: "unat (x + of_nat n) = unat x + n" using assms(1) by (simp add: unat_word_ariths(1) unat_of_nat)
  let ?m = "unat x mod 72057594037927936"
  have w: "untag_pointer y = of_nat (unat y mod 72057594037927936)" for y
    unfolding unat_untag [symmetric] by simp
  have m: "?m < 72057594037927936" by simp
  have e: "(unat x + n) mod 72057594037927936 = (?m + n) mod 72057594037927936" by (simp only: mod_add_left_eq)
  have "(unat x + n) mod 72057594037927936 = ?m + n \<or>
      (unat x + n) mod 72057594037927936 + 2 ^ 64 = ?m + (n + 18374686479671623680)"
  proof (cases "?m + n < 72057594037927936")
    case True
    then show ?thesis unfolding e by (simp only: mod_less) simp
  next
    case False
    then have "?m + n - 72057594037927936 < 72057594037927936" using m assms(2) by simp
    then have "(?m + n) mod 72057594037927936 = ?m + n - 72057594037927936"
      using False by (simp only: le_mod_geq not_less mod_less)
    with False show ?thesis unfolding e by simp
  qed
  then show ?thesis
  proof
    assume "(unat x + n) mod 72057594037927936 = ?m + n"
    then show ?thesis unfolding w [of "x + of_nat n"] w [of x] n by (intro exI [of _ n]) simp
  next
    assume e: "(unat x + n) mod 72057594037927936 + 2 ^ 64 = ?m + (n + 18374686479671623680)"
    have z: "(of_nat (2 ^ 64) :: word_t) = 0" by simp
    have "(of_nat ((unat x + n) mod 72057594037927936) :: word_t) = of_nat ((unat x + n) mod 72057594037927936 + 2 ^ 64)"
      by (simp only: of_nat_add z add_0_right)
    also have "\<dots> = of_nat ?m + of_nat (n + 18374686479671623680)" unfolding e by (rule of_nat_add)
    finally show ?thesis
      unfolding w [of "x + of_nat n"] w [of x] n by (intro exI [of _ "n + 18374686479671623680"]) simp
  qed
qed

text \<open>What lies below the stack pointer does not reach what lies above it, tags or not.\<close>

lemma untag_apart:
  assumes "unat x + n < 2 ^ 64" "n < 2 ^ 55" "i < 2 ^ 55"
  shows "n \<le> unat (untag_pointer (x + of_nat n) + of_nat i - untag_pointer x)"
proof -
  obtain j where j: "j = n \<or> j = n + 18374686479671623680"
      "untag_pointer (x + of_nat n) = untag_pointer x + of_nat j"
    using untag_add [OF assms(1,2)] by blast
  have "j + i < 2 ^ 64" using j(1) assms(2,3) by auto
  then have "unat (of_nat (j + i) :: word_t) = j + i" by (simp add: unat_of_nat del: of_nat_add)
  moreover have "untag_pointer (x + of_nat n) + of_nat i - untag_pointer x = of_nat (j + i)"
    by (simp add: j(2))
  ultimately have "unat (untag_pointer (x + of_nat n) + of_nat i - untag_pointer x) = j + i"
    by (simp only:)
  then show ?thesis using j(1) by linarith
qed

definition points_to :: "('k \<Rightarrow> memory) \<Rightarrow> ('k, 'w) guest \<Rightarrow> reg \<Rightarrow> string \<Rightarrow> bool" where
  "points_to v g r p \<longleftrightarrow>
     (let a = untag_pointer (sysarg g r); b = v (krn (mach g)) in
      present b a (Suc (length p)) \<and> bytes_at b a (Suc (length p)) = bytes_of_string p)"

definition argument_regs :: "reg list" where
  "argument_regs = [SYSARG_1, SYSARG_2, SYSARG_3, SYSARG_4, SYSARG_5, SYSARG_6]"

text \<open>What any attempt to set a path does: it lowers the stack pointer and writes below it.\<close>

definition lowered :: "('k \<Rightarrow> memory) \<Rightarrow> nat \<Rightarrow> 'k machine \<Rightarrow> 'k machine \<Rightarrow> bool" where
  "lowered v n m m' \<longleftrightarrow>
     (let sp = peek_reg (tr m) CURRENT STACK_POINTER; sp' = peek_reg (tr m') CURRENT STACK_POINTER in
      unat sp' + n = unat sp \<and> dom (v (krn m')) = dom (v (krn m)) \<and>
      (\<forall>x. n \<le> unat (x - untag_pointer sp') \<longrightarrow> v (krn m') x = v (krn m) x))"

lemma set_sysarg_path_effect:
  assumes "memory_laws k v" "steady m" "length path < 4096" "r \<in> set argument_regs"
    and "set_sysarg_path k path r m = (res, m')"
  shows "steady m' \<and> is_aarch32 (tr m') = is_aarch32 (tr m) \<and>
    (\<forall>q. apart r q \<and> apart STACK_POINTER q \<longrightarrow> peek_reg (tr m') CURRENT q = peek_reg (tr m) CURRENT q) \<and>
    (m' = m \<or> lowered v (Suc (length path)) m m') \<and>
    (case res of
       Inl _ \<Rightarrow> peek_reg (tr m') CURRENT r = peek_reg (tr m) CURRENT r
     | Inr _ \<Rightarrow> lowered v (Suc (length path)) m m' \<and>
         (let sp = peek_reg (tr m') CURRENT STACK_POINTER in
          peek_reg (tr m') CURRENT r = sp \<and> present (v (krn m)) (untag_pointer sp) (Suc (length path)) \<and>
          v (krn m') = put_bytes (v (krn m)) (untag_pointer sp) (bytes_of_string path)))"
proof -
  let ?n = "Suc (length path)"
  let ?bs = "bytes_of_string path"
  have n: "length ?bs = ?n" by (simp add: bytes_of_string_def)
  obtain ptr m1 where a: "alloc_mem (int ?n) m = (ptr, m1)" by fastforce
  have ap: "apart r STACK_POINTER" "apart STACK_POINTER r" using assms(4) by (auto simp: apart_def argument_regs_def)
  show ?thesis
  proof (cases "ptr = 0")
    case True
    have "m1 = m" using a True by (auto simp: alloc_mem_def Let_def RED_ZONE_SIZE_def split: if_splits)
    then have "res = Inl EFAULT" "m' = m" using assms(5) a True by (simp_all add: set_sysarg_path_def set_sysarg_data_def n)
    then show ?thesis using assms(2) by simp
  next
    case False
    have al: "ptr = peek_reg (tr m) CURRENT STACK_POINTER - of_nat ?n"
      "m1 = m\<lparr>tr := poke_reg STACK_POINTER ptr (tr m)\<rparr>"
      "unat ptr + ?n = unat (peek_reg (tr m) CURRENT STACK_POINTER)" "reg_norm (tr m) ptr = ptr"
      using alloc_mem_ok [OF a False] assms(3) by simp_all
    have st: "steady m1" "krn m1 = krn m" using assms(2) al(2) by (simp_all add: steady_def)
    obtain r2 m2 where w: "write_data k ptr ?bs m1 = (r2, m2)" by fastforce
    have res: "res = r2" "m' = (case r2 of Inl _ \<Rightarrow> m2 | Inr _ \<Rightarrow> m2\<lparr>tr := poke_reg r ptr (tr m2)\<rparr>)"
      using assms(5) a False w by (auto simp: set_sysarg_path_def set_sysarg_data_def n split: sum.splits)
    have len: "length ?bs < 2 ^ 64" using assms(3) by (simp add: n)
    from write_data_steady [OF assms(1) st(1) len w] obtain s where s: "m2 = m1\<lparr>krn := s\<rparr>"
        "dom (v s) = dom (v (krn m))"
        "case r2 of Inr _ \<Rightarrow> present (v (krn m)) (untag_pointer ptr) ?n \<and> v s = put_bytes (v (krn m)) (untag_pointer ptr) ?bs
         | Inl e \<Rightarrow> \<forall>x. ?n \<le> unat (x - untag_pointer ptr) \<longrightarrow> v s x = v (krn m) x"
      by (cases r2) (auto simp: st(2) n)
    have krn': "krn m' = s" using res(2) s(1) al(2) by (simp split: sum.splits)
    have tr': "tr m' = (case r2 of Inl _ \<Rightarrow> poke_reg STACK_POINTER ptr (tr m)
        | Inr _ \<Rightarrow> poke_reg r ptr (poke_reg STACK_POINTER ptr (tr m)))"
      using res(2) s(1) al(2) by (simp split: sum.splits)
    have sp: "peek_reg (tr m') CURRENT STACK_POINTER = ptr"
      unfolding tr' using al(4) ap by (simp add: peek_poke_other peek_poke_same split: sum.splits)
    have "\<forall>x. ?n \<le> unat (x - untag_pointer ptr) \<longrightarrow> v s x = v (krn m) x"
      using s(3) by (auto simp: put_bytes_def n split: sum.splits)
    then have low: "lowered v ?n m m'"
      unfolding lowered_def Let_def sp krn' using al(3) s(2) by blast
    have "steady m'" using st(1) s(1) res(2) by (simp add: steady_def split: sum.splits)
    moreover have "is_aarch32 (tr m') = is_aarch32 (tr m)" unfolding tr' by (simp split: sum.splits)
    moreover have "\<forall>q. apart r q \<and> apart STACK_POINTER q \<longrightarrow> peek_reg (tr m') CURRENT q = peek_reg (tr m) CURRENT q"
      unfolding tr' by (simp add: peek_poke_other split: sum.splits)
    ultimately show ?thesis
    proof (cases r2)
      case (Inl e)
      then show ?thesis using \<open>steady m'\<close> low res(1) ap by (simp add: tr' peek_poke_other)
    next
      case (Inr u)
      have "peek_reg (tr m') CURRENT r = ptr"
        unfolding tr' using Inr al(4) by (simp add: peek_poke_same reg_norm_def)
      then show ?thesis using \<open>steady m'\<close> low res(1) Inr s(3) krn' sp
        \<open>is_aarch32 (tr m') = is_aarch32 (tr m)\<close> ap tr' by (simp add: peek_poke_other)
    qed
  qed
qed

text \<open>A path that PRoot has put in the memory, with the stack pointer at most \<open>k\<close> bytes below it.\<close>

definition held :: "('k \<Rightarrow> memory) \<Rightarrow> nat \<Rightarrow> ('k, 'w) guest \<Rightarrow> reg \<Rightarrow> string \<Rightarrow> bool" where
  "held v k g r p \<longleftrightarrow>
     (\<exists>n \<le> k. unat (sysarg g STACK_POINTER) + n < 2 ^ 64 \<and> sysarg g r = sysarg g STACK_POINTER + of_nat n) \<and>
     length p < PATH_MAX \<and> points_to v g r p"

lemma heldD: "held v k g r p \<Longrightarrow> points_to v g r p"
  by (simp add: held_def)

lemma held_mono: "held v k g r p \<Longrightarrow> k \<le> l \<Longrightarrow> held v l g r p"
  unfolding held_def by (meson le_trans)

lemma held_below:
  assumes "held v k g r p" "lowered v n (mach g) (mach g')" "sysarg g' r = sysarg g r" "k + n < 2 ^ 54"
  shows "held v (k + n) g' r p"
proof -
  let ?sp = "sysarg g' STACK_POINTER"
  from assms(1) obtain j where j: "j \<le> k" "unat (sysarg g STACK_POINTER) + j < 2 ^ 64"
      "sysarg g r = sysarg g STACK_POINTER + of_nat j" and p: "length p < PATH_MAX" "points_to v g r p"
    by (auto simp: held_def)
  have low: "unat ?sp + n = unat (sysarg g STACK_POINTER)" "dom (v (krn (mach g'))) = dom (v (krn (mach g)))"
    "\<And>x. n \<le> unat (x - untag_pointer ?sp) \<Longrightarrow> v (krn (mach g')) x = v (krn (mach g)) x"
    using assms(2) by (auto simp: lowered_def Let_def sysarg_def regs_of_def)
  have sp: "sysarg g STACK_POINTER = ?sp + of_nat n" 
    using arg_cong [OF low(1), of "of_nat :: nat \<Rightarrow> word_t"] by simp
  have r: "sysarg g' r = ?sp + of_nat (n + j)" using assms(3) j(3) sp by simp
  have b: "unat ?sp + (n + j) < 2 ^ 64" using low(1) j(2) by simp
  have same: "v (krn (mach g')) (untag_pointer (sysarg g' r) + of_nat i) =
      v (krn (mach g)) (untag_pointer (sysarg g' r) + of_nat i)" if "i < Suc (length p)" for i
  proof (rule low(3))
    have "n + j < 2 ^ 55" "i < 2 ^ 55" using j(1) assms(4) that p(1) by (simp_all add: PATH_MAX_def)
    from untag_apart [OF b this] show "n \<le> unat (untag_pointer (sysarg g' r) + of_nat i - untag_pointer ?sp)"
      unfolding r by linarith
  qed
  have "bytes_at (v (krn (mach g'))) (untag_pointer (sysarg g' r)) (Suc (length p)) =
      bytes_at (v (krn (mach g))) (untag_pointer (sysarg g' r)) (Suc (length p))"
    unfolding bytes_at_def by (rule map_cong) (simp_all add: same del: upt_Suc)
  then have "points_to v g' r p"
    using p(2) same assms(3) by (simp add: points_to_def Let_def present_def)
  then show ?thesis using r b p(1) j(1) by (auto simp: held_def intro!: exI [of _ "n + j"])
qed

lemma on_mach_eq: "on_mach f g = (x, g') \<longleftrightarrow> (\<exists>m. f (mach g) = (x, m) \<and> g' = g\<lparr>mach := m\<rparr>)"
  by (auto simp: on_mach_def split: prod.splits)

lemma set_path_held:
  assumes "memory_laws (h_mem h) v" "steady (mach g)" "length path < PATH_MAX" "r \<in> set argument_regs"
    and "on_mach (set_sysarg_path (h_mem h) path r) g = (res, g')"
  shows "steady (mach g')" "\<And>q. apart r q \<Longrightarrow> apart STACK_POINTER q \<Longrightarrow> sysarg g' q = sysarg g q"
    "res = Inr () \<Longrightarrow> held v 0 g' r path"
    "held v k g q p \<Longrightarrow> q \<in> set argument_regs \<Longrightarrow> q \<noteq> r \<or> res \<noteq> Inr () \<Longrightarrow> k + 4096 < 2 ^ 54 \<Longrightarrow>
      held v (k + 4096) g' q p"
proof -
  obtain m where m: "set_sysarg_path (h_mem h) path r (mach g) = (res, m)" "g' = g\<lparr>mach := m\<rparr>"
    using assms(5) by (auto simp: on_mach_eq)
  note e = set_sysarg_path_effect [OF assms(1,2) assms(3) [unfolded PATH_MAX_def] assms(4) m(1)]
  show "steady (mach g')" and frame: "\<And>q. apart r q \<Longrightarrow> apart STACK_POINTER q \<Longrightarrow> sysarg g' q = sysarg g q"
    using e by (simp_all add: m(2) sysarg_def regs_of_def)
  show "held v 0 g' r path" if "res = Inr ()"
  proof -
    have l: "length (bytes_of_string path) = Suc (length path)" by (simp add: bytes_of_string_def)
    have "bytes_at (put_bytes b a (bytes_of_string path)) a (Suc (length path)) = bytes_of_string path" for b a
      unfolding l [symmetric] by (rule bytes_at_put_same) (use assms(3) in \<open>simp add: l PATH_MAX_def\<close>)
    moreover have "unat (w :: word_t) < 2 ^ 64" for w using unsigned_less [of w] by simp
    ultimately show ?thesis
      using e that assms(3) present_put_bytes
      by (simp add: m(2) held_def points_to_def sysarg_def regs_of_def Let_def del: power_numeral)
  qed
  assume h: "held v k g q p" "q \<in> set argument_regs" "q \<noteq> r \<or> res \<noteq> Inr ()" "k + 4096 < 2 ^ 54"
  have same: "sysarg g' q = sysarg g q"
  proof (cases "q = r")
    case True
    then obtain err where "res = Inl err" using h(3) by (cases res) auto
    then show ?thesis using e True by (simp add: m(2) sysarg_def regs_of_def)
  next
    case False
    then have "apart r q" "apart STACK_POINTER q"
      using h(2) assms(4) by (auto simp: apart_def argument_regs_def)
    then show ?thesis by (rule frame)
  qed
  have n: "k + Suc (length path) \<le> k + 4096" using assms(3) by (simp add: PATH_MAX_def)
  show "held v (k + 4096) g' q p"
  proof (cases "m = mach g")
    case True
    then have "g' = g" by (simp add: m(2))
    then show ?thesis using held_mono [OF h(1)] by simp
  next
    case False
    then have "lowered v (Suc (length path)) (mach g) (mach g')" using e by (simp add: m(2))
    from held_below [OF h(1) this same] n h(4) show ?thesis by (intro held_mono [OF _ n]) simp
  qed
qed

section \<open>Translated arguments\<close>

definition guest_ok :: "('k \<Rightarrow> memory) \<Rightarrow> ('k, 'w) host \<Rightarrow> ('k, 'w) guest \<Rightarrow> bool" where
  "guest_ok v h g \<longleftrightarrow>
     memory_laws (h_mem h) v \<and> steady (mach g) \<and> kernel_ok (h_env h) \<and>
     callbacks_ok (h_env h) \<and>
     wf_fs (fs_of (paths g)) \<and> plain_hosts (fs_of (paths g)) \<and> text_ok (cwd (fs_of (paths g)))"

lemma guest_ok_step:
  assumes "guest_ok v h g" "steady (mach g')" "fs_of (paths g') = fs_of (paths g)"
  shows "guest_ok v h g'"
  using assms by (simp add: guest_ok_def)

lemma string_of_bytes_cstr: "cstr (string_of_bytes bs)"
proof -
  have "(CHR 0x00 :: char) \<noteq> char_of (unat b)" if "b \<noteq> 0" for b :: byte
  proof
    assume "(CHR 0x00 :: char) = char_of (unat b)"
    then have "char_of (unat b) = (CHR 0x00 :: char)" by (rule sym)
    then have "(of_char (char_of (unat b) :: char) :: nat) = of_char (CHR 0x00 :: char)" by simp
    then have "unat b mod 256 = 0" by simp
    moreover have "unat b < 2 ^ LENGTH(8)" by (rule unsigned_less)
    ultimately have "unat b = 0" by simp
    then show False using that by (simp add: word_unat_eq_iff)
  qed
  then show ?thesis
    by (intro cstr_def [THEN iffD2] notI) (auto simp only: string_of_bytes_def set_map dest!: set_takeWhileD)
qed

lemma get_sysarg_path_cstr: "get_sysarg_path k r m = Inr p \<Longrightarrow> cstr p"
  by (auto simp: get_sysarg_path_def Let_def res_simps string_of_bytes_cstr split: if_splits)

lemma status_of_nonneg: "0 \<le> status_of r \<longleftrightarrow> (\<exists>x. r = Inr x)"
  by (cases r) (simp_all add: status_of_def neg_signs)

lemma on_paths_eq: "on_paths f g = (x, g') \<longleftrightarrow> (\<exists>s. f (paths g) = (x, s) \<and> g' = g\<lparr>paths := s\<rparr>)"
  by (auto simp: on_paths_def split: prod.splits)

lemma translate_path2_ok:
  assumes "guest_ok v h g" "cstr user" "r \<in> set argument_regs"
    and "translate_path2 h fd user r type g = (status, g')" "0 \<le> status"
  shows "guest_ok v h g' \<and> fs_of (paths g') = fs_of (paths g) \<and>
    (\<forall>q. apart r q \<and> apart STACK_POINTER q \<longrightarrow> sysarg g' q = sysarg g q) \<and>
    (\<forall>k q p. held v k g q p \<longrightarrow> q \<in> set argument_regs \<longrightarrow> q \<noteq> r \<longrightarrow> k + 4096 < 2 ^ 54 \<longrightarrow> held v (k + 4096) g' q p) \<and>
    (if user = [] then g' = g
     else \<exists>p. translate_path (h_env h) fd user (type \<noteq> SYMLINK) (paths g) = (Inr p, paths g') \<and> cstr p \<and> held v 0 g' r p)"
proof (cases "user = []")
  case True
  then have "g' = g" using assms(4) by (simp add: translate_path2_def)
  moreover have "held v k g q p \<Longrightarrow> held v (k + 4096) g q p" for k q p by (erule held_mono) simp
  ultimately show ?thesis using True assms(1) by simp
next
  case False
  obtain tp s where t: "translate_path (h_env h) fd user (type \<noteq> SYMLINK) (paths g) = (tp, s)" by fastforce
  have "tp \<noteq> Inl err" for err
    using assms(4,5) False by (auto simp: translate_path2_def on_paths_def t neg_signs)
  then obtain p where tpI: "tp = Inr p" by (cases tp) auto
  define g1 where "g1 = g\<lparr>paths := s\<rparr>"
  obtain res g2 where o: "on_mach (set_sysarg_path (h_mem h) p r) g1 = (res, g2)" by fastforce
  have e: "status = status_of res" "g2 = g'"
    using assms(4) False o by (simp_all add: translate_path2_def on_paths_def t tpI g1_def)
  note p = t [unfolded tpI] g1_def o [unfolded e(2)] e(1)
  have "0 \<le> status_of res" using p(4) assms(5) by simp
  then obtain u where res: "res = Inr u" unfolding status_of_nonneg ..
  have ok: "memory_laws (h_mem h) v" "steady (mach g)" "kernel_ok (h_env h)" "callbacks_ok (h_env h)"
    "wf_fs (fs_of (paths g))" "plain_hosts (fs_of (paths g))"
    "text_ok (cwd (fs_of (paths g)))" using assms(1) unfolding guest_ok_def by blast+
  have tp: "fs_of s = fs_of (paths g)" "length p < PATH_MAX" "cstr p"
    using translate_path_ok [OF ok(3,5,6,7) assms(2) ok(4) p(1)] by (simp_all add: text_ok_def)
  note e = set_path_held [of h v g1 p r res g', OF _ _ tp(2) assms(3) p(3)]
  have g1: "memory_laws (h_mem h) v" "steady (mach g1)" using ok p(2) by simp_all
  note e = e [OF g1]
  have ps: "paths g' = s" using p(2,3) by (auto simp: on_mach_eq)
  have fs: "fs_of (paths g') = fs_of (paths g)" using ps tp(1) by simp
  have same: "sysarg g1 = sysarg g" "held v k g1 q p = held v k g q p" for k q p
    by (simp_all add: p(2) sysarg_def regs_of_def held_def points_to_def fun_eq_iff)
  have "held v (k + 4096) g' q p" if "held v k g q p" "q \<in> set argument_regs" "q \<noteq> r" "k + 4096 < 2 ^ 54" for k q p
    by (rule e(4)) (use that same in simp_all)
  moreover have "sysarg g' q = sysarg g q" if "apart r q" "apart STACK_POINTER q" for q
    using e(2) [OF that] by (simp add: same)
  moreover have "held v 0 g' r p" by (rule e(3)) (simp add: res)
  moreover have "translate_path (h_env h) fd user (type \<noteq> SYMLINK) (paths g) = (Inr p, paths g')" using p(1) ps by simp
  ultimately show ?thesis using guest_ok_step [OF assms(1) e(1) fs] fs tp(3) False by auto
qed

lemma cstring_at_bytes:
  assumes "present b a (Suc (length s))" "bytes_at b a (Suc (length s)) = bytes_of_string s" "cstr s"
  shows "cstring_at b a (Suc (length s))"
proof -
  have "bytes_at b a (length s) = take (length s) (bytes_of_string s)"
    using assms(2) take_bytes_at [of "length s" "Suc (length s)" b a] by simp
  then have "no_nul b a (length s)"
    using bytes_of_string_nul [OF assms(3)] assms(1) by (auto simp: no_nul_def bytes_of_string_def intro: present_le)
  moreover have "the (b (a + of_nat (length s))) = 0"
    using arg_cong [OF assms(2), of "\<lambda>l. l ! length s"] by (simp add: bytes_of_string_def nth_append)
  ultimately show ?thesis using assms(1) by (auto simp: present_def)
qed

text \<open>A path that is held is what PRoot reads back.\<close>

lemma held_reads:
  assumes "memory_laws (h_mem h) v" "held v k g r p" "cstr p" "get_sysarg_path (h_mem h) r (mach g) = Inr q" "q \<noteq> []"
  shows "q = p"
proof -
  let ?a = "untag_pointer (sysarg g r)" and ?b = "v (krn (mach g))"
  have p: "length p < PATH_MAX" "present ?b ?a (Suc (length p))" "bytes_at ?b ?a (Suc (length p)) = bytes_of_string p"
    using assms(2) by (auto simp: held_def points_to_def Let_def)
  have cs: "cstring_at ?b ?a (Suc (length p))" using cstring_at_bytes [OF p(2,3) assms(3)] .
  have nz: "peek_reg (tr (mach g)) CURRENT r \<noteq> 0" using assms(4,5) by (auto simp: get_sysarg_path_def)
  have a: "?a = untag_pointer (peek_reg (tr (mach g)) CURRENT r)" by (simp add: sysarg_def regs_of_def)
  note ok = read_string_spec [OF assms(1), of "mach g" "peek_reg (tr (mach g)) CURRENT r" mem_PATH_MAX, folded a]
  obtain bs l where y: "read_string (h_mem h) (peek_reg (tr (mach g)) CURRENT r) mem_PATH_MAX (mach g) = Inr (bs, l)"
    "l < mem_PATH_MAX" "q = string_of_bytes (take l bs)"
    using assms(4) nz by (auto simp: get_sysarg_path_def read_path_def Let_def res_simps split: if_splits)
  have "cstring_at ?b ?a l" "take l bs = bytes_at ?b ?a l"
    using ok y(1,2) by (auto simp: read_string_ok_def)
  moreover from this have "l = Suc (length p)" using cstring_unique cs by blast
  ultimately show "q = p" using y(3) p(3) string_of_bytes_of_string [OF assms(3)] by simp
qed

lemma redirect_ok:
  assumes "guest_ok v h g" "r \<in> set argument_regs" "maybe_redirect_userns_file h r g = g'"
  shows "guest_ok v h g' \<and> fs_of (paths g') = fs_of (paths g) \<and>
    (\<forall>k p. held v k g r p \<longrightarrow> cstr p \<longrightarrow> k + 4096 < 2 ^ 54 \<longrightarrow>
       (\<exists>p'. (p' = p \<or> p' = ''/dev/null'' \<and> is_proc_userns_file p) \<and> held v (k + 4096) g' r p')) \<and>
    (get_sysarg_path (h_mem h) r (mach g) = Inr [] \<longrightarrow> g' = g)"
proof (cases "g' = g")
  case True
  have "held v k g r p \<Longrightarrow> held v (k + 4096) g r p" for k p by (erule held_mono) simp
  with True show ?thesis using assms(1) by blast
next
  case False
  then obtain p where p: "get_sysarg_path (h_mem h) r (mach g) = Inr p" "is_proc_userns_file p"
    using assms(3) by (auto simp: maybe_redirect_userns_file_def split: sum.splits if_splits)
  obtain res where s: "on_mach (set_sysarg_path (h_mem h) ''/dev/null'' r) g = (res, g')"
    using assms(3) p by (cases "on_mach (set_sysarg_path (h_mem h) ''/dev/null'' r) g")
      (simp add: maybe_redirect_userns_file_def)
  have l: "length ''/dev/null'' < PATH_MAX" by (simp add: PATH_MAX_def)
  have ok: "memory_laws (h_mem h) v" "steady (mach g)" using assms(1) by (simp_all add: guest_ok_def)
  note e = set_path_held [OF ok l assms(2) s]
  have fs: "fs_of (paths g') = fs_of (paths g)" using s by (auto simp: on_mach_eq)
  have "p \<noteq> []" using p(2) by (auto simp: is_proc_userns_file_def)
  moreover have "\<exists>p'. (p' = q \<or> p' = ''/dev/null'' \<and> is_proc_userns_file q) \<and> held v (k + 4096) g' r p'"
    if "held v k g r q" "cstr q" "k + 4096 < 2 ^ 54" for k q
  proof (cases "res = Inr ()")
    case True
    have "p = q" using held_reads [OF ok(1) that(1,2) p(1)] \<open>p \<noteq> []\<close> .
    then show ?thesis using held_mono [OF e(3) [OF True], of "k + 4096"] p(2) by blast
  next
    case False
    then show ?thesis using e(4) [OF that(1) assms(2) _ that(3)] by blast
  qed
  ultimately show ?thesis using p(1) guest_ok_step [OF assms(1) e(1) fs] fs by auto
qed

end
