(* ===== verification/Socket.thy ===== *)
theory Socket
  imports Guest
begin

text \<open>
  Names of Unix sockets, \<open>syscall/socket.c\<close>: the path in a \<open>struct sockaddr_un\<close> (110 bytes: the family and
  108 bytes of path) is translated when a socket is bound or connected and detranslated when the kernel
  reports an address.
\<close>

section \<open>The code\<close>

definition AF_UNIX :: u16 where "AF_UNIX = 1"
definition offsetof_path :: nat where "offsetof_path = 2"
definition sizeof_path :: nat where "sizeof_path = 108"
definition sizeof_sockaddr_un :: nat where "sizeof_sockaddr_un = 110"

text \<open>\<open>read_sockaddr_un\<close>: the structure, with zeros behind what was read, and its path; \<open>None\<close> is the
  status 0.\<close>

definition read_sockaddr_un ::
  "('k, 'w) host \<Rightarrow> nat \<Rightarrow> word_t \<Rightarrow> int \<Rightarrow> ('k, 'w) guest \<Rightarrow> (byte list \<times> string) option res" where
  "read_sockaddr_un h max_size address n g =
     (if n \<le> int offsetof_path \<or> n > int max_size then Inr None
      else
        (case read_data (h_mem h) address (nat n) (mach g) of
           Inl err \<Rightarrow> Inl err
         | Inr bs \<Rightarrow>
             (let sockaddr = bs @ replicate (sizeof_sockaddr_un - length bs) 0 in
              if u16_at sockaddr 0 \<noteq> AF_UNIX \<or> sockaddr ! offsetof_path = 0 then Inr None
              else Inr (Some (sockaddr, string_of_bytes (take sizeof_path (drop offsetof_path sockaddr)))))))"

text \<open>\<open>strncpy\<close> of a path into the structure.\<close>

definition set_sun_path :: "string \<Rightarrow> byte list \<Rightarrow> byte list" where
  "set_sun_path path sockaddr =
     take offsetof_path sockaddr @ take sizeof_path (bytes_of_string path @ replicate sizeof_path 0)"

text \<open>The host path of a socket whose translation is too long: a binding to a temporary name.\<close>

definition shorter_host_path ::
  "('k, 'w) host \<Rightarrow> string \<Rightarrow> ('k, 'w) guest \<Rightarrow> string res \<times> ('k, 'w) guest" where
  "shorter_host_path h host_path g =
     (case h_temp_name h (world (paths g)) of
        None \<Rightarrow> (Inl EINVAL, g)
      | Some (template, shorter) \<Rightarrow>
          if length template > sizeof_path \<or> length shorter > sizeof_path then (Inl EINVAL, g)
          else
            (case detranslate_path (h_env h) (fs_of (paths g)) host_path None of
               Inl _ \<Rightarrow> (Inl EINVAL, g)
             | Inr (_, user_path) \<Rightarrow> (Inr shorter, g\<lparr>paths := insort_new shorter user_path (paths g)\<rparr>)))"

text \<open>The status is 1 when the address has been replaced.\<close>

definition translate_socketcall_enter ::
  "('k, 'w) host \<Rightarrow> word_t \<Rightarrow> int \<Rightarrow> ('k, 'w) guest \<Rightarrow> int \<times> word_t \<times> ('k, 'w) guest" where
  "translate_socketcall_enter h address n g =
     (if address = 0 then (0, address, g)
      else
        (case read_sockaddr_un h sizeof_sockaddr_un address n g of
           Inl err \<Rightarrow> (neg err, address, g)
         | Inr None \<Rightarrow> (0, address, g)
         | Inr (Some (sockaddr, user_path)) \<Rightarrow>
             (case on_paths (translate_path (h_env h) AT_FDCWD user_path True) g of
                (Inl err, g) \<Rightarrow> (neg err, address, g)
              | (Inr host_path, g) \<Rightarrow>
                  (case (if length host_path > sizeof_path then shorter_host_path h host_path g
                         else (Inr host_path, g)) of
                     (Inl err, g) \<Rightarrow> (neg err, address, g)
                   | (Inr host_path, g) \<Rightarrow>
                       (let (address, g) = on_mach (alloc_mem (int sizeof_sockaddr_un)) g in
                        if address = 0 then (neg EFAULT, address, g)
                        else
                          (case on_mach (write_data (h_mem h) address (set_sun_path host_path sockaddr)) g of
                             (Inl err, g) \<Rightarrow> (neg err, address, g)
                           | (Inr _, g) \<Rightarrow> (1, address, g)))))))"

definition translate_socketcall_exit ::
  "('k, 'w) host \<Rightarrow> word_t \<Rightarrow> word_t \<Rightarrow> word_t \<Rightarrow> ('k, 'w) guest \<Rightarrow> int \<times> ('k, 'w) guest" where
  "translate_socketcall_exit h sock_addr size_addr max_size g =
     (if sock_addr = 0 then (0, g)
      else
        (case peek_uint (h_mem h) 4 size_addr (mach g) of
           Inl err \<Rightarrow> (neg err, g)
         | Inr w \<Rightarrow>
             (let max_size = min (unat max_size) sizeof_sockaddr_un in
              case read_sockaddr_un h max_size sock_addr (c_int w) g of
                Inl err \<Rightarrow> (neg err, g)
              | Inr None \<Rightarrow> (0, g)
              | Inr (Some (sockaddr, path)) \<Rightarrow>
                  (case detranslate_path (h_env h) (fs_of (paths g)) path None of
                     Inl err \<Rightarrow> (neg err, g)
                   | Inr (_, path) \<Rightarrow>
                       (let n = offsetof_path + length path + 1;
                            is_truncated = (n > max_size);
                            n = (if is_truncated then max_size else n) in
                        case on_mach (write_data (h_mem h) sock_addr (take n (set_sun_path path sockaddr))) g of
                          (Inl err, g) \<Rightarrow> (neg err, g)
                        | (Inr _, g) \<Rightarrow>
                            (let n = (if is_truncated then max_size + 1 else n);
                                 (res, g) = on_mach (poke_uint (h_mem h) 4 size_addr (of_nat n)) g in
                             (status_of res, g)))))))"

end
