(* ===== verification/Enter.thy ===== *)
theory Enter
  imports Socket
begin

text \<open>
  The enter stage of a system call, \<open>translate_syscall_enter\<close> of \<open>syscall/enter.c\<close>: one definition per group
  of cases of its switch, then the switch between the two notifications of the extensions.
\<close>

section \<open>Constants\<close>

definition O_CREAT :: word_t where "O_CREAT = 0x40"
definition O_EXCL :: word_t where "O_EXCL = 0x80"
definition O_NOFOLLOW :: word_t where "O_NOFOLLOW = 0x8000"
definition AT_SYMLINK_NOFOLLOW :: word_t where "AT_SYMLINK_NOFOLLOW = 0x100"
definition AT_SYMLINK_FOLLOW :: word_t where "AT_SYMLINK_FOLLOW = 0x400"
definition IN_DONT_FOLLOW :: word_t where "IN_DONT_FOLLOW = 0x02000000"
definition AF_NETLINK :: word_t where "AF_NETLINK = 16"
definition SOCK_CLOEXEC :: word_t where "SOCK_CLOEXEC = 0x80000"
definition MSG_PEEK :: word_t where "MSG_PEEK = 2"
definition MSG_TRUNC :: word_t where "MSG_TRUNC = 0x20"
definition CLONE_NEWNS :: word_t where "CLONE_NEWNS = 0x20000"
definition CLONE_NS_MASK :: word_t where "CLONE_NS_MASK = 0x7E020080"
definition PR_SET_DUMPABLE :: word_t where "PR_SET_DUMPABLE = 4"
definition PR_SET_SECCOMP :: word_t where "PR_SET_SECCOMP = 22"
definition PR_SET_NO_NEW_PRIVS :: word_t where "PR_SET_NO_NEW_PRIVS = 38"
definition PR_GET_NO_NEW_PRIVS :: word_t where "PR_GET_NO_NEW_PRIVS = 39"
definition PR_GET_AUXV :: word_t where "PR_GET_AUXV = 0x41555856"

section \<open>The cases\<close>

text \<open>
  How a case ends: with a status for the label \<open>end\<close>, with a \<open>return\<close> of its own, or with a read outside
  of a buffer of PRoot. The handlers of other components are an argument.
\<close>

datatype outcome = Break int | Leave int | Undefined

record ('k, 'w) handlers =
  execve_enter :: "('k, 'w) guest \<Rightarrow> int \<times> ('k, 'w) guest"
  ptrace_enter :: "('k, 'w) guest \<Rightarrow> int \<times> ('k, 'w) guest"
  wait_enter :: "('k, 'w) guest \<Rightarrow> int \<times> ('k, 'w) guest"

definition enter_execveat ::
  "('k, 'w) handlers \<Rightarrow> ('k, 'w) guest \<Rightarrow> int \<times> ('k, 'w) guest" where
  "enter_execveat hs g =
     (if c_int (sysarg g SYSARG_1) = AT_FDCWD then
        (let g = on_regs (set_sysnum ''execve'') g;
             g = poke SYSARG_1 (sysarg g SYSARG_2) g;
             g = poke SYSARG_2 (sysarg g SYSARG_3) g;
             g = poke SYSARG_3 (sysarg g SYSARG_4) g in
         execve_enter hs g)
      else (neg ENOSYS, g))"

text \<open>\<open>lstat\<close> returns -1 for every error.\<close>

definition enter_chdir :: "('k, 'w) host \<Rightarrow> sysnum \<Rightarrow> ('k, 'w) guest \<Rightarrow> outcome \<times> ('k, 'w) guest" where
  "enter_chdir h num g =
     (case (if num = ''chdir'' then
              bindE (get_sysarg_path (h_mem h) SYSARG_1 (mach g)) (\<lambda>path.
              bindE (join2 path ''.'') (\<lambda>oldpath. Inr (oldpath, AT_FDCWD)))
            else Inr (''.'', c_int (sysarg g SYSARG_1))) of
        Inl err \<Rightarrow> (Break (neg err), g)
      | Inr (oldpath, dirfd) \<Rightarrow>
          (case on_paths (translate_path (h_env h) dirfd oldpath True) g of
             (Inl err, g) \<Rightarrow> (Break (neg err), g)
           | (Inr path, g) \<Rightarrow>
               (case h_lstat h (world (paths g)) path of
                  Inl _ \<Rightarrow> (Break (- 1), g)
                | Inr searchable \<Rightarrow>
                    if \<not> searchable then (Leave (neg EACCES), g)
                    else
                      (case detranslate_path (h_env h) (fs_of (paths g)) path None of
                         Inl err \<Rightarrow> (Break (neg err), g)
                       | Inr (_, path) \<Rightarrow>
                           (Break 0, void_call 0
                              (g\<lparr>paths := (paths g)\<lparr>fs_of := (fs_of (paths g))\<lparr>cwd := chop_finality path\<rparr>\<rparr>\<rparr>))))))"

definition enter_bind_connect :: "('k, 'w) host \<Rightarrow> sysnum \<Rightarrow> ('k, 'w) guest \<Rightarrow> int \<times> ('k, 'w) guest" where
  "enter_bind_connect h num g =
     (if num = ''bind'' \<and> is_fake_netlink_fd g (c_int (sysarg g SYSARG_1)) then (0, void_call 0 g)
      else
        (let (status, address, g) =
               translate_socketcall_enter h (sysarg g SYSARG_2) (c_int (sysarg g SYSARG_3)) g in
         if status \<le> 0 then (status, g)
         else (0, poke SYSARG_3 (of_nat sizeof_sockaddr_un) (poke SYSARG_2 address g))))"

text \<open>The maximal size of an address is kept in the sixth argument, which the call does not use.\<close>

definition enter_accept :: "('k, 'w) host \<Rightarrow> sysnum \<Rightarrow> ('k, 'w) guest \<Rightarrow> int \<times> ('k, 'w) guest" where
  "enter_accept h num g =
     (let special = (num = ''accept'' \<or> num = ''accept4'') in
      if special \<and> peek_reg (regs_of g) ORIGINAL SYSARG_2 = 0 then (0, g)
      else if \<not> special \<and> is_fake_netlink_fd g (c_int (sysarg g SYSARG_1)) then
        (let (rc, g) = write_fake_netlink_sockname h (sysarg g SYSARG_2) (sysarg g SYSARG_3) g in
         (0, void_call (of_c_int rc) g))
      else
        (case peek_word (h_mem h) (peek_reg (regs_of g) ORIGINAL SYSARG_3) (mach g) of
           Inl err \<Rightarrow> (if special then neg EINVAL else neg err, g)
         | Inr w \<Rightarrow> (0, poke SYSARG_6 (of_c_int (c_int w)) g)))"

definition enter_socket :: "('k, 'w) host \<Rightarrow> ('k, 'w) guest \<Rightarrow> int \<times> ('k, 'w) guest" where
  "enter_socket h g =
     (if sysarg g SYSARG_1 = AF_NETLINK \<and> sysarg g SYSARG_3 = 0 then
        (let (blocked, g) = host_blocks_af_netlink h g in
         if \<not> blocked then (0, g)
         else
           (let type = sysarg g SYSARG_2;
                g = poke SYSARG_1 1 g;
                g = poke SYSARG_2 (2 OR (type AND SOCK_CLOEXEC)) g;
                g = poke SYSARG_3 0 g in
            (0, force_sysexit (g\<lparr>pending_fake_netlink_socket := True\<rparr>))))
      else (0, g))"

definition enter_sendto :: "('k, 'w) host \<Rightarrow> ('k, 'w) guest \<Rightarrow> outcome \<times> ('k, 'w) guest" where
  "enter_sendto h g =
     (if is_fake_netlink_fd g (c_int (sysarg g SYSARG_1)) then
        (case netlink_request h (sysarg g SYSARG_2) (sysarg g SYSARG_3) g of
           None \<Rightarrow> (Undefined, g)
         | Some g \<Rightarrow> (Break 0, void_call (sysarg g SYSARG_3) g))
      else (Break 0, g))"

definition enter_sendmsg :: "('k, 'w) host \<Rightarrow> ('k, 'w) guest \<Rightarrow> outcome \<times> ('k, 'w) guest" where
  "enter_sendmsg h g =
     (if is_fake_netlink_fd g (c_int (sysarg g SYSARG_1)) then
        (let msghdr_addr = sysarg g SYSARG_2; w = of_nat (sizeof_word (regs_of g)) in
         if msghdr_addr = 0 then (Break 0, void_call 0 g)
         else
           (let (iov_ptr, ok) = peeked h (msghdr_addr + 2 * w) g;
                iov_count = (if ok then fst (peeked h (msghdr_addr + 3 * w) g) else 0) in
            if iov_ptr \<noteq> 0 \<and> iov_count > 0 then
              (let (base, ok) = peeked h iov_ptr g;
                   len = (if ok then fst (peeked h (iov_ptr + w) g) else 0) in
               case netlink_request h base len g of
                 None \<Rightarrow> (Undefined, g)
               | Some g \<Rightarrow> (Break 0, void_call len g))
            else (Break 0, void_call 0 g)))
      else (Break 0, g))"

text \<open>What a receive leaves of the reply and reports as its length.\<close>

definition take_reply :: "word_t \<Rightarrow> nat \<Rightarrow> ('k, 'w) guest \<Rightarrow> word_t \<times> ('k, 'w) guest" where
  "take_reply flags copied g =
     (let reply_len = length (fake_netlink_reply g);
          g = (if has_flag flags MSG_PEEK then g else g\<lparr>fake_netlink_reply := []\<rparr>) in
      (of_nat (if has_flag flags MSG_TRUNC then reply_len else copied), g))"

definition enter_recvfrom :: "('k, 'w) host \<Rightarrow> ('k, 'w) guest \<Rightarrow> int \<times> ('k, 'w) guest" where
  "enter_recvfrom h g =
     (if is_fake_netlink_fd g (c_int (sysarg g SYSARG_1)) then
        (let buf = sysarg g SYSARG_2; len = sysarg g SYSARG_3; flags = sysarg g SYSARG_4;
             addr_ptr = sysarg g SYSARG_5; size_ptr = sysarg g SYSARG_6;
             reply = fake_netlink_reply g;
             n = (if unat len < length reply then unat len else length reply);
             (res, g) = (if reply \<noteq> [] \<and> buf \<noteq> 0 \<and> n > 0
                         then on_mach (write_data (h_mem h) buf (take n reply)) g else (Inr (), g));
             copied = (if reply \<noteq> [] \<and> buf \<noteq> 0 then (case res of Inl _ \<Rightarrow> 0 | Inr _ \<Rightarrow> n) else 0);
             (result, g) = take_reply flags copied g;
             (_, g) = (if addr_ptr \<noteq> 0 \<and> size_ptr \<noteq> 0
                       then write_fake_netlink_sockname h addr_ptr size_ptr g else (0, g)) in
         (0, void_call result g))
      else (0, g))"

definition write_msg_name :: "('k, 'w) host \<Rightarrow> word_t \<Rightarrow> word_t \<Rightarrow> ('k, 'w) guest \<Rightarrow> ('k, 'w) guest" where
  "write_msg_name h msghdr_addr msg_name g =
     (let w = of_nat (sizeof_word (regs_of g)) in
      case peek_uint (h_mem h) 4 (msghdr_addr + w) (mach g) of
        Inl _ \<Rightarrow> g
      | Inr in_namelen \<Rightarrow>
          if in_namelen = 0 then g
          else
            (let (_, g) = on_mach (write_data (h_mem h) msg_name (take (min (unat in_namelen) 12) (sockaddr_nl 0))) g in
             snd (on_mach (poke_uint (h_mem h) 4 (msghdr_addr + w) 12) g)))"

definition enter_recvmsg :: "('k, 'w) host \<Rightarrow> ('k, 'w) guest \<Rightarrow> int \<times> ('k, 'w) guest" where
  "enter_recvmsg h g =
     (if is_fake_netlink_fd g (c_int (sysarg g SYSARG_1)) then
        (let msghdr_addr = sysarg g SYSARG_2; flags = sysarg g SYSARG_3; w = of_nat (sizeof_word (regs_of g));
             field = (\<lambda>i. if msghdr_addr = 0 then 0
                          else (let (v, ok) = peeked h (msghdr_addr + i * w) g in if ok then v else 0));
             msg_name = field 0; iov_ptr = field 2; iov_count = field 3;
             reply_len = length (fake_netlink_reply g);
             (scattered, g) = (if iov_ptr \<noteq> 0 \<and> iov_count > 0
                               then scatter_fake_netlink_reply h iov_ptr iov_count g else (0, g));
             (result, g) = take_reply flags scattered g;
             g = (if msg_name \<noteq> 0 \<and> msghdr_addr \<noteq> 0 then write_msg_name h msghdr_addr msg_name g else g);
             g = (if msghdr_addr \<noteq> 0
                  then snd (on_mach (poke_uint (h_mem h) 4 (msghdr_addr + 6 * w)
                              (if scattered < reply_len then MSG_TRUNC else 0)) g)
                  else g) in
         (0, void_call result g))
      else (0, g))"

text \<open>
  \<open>socketcall\<close>: the arguments are words at an address. Each \<open>PEEK_WORD\<close> leaves the switch it stands in with
  the error; \<open>SYS_BIND\<close> and \<open>SYS_CONNECT\<close> go on after the inner switch.
\<close>

definition sysarg_addr :: "('k, 'w) guest \<Rightarrow> word_t \<Rightarrow> word_t \<Rightarrow> word_t" where
  "sysarg_addr g args_addr n = args_addr + (n - 1) * of_nat (sizeof_word (regs_of g))"

definition socketcall_size ::
  "('k, 'w) host \<Rightarrow> word_t \<Rightarrow> bool \<Rightarrow> ('k, 'w) guest \<Rightarrow> int \<times> ('k, 'w) guest" where
  "socketcall_size h args_addr special g =
     (case peek_word (h_mem h) (sysarg_addr g args_addr 3) (mach g) of
        Inl err \<Rightarrow> (neg err, g)
      | Inr size_addr \<Rightarrow>
          (case peek_word (h_mem h) size_addr (mach g) of
             Inl err \<Rightarrow> (if special then neg EINVAL else neg err, g)
           | Inr w \<Rightarrow> (0, poke SYSARG_6 (of_c_int (c_int w)) g)))"

definition socketcall_address ::
  "('k, 'w) host \<Rightarrow> word_t \<Rightarrow> ('k, 'w) guest \<Rightarrow> int \<times> ('k, 'w) guest" where
  "socketcall_address h args_addr g =
     (case peek_word (h_mem h) (sysarg_addr g args_addr 2) (mach g) of
        Inl err \<Rightarrow> (neg err, g)
      | Inr sock_addr \<Rightarrow>
          (case peek_word (h_mem h) (sysarg_addr g args_addr 3) (mach g) of
             Inl err \<Rightarrow> (neg err, g)
           | Inr n \<Rightarrow>
               (let (status, address, g) = translate_socketcall_enter h sock_addr (c_int n) g in
                if status \<le> 0 then (status, g)
                else
                  (let g = poke SYSARG_5 sock_addr g;
                       g = poke SYSARG_6 n g in
                   case on_mach (poke_word (h_mem h) (sysarg_addr g args_addr 2) address) g of
                     (Inl err, g) \<Rightarrow> (neg err, g)
                   | (Inr _, g) \<Rightarrow>
                       (let (res, g) = on_mach (poke_word (h_mem h) (sysarg_addr g args_addr 3)
                                         (of_nat sizeof_sockaddr_un)) g in
                        (status_of res, g))))))"

definition enter_socketcall :: "('k, 'w) host \<Rightarrow> ('k, 'w) guest \<Rightarrow> int \<times> ('k, 'w) guest" where
  "enter_socketcall h g =
     (let args_addr = sysarg g SYSARG_2; call = sysarg g SYSARG_1 in
      if call = 2 \<or> call = 3 then socketcall_address h args_addr g
      else if call = 5 \<or> call = 18 then
        (case peek_word (h_mem h) (sysarg_addr g args_addr 2) (mach g) of
           Inl err \<Rightarrow> (neg err, g)
         | Inr sock_addr \<Rightarrow> if sock_addr = 0 then (0, g) else socketcall_size h args_addr True g)
      else if call = 6 \<or> call = 7 then socketcall_size h args_addr False g
      else (0, g))"

definition enter_clone :: "('k, 'w) guest \<Rightarrow> int \<times> ('k, 'w) guest" where
  "enter_clone g =
     (let flags = sysarg g SYSARG_1 in
      if flags AND CLONE_NS_MASK = 0 then (0, g)
      else
        (let g = (if flags AND CLONE_NEWNS \<noteq> 0 then g\<lparr>clone_stripped_newns := True\<rparr> else g) in
         (0, poke SYSARG_1 (flags AND NOT CLONE_NS_MASK) g)))"

definition enter_clone3 :: "('k, 'w) host \<Rightarrow> ('k, 'w) guest \<Rightarrow> int \<times> ('k, 'w) guest" where
  "enter_clone3 h g =
     (let args_addr = sysarg g SYSARG_1 in
      if args_addr = 0 then (0, g)
      else
        (case peek_word (h_mem h) args_addr (mach g) of
           Inl _ \<Rightarrow> (0, g)
         | Inr flags \<Rightarrow>
             if flags AND CLONE_NS_MASK = 0 then (0, g)
             else
               (let g = (if flags AND CLONE_NEWNS \<noteq> 0 then g\<lparr>clone_stripped_newns := True\<rparr> else g) in
                (0, snd (on_mach (poke_word (h_mem h) args_addr (flags AND NOT CLONE_NS_MASK)) g)))))"

text \<open>Whether the flags of an open call keep it from following a final link.\<close>

definition open_type :: "word_t \<Rightarrow> path_type" where
  "open_type flags =
     (if has_flag flags O_NOFOLLOW \<or> has_flag flags O_EXCL \<and> has_flag flags O_CREAT then SYMLINK else REGULAR)"

definition enter_open :: "('k, 'w) host \<Rightarrow> ('k, 'w) guest \<Rightarrow> int \<times> ('k, 'w) guest" where
  "enter_open h g =
     (let flags = sysarg g SYSARG_2;
          opens_auxv = (execfn_addr g \<noteq> 0 \<and>
            (case read_string (h_mem h) (sysarg g SYSARG_1) PATH_MAX (mach g) of
               Inl _ \<Rightarrow> False
             | Inr (bs, n) \<Rightarrow> n > 0 \<and> string_of_bytes bs = ''/proc/self/auxv''));
          g = (if opens_auxv then force_sysexit g else g);
          (status, g) = translate_sysarg h SYSARG_1 (open_type flags) g in
      (status, if status \<ge> 0 then maybe_redirect_userns_file h SYSARG_1 g else g))"

text \<open>The path in a register, relative to a descriptor.\<close>

definition enter_at ::
  "('k, 'w) host \<Rightarrow> reg \<Rightarrow> reg \<Rightarrow> path_type \<Rightarrow> ('k, 'w) guest \<Rightarrow> int \<times> ('k, 'w) guest" where
  "enter_at h dir_reg path_reg type g =
     (case get_sysarg_path (h_mem h) path_reg (mach g) of
        Inl err \<Rightarrow> (neg err, g)
      | Inr path \<Rightarrow> translate_path2 h (c_int (sysarg g dir_reg)) path path_reg type g)"

definition enter_openat :: "('k, 'w) host \<Rightarrow> ('k, 'w) guest \<Rightarrow> int \<times> ('k, 'w) guest" where
  "enter_openat h g =
     (let dirfd = c_int (sysarg g SYSARG_1); flags = sysarg g SYSARG_3 in
      case get_sysarg_path (h_mem h) SYSARG_2 (mach g) of
        Inl err \<Rightarrow> (neg err, g)
      | Inr path \<Rightarrow>
          (let g = (if execfn_addr g \<noteq> 0 \<and> path = ''/proc/self/auxv'' then force_sysexit g else g);
               (status, g) = translate_path2 h dirfd path SYSARG_2 (open_type flags) g in
           (status, if status \<ge> 0 then maybe_redirect_userns_file h SYSARG_2 g else g)))"

text \<open>\<open>struct open_how\<close>: flags, mode and resolve of eight bytes each.\<close>

definition enter_openat2 :: "('k, 'w) host \<Rightarrow> ('k, 'w) guest \<Rightarrow> int \<times> ('k, 'w) guest" where
  "enter_openat2 h g =
     (let how_size = (if sysarg g SYSARG_4 > 24 then 24 else unat (sysarg g SYSARG_4)) in
      case read_data (h_mem h) (sysarg g SYSARG_3) how_size (mach g) of
        Inl err \<Rightarrow> (neg err, g)
      | Inr bs \<Rightarrow>
          (let how = bs @ replicate (24 - length bs) 0;
               g = on_regs (set_sysnum ''openat'') g;
               g = poke SYSARG_3 (word_of (take 8 how)) g;
               g = poke SYSARG_4 (word_of (take 8 (drop 8 how))) g in
           enter_openat h g))"

text \<open>Two paths: \<open>linkat\<close>, \<open>renameat\<close> with their descriptors, \<open>link\<close> and \<open>rename\<close> without.\<close>

definition enter_two_at :: "('k, 'w) host \<Rightarrow> path_type \<Rightarrow> ('k, 'w) guest \<Rightarrow> int \<times> ('k, 'w) guest" where
  "enter_two_at h old_type g =
     (let olddirfd = c_int (sysarg g SYSARG_1); newdirfd = c_int (sysarg g SYSARG_3) in
      case get_sysarg_path (h_mem h) SYSARG_2 (mach g) of
        Inl err \<Rightarrow> (neg err, g)
      | Inr oldpath \<Rightarrow>
          (case get_sysarg_path (h_mem h) SYSARG_4 (mach g) of
             Inl err \<Rightarrow> (neg err, g)
           | Inr newpath \<Rightarrow>
               (let (status, g) = translate_path2 h olddirfd oldpath SYSARG_2 old_type g in
                if status < 0 then (status, g)
                else translate_path2 h newdirfd newpath SYSARG_4 SYMLINK g)))"

definition enter_two_paths :: "('k, 'w) host \<Rightarrow> ('k, 'w) guest \<Rightarrow> int \<times> ('k, 'w) guest" where
  "enter_two_paths h g =
     (let (status, g) = translate_sysarg h SYSARG_1 SYMLINK g in
      if status < 0 then (status, g) else translate_sysarg h SYSARG_2 SYMLINK g)"

text \<open>The status before the switch is 0; the cases of \<open>prctl\<close> do not exclude each other.\<close>

definition enter_prctl :: "('k, 'w) host \<Rightarrow> ('k, 'w) guest \<Rightarrow> int \<times> ('k, 'w) guest" where
  "enter_prctl h g =
     (let g = (if sysarg g SYSARG_1 = PR_SET_DUMPABLE then void_call 0 g else g);
          g = (if sysarg g SYSARG_1 = PR_SET_SECCOMP \<and> sysarg g SYSARG_2 = 2 \<and> \<not> h_seccomp_ptrace_event h
               then void_call (of_c_int (neg EPERM)) g else g);
          g = (if sysarg g SYSARG_1 = PR_GET_AUXV then force_sysexit g else g);
          g = (if sysarg g SYSARG_1 = PR_GET_NO_NEW_PRIVS then void_call (if no_new_privs g then 1 else 0) g else g);
          g = (if sysarg g SYSARG_1 = PR_SET_NO_NEW_PRIVS then force_sysexit g else g) in
      (0, g))"

definition enter_ioctl :: "('k, 'w) host \<Rightarrow> ('k, 'w) guest \<Rightarrow> int \<times> ('k, 'w) guest" where
  "enter_ioctl h g =
     (let cmd = sysarg g SYSARG_2;
          (faked, g) = maybe_fake_siocgifindex h cmd (sysarg g SYSARG_3) g in
      if faked then (0, void_call 0 g)
      else
        (let g = (if cmd = 0x5404 then poke SYSARG_2 0x5402 g else g);
             g = (if cmd = 0x802C542A then poke SYSARG_2 0x5401 g else g);
             g = (if cmd = 0x402C542B then poke SYSARG_2 0x5402 g else g);
             g = (if cmd = 0x402C542C then poke SYSARG_2 0x5403 g else g);
             g = (if cmd = 0x402C542D then poke SYSARG_2 0x5402 g else g) in
         (0, g)))"

definition enter_memfd_create :: "('k, 'w) host \<Rightarrow> ('k, 'w) guest \<Rightarrow> int \<times> ('k, 'w) guest" where
  "enter_memfd_create h g =
     (case read_string (h_mem h) (sysarg g SYSARG_1) 19 (mach g) of
        Inl _ \<Rightarrow> (0, g)
      | Inr (bs, _) \<Rightarrow>
          (let memfd_name = string_of_bytes bs in
           (if take 8 memfd_name = ''JITCode:'' \<or> memfd_name = ''opcache_lock'' \<or>
               take 13 memfd_name = ''lib/apk/exec/''
            then neg EACCES else 0, g)))"

definition enter_close :: "('k, 'w) guest \<Rightarrow> int \<times> ('k, 'w) guest" where
  "enter_close g =
     (let closed_fd = c_int (sysarg g SYSARG_1);
          g = (if auxv_fd g \<ge> 0 \<and> closed_fd = auxv_fd g then g\<lparr>auxv_fd := - 1\<rparr> else g) in
      (0, unmark_fake_netlink_fd closed_fd g))"

section \<open>The switch\<close>

definition regular_calls :: "sysnum list" where
  "regular_calls =
     [''access'', ''acct'', ''chmod'', ''chown'', ''chown32'', ''chroot'', ''getxattr'', ''listxattr'', ''mknod'',
      ''oldstat'', ''creat'', ''removexattr'', ''setxattr'', ''stat'', ''stat64'', ''statfs'', ''statfs64'',
      ''swapoff'', ''swapon'', ''truncate'', ''truncate64'', ''uselib'', ''utime'', ''utimes'']"

definition symlink_calls :: "sysnum list" where
  "symlink_calls =
     [''readlink'', ''lchown'', ''lchown32'', ''lgetxattr'', ''llistxattr'', ''lremovexattr'', ''lsetxattr'',
      ''lstat'', ''lstat64'', ''oldlstat'', ''unlink'', ''rmdir'', ''mkdir'']"

definition flagged_at_calls :: "sysnum list" where
  "flagged_at_calls = [''fchownat'', ''fstatat64'', ''newfstatat'', ''utimensat'', ''name_to_handle_at'']"

definition regular_at_calls :: "sysnum list" where
  "regular_at_calls = [''fchmodat'', ''faccessat'', ''faccessat2'', ''futimesat'', ''mknodat'']"

definition symlink_at_calls :: "sysnum list" where
  "symlink_at_calls = [''readlinkat'', ''unlinkat'', ''mkdirat'']"

text \<open>The calls whose only work is the translation of paths.\<close>

definition enter_paths :: "('k, 'w) host \<Rightarrow> sysnum \<Rightarrow> ('k, 'w) guest \<Rightarrow> (int \<times> ('k, 'w) guest) option" where
  "enter_paths h num g =
     (if num \<in> set regular_calls then Some (translate_sysarg h SYSARG_1 REGULAR g)
      else if num \<in> set symlink_calls then Some (translate_sysarg h SYSARG_1 SYMLINK g)
      else if num \<in> set flagged_at_calls then
        (let flags = (if num = ''fchownat'' \<or> num = ''name_to_handle_at'' then sysarg g SYSARG_5 else sysarg g SYSARG_4) in
         Some (enter_at h SYSARG_1 SYSARG_2 (if has_flag flags AT_SYMLINK_NOFOLLOW then SYMLINK else REGULAR) g))
      else if num \<in> set regular_at_calls then Some (enter_at h SYSARG_1 SYSARG_2 REGULAR g)
      else if num \<in> set symlink_at_calls then Some (enter_at h SYSARG_1 SYSARG_2 SYMLINK g)
      else if num = ''inotify_add_watch'' then
        Some (translate_sysarg h SYSARG_2 (if has_flag (sysarg g SYSARG_3) IN_DONT_FOLLOW then SYMLINK else REGULAR) g)
      else if num = ''linkat'' then
        Some (enter_two_at h (if has_flag (sysarg g SYSARG_5) AT_SYMLINK_FOLLOW then REGULAR else SYMLINK) g)
      else if num = ''renameat'' \<or> num = ''renameat2'' then Some (enter_two_at h SYMLINK g)
      else if num = ''link'' \<or> num = ''rename'' then Some (enter_two_paths h g)
      else if num = ''symlink'' then Some (translate_sysarg h SYSARG_2 SYMLINK g)
      else if num = ''symlinkat'' then Some (enter_at h SYSARG_2 SYSARG_3 SYMLINK g)
      else if num = ''statx'' then
        Some (enter_at h SYSARG_1 SYSARG_2
          (if has_flag (sysarg g SYSARG_3) AT_SYMLINK_NOFOLLOW then SYMLINK else REGULAR) g)
      else if num = ''open'' then Some (enter_open h g)
      else if num = ''openat'' then Some (enter_openat h g)
      else if num = ''openat2'' then Some (enter_openat2 h g)
      else None)"

text \<open>The other calls whose cases end at the label \<open>end\<close>.\<close>

definition enter_others ::
  "('k, 'w) host \<Rightarrow> ('k, 'w) handlers \<Rightarrow> sysnum \<Rightarrow> ('k, 'w) guest \<Rightarrow> int \<times> ('k, 'w) guest" where
  "enter_others h hs num g =
     (if num = ''execve'' then execve_enter hs g
      else if num = ''execveat'' then enter_execveat hs g
      else if num = ''ptrace'' then ptrace_enter hs g
      else if num = ''wait4'' \<or> num = ''waitpid'' then wait_enter hs g
      else if num = ''brk'' then (0, on_regs (translate_brk_enter (h_heap_offset h)) g)
      else if num = ''getcwd'' \<or> num = ''unshare'' \<or> num = ''setns'' then (0, void_call 0 g)
      else if num = ''bind'' \<or> num = ''connect'' then enter_bind_connect h num g
      else if num = ''accept'' \<or> num = ''accept4'' \<or> num = ''getsockname'' \<or> num = ''getpeername'' then enter_accept h num g
      else if num = ''socket'' then enter_socket h g
      else if num = ''recvfrom'' then enter_recvfrom h g
      else if num = ''recvmsg'' then enter_recvmsg h g
      else if num = ''socketcall'' then enter_socketcall h g
      else if num = ''umount'' \<or> num = ''umount2'' then (0, void_call 0 (apply_emulated_umount h g))
      else if num = ''mount'' then (0, void_call 0 (apply_emulated_mount h g))
      else if num = ''pivot_root'' then (0, void_call 0 (apply_emulated_pivot_root h g))
      else if num = ''clone'' then enter_clone g
      else if num = ''clone3'' then enter_clone3 h g
      else if num = ''prctl'' then enter_prctl h g
      else if num = ''ioctl'' then enter_ioctl h g
      else if num = ''memfd_create'' then enter_memfd_create h g
      else if num = ''close'' then enter_close g
      else (0, g))"

definition enter_switch ::
  "('k, 'w) host \<Rightarrow> ('k, 'w) handlers \<Rightarrow> sysnum \<Rightarrow> ('k, 'w) guest \<Rightarrow> outcome \<times> ('k, 'w) guest" where
  "enter_switch h hs num g =
     (if num = ''chdir'' \<or> num = ''fchdir'' then enter_chdir h num g
      else if num = ''sendto'' then enter_sendto h g
      else if num = ''sendmsg'' then enter_sendmsg h g
      else
        (case enter_paths h num g of
           Some (status, g) \<Rightarrow> (Break status, g)
         | None \<Rightarrow> (let (status, g) = enter_others h hs num g in (Break status, g))))"

text \<open>\<open>None\<close> is the status of a run that has left the buffers of PRoot.\<close>

definition translate_syscall_enter ::
  "('k, 'w) host \<Rightarrow> ('k, 'w) handlers \<Rightarrow> ('k, 'w) guest \<Rightarrow> int option \<times> ('k, 'w) guest" where
  "translate_syscall_enter h hs g =
     (let finish = (\<lambda>status g. let (status2, g) = notify (h_callbacks h) (SYSCALL_ENTER_END status) g in
                               (Some (if status2 < 0 then status2 else status), g));
          (status, g) = notify (h_callbacks h) SYSCALL_ENTER_START g in
      if status < 0 then finish status g
      else if status > 0 then (Some 0, g)
      else
        (case enter_switch h hs (get_sysnum (h_beyond h) (regs_of g) ORIGINAL) g of
           (Break status, g) \<Rightarrow> finish status g
         | (Leave status, g) \<Rightarrow> (Some status, g)
         | (Undefined, g) \<Rightarrow> (None, g)))"

end
