(* ===== verification/Statx.thy ===== *)
theory Statx
  imports Enter
begin

text \<open>
  What PRoot itself asks of the kernel and of its other components when a call is repaired or ends, and
  \<open>tracee/statx.c\<close>: the answer of \<open>statx\<close>, made of that of \<open>stat\<close> where the kernel gave none.
\<close>

section \<open>Calls of PRoot itself\<close>

text \<open>\<open>struct stat\<close> and \<open>struct statfs64\<close> of the arm64 build.\<close>

record stat_buf =
  st_mode :: u32
  st_nlink :: u32
  st_uid :: u32
  st_gid :: u32
  st_rdev :: word_t
  st_size :: word_t
  st_blksize :: u32
  st_blocks :: word_t
  st_ino :: word_t
  st_atim :: "word_t \<times> word_t"
  st_mtim :: "word_t \<times> word_t"
  st_ctim :: "word_t \<times> word_t"

record statfs64 =
  f_type :: word_t
  f_bsize :: word_t
  f_blocks :: word_t
  f_bfree :: word_t
  f_bavail :: word_t
  f_files :: word_t
  f_ffree :: word_t
  f_fsid :: word_t
  f_namelen :: word_t
  f_frsize :: word_t
  f_flags :: word_t

text \<open>\<open>struct statx_syscall_state\<close>, the event \<open>STATX_SYSCALL\<close> of an extension.\<close>

record statx_state =
  host_path :: string
  statx_buf :: "byte list"
  updated_stats :: bool

text \<open>
  The answers of the kernel to PRoot (\<open>stat\<close> or \<open>lstat\<close>, \<open>statfs64\<close>, the registers of a tracee, \<open>getpgid\<close>,
  \<open>time\<close>, \<open>getresuid\<close> and \<open>getresgid\<close>, its stack limit), then the callbacks of the extensions and the parts of
  the exit stage that belong to other components.
\<close>

record ('k, 'w) own_calls =
  o_stat :: "'w \<Rightarrow> bool \<Rightarrow> string \<Rightarrow> stat_buf res"
  o_statfs :: "'w \<Rightarrow> string \<Rightarrow> statfs64 res"
  o_getregs :: "'k \<Rightarrow> (bank \<Rightarrow> bank) res"
  o_getpgid :: "'w \<Rightarrow> int"
  o_time :: "'w \<Rightarrow> word_t"
  o_ids :: "'w \<Rightarrow> sysnum \<Rightarrow> (u32 \<times> u32 \<times> u32) option"
  o_stack_limit :: "'w \<Rightarrow> word_t option"
  o_set_stack_limit :: "word_t \<Rightarrow> 'w \<Rightarrow> 'w"
  o_statx :: "(statx_state \<Rightarrow> ('k, 'w) guest \<Rightarrow> int \<times> statx_state \<times> ('k, 'w) guest) list"
  o_execve_exit :: "('k, 'w) guest \<Rightarrow> ('k, 'w) guest"
  o_ptrace_exit :: "('k, 'w) guest \<Rightarrow> int \<times> ('k, 'w) guest"
  o_wait_exit :: "('k, 'w) guest \<Rightarrow> int \<times> ('k, 'w) guest"
  o_waits_in_proot :: "('k, 'w) guest \<Rightarrow> bool"

section \<open>The answer of statx\<close>

text \<open>A register of any version.\<close>

definition arg :: "('k, 'w) guest \<Rightarrow> reg_version \<Rightarrow> reg \<Rightarrow> word_t" where
  "arg g version r = peek_reg (regs_of g) version r"

definition AT_EMPTY_PATH :: word_t where "AT_EMPTY_PATH = 0x1000"

definition dev_major :: "word_t \<Rightarrow> u32" where
  "dev_major d = ucast ((drop_bit 32 d AND 0xFFFFF000) OR (drop_bit 8 d AND 0xFFF))"

definition dev_minor :: "word_t \<Rightarrow> u32" where
  "dev_minor d = ucast ((drop_bit 12 d AND 0xFFFFFF00) OR (d AND 0xFF))"

text \<open>\<open>struct statx_timestamp\<close>: eight bytes of seconds, four of nanoseconds, four that are reserved.\<close>

definition statx_timestamp :: "bool \<Rightarrow> word_t \<times> word_t \<Rightarrow> byte list" where
  "statx_timestamp wanted ts = (if wanted then le 8 (fst ts) @ le 4 (snd ts) @ replicate 4 0 else replicate 16 0)"

text \<open>The 256 bytes of \<open>struct statx\<close>; what the mask does not ask for stays 0.\<close>

definition statx_of_stat :: "word_t \<Rightarrow> stat_buf \<Rightarrow> byte list" where
  "statx_of_stat wanted st =
     (let word4 = (\<lambda>bit v. le 4 (if has_flag wanted bit then v else (0 :: u32)));
          word8 = (\<lambda>bit v. le 8 (if has_flag wanted bit then v else (0 :: word_t))) in
      le 4 (wanted AND 0xFFF) @ le 4 (st_blksize st) @ replicate 8 0 @
      word4 0x4 (st_nlink st) @ word4 0x8 (st_uid st) @ word4 0x10 (st_gid st) @
      le 2 (if has_flag wanted 0x3 then ucast (st_mode st) else (0 :: u16)) @ replicate 2 0 @
      word8 0x100 (st_ino st) @ word8 0x200 (st_size st) @ word8 0x400 (st_blocks st) @ replicate 8 0 @
      statx_timestamp (has_flag wanted 0x20) (st_atim st) @ statx_timestamp (has_flag wanted 0x800) (st_ctim st) @
      statx_timestamp (has_flag wanted 0x80) (st_ctim st) @ statx_timestamp (has_flag wanted 0x40) (st_mtim st) @
      le 4 (dev_major (st_rdev st)) @ le 4 (dev_minor (st_rdev st)) @ replicate 120 0)"

fun notify_statx ::
  "(statx_state \<Rightarrow> ('k, 'w) guest \<Rightarrow> int \<times> statx_state \<times> ('k, 'w) guest) list \<Rightarrow> statx_state \<Rightarrow> ('k, 'w) guest \<Rightarrow>
   int \<times> statx_state \<times> ('k, 'w) guest"
where
  "notify_statx [] state g = (0, state, g)"
| "notify_statx (callback # cs) state g =
     (let (status, state, g) = callback state g in
      if status \<noteq> 0 then (status, state, g) else notify_statx cs state g)"

text \<open>The path to look at and whether the descriptor itself is meant.\<close>

definition statx_path ::
  "('k, 'w) host \<Rightarrow> reg_version \<Rightarrow> ('k, 'w) guest \<Rightarrow> (string \<times> bool) res \<times> ('k, 'w) guest" where
  "statx_path h version g =
     (let flags = arg g version SYSARG_3; dirfd = c_int (arg g version SYSARG_1) in
      case read_string (h_mem h) (arg g version SYSARG_2) PATH_MAX (mach g) of
        Inl err \<Rightarrow> (Inl err, g)
      | Inr (bs, n) \<Rightarrow>
          if n = 0 then (Inl EFAULT, g)
          else if n = 1 then
            (if flags AND AT_EMPTY_PATH = 0 then (Inl ENOENT, g)
             else (bindE (readlink_proc_pid_fd (h_env h) (world (paths g)) (tracee_pid (h_env h)) dirfd)
                     (\<lambda>path. Inr (path, True)), g))
          else if n \<ge> PATH_MAX then (Inl ENAMETOOLONG, g)
          else
            (let (res, g) = on_paths (translate_path (h_env h) dirfd (string_of_bytes bs)
                              (\<not> has_flag flags AT_SYMLINK_NOFOLLOW)) g in
             (bindE res (\<lambda>path. Inr (path, False)), g)))"

definition handle_statx_syscall ::
  "('k, 'w) host \<Rightarrow> ('k, 'w) own_calls \<Rightarrow> bool \<Rightarrow> ('k, 'w) guest \<Rightarrow> int \<times> ('k, 'w) guest" where
  "handle_statx_syscall h own from_sigsys g =
     (let version = (if from_sigsys then CURRENT else ORIGINAL);
          flags = arg g version SYSARG_3; mask = arg g version SYSARG_4;
          dirfd = c_int (arg g version SYSARG_1) in
      case statx_path h version g of
        (Inl err, g) \<Rightarrow> (neg err, g)
      | (Inr (path, do_fstat), g) \<Rightarrow>
          (case (if from_sigsys \<or> sysarg g SYSARG_RESULT \<noteq> 0 then
                   (let link = take 31 (''/proc/'' @ dec (tracee_pid (h_env h)) @ ''/fd/'' @ dec dirfd) in
                    bindE (if do_fstat then o_stat own (world (paths g)) True link
                           else o_stat own (world (paths g)) (\<not> has_flag flags AT_SYMLINK_NOFOLLOW) path)
                      (\<lambda>st. Inr \<lparr>host_path = path, statx_buf = statx_of_stat mask st, updated_stats = True\<rparr>))
                 else
                   bindE (read_data (h_mem h) (arg g ORIGINAL SYSARG_5) 256 (mach g))
                     (\<lambda>bs. Inr \<lparr>host_path = path, statx_buf = bs, updated_stats = False\<rparr>)) of
             Inl err \<Rightarrow> (neg err, g)
           | Inr state \<Rightarrow>
               (let (status, state, g) = notify_statx (o_statx own) state g in
                if status < 0 then (status, g)
                else if updated_stats state then
                  (let (res, g) = on_mach (write_data (h_mem h) (sysarg g SYSARG_5) (statx_buf state)) g in
                   (status_of res, g))
                else (0, g))))"

lemma length_statx_of_stat: "length (statx_of_stat wanted st) = 256"
  by (simp add: statx_of_stat_def statx_timestamp_def Let_def)

end
