(* ===== verification/Sigsys.thy ===== *)
theory Sigsys
  imports Chain
begin

text \<open>
  System calls that a seccomp policy of the host has rejected with \<open>SIGSYS\<close>, \<open>tracee/seccomp.c\<close>: the
  restart of the call in another form and the result without a restart.
\<close>

section \<open>The code\<close>

text \<open>Both return the requests that push the registers, whose answers are ignored.\<close>

definition restart_syscall_after_seccomp ::
  "(ptrace_request \<Rightarrow> bool) \<Rightarrow> tracee \<Rightarrow> tracee \<times> ptrace_request list" where
  "restart_syscall_after_seccomp accepts t =
     (let t = t\<lparr>restore_after_seccomp_event := True, restart_how := PTRACE_SYSCALL\<rparr>;
          instr_pointer = peek_reg t CURRENT INSTR_POINTER;
          t = poke_reg INSTR_POINTER (instr_pointer - get_systrap_size t) t in
      snd (push_specific_regs accepts False t))"

definition set_result_after_seccomp ::
  "(ptrace_request \<Rightarrow> bool) \<Rightarrow> word_t \<Rightarrow> tracee \<Rightarrow> tracee \<times> ptrace_request list" where
  "set_result_after_seccomp accepts result t =
     snd (push_specific_regs accepts False (poke_reg SYSARG_RESULT result t))"

end
