(* ===== verification/Restart.thy ===== *)
theory Restart
  imports Statx Sigsys
begin

text \<open>
  \<open>tracee/seccomp.c\<close>: a call that a seccomp policy of the host has refused with \<open>SIGSYS\<close> is answered by PRoot
  or written anew as a call that the policy lets through, and restarted at its trap.
\<close>

section \<open>Restarting\<close>

text \<open>The registers reach the kernel.\<close>

definition push :: "('k, 'w) host \<Rightarrow> bool \<Rightarrow> ('k, 'w) guest \<Rightarrow> unit res \<times> ('k, 'w) guest" where
  "push h including_sysnum g =
     on_mach (\<lambda>m. let (res, t, requests) =
                       push_specific_regs (k_accepts (h_mem h) (krn m)) including_sysnum (tr m) in
                  (res, m\<lparr>tr := t, krn := fold (k_request (h_mem h)) requests (krn m)\<rparr>)) g"

text \<open>The two functions of \<open>Sigsys\<close>, with the answers of the kernel.\<close>

definition with_requests ::
  "('k, 'w) host \<Rightarrow> ((ptrace_request \<Rightarrow> bool) \<Rightarrow> tracee \<Rightarrow> tracee \<times> ptrace_request list) \<Rightarrow> ('k, 'w) guest \<Rightarrow> ('k, 'w) guest"
where
  "with_requests h f g =
     snd (on_mach (\<lambda>m. let (t, requests) = f (k_accepts (h_mem h) (krn m)) (tr m) in
                       ((), m\<lparr>tr := t, krn := fold (k_request (h_mem h)) requests (krn m)\<rparr>)) g)"

definition restart_call :: "('k, 'w) host \<Rightarrow> ('k, 'w) guest \<Rightarrow> ('k, 'w) guest" where
  "restart_call h g = with_requests h restart_syscall_after_seccomp g"

definition set_result :: "('k, 'w) host \<Rightarrow> word_t \<Rightarrow> ('k, 'w) guest \<Rightarrow> ('k, 'w) guest" where
  "set_result h result g = with_requests h (\<lambda>accepts. set_result_after_seccomp accepts result) g"

section \<open>Calls under another name\<close>

definition move :: "reg \<Rightarrow> reg \<Rightarrow> ('k, 'w) guest \<Rightarrow> ('k, 'w) guest" where
  "move dst src g = poke dst (sysarg g src) g"

text \<open>A new number, then the writes to the registers in order.\<close>

definition rewrite ::
  "('k, 'w) host \<Rightarrow> sysnum \<Rightarrow> (('k, 'w) guest \<Rightarrow> ('k, 'w) guest) list \<Rightarrow> ('k, 'w) guest \<Rightarrow> ('k, 'w) guest" where
  "rewrite h num steps g =
     restart_call h (fold (\<lambda>step. step) steps (on_regs (set_sysnum num) g))"

definition AT_REMOVEDIR :: word_t where "AT_REMOVEDIR = 0x200"

definition at_cwd :: word_t where "at_cwd = of_c_int AT_FDCWD"

definition shift_args :: "('k, 'w) host \<Rightarrow> sysnum \<Rightarrow> ('k, 'w) guest \<Rightarrow> ('k, 'w) guest" where
  "shift_args h num g = rewrite h num [move SYSARG_3 SYSARG_2, move SYSARG_2 SYSARG_1, poke SYSARG_1 at_cwd] g"

definition restart_open :: "('k, 'w) host \<Rightarrow> ('k, 'w) guest \<Rightarrow> ('k, 'w) guest" where
  "restart_open h g =
     rewrite h ''openat''
       [move SYSARG_4 SYSARG_3, move SYSARG_3 SYSARG_2, move SYSARG_2 SYSARG_1, poke SYSARG_1 at_cwd] g"

text \<open>From \<open>symlink\<close> to \<open>rmdir\<close>.\<close>

definition restart_links ::
  "('k, 'w) host \<Rightarrow> sysnum \<Rightarrow> ('k, 'w) guest \<Rightarrow> ('k, 'w) guest option" where
  "restart_links h num g =
     (if num = ''symlink'' then
        Some (rewrite h ''symlinkat'' [move SYSARG_3 SYSARG_2, poke SYSARG_2 at_cwd] g)
      else if num = ''link'' then
        Some (rewrite h ''linkat''
          [move SYSARG_4 SYSARG_2, move SYSARG_2 SYSARG_1, poke SYSARG_1 at_cwd, poke SYSARG_3 at_cwd,
           poke SYSARG_5 0] g)
      else if num = ''chmod'' then
        Some (rewrite h ''fchmodat''
          [move SYSARG_3 SYSARG_2, move SYSARG_2 SYSARG_1, poke SYSARG_1 at_cwd, poke SYSARG_4 0] g)
      else if num = ''chown'' \<or> num = ''lchown'' \<or> num = ''chown32'' \<or> num = ''lchown32'' then
        Some (rewrite h ''fchownat''
          [move SYSARG_4 SYSARG_3, move SYSARG_3 SYSARG_2, move SYSARG_2 SYSARG_1, poke SYSARG_1 at_cwd,
           poke SYSARG_5 (if num = ''lchown'' \<or> num = ''lchown32'' then AT_SYMLINK_NOFOLLOW else 0)] g)
      else if num = ''unlink'' \<or> num = ''rmdir'' then
        Some (rewrite h ''unlinkat''
          [move SYSARG_2 SYSARG_1, poke SYSARG_1 at_cwd,
           poke SYSARG_3 (if num = ''rmdir'' then AT_REMOVEDIR else 0)] g)
      else None)"

text \<open>\<open>send\<close>, \<open>recv\<close>, \<open>waitpid\<close>.\<close>

definition restart_transfers ::
  "('k, 'w) host \<Rightarrow> sysnum \<Rightarrow> ('k, 'w) guest \<Rightarrow> ('k, 'w) guest option" where
  "restart_transfers h num g =
     (if num = ''send'' then Some (rewrite h ''sendto'' [poke SYSARG_5 0, poke SYSARG_6 0] g)
      else if num = ''recv'' then Some (rewrite h ''recvfrom'' [poke SYSARG_5 0, poke SYSARG_6 0] g)
      else if num = ''waitpid'' then Some (rewrite h ''wait4'' [poke SYSARG_4 0] g)
      else None)"

text \<open>From \<open>stat\<close> to \<open>rename\<close>.\<close>

definition restart_files ::
  "('k, 'w) host \<Rightarrow> sysnum \<Rightarrow> ('k, 'w) guest \<Rightarrow> ('k, 'w) guest option" where
  "restart_files h num g =
     (if num = ''stat'' \<or> num = ''lstat'' then
        Some (rewrite h ''newfstatat''
          [poke SYSARG_4 (if num = ''lstat'' then AT_SYMLINK_NOFOLLOW else 0), move SYSARG_3 SYSARG_2,
           move SYSARG_2 SYSARG_1, poke SYSARG_1 at_cwd] g)
      else if num = ''pipe'' then Some (rewrite h ''pipe2'' [poke SYSARG_2 0] g)
      else if num = ''dup2'' then Some (rewrite h ''dup3'' [poke SYSARG_3 0] g)
      else if num = ''access'' then
        Some (rewrite h ''faccessat''
          [poke SYSARG_4 0, move SYSARG_3 SYSARG_2, move SYSARG_2 SYSARG_1, poke SYSARG_1 at_cwd] g)
      else if num = ''mkdir'' then Some (shift_args h ''mkdirat'' g)
      else if num = ''rename'' then
        Some (rewrite h ''renameat''
          [move SYSARG_4 SYSARG_2, poke SYSARG_3 at_cwd, move SYSARG_2 SYSARG_1, poke SYSARG_1 at_cwd] g)
      else None)"

text \<open>\<open>struct open_how\<close>, as at the enter stage.\<close>

definition restart_openat2 :: "('k, 'w) host \<Rightarrow> ('k, 'w) guest \<Rightarrow> ('k, 'w) guest" where
  "restart_openat2 h g =
     (let how_size = (if sysarg g SYSARG_4 > 24 then 24 else unat (sysarg g SYSARG_4)) in
      case read_data (h_mem h) (sysarg g SYSARG_3) how_size (mach g) of
        Inl err \<Rightarrow> set_result h (of_c_int (neg err)) g
      | Inr bs \<Rightarrow>
          (let how = bs @ replicate (24 - length bs) 0 in
           rewrite h ''openat''
             [poke SYSARG_3 (word_of (take 8 how)), poke SYSARG_4 (word_of (take 8 (drop 8 how)))] g))"

section \<open>Calls with times\<close>

text \<open>\<open>struct timespec\<close> and \<open>struct timeval\<close> of PRoot: two words.\<close>

definition timespec :: "word_t \<Rightarrow> word_t \<Rightarrow> byte list" where
  "timespec tv_sec tv_nsec = bytes_of tv_sec @ bytes_of tv_nsec"

definition word_at :: "byte list \<Rightarrow> nat \<Rightarrow> word_t" where
  "word_at bs i = word_of (take 8 (drop (8 * i) bs))"

text \<open>\<open>utimes\<close> and \<open>utime\<close>: the times of the tracee become two \<open>timespec\<close> on its stack.\<close>

definition utime_args :: "('k, 'w) host \<Rightarrow> ('k, 'w) guest \<Rightarrow> ('k, 'w) guest" where
  "utime_args h g =
     restart_call h
       (fold (\<lambda>step. step)
          [poke SYSARG_4 0, move SYSARG_3 SYSARG_2, move SYSARG_2 SYSARG_1, poke SYSARG_1 at_cwd] g)"

definition restart_utime ::
  "('k, 'w) host \<Rightarrow> nat \<Rightarrow> (byte list \<Rightarrow> byte list) \<Rightarrow> ('k, 'w) guest \<Rightarrow> ('k, 'w) guest" where
  "restart_utime h n timens_of g =
     (let g = on_regs (set_sysnum ''utimensat'') g in
      if sysarg g SYSARG_2 = 0 then utime_args h g
      else
        (case read_data (h_mem h) (sysarg g SYSARG_2) n (mach g) of
           Inl err \<Rightarrow> set_result h (of_c_int (neg err)) g
         | Inr stamps \<Rightarrow>
             (case on_mach (set_sysarg_data (h_mem h) (timens_of stamps) SYSARG_2) g of
                (Inl err, g) \<Rightarrow> set_result h (of_c_int (neg err)) g
              | (Inr _, g) \<Rightarrow> utime_args h g)))"

definition timens_of_timevals :: "byte list \<Rightarrow> byte list" where
  "timens_of_timevals stamps =
     timespec (word_at stamps 0) (word_at stamps 1 * 1000) @ timespec (word_at stamps 2) (word_at stamps 3 * 1000)"

definition timens_of_utimbuf :: "byte list \<Rightarrow> byte list" where
  "timens_of_utimbuf stamps = timespec (word_at stamps 0) 0 @ timespec (word_at stamps 1) 0"

text \<open>A \<open>timespec\<close> below the stack pointer of the tracee; an address 0 is not tested before the write.\<close>

definition put_timespec ::
  "('k, 'w) host \<Rightarrow> word_t \<Rightarrow> word_t \<Rightarrow> ('k, 'w) guest \<Rightarrow> (word_t res \<times> ('k, 'w) guest)" where
  "put_timespec h tv_sec tv_nsec g =
     (let (timespec_arg, g) = on_mach (alloc_mem 16) g;
          (res, g) = on_mach (write_data (h_mem h) timespec_arg (timespec tv_sec tv_nsec)) g in
      (bindE res (\<lambda>_. Inr timespec_arg), g))"

definition restart_select :: "('k, 'w) host \<Rightarrow> ('k, 'w) guest \<Rightarrow> ('k, 'w) guest" where
  "restart_select h g =
     (let timeval_arg = sysarg g SYSARG_5;
          finish = (\<lambda>timespec_arg. rewrite h ''pselect6'' [poke SYSARG_5 timespec_arg, poke SYSARG_6 0]) in
      if timeval_arg = 0 then finish 0 g
      else
        (case read_data (h_mem h) timeval_arg 16 (mach g) of
           Inl _ \<Rightarrow> set_result h (of_c_int (neg EFAULT)) g
         | Inr tv \<Rightarrow>
             if sint (word_at tv 1) \<ge> 1000000 \<or> sint (word_at tv 1) < 0
             then set_result h (of_c_int (neg EINVAL)) g
             else
               (case put_timespec h (word_at tv 0) (word_at tv 1 * 1000) g of
                  (Inl _, g) \<Rightarrow> set_result h (of_c_int (neg EFAULT)) g
                | (Inr timespec_arg, g) \<Rightarrow> finish timespec_arg g)))"

definition restart_poll :: "('k, 'w) host \<Rightarrow> ('k, 'w) guest \<Rightarrow> ('k, 'w) guest" where
  "restart_poll h g =
     (let ms_arg = c_int (sysarg g SYSARG_3);
          finish = (\<lambda>timespec_arg.
            rewrite h ''ppoll'' [poke SYSARG_3 timespec_arg, poke SYSARG_4 0, poke SYSARG_5 0]) in
      if ms_arg < 0 then finish 0 g
      else
        (case put_timespec h (of_c_int (ms_arg div 1000)) (of_c_int (ms_arg mod 1000 * 1000000)) g of
           (Inl _, g) \<Rightarrow> set_result h (of_c_int (neg EFAULT)) g
         | (Inr timespec_arg, g) \<Rightarrow> finish timespec_arg g))"

section \<open>Calls that are answered\<close>

text \<open>\<open>struct compat_statfs\<close>, 64 bytes.\<close>

definition compat_statfs :: "statfs64 \<Rightarrow> byte list" where
  "compat_statfs st =
     le 4 (f_type st) @ le 4 (f_bsize st) @ le 4 (f_blocks st) @ le 4 (f_bfree st) @ le 4 (f_bavail st) @
     le 4 (f_files st) @ le 4 (f_ffree st) @ le 8 (f_fsid st) @ le 4 (f_namelen st) @ le 4 (f_frsize st) @
     le 4 (f_flags st) @ replicate 16 0"

definition TMPFS_MAGIC :: word_t where "TMPFS_MAGIC = 0x01021994"

text \<open>Whether \<open>/dev/shm\<close> of the guest is, or lies above, a host path.\<close>

definition on_dev_shm :: "('k, 'w) host \<Rightarrow> string \<Rightarrow> ('k, 'w) guest \<Rightarrow> bool \<times> ('k, 'w) guest" where
  "on_dev_shm h path g =
     (case on_paths (translate_path (h_env h) AT_FDCWD ''/dev/shm'' True) g of
        (Inl _, g) \<Rightarrow> (False, g)
      | (Inr devshm_path, g) \<Rightarrow>
          (let comparison = compare_paths devshm_path path in
           (comparison = PATHS_ARE_EQUAL \<or> comparison = PATH1_IS_PREFIX, g)))"

text \<open>
  The status of \<open>translate_path\<close> is ignored: when it fails, \<open>statfs64\<close> is given a buffer that nobody has
  filled, and the result is \<open>None\<close>.
\<close>

definition answer_statfs ::
  "('k, 'w) host \<Rightarrow> ('k, 'w) own_calls \<Rightarrow> ('k, 'w) guest \<Rightarrow> ('k, 'w) guest option" where
  "answer_statfs h own g =
     (let result = (\<lambda>status. set_result h (of_c_int status)) in
      case read_string (h_mem h) (sysarg g SYSARG_1) PATH_MAX (mach g) of
        Inl err \<Rightarrow> Some (result (neg err) g)
      | Inr (bs, n) \<Rightarrow>
          if n \<ge> PATH_MAX then Some (result (neg ENAMETOOLONG) g)
          else
            (case on_paths (translate_path (h_env h) AT_FDCWD (string_of_bytes bs) True) g of
               (Inl _, g) \<Rightarrow> None
             | (Inr path, g) \<Rightarrow>
                 (case o_statfs own (world (paths g)) path of
                    Inl err \<Rightarrow> Some (result (neg err) g)
                  | Inr st \<Rightarrow>
                      (let (shm, g) = on_dev_shm h path g;
                           st = (if shm then st\<lparr>f_type := TMPFS_MAGIC\<rparr> else st) in
                       if (f_blocks st OR f_bfree st OR f_bavail st OR f_bsize st OR f_frsize st OR f_files st OR
                           f_ffree st) AND 0xFFFFFFFF00000000 \<noteq> 0
                       then Some (result (- 75) g)
                       else
                         Some (result 0 (snd (on_mach (write_data (h_mem h) (sysarg g SYSARG_2) (compat_statfs st)) g)))))))"

definition answer_time :: "('k, 'w) host \<Rightarrow> ('k, 'w) own_calls \<Rightarrow> ('k, 'w) guest \<Rightarrow> ('k, 'w) guest" where
  "answer_time h own g =
     (let t = o_time own (world (paths g)); addr = sysarg g SYSARG_1;
          (res, g) = (if addr \<noteq> 0 then on_mach (poke_word (h_mem h) addr t) g else (Inr (), g)) in
      set_result h (case res of Inl _ \<Rightarrow> of_c_int (neg EFAULT) | Inr _ \<Rightarrow> t) g)"

definition restart_ftruncate :: "('k, 'w) host \<Rightarrow> ('k, 'w) guest \<Rightarrow> ('k, 'w) guest" where
  "restart_ftruncate h g =
     (if detranslate_sysnum (get_abi (regs_of g)) ''ftruncate64'' = SYSCALL_AVOIDER
      then set_result h (of_c_int (neg ENOSYS)) g
      else rewrite h ''ftruncate64'' [move SYSARG_3 SYSARG_2, poke SYSARG_2 0, poke SYSARG_4 0] g)"

text \<open>\<open>setresuid\<close> and \<open>setresgid\<close> succeed when they would change nothing.\<close>

definition answer_setres ::
  "('k, 'w) host \<Rightarrow> ('k, 'w) own_calls \<Rightarrow> sysnum \<Rightarrow> ('k, 'w) guest \<Rightarrow> ('k, 'w) guest" where
  "answer_setres h own num g =
     (let rxid = ucast (sysarg g SYSARG_1) :: u32; exid = ucast (sysarg g SYSARG_2) :: u32;
          sxid = ucast (sysarg g SYSARG_3) :: u32;
          result =
            (case o_ids own (world (paths g)) num of
               None \<Rightarrow> neg EPERM
             | Some (r, e, s) \<Rightarrow>
                 if (rxid \<noteq> r \<and> rxid \<noteq> - 1) \<or> (exid \<noteq> e \<and> exid \<noteq> - 1) \<or> (sxid \<noteq> s \<and> sxid \<noteq> - 1)
                 then neg EPERM else 0) in
      set_result h (of_c_int result) g)"

section \<open>The handlers\<close>

text \<open>The calls that are written anew without a look at the memory of the tracee.\<close>

definition restart_renamed ::
  "('k, 'w) host \<Rightarrow> sysnum \<Rightarrow> ('k, 'w) guest \<Rightarrow> ('k, 'w) guest option" where
  "restart_renamed h num g =
     (case restart_links h num g of
        Some g \<Rightarrow> Some g
      | None \<Rightarrow>
          (case restart_transfers h num g of
             Some g \<Rightarrow> Some g
           | None \<Rightarrow> restart_files h num g))"

definition handle_seccomp_event_common ::
  "('k, 'w) host \<Rightarrow> ('k, 'w) own_calls \<Rightarrow> ('k, 'w) guest \<Rightarrow> ('k, 'w) guest option" where
  "handle_seccomp_event_common h own g =
     (let num = get_sysnum (h_beyond h) (regs_of g) CURRENT;
          (status, g) = notify (h_callbacks h) SIGSYS_OCC g;
          result = (\<lambda>status. set_result h (of_c_int status)) in
      if status < 0 then Some (result status g)
      else if status = 1 then Some (result 0 g)
      else if status = 2 then Some g
      else if num = ''open'' then Some (restart_open h g)
      else if num = ''openat2'' then Some (restart_openat2 h g)
      else if num = ''accept'' then Some (rewrite h ''accept4'' [poke SYSARG_4 0] g)
      else if num = ''setgroups'' \<or> num = ''setgroups32'' then Some (result 0 g)
      else if num = ''mount'' then Some (result 0 (apply_emulated_mount h g))
      else if num = ''pivot_root'' then Some (result 0 (apply_emulated_pivot_root h g))
      else if num = ''umount'' \<or> num = ''umount2'' then Some (result 0 (apply_emulated_umount h g))
      else if num = ''unshare'' \<or> num = ''setns'' then Some (result 0 g)
      else if num = ''getpgrp'' then Some (result (o_getpgid own (world (paths g))) g)
      else if num = ''statfs'' then answer_statfs h own g
      else if num = ''utimes'' then Some (restart_utime h 32 timens_of_timevals g)
      else if num = ''utime'' then Some (restart_utime h 16 timens_of_utimbuf g)
      else if num = ''select'' then Some (restart_select h g)
      else if num = ''poll'' then Some (restart_poll h g)
      else if num = ''epoll_wait'' then Some (rewrite h ''epoll_pwait'' [poke SYSARG_5 0, poke SYSARG_6 0] g)
      else if num = ''time'' then Some (answer_time h own g)
      else if num = ''statx'' then
        (let (status, g) = handle_statx_syscall h own True g in Some (result status g))
      else if num = ''ftruncate'' then Some (restart_ftruncate h g)
      else if num = ''setresuid'' \<or> num = ''setresgid'' then Some (answer_setres h own num g)
      else
        (case restart_renamed h num g of
           Some g \<Rightarrow> Some g
         | None \<Rightarrow> Some (result (neg ENOSYS) g)))"

text \<open>The first component is the signal that is left to deliver.\<close>

definition handle_seccomp_event ::
  "('k, 'w) host \<Rightarrow> ('k, 'w) own_calls \<Rightarrow> ('k, 'w) guest \<Rightarrow> (int \<times> ('k, 'w) guest) option" where
  "handle_seccomp_event h own g =
     (let g = on_regs (\<lambda>t. t\<lparr>restore_original_regs := False\<rparr>) (g\<lparr>call_status := 0\<rparr>) in
      case fetch_regs (o_getregs own (krn (mach g))) (regs_of g) of
        (Inl _, _) \<Rightarrow> Some (SIGSYS, g)
      | (Inr _, t) \<Rightarrow>
          map_option (Pair 0)
            (handle_seccomp_event_common h own
               (on_regs (save_current_regs ORIGINAL_SECCOMP_REWRITE) (on_regs (\<lambda>_. t) g))))"

definition fix_and_restart_enosys_syscall ::
  "('k, 'w) host \<Rightarrow> ('k, 'w) own_calls \<Rightarrow> ('k, 'w) guest \<Rightarrow> ('k, 'w) guest option" where
  "fix_and_restart_enosys_syscall h own g =
     handle_seccomp_event_common h own
       (on_regs (\<lambda>t. save_current_regs ORIGINAL_SECCOMP_REWRITE
                       (set_bank (t\<lparr>restore_original_regs := False\<rparr>) CURRENT (regs t ORIGINAL)))
          (g\<lparr>call_status := 0\<rparr>))"

end
