(* ===== verification/Exit.thy ===== *)
theory Exit
  imports Restart
begin

text \<open>
  The exit stage of a system call, \<open>translate_syscall_exit\<close> of \<open>syscall/exit.c\<close> with \<open>syscall/rlimit.c\<close>: one
  definition per group of cases of its switch, then the switch between the two notifications.
\<close>

section \<open>The cases\<close>

text \<open>
  How a case ends: \<open>Result\<close> writes a status into the register of the result (\<open>break\<close>), \<open>Keep\<close> leaves it as the
  kernel or the case has set it (\<open>goto end\<close>), \<open>Lost\<close> has left a buffer of PRoot.
\<close>

datatype ending = Result int | Keep | Lost

definition EOPNOTSUPP :: int where "EOPNOTSUPP = 95"
definition FICLONE :: word_t where "FICLONE = 0x40049409"
definition AT_EXECFN :: word_t where "AT_EXECFN = 31"
definition RLIMIT_STACK :: word_t where "RLIMIT_STACK = 3"

text \<open>The kernel has reported an error.\<close>

definition failed :: "('k, 'w) guest \<Rightarrow> bool" where
  "failed g \<longleftrightarrow> c_int (sysarg g SYSARG_RESULT) < 0"

definition exit_getcwd :: "('k, 'w) host \<Rightarrow> ('k, 'w) guest \<Rightarrow> ending \<times> ('k, 'w) guest" where
  "exit_getcwd h g =
     (let n = arg g ORIGINAL SYSARG_2 in
      if n = 0 then (Result (neg EINVAL), g)
      else
        (case on_paths (translate_path (h_env h) AT_FDCWD ''.'' False) g of
           (Inl err, g) \<Rightarrow> (Result (neg err), g)
         | (Inr _, g) \<Rightarrow>
             (let path = cwd (fs_of (paths g)); new_size = length path + 1 in
              if unat n < new_size then (Result (neg ERANGE), g)
              else
                (case on_mach (write_data (h_mem h) (arg g ORIGINAL SYSARG_1) (bytes_of_string path)) g of
                   (Inl err, g) \<Rightarrow> (Result (neg err), g)
                 | (Inr _, g) \<Rightarrow> (Result (int new_size), g)))))"

text \<open>\<open>accept\<close>, \<open>accept4\<close>, \<open>getsockname\<close>, \<open>getpeername\<close>.\<close>

definition reported_address ::
  "('k, 'w) host \<Rightarrow> word_t \<Rightarrow> word_t \<Rightarrow> ('k, 'w) guest \<Rightarrow> ending \<times> ('k, 'w) guest" where
  "reported_address h sock_addr size_addr g =
     (let (status, g) = translate_socketcall_exit h sock_addr size_addr (arg g MODIFIED SYSARG_6) g in
      (if status < 0 then Result status else Keep, g))"

definition exit_accept :: "('k, 'w) host \<Rightarrow> sysnum \<Rightarrow> ('k, 'w) guest \<Rightarrow> ending \<times> ('k, 'w) guest" where
  "exit_accept h num g =
     (if (num = ''accept'' \<or> num = ''accept4'') \<and> arg g ORIGINAL SYSARG_2 = 0 then (Keep, g)
      else if failed g then (Keep, g)
      else reported_address h (arg g ORIGINAL SYSARG_2) (arg g MODIFIED SYSARG_3) g)"

text \<open>
  \<open>socketcall\<close>: the inner switch gives a status, or \<open>None\<close> when it goes to the end at once. The words that
  \<open>SYS_BIND\<close> and \<open>SYS_CONNECT\<close> restore are those of the fifth and sixth register.
\<close>

definition socketcall_status ::
  "('k, 'w) host \<Rightarrow> word_t \<Rightarrow> ('k, 'w) guest \<Rightarrow> int option \<times> ('k, 'w) guest" where
  "socketcall_status h args_addr g =
     (let call = arg g ORIGINAL SYSARG_1 in
      if call = 5 \<or> call = 18 then
        (case peek_word (h_mem h) (sysarg_addr g args_addr 2) (mach g) of
           Inl err \<Rightarrow> (Some (neg err), g)
         | Inr sock_addr \<Rightarrow> (if sock_addr = 0 then None else Some 1, g))
      else if call = 6 \<or> call = 7 then (Some 1, g)
      else if call = 2 \<or> call = 3 then
        (case on_mach (poke_word (h_mem h) (sysarg_addr g args_addr 2) (arg g MODIFIED SYSARG_5)) g of
           (Inl err, g) \<Rightarrow> (Some (neg err), g)
         | (Inr _, g) \<Rightarrow>
             (let (res, g) = on_mach (poke_word (h_mem h) (sysarg_addr g args_addr 3) (arg g MODIFIED SYSARG_6)) g in
              (Some (status_of res), g)))
      else (Some 0, g))"

definition exit_socketcall :: "('k, 'w) host \<Rightarrow> ('k, 'w) guest \<Rightarrow> ending \<times> ('k, 'w) guest" where
  "exit_socketcall h g =
     (let args_addr = arg g ORIGINAL SYSARG_2; has_failed = failed g in
      case socketcall_status h args_addr g of
        (None, g) \<Rightarrow> (Keep, g)
      | (Some status, g) \<Rightarrow>
          if has_failed \<or> status = 0 then (Keep, g)
          else if status < 0 then (Result status, g)
          else
            (case peek_word (h_mem h) (sysarg_addr g args_addr 2) (mach g) of
               Inl err \<Rightarrow> (Result (neg err), g)
             | Inr sock_addr \<Rightarrow>
                 (case peek_word (h_mem h) (sysarg_addr g args_addr 3) (mach g) of
                    Inl err \<Rightarrow> (Result (neg err), g)
                  | Inr size_addr \<Rightarrow> reported_address h sock_addr size_addr g)))"

text \<open>The path in a register, seen from the guest, with its length as the code computes it.\<close>

definition guest_path_at ::
  "('k, 'w) host \<Rightarrow> reg \<Rightarrow> ('k, 'w) guest \<Rightarrow> (string \<times> nat) res" where
  "guest_path_at h r g =
     bindE (read_path (h_mem h) (arg g MODIFIED r) (mach g)) (\<lambda>(bs, _).
     bindE (detranslate_path (h_env h) (fs_of (paths g)) (string_of_bytes bs) None) (\<lambda>(n, path).
       Inr (path, if n > 0 then nat (n - 1) else length path)))"

definition exit_rename :: "('k, 'w) host \<Rightarrow> sysnum \<Rightarrow> ('k, 'w) guest \<Rightarrow> ending \<times> ('k, 'w) guest" where
  "exit_rename h num g =
     (if failed g then (Keep, g)
      else
        (case guest_path_at h (if num = ''rename'' then SYSARG_1 else SYSARG_2) g of
           Inl err \<Rightarrow> (Result (neg err), g)
         | Inr (old_path, old_length) \<Rightarrow>
             (let here = cwd (fs_of (paths g)); comparison = compare_paths old_path here in
              if comparison \<noteq> PATH1_IS_PREFIX \<and> comparison \<noteq> PATHS_ARE_EQUAL then (Result 0, g)
              else
                (case guest_path_at h (if num = ''rename'' then SYSARG_2 else SYSARG_4) g of
                   Inl err \<Rightarrow> (Result (neg err), g)
                 | Inr (new_path, new_length) \<Rightarrow>
                     if length here \<ge> PATH_MAX then (Result 0, g)
                     else
                       (let moved = (case substitute_path_prefix here old_length new_path new_length of
                                       Inl _ \<Rightarrow> here | Inr path \<Rightarrow> path) in
                        (Result 0, g\<lparr>paths := (paths g)\<lparr>fs_of := (fs_of (paths g))\<lparr>cwd := moved\<rparr>\<rparr>\<rparr>))))))"

text \<open>
  \<open>readlink\<close>: the host path of the link, or that of the descriptor when the path is empty. The test
  \<open>dirfd < 0\<close> compares an unsigned word.
\<close>

definition readlink_referer ::
  "('k, 'w) host \<Rightarrow> sysnum \<Rightarrow> word_t \<Rightarrow> ('k, 'w) guest \<Rightarrow> string res" where
  "readlink_referer h num input g =
     bindE (read_path (h_mem h) input (mach g)) (\<lambda>(bs, n).
       if n \<ge> PATH_MAX then Inl ENAMETOOLONG
       else if n = 1 then
         (if num = ''readlink'' then Inl EBADF
          else readlink_proc_pid_fd (h_env h) (world (paths g)) (tracee_pid (h_env h)) (c_int (arg g ORIGINAL SYSARG_1)))
       else Inr (string_of_bytes bs))"

text \<open>What PRoot reads again when the kernel has filled the whole buffer.\<close>

definition whole_link :: "('k, 'w) host \<Rightarrow> bool \<Rightarrow> string \<Rightarrow> string \<Rightarrow> ('k, 'w) guest \<Rightarrow> string" where
  "whole_link h was_full referer referee g =
     (if was_full then
        (case k_readlink (h_env h) (world (paths g)) referer of
           Inl _ \<Rightarrow> referee
         | Inr content \<Rightarrow> if content = [] then referee else take (PATH_MAX - 1) content)
      else referee)"

definition exit_readlink :: "('k, 'w) host \<Rightarrow> sysnum \<Rightarrow> ('k, 'w) guest \<Rightarrow> ending \<times> ('k, 'w) guest" where
  "exit_readlink h num g =
     (if failed g then (Keep, g)
      else
        (let old_size = unat (sysarg g SYSARG_RESULT);
             output = arg g ORIGINAL (if num = ''readlink'' then SYSARG_2 else SYSARG_3);
             max_size = min (unat (arg g ORIGINAL (if num = ''readlink'' then SYSARG_3 else SYSARG_4))) PATH_MAX;
             input = arg g MODIFIED (if num = ''readlink'' then SYSARG_1 else SYSARG_2) in
         if max_size = 0 then (Result (neg EINVAL), g)
         else if old_size \<ge> PATH_MAX then (Lost, g)
         else
           (case bindE (read_data (h_mem h) output old_size (mach g)) (\<lambda>bs.
                 bindE (readlink_referer h num input g) (\<lambda>referer.
                   detranslate_path (h_env h) (fs_of (paths g))
                     (whole_link h (old_size = max_size) referer (string_of_bytes bs) g) (Some referer))) of
              Inl err \<Rightarrow> (Result (neg err), g)
            | Inr (n, referee) \<Rightarrow>
                if n = 0 then (Keep, g)
                else
                  (let fits = (nat n < max_size) in
                   case on_mach (write_data (h_mem h) output
                          (take (if fits then nat n else max_size) (bytes_of_string referee))) g of
                     (Inl err, g) \<Rightarrow> (Result (neg err), g)
                   | (Inr _, g) \<Rightarrow> (Result (if fits then n - 1 else int max_size), g)))))"

text \<open>The descriptor of \<open>/proc/self/auxv\<close>; the buffer for its path has 16 bytes.\<close>

definition exit_open :: "('k, 'w) host \<Rightarrow> sysnum \<Rightarrow> ('k, 'w) guest \<Rightarrow> ('k, 'w) guest" where
  "exit_open h num g =
     (if failed g \<or> execfn_addr g = 0 then g
      else
        (case read_string (h_mem h) (arg g ORIGINAL (if num = ''open'' then SYSARG_1 else SYSARG_2)) 16 (mach g) of
           Inl _ \<Rightarrow> g
         | Inr (bs, n) \<Rightarrow>
             if n = 0 \<or> string_of_bytes bs \<noteq> ''/proc/self/auxv'' then g
             else force_sysexit (g\<lparr>auxv_fd := c_int (sysarg g SYSARG_RESULT)\<rparr>)))"

text \<open>The loop over a vector of auxiliary values: the number of entries that lie in the buffer, its address.\<close>

fun patch_execfn :: "('k, 'w) host \<Rightarrow> nat \<Rightarrow> word_t \<Rightarrow> ('k, 'w) guest \<Rightarrow> ('k, 'w) guest" where
  "patch_execfn h 0 addr g = g"
| "patch_execfn h (Suc n) addr g =
     (let w = of_nat (sizeof_word (regs_of g)) in
      case peek_word (h_mem h) addr (mach g) of
        Inl _ \<Rightarrow> g
      | Inr type \<Rightarrow>
          if type = 0 then g
          else if type = AT_EXECFN then snd (on_mach (poke_word (h_mem h) (addr + w) (execfn_addr g)) g)
          else patch_execfn h n (addr + 2 * w) g)"

definition exit_read :: "('k, 'w) host \<Rightarrow> ('k, 'w) guest \<Rightarrow> ('k, 'w) guest" where
  "exit_read h g =
     (let result = sysarg g SYSARG_RESULT in
      if auxv_fd g < 0 \<or> execfn_addr g = 0 \<or> result = 0 \<or> sint result < 0 \<or>
         c_int (arg g ORIGINAL SYSARG_1) \<noteq> auxv_fd g
      then g
      else
        force_sysexit
          (patch_execfn h (unat result div (2 * sizeof_word (regs_of g))) (arg g ORIGINAL SYSARG_2) g))"

definition exit_prctl :: "('k, 'w) host \<Rightarrow> ('k, 'w) guest \<Rightarrow> ('k, 'w) guest" where
  "exit_prctl h g =
     (let option = arg g ORIGINAL SYSARG_1; result = sysarg g SYSARG_RESULT in
      if option = PR_SET_NO_NEW_PRIVS then
        (if seen_execve g \<and> c_int result = 0 then g\<lparr>no_new_privs := True\<rparr> else g)
      else if option \<noteq> PR_GET_AUXV \<or> failed g \<or> execfn_addr g = 0 \<or> result > arg g ORIGINAL SYSARG_3 then g
      else patch_execfn h (unat result div (2 * sizeof_word (regs_of g))) (arg g ORIGINAL SYSARG_2) g)"

text \<open>\<open>translate_setrlimit_exit\<close>: the stack limit of PRoot follows that of the tracee upwards.\<close>

definition translate_setrlimit_exit ::
  "('k, 'w) host \<Rightarrow> ('k, 'w) own_calls \<Rightarrow> bool \<Rightarrow> ('k, 'w) guest \<Rightarrow> int \<times> ('k, 'w) guest" where
  "translate_setrlimit_exit h own is_prlimit g =
     (let resource = arg g ORIGINAL (if is_prlimit then SYSARG_2 else SYSARG_1);
          address = arg g ORIGINAL (if is_prlimit then SYSARG_3 else SYSARG_2) in
      if resource \<noteq> RLIMIT_STACK then (0, g)
      else if is_prlimit \<and> address = 0 then (0, g)
      else
        (case (if is_prlimit then peek_uint (h_mem h) 8 address (mach g)
               else bindE (peek_word (h_mem h) address (mach g))
                 (\<lambda>limit. Inr (if is_32on64_mode (regs_of g) \<and> limit = 0xFFFFFFFF then - 1 else limit))) of
           Inl err \<Rightarrow> (neg err, g)
         | Inr tracee_stack_limit \<Rightarrow>
             (case o_stack_limit own (world (paths g)) of
                None \<Rightarrow> (0, g)
              | Some proot_stack \<Rightarrow>
                  if proot_stack \<ge> tracee_stack_limit then (0, g)
                  else (0, g\<lparr>paths := (paths g)\<lparr>world :=
                    o_set_stack_limit own tracee_stack_limit (world (paths g))\<rparr>\<rparr>))))"

definition exit_statfs :: "('k, 'w) host \<Rightarrow> sysnum \<Rightarrow> ('k, 'w) guest \<Rightarrow> ('k, 'w) guest" where
  "exit_statfs h num g =
     (if sysarg g SYSARG_RESULT \<noteq> 0 then g
      else
        (case on_paths (translate_path (h_env h) AT_FDCWD ''/dev/shm'' True) g of
           (Inl _, g) \<Rightarrow> g
         | (Inr devshm_path, g) \<Rightarrow>
             (case read_path (h_mem h) (arg g MODIFIED SYSARG_1) (mach g) of
                Inl _ \<Rightarrow> g
              | Inr (bs, _) \<Rightarrow>
                  (let comparison = compare_paths devshm_path (string_of_bytes bs);
                       stat_addr = arg g ORIGINAL (if num = ''statfs64'' then SYSARG_3 else SYSARG_2) in
                   if comparison = PATHS_ARE_EQUAL \<or> comparison = PATH1_IS_PREFIX
                   then snd (on_mach (write_data (h_mem h) stat_addr (le 4 TMPFS_MAGIC)) g)
                   else g))))"

definition exit_ioctl :: "('k, 'w) guest \<Rightarrow> ('k, 'w) guest" where
  "exit_ioctl g =
     (if arg g ORIGINAL SYSARG_2 = FICLONE \<and> c_int (sysarg g SYSARG_RESULT) = neg EACCES
      then poke SYSARG_RESULT (of_c_int (- EOPNOTSUPP)) g else g)"

text \<open>The descriptor that stands for a netlink socket.\<close>

definition exit_socket :: "('k, 'w) guest \<Rightarrow> ('k, 'w) guest" where
  "exit_socket g =
     (if pending_fake_netlink_socket g then
        (let fd = c_int (sysarg g SYSARG_RESULT); fds = fake_netlink_fds g in
         g\<lparr>fake_netlink_fds :=
             (if fd \<ge> 0 \<and> length fds < MAX_FAKE_NETLINK_FDS \<and> fd \<notin> set fds then fds @ [fd] else fds),
           pending_fake_netlink_socket := False\<rparr>)
      else g)"

section \<open>The switch\<close>

definition voided_calls :: "sysnum list" where
  "voided_calls =
     [''fchdir'', ''chdir'', ''unshare'', ''setns'', ''mount'', ''umount'', ''umount2'', ''pivot_root'']"

definition exit_switch ::
  "('k, 'w) host \<Rightarrow> ('k, 'w) own_calls \<Rightarrow> sysnum \<Rightarrow> ('k, 'w) guest \<Rightarrow> ending \<times> ('k, 'w) guest" where
  "exit_switch h own num g =
     (if num = ''brk'' then (Keep, on_regs (translate_brk_exit (h_beyond h) (h_heap_offset h)) g)
      else if num = ''getcwd'' then exit_getcwd h g
      else if num = ''accept'' \<or> num = ''accept4'' \<or> num = ''getsockname'' \<or> num = ''getpeername'' then exit_accept h num g
      else if num = ''socketcall'' then exit_socketcall h g
      else if num \<in> set voided_calls then (Result 0, g)
      else if num = ''rename'' \<or> num = ''renameat'' then exit_rename h num g
      else if num = ''readlink'' \<or> num = ''readlinkat'' then exit_readlink h num g
      else if num = ''execve'' \<or> num = ''execveat'' then (Keep, o_execve_exit own g)
      else if num = ''openat2'' \<or> num = ''openat'' \<or> num = ''open'' then (Keep, exit_open h num g)
      else if num = ''read'' then (Keep, exit_read h g)
      else if num = ''prctl'' then (Keep, exit_prctl h g)
      else if num = ''ptrace'' then (let (status, g) = o_ptrace_exit own g in (Result status, g))
      else if num = ''wait4'' \<or> num = ''waitpid'' then
        (if \<not> o_waits_in_proot own g then (Keep, g)
         else (let (status, g) = o_wait_exit own g in (Result status, g)))
      else if num = ''setrlimit'' \<or> num = ''prlimit64'' then
        (if failed g then (Keep, g)
         else (let (status, g) = translate_setrlimit_exit h own (num = ''prlimit64'') g in
               (if status < 0 then Result status else Keep, g)))
      else if num = ''utime'' then
        (if c_int (sysarg g SYSARG_RESULT) = neg ENOSYS then
           (case fix_and_restart_enosys_syscall h own g of None \<Rightarrow> (Lost, g) | Some g \<Rightarrow> (Keep, g))
         else (Keep, g))
      else if num = ''statfs'' \<or> num = ''statfs64'' then (Keep, exit_statfs h num g)
      else if num = ''statx'' then (let (status, g) = handle_statx_syscall h own False g in (Result status, g))
      else if num = ''ioctl'' then (Keep, exit_ioctl g)
      else if num = ''socket'' then (Keep, exit_socket g)
      else (Keep, g))"

text \<open>A call that the enter stage has voided keeps the result of that stage.\<close>

definition keep_void_result :: "('k, 'w) guest \<Rightarrow> ('k, 'w) guest" where
  "keep_void_result g =
     (let avoider = (if is_32on64_mode (regs_of g) then SYSCALL_AVOIDER AND 0xFFFFFFFF else SYSCALL_AVOIDER) in
      if arg g MODIFIED SYSARG_NUM = avoider \<and> arg g ORIGINAL SYSARG_NUM \<noteq> arg g MODIFIED SYSARG_NUM
      then poke SYSARG_RESULT (arg g MODIFIED SYSARG_RESULT) g else g)"

text \<open>\<open>None\<close> is a run that has left the buffers of PRoot.\<close>

definition translate_syscall_exit ::
  "('k, 'w) host \<Rightarrow> ('k, 'w) own_calls \<Rightarrow> ('k, 'w) guest \<Rightarrow> ('k, 'w) guest option" where
  "translate_syscall_exit h own g =
     (let set_result = (\<lambda>status. poke SYSARG_RESULT (of_c_int status));
          finish = (\<lambda>g. let (status, g) = notify (h_callbacks h) SYSCALL_EXIT_END g in
                        if status < 0 then set_result status g else g);
          (status, g) = notify (h_callbacks h) SYSCALL_EXIT_START g in
      if status < 0 then Some (finish (set_result status g))
      else if status > 0 then Some g
      else if call_status g < 0 then Some (finish (set_result (call_status g) g))
      else
        (let g = keep_void_result g in
         case exit_switch h own (get_sysnum (h_beyond h) (regs_of g) ORIGINAL) g of
           (Result status, g) \<Rightarrow> Some (finish (set_result status g))
         | (Keep, g) \<Rightarrow> Some (finish g)
         | (Lost, g) \<Rightarrow> None))"

end
