(* ===== verification/Confine.thy ===== *)
theory Confine
  imports Enter
begin

text \<open>
  The paths that a call has after its enter stage: each one is in the memory of the tracee, below its stack
  pointer, and is the translation of the path that the tracee has given, with the directory and the treatment of a
  final link that the call asks for. The theory ends with the tracee that the witnesses use.
\<close>

section \<open>The paths that the kernel gets\<close>

definition passed :: "('k \<Rightarrow> memory) \<Rightarrow> (string \<Rightarrow> bool) \<Rightarrow> nat \<Rightarrow> ('k, 'w) guest \<Rightarrow> reg \<Rightarrow> bool" where
  "passed v P k g r \<longleftrightarrow> (\<exists>p. P p \<and> cstr p \<and> held v k g r p)"

lemma passed_mono: "passed v P k g r \<Longrightarrow> k \<le> l \<Longrightarrow> passed v P l g r"
  using held_mono [of v k g r _ l] by (auto simp: passed_def)

lemma passed_weaken: "passed v P k g r \<Longrightarrow> (\<And>p. P p \<Longrightarrow> Q p) \<Longrightarrow> passed v Q k g r"
  by (auto simp: passed_def)

text \<open>The translation of the path that a register holds.\<close>

definition image_of ::
  "('k, 'w) host \<Rightarrow> ('k, 'w) guest \<Rightarrow> 'w path_state \<Rightarrow> reg \<Rightarrow> int \<Rightarrow> bool \<Rightarrow> string \<Rightarrow> bool" where
  "image_of h g s r fd follow p \<longleftrightarrow>
     (\<exists>u s'. get_sysarg_path (h_mem h) r (mach g) = Inr u \<and> u \<noteq> [] \<and>
        translate_path (h_env h) fd u follow s = (Inr p, s'))"

text \<open>The state of the paths, or the one that an earlier translation has left.\<close>

definition reached :: "'w env \<Rightarrow> 'w path_state \<Rightarrow> 'w path_state \<Rightarrow> bool" where
  "reached e s0 s \<longleftrightarrow> s = s0 \<or> (\<exists>fd u follow p. translate_path e fd u follow s0 = (Inr p, s))"

text \<open>A register is translated, or it held an empty path, which is left alone.\<close>

definition settled ::
  "('k \<Rightarrow> memory) \<Rightarrow> ('k, 'w) host \<Rightarrow> (string \<Rightarrow> bool) \<Rightarrow> nat \<Rightarrow> ('k, 'w) guest \<Rightarrow> ('k, 'w) guest \<Rightarrow> reg \<Rightarrow> bool" where
  "settled v h P k g g' r \<longleftrightarrow>
     passed v P k g' r \<or> get_sysarg_path (h_mem h) r (mach g) = Inr [] \<and> sysarg g' r = sysarg g r"

lemma apart_argument: "r \<in> set argument_regs \<Longrightarrow> q \<in> set argument_regs \<Longrightarrow> r \<noteq> q \<Longrightarrow> apart r q \<and> apart STACK_POINTER q"
  by (auto simp: apart_def argument_regs_def)

lemma translate_path2_settled:
  assumes "guest_ok v h g" "r \<in> set argument_regs" "get_sysarg_path (h_mem h) r (mach g0) = Inr user"
    and "translate_path2 h fd user r type g = (status, g')" "0 \<le> status"
  shows "guest_ok v h g'" "reached (h_env h) (paths g) (paths g')"
    "\<And>q. q \<in> set argument_regs \<Longrightarrow> q \<noteq> r \<Longrightarrow> sysarg g' q = sysarg g q"
    "\<And>q k P. passed v P k g q \<Longrightarrow> q \<in> set argument_regs \<Longrightarrow> q \<noteq> r \<Longrightarrow> k \<le> 4096 \<Longrightarrow> passed v P (k + 4096) g' q"
    "if user = [] then g' = g else passed v (image_of h g0 (paths g) r fd (type \<noteq> SYMLINK)) 0 g' r"
proof -
  note ok = translate_path2_ok [OF assms(1) get_sysarg_path_cstr [OF assms(3)] assms(2,4,5)]
  show "guest_ok v h g'" using ok by blast
  show "reached (h_env h) (paths g) (paths g')"
    using ok unfolding reached_def by (cases "user = []") auto
  show "sysarg g' q = sysarg g q" if "q \<in> set argument_regs" "q \<noteq> r" for q
    using ok apart_argument [OF assms(2) that(1)] that(2) by blast
  show "passed v P (k + 4096) g' q"
    if "passed v P k g q" "q \<in> set argument_regs" "q \<noteq> r" "k \<le> 4096" for q k P
  proof -
    have "k + 4096 < 2 ^ 54" using that(4) by simp
    then show ?thesis using ok that(1-3) unfolding passed_def by blast
  qed
  show "if user = [] then g' = g else passed v (image_of h g0 (paths g) r fd (type \<noteq> SYMLINK)) 0 g' r"
    using ok assms(3) unfolding passed_def image_of_def by (cases "user = []") auto
qed

lemma translate_sysarg_settled:
  assumes "guest_ok v h g" "r \<in> set argument_regs" "translate_sysarg h r type g = (status, g')" "0 \<le> status"
  shows "guest_ok v h g'" "reached (h_env h) (paths g) (paths g')"
    "\<And>q. q \<in> set argument_regs \<Longrightarrow> q \<noteq> r \<Longrightarrow> sysarg g' q = sysarg g q"
    "\<And>q k P. passed v P k g q \<Longrightarrow> q \<in> set argument_regs \<Longrightarrow> q \<noteq> r \<Longrightarrow> k \<le> 4096 \<Longrightarrow> passed v P (k + 4096) g' q"
    "if get_sysarg_path (h_mem h) r (mach g) = Inr [] then g' = g
     else passed v (image_of h g (paths g) r AT_FDCWD (type \<noteq> SYMLINK)) 0 g' r"
proof -
  obtain user where u: "get_sysarg_path (h_mem h) r (mach g) = Inr user"
    using assms(3,4) by (auto simp: translate_sysarg_def neg_signs split: sum.splits)
  have t: "translate_path2 h AT_FDCWD user r type g = (status, g')"
    using assms(3) by (simp add: translate_sysarg_def u)
  note s = translate_path2_settled [OF assms(1,2) u t assms(4)]
  show "guest_ok v h g'" "reached (h_env h) (paths g) (paths g')" using s by blast+
  show "\<And>q. q \<in> set argument_regs \<Longrightarrow> q \<noteq> r \<Longrightarrow> sysarg g' q = sysarg g q"
    "\<And>q k P. passed v P k g q \<Longrightarrow> q \<in> set argument_regs \<Longrightarrow> q \<noteq> r \<Longrightarrow> k \<le> 4096 \<Longrightarrow> passed v P (k + 4096) g' q"
    using s(3,4) by blast+
  show "if get_sysarg_path (h_mem h) r (mach g) = Inr [] then g' = g
     else passed v (image_of h g (paths g) r AT_FDCWD (type \<noteq> SYMLINK)) 0 g' r"
    using s(5) u by simp
qed

lemma settledI:
  "(if get_sysarg_path (h_mem h) r (mach g) = Inr [] then g' = g else passed v P 0 g' r) \<Longrightarrow> settled v h P 0 g g' r"
  by (auto simp: settled_def split: if_splits)

lemma settled_mono: "settled v h P k g g' r \<Longrightarrow> k \<le> l \<Longrightarrow> settled v h P l g g' r"
  using passed_mono unfolding settled_def by metis

lemma sysarg_settles:
  assumes "guest_ok v h g" "r \<in> set argument_regs" "translate_sysarg h r type g = (status, g')" "0 \<le> status"
  shows "settled v h (image_of h g (paths g) r AT_FDCWD (type \<noteq> SYMLINK)) 4096 g g' r"
  by (rule settled_mono [OF settledI [OF translate_sysarg_settled(5) [OF assms]]]) simp

lemma at_settles:
  assumes "guest_ok v h g" "r \<in> set argument_regs" "enter_at h d r type g = (status, g')" "0 \<le> status"
  shows "settled v h (image_of h g (paths g) r (c_int (sysarg g d)) (type \<noteq> SYMLINK)) 4096 g g' r"
proof -
  obtain user where u: "get_sysarg_path (h_mem h) r (mach g) = Inr user"
    using assms(3,4) by (auto simp: enter_at_def neg_signs split: sum.splits)
  have t: "translate_path2 h (c_int (sysarg g d)) user r type g = (status, g')"
    using assms(3) by (simp add: enter_at_def u)
  have "settled v h (image_of h g (paths g) r (c_int (sysarg g d)) (type \<noteq> SYMLINK)) 0 g g' r"
    by (rule settledI) (use translate_path2_settled(5) [OF assms(1,2) u t assms(4)] u in simp)
  then show ?thesis by (rule settled_mono) simp
qed

text \<open>Both paths of \<open>linkat\<close> and its kin are read first.\<close>

lemma two_at_settles:
  assumes "guest_ok v h g" "enter_two_at h type g = (status, g')" "0 \<le> status"
  shows "settled v h (image_of h g (paths g) SYSARG_2 (c_int (sysarg g SYSARG_1)) (type \<noteq> SYMLINK)) 4096 g g' SYSARG_2"
    "\<exists>s. reached (h_env h) (paths g) s \<and>
       settled v h (image_of h g s SYSARG_4 (c_int (sysarg g SYSARG_3)) False) 4096 g g' SYSARG_4"
proof -
  have a: "SYSARG_2 \<in> set argument_regs" "SYSARG_4 \<in> set argument_regs" by (simp_all add: argument_regs_def)
  obtain old new where p: "get_sysarg_path (h_mem h) SYSARG_2 (mach g) = Inr old"
      "get_sysarg_path (h_mem h) SYSARG_4 (mach g) = Inr new"
    using assms(2,3) by (auto simp: enter_two_at_def Let_def neg_signs split: sum.splits)
  obtain status1 g1 where o: "translate_path2 h (c_int (sysarg g SYSARG_1)) old SYSARG_2 type g = (status1, g1)"
    by fastforce
  have st: "0 \<le> status1" using assms(2,3) o by (auto simp: enter_two_at_def Let_def p split: if_splits)
  then have n: "translate_path2 h (c_int (sysarg g SYSARG_3)) new SYSARG_4 SYMLINK g1 = (status, g')"
    using assms(2) o by (simp add: enter_two_at_def Let_def p)
  note s1 = translate_path2_settled [OF assms(1) a(1) p(1) o st]
  note s2 = translate_path2_settled [OF s1(1) a(2) p(2) n assms(3)]
  show "settled v h (image_of h g (paths g) SYSARG_2 (c_int (sysarg g SYSARG_1)) (type \<noteq> SYMLINK)) 4096 g g' SYSARG_2"
    unfolding settled_def
    using s1(5) s2(3) [OF a(1)] s2(4) [OF _ a(1), of _ 0] p(1) by (auto split: if_splits)
  have "settled v h (image_of h g (paths g1) SYSARG_4 (c_int (sysarg g SYSARG_3)) False) 0 g g' SYSARG_4"
    unfolding settled_def using s2(5) s1(3) [OF a(2)] p(2) by (auto split: if_splits)
  then show "\<exists>s. reached (h_env h) (paths g) s \<and>
       settled v h (image_of h g s SYSARG_4 (c_int (sysarg g SYSARG_3)) False) 4096 g g' SYSARG_4"
    using s1(2) settled_mono by blast
qed

text \<open>\<open>link\<close> and \<open>rename\<close> read their second path after the first one has been translated.\<close>

lemma two_paths_settles:
  assumes "guest_ok v h g" "enter_two_paths h g = (status, g')" "0 \<le> status"
  shows "settled v h (image_of h g (paths g) SYSARG_1 AT_FDCWD False) 4096 g g' SYSARG_1"
    "\<exists>g1. g1 = snd (translate_sysarg h SYSARG_1 SYMLINK g) \<and> reached (h_env h) (paths g) (paths g1) \<and>
       settled v h (image_of h g1 (paths g1) SYSARG_2 AT_FDCWD False) 4096 g1 g' SYSARG_2"
proof -
  have a: "SYSARG_1 \<in> set argument_regs" "SYSARG_2 \<in> set argument_regs" by (simp_all add: argument_regs_def)
  obtain status1 g1 where o: "translate_sysarg h SYSARG_1 SYMLINK g = (status1, g1)" by fastforce
  have st: "0 \<le> status1" using assms(2,3) o by (auto simp: enter_two_paths_def split: if_splits)
  then have n: "translate_sysarg h SYSARG_2 SYMLINK g1 = (status, g')"
    using assms(2) o by (simp add: enter_two_paths_def)
  note s1 = translate_sysarg_settled [OF assms(1) a(1) o st]
  note s2 = translate_sysarg_settled [OF s1(1) a(2) n assms(3)]
  show "settled v h (image_of h g (paths g) SYSARG_1 AT_FDCWD False) 4096 g g' SYSARG_1" unfolding settled_def
    using s1(5) s2(3) [OF a(1)] s2(4) [OF _ a(1), of _ 0] by (auto split: if_splits)
  show "\<exists>g1. g1 = snd (translate_sysarg h SYSARG_1 SYMLINK g) \<and> reached (h_env h) (paths g) (paths g1) \<and>
       settled v h (image_of h g1 (paths g1) SYSARG_2 AT_FDCWD False) 4096 g1 g' SYSARG_2"
    using o s1(2) sysarg_settles [OF s1(1) a(2) n assms(3)] by (intro exI [of _ g1]) simp
qed

lemma get_sysarg_path_cong:
  assumes "krn (mach g1) = krn (mach g)" "sysarg g1 r = sysarg g r"
  shows "get_sysarg_path (h_mem h) r (mach g1) = get_sysarg_path (h_mem h) r (mach g)"
proof -
  have "read_string (h_mem h) a n (mach g1) = read_string (h_mem h) a n (mach g)" for a n
    unfolding read_string_def assms(1) ..
  then have p: "read_path (h_mem h) a (mach g1) = read_path (h_mem h) a (mach g)" for a by (simp add: read_path_def)
  show ?thesis using assms(2) unfolding get_sysarg_path_def sysarg_def regs_of_def p by simp
qed

lemma settled_from:
  assumes "settled v h P k g1 g' r" "krn (mach g1) = krn (mach g)" "sysarg g1 r = sysarg g r"
  shows "settled v h P k g g' r"
  using assms(1) unfolding settled_def assms(3) get_sysarg_path_cong [OF assms(2,3)] .

lemma image_of_from:
  assumes "krn (mach g1) = krn (mach g)" "sysarg g1 r = sysarg g r"
  shows "image_of h g1 s r fd follow = image_of h g s r fd follow"
  unfolding image_of_def get_sysarg_path_cong [OF assms] ..

lemma guest_ok_regs:
  "guest_ok v h (on_regs f g) = guest_ok v h g" "guest_ok v h (g\<lparr>sysexit_pending := b\<rparr>) = guest_ok v h g"
  "guest_ok v h (force_sysexit g) = guest_ok v h g" "guest_ok v h (poke r w g) = guest_ok v h g"
  by (simp_all add: guest_ok_def on_regs_def force_sysexit_def poke_def steady_def)

lemma on_regs_simps:
  "paths (on_regs f g) = paths g" "krn (mach (on_regs f g)) = krn (mach g)"
  "paths (force_sysexit g) = paths g" "krn (mach (force_sysexit g)) = krn (mach g)"
  "paths (poke r w g) = paths g" "krn (mach (poke r w g)) = krn (mach g)"
  by (simp_all add: on_regs_def force_sysexit_def poke_def)

lemma sysarg_force_sysexit: "sysarg (force_sysexit g) r = sysarg g r"
  by (simp add: sysarg_def regs_of_def on_regs_def force_sysexit_def peek_reg_def is_32on64_mode_def slot_def Let_def)

lemma sysarg_poke: "apart q r \<Longrightarrow> sysarg (poke q w g) r = sysarg g r"
  by (simp add: sysarg_def regs_of_def poke_def on_regs_def peek_poke_other)

lemma sysarg_set_sysnum: "apart SYSARG_NUM r \<Longrightarrow> sysarg (on_regs (set_sysnum num) g) r = sysarg g r"
  by (simp add: sysarg_def regs_of_def on_regs_def set_sysnum_def peek_poke_other)

text \<open>\<open>open\<close>, \<open>openat\<close>, with the redirection that follows the translation.\<close>

definition or_null :: "(string \<Rightarrow> bool) \<Rightarrow> string \<Rightarrow> bool" where
  "or_null P q \<longleftrightarrow> (\<exists>p. P p \<and> (q = p \<or> is_proc_userns_file p \<and> q = ''/dev/null''))"

lemma redirect_settles:
  assumes "guest_ok v h g1" "r \<in> set argument_regs"
    and "if get_sysarg_path (h_mem h) r (mach g) = Inr [] then g1 = g else passed v P 0 g1 r"
  shows "settled v h (or_null P) 4096 g (maybe_redirect_userns_file h r g1) r"
proof (cases "get_sysarg_path (h_mem h) r (mach g) = Inr []")
  case True
  then have "maybe_redirect_userns_file h r g1 = g" using assms redirect_ok [OF assms(1,2) refl] by auto
  then show ?thesis using True by (simp add: settled_def)
next
  case False
  then obtain p where p: "P p" "cstr p" "held v 0 g1 r p" using assms(3) by (auto simp: passed_def)
  have "\<exists>q. (q = p \<or> q = ''/dev/null'' \<and> is_proc_userns_file p) \<and> held v (0 + 4096) (maybe_redirect_userns_file h r g1) r q"
    using redirect_ok [OF assms(1,2) refl, THEN conjunct2, THEN conjunct2, THEN conjunct1, rule_format, OF p(3,2)] by simp
  then obtain q where q: "q = p \<or> q = ''/dev/null'' \<and> is_proc_userns_file p"
    "held v (0 + 4096) (maybe_redirect_userns_file h r g1) r q"
    by blast
  have "cstr ''/dev/null''" by (simp add: cstr_def)
  then have "cstr q" using q(1) p(2) by blast
  moreover have "or_null P q" using q(1) p(1) unfolding or_null_def by blast
  ultimately show ?thesis using q(2) unfolding settled_def passed_def by auto
qed

lemma open_settles:
  assumes "guest_ok v h g" "enter_open h g = (status, g')" "0 \<le> status"
  shows "settled v h (or_null (image_of h g (paths g) SYSARG_1 AT_FDCWD (open_type (sysarg g SYSARG_2) \<noteq> SYMLINK)))
    4096 g g' SYSARG_1"
proof -
  have a: "SYSARG_1 \<in> set argument_regs" by (simp add: argument_regs_def)
  obtain g0 g1 where g0: "g0 = g \<or> g0 = force_sysexit g"
    "translate_sysarg h SYSARG_1 (open_type (sysarg g SYSARG_2)) g0 = (status, g1)"
    "g' = maybe_redirect_userns_file h SYSARG_1 g1"
    using assms(2,3) by (auto simp: enter_open_def Let_def split: prod.splits if_splits)
  have ok: "guest_ok v h g0" using g0(1) assms(1) by (auto simp: guest_ok_regs)
  have same: "krn (mach g0) = krn (mach g)" "sysarg g0 SYSARG_1 = sysarg g SYSARG_1" "paths g0 = paths g"
    using g0(1) by (auto simp: on_regs_simps sysarg_force_sysexit)
  note s = translate_sysarg_settled [OF ok a g0(2) assms(3)]
  show ?thesis
    using settled_from [OF redirect_settles [OF s(1) a s(5)] same(1,2)]
    unfolding g0(3) same(3) image_of_from [OF same(1,2)] .
qed

lemma openat_settles:
  assumes "guest_ok v h g" "enter_openat h g = (status, g')" "0 \<le> status"
  shows "settled v h (or_null (image_of h g (paths g) SYSARG_2 (c_int (sysarg g SYSARG_1))
    (open_type (sysarg g SYSARG_3) \<noteq> SYMLINK))) 4096 g g' SYSARG_2"
proof -
  have a: "SYSARG_2 \<in> set argument_regs" by (simp add: argument_regs_def)
  obtain user where u: "get_sysarg_path (h_mem h) SYSARG_2 (mach g) = Inr user"
    using assms(2,3) by (auto simp: enter_openat_def Let_def neg_signs split: sum.splits)
  obtain g0 g1 where g0: "g0 = g \<or> g0 = force_sysexit g"
    "translate_path2 h (c_int (sysarg g SYSARG_1)) user SYSARG_2 (open_type (sysarg g SYSARG_3)) g0 = (status, g1)"
    "g' = maybe_redirect_userns_file h SYSARG_2 g1"
    using assms(2,3) by (auto simp: enter_openat_def Let_def u split: prod.splits if_splits)
  have ok: "guest_ok v h g0" using g0(1) assms(1) by (auto simp: guest_ok_regs)
  have same: "krn (mach g0) = krn (mach g)" "sysarg g0 SYSARG_2 = sysarg g SYSARG_2" "paths g0 = paths g"
    using g0(1) by (auto simp: on_regs_simps sysarg_force_sysexit)
  have u0: "get_sysarg_path (h_mem h) SYSARG_2 (mach g0) = Inr user"
    using u get_sysarg_path_cong [OF same(1,2), of h] by simp
  note s = translate_path2_settled [OF ok a u0 g0(2) assms(3)]
  have "if get_sysarg_path (h_mem h) SYSARG_2 (mach g0) = Inr [] then g1 = g0
      else passed v (image_of h g0 (paths g0) SYSARG_2 (c_int (sysarg g SYSARG_1)) (open_type (sysarg g SYSARG_3) \<noteq> SYMLINK)) 0 g1 SYSARG_2"
    using s(5) u0 by simp
  from settled_from [OF redirect_settles [OF s(1) a this] same(1,2)]
  show ?thesis unfolding g0(3) same(3) image_of_from [OF same(1,2)] .
qed

lemma open_type_norm: "open_type (reg_norm t w) = open_type w"
  by (simp add: open_type_def has_flag_def reg_norm_def O_NOFOLLOW_def O_EXCL_def O_CREAT_def and.assoc)

text \<open>The flags of \<open>openat2\<close> are the first word of the structure in the memory of the tracee.\<close>

definition how_flags :: "('k, 'w) host \<Rightarrow> ('k, 'w) guest \<Rightarrow> word_t" where
  "how_flags h g =
     (case read_data (h_mem h) (sysarg g SYSARG_3) (min 24 (unat (sysarg g SYSARG_4))) (mach g) of
        Inl _ \<Rightarrow> 0
      | Inr how \<Rightarrow> word_of (take 8 (how @ replicate (24 - length how) 0)))"

lemma openat2_settles:
  assumes "guest_ok v h g" "enter_openat2 h g = (status, g')" "0 \<le> status"
  shows "settled v h (or_null (image_of h g (paths g) SYSARG_2 (c_int (sysarg g SYSARG_1))
    (open_type (how_flags h g) \<noteq> SYMLINK))) 4096 g g' SYSARG_2"
proof -
  let ?n = "if sysarg g SYSARG_4 > 24 then 24 else unat (sysarg g SYSARG_4)"
  have n: "?n = min 24 (unat (sysarg g SYSARG_4))" by (auto simp: word_less_nat_alt)
  obtain bs where bs: "read_data (h_mem h) (sysarg g SYSARG_3) ?n (mach g) = Inr bs"
    using assms(2,3) by (auto simp: enter_openat2_def Let_def neg_signs split: sum.splits if_splits)
  define how where "how = bs @ replicate (24 - length bs) 0"
  have f: "how_flags h g = word_of (take 8 how)" using bs unfolding how_flags_def n how_def by simp
  define g0 where "g0 = poke SYSARG_4 (word_of (take 8 (drop 8 how))) (poke SYSARG_3 (word_of (take 8 how))
    (on_regs (set_sysnum ''openat'') g))"
  have e: "enter_openat h g0 = (status, g')"
    using assms(2) unfolding enter_openat2_def Let_def bs sum.case g0_def how_def by simp
  have ok: "guest_ok v h g0" using assms(1) by (simp add: g0_def guest_ok_regs)
  have same: "krn (mach g0) = krn (mach g)" "sysarg g0 SYSARG_2 = sysarg g SYSARG_2"
    "sysarg g0 SYSARG_1 = sysarg g SYSARG_1" "paths g0 = paths g"
    by (simp_all add: g0_def on_regs_simps sysarg_poke sysarg_set_sysnum apart_def)
  have "sysarg g0 SYSARG_3 = sysarg (poke SYSARG_3 (word_of (take 8 how)) (on_regs (set_sysnum ''openat'') g)) SYSARG_3"
    by (simp add: g0_def sysarg_poke apart_def)
  then have t: "open_type (sysarg g0 SYSARG_3) = open_type (how_flags h g)"
    by (simp add: sysarg_def poke_def on_regs_def regs_of_def peek_poke_same open_type_norm f)
  from settled_from [OF openat_settles [OF ok e assms(3)] same(1,2)]
  show ?thesis unfolding same(3,4) t image_of_from [OF same(1,2)] .
qed

section \<open>The paths of a call\<close>

text \<open>
  The calls that the enter stage hands on with translated paths, as the manual pages describe their paths: the calls on the file
  that a path leads to, the calls on the last name itself, the calls with a directory, and the calls whose flags
  decide. (Four entries follow the code where the kernel does otherwise, see the findings: \<open>mknod\<close> and
  \<open>mknodat\<close> do not follow a final link there, \<open>faccessat2\<close> has flags, and those of \<open>name_to_handle_at\<close> mean
  the contrary.)
\<close>

definition file_calls :: "sysnum list" where
  "file_calls =
     [''stat'', ''stat64'', ''oldstat'', ''statfs'', ''statfs64'', ''access'', ''acct'', ''chmod'', ''chown'', ''chown32'',
      ''chroot'', ''creat'', ''truncate'', ''truncate64'', ''mknod'', ''utime'', ''utimes'', ''uselib'', ''swapon'',
      ''swapoff'', ''getxattr'', ''setxattr'', ''listxattr'', ''removexattr'']"

definition name_calls :: "sysnum list" where
  "name_calls =
     [''lstat'', ''lstat64'', ''oldlstat'', ''readlink'', ''lchown'', ''lchown32'', ''unlink'', ''mkdir'', ''rmdir'',
      ''lgetxattr'', ''lsetxattr'', ''llistxattr'', ''lremovexattr'']"

definition file_at_calls :: "sysnum list" where
  "file_at_calls = [''faccessat'', ''faccessat2'', ''fchmodat'', ''futimesat'', ''mknodat'']"

definition name_at_calls :: "sysnum list" where
  "name_at_calls = [''mkdirat'', ''unlinkat'', ''readlinkat'']"

text \<open>An open call does not follow a final link with \<open>O_NOFOLLOW\<close>, nor when it has to create the file.\<close>

definition opens_target :: "word_t \<Rightarrow> bool" where
  "opens_target flags \<longleftrightarrow> \<not> has_flag flags O_NOFOLLOW \<and> \<not> (has_flag flags O_CREAT \<and> has_flag flags O_EXCL)"

text \<open>The register of a path, that of its directory, and whether a final link is followed.\<close>

inductive path_argument ::
  "('k, 'w) host \<Rightarrow> ('k, 'w) guest \<Rightarrow> sysnum \<Rightarrow> reg \<Rightarrow> reg option \<Rightarrow> bool \<Rightarrow> bool" for h g where
  file_arg: "num \<in> set file_calls \<Longrightarrow> path_argument h g num SYSARG_1 None True"
| name_arg: "num \<in> set name_calls \<Longrightarrow> path_argument h g num SYSARG_1 None False"
| file_at_arg: "num \<in> set file_at_calls \<Longrightarrow> path_argument h g num SYSARG_2 (Some SYSARG_1) True"
| name_at_arg: "num \<in> set name_at_calls \<Longrightarrow> path_argument h g num SYSARG_2 (Some SYSARG_1) False"
| stat_at_arg: "num \<in> set [''fstatat64'', ''newfstatat'', ''utimensat''] \<Longrightarrow>
    path_argument h g num SYSARG_2 (Some SYSARG_1) (\<not> has_flag (sysarg g SYSARG_4) AT_SYMLINK_NOFOLLOW)"
| owner_at_arg: "num \<in> set [''fchownat'', ''name_to_handle_at''] \<Longrightarrow>
    path_argument h g num SYSARG_2 (Some SYSARG_1) (\<not> has_flag (sysarg g SYSARG_5) AT_SYMLINK_NOFOLLOW)"
| statx_arg: "path_argument h g ''statx'' SYSARG_2 (Some SYSARG_1) (\<not> has_flag (sysarg g SYSARG_3) AT_SYMLINK_NOFOLLOW)"
| watch_arg: "path_argument h g ''inotify_add_watch'' SYSARG_2 None (\<not> has_flag (sysarg g SYSARG_3) IN_DONT_FOLLOW)"
| open_arg: "path_argument h g ''open'' SYSARG_1 None (opens_target (sysarg g SYSARG_2))"
| openat_arg: "path_argument h g ''openat'' SYSARG_2 (Some SYSARG_1) (opens_target (sysarg g SYSARG_3))"
| openat2_arg: "path_argument h g ''openat2'' SYSARG_2 (Some SYSARG_1) (opens_target (how_flags h g))"
| symlink_arg: "path_argument h g ''symlink'' SYSARG_2 None False"
| symlinkat_arg: "path_argument h g ''symlinkat'' SYSARG_3 (Some SYSARG_2) False"
| old_arg: "num \<in> set [''link'', ''rename''] \<Longrightarrow> path_argument h g num SYSARG_1 None False"
| new_arg: "num \<in> set [''link'', ''rename''] \<Longrightarrow> path_argument h g num SYSARG_2 None False"
| linkat_arg: "path_argument h g ''linkat'' SYSARG_2 (Some SYSARG_1) (has_flag (sysarg g SYSARG_5) AT_SYMLINK_FOLLOW)"
| old_at_arg: "num \<in> set [''renameat'', ''renameat2''] \<Longrightarrow> path_argument h g num SYSARG_2 (Some SYSARG_1) False"
| new_at_arg: "num \<in> set [''linkat'', ''renameat'', ''renameat2''] \<Longrightarrow>
    path_argument h g num SYSARG_4 (Some SYSARG_3) False"

lemmas call_lists = regular_calls_def symlink_calls_def flagged_at_calls_def regular_at_calls_def symlink_at_calls_def

lemma listed_calls:
  "list_all (\<lambda>n. n \<in> set regular_calls) file_calls"
  "list_all (\<lambda>n. n \<in> set symlink_calls \<and> n \<notin> set regular_calls) name_calls"
  "list_all (\<lambda>n. n \<in> set regular_at_calls \<and> n \<notin> set regular_calls \<and> n \<notin> set symlink_calls \<and> n \<notin> set flagged_at_calls)
     file_at_calls"
  "list_all (\<lambda>n. n \<in> set symlink_at_calls \<and> n \<notin> set regular_calls \<and> n \<notin> set symlink_calls \<and> n \<notin> set flagged_at_calls \<and>
     n \<notin> set regular_at_calls) name_at_calls"
  "list_all (\<lambda>n. n \<in> set flagged_at_calls \<and> n \<notin> set regular_calls \<and> n \<notin> set symlink_calls \<and>
     n \<noteq> ''fchownat'' \<and> n \<noteq> ''name_to_handle_at'') [''fstatat64'', ''newfstatat'', ''utimensat'']"
  "list_all (\<lambda>n. n \<in> set flagged_at_calls \<and> n \<notin> set regular_calls \<and> n \<notin> set symlink_calls \<and>
     (n = ''fchownat'' \<or> n = ''name_to_handle_at'')) [''fchownat'', ''name_to_handle_at'']"
  by code_simp+

lemma enter_listed:
  "num \<in> set file_calls \<Longrightarrow> enter_paths h num g = Some (translate_sysarg h SYSARG_1 REGULAR g)"
  "num \<in> set name_calls \<Longrightarrow> enter_paths h num g = Some (translate_sysarg h SYSARG_1 SYMLINK g)"
  "num \<in> set file_at_calls \<Longrightarrow> enter_paths h num g = Some (enter_at h SYSARG_1 SYSARG_2 REGULAR g)"
  "num \<in> set name_at_calls \<Longrightarrow> enter_paths h num g = Some (enter_at h SYSARG_1 SYSARG_2 SYMLINK g)"
  "num \<in> set [''fstatat64'', ''newfstatat'', ''utimensat''] \<Longrightarrow> enter_paths h num g = Some (enter_at h SYSARG_1 SYSARG_2
     (if has_flag (sysarg g SYSARG_4) AT_SYMLINK_NOFOLLOW then SYMLINK else REGULAR) g)"
  "num \<in> set [''fchownat'', ''name_to_handle_at''] \<Longrightarrow> enter_paths h num g = Some (enter_at h SYSARG_1 SYSARG_2
     (if has_flag (sysarg g SYSARG_5) AT_SYMLINK_NOFOLLOW then SYMLINK else REGULAR) g)"
proof -
  note l = listed_calls [unfolded list_all_iff, rule_format]
  show "num \<in> set file_calls \<Longrightarrow> enter_paths h num g = Some (translate_sysarg h SYSARG_1 REGULAR g)"
    using l(1) unfolding enter_paths_def by (simp only: if_True)
  show "enter_paths h num g = Some (translate_sysarg h SYSARG_1 SYMLINK g)" if "num \<in> set name_calls"
    unfolding enter_paths_def using l(2) [OF that] by (simp only: if_True if_False simp_thms)
  show "enter_paths h num g = Some (enter_at h SYSARG_1 SYSARG_2 REGULAR g)" if "num \<in> set file_at_calls"
    unfolding enter_paths_def using l(3) [OF that] by (simp only: if_True if_False simp_thms)
  show "enter_paths h num g = Some (enter_at h SYSARG_1 SYSARG_2 SYMLINK g)" if "num \<in> set name_at_calls"
    unfolding enter_paths_def using l(4) [OF that] by (simp only: if_True if_False simp_thms)
  show "enter_paths h num g = Some (enter_at h SYSARG_1 SYSARG_2
      (if has_flag (sysarg g SYSARG_4) AT_SYMLINK_NOFOLLOW then SYMLINK else REGULAR) g)"
    if "num \<in> set [''fstatat64'', ''newfstatat'', ''utimensat'']"
    unfolding enter_paths_def Let_def using l(5) [OF that] by (simp only: if_True if_False simp_thms)
  show "enter_paths h num g = Some (enter_at h SYSARG_1 SYSARG_2
      (if has_flag (sysarg g SYSARG_5) AT_SYMLINK_NOFOLLOW then SYMLINK else REGULAR) g)"
    if "num \<in> set [''fchownat'', ''name_to_handle_at'']"
    unfolding enter_paths_def Let_def using l(6) [OF that] by (simp only: if_True if_False simp_thms)
qed

lemma enter_paths_calls:
  "enter_paths h ''open'' g = Some (enter_open h g)"
  "enter_paths h ''inotify_add_watch'' g = Some (translate_sysarg h SYSARG_2
     (if has_flag (sysarg g SYSARG_3) IN_DONT_FOLLOW then SYMLINK else REGULAR) g)"
  "enter_paths h ''symlink'' g = Some (translate_sysarg h SYSARG_2 SYMLINK g)"
  "enter_paths h ''statx'' g = Some (enter_at h SYSARG_1 SYSARG_2
     (if has_flag (sysarg g SYSARG_3) AT_SYMLINK_NOFOLLOW then SYMLINK else REGULAR) g)"
  "enter_paths h ''openat'' g = Some (enter_openat h g)"
  "enter_paths h ''openat2'' g = Some (enter_openat2 h g)"
  "enter_paths h ''symlinkat'' g = Some (enter_at h SYSARG_2 SYSARG_3 SYMLINK g)"
  "enter_paths h ''linkat'' g = Some (enter_two_at h
     (if has_flag (sysarg g SYSARG_5) AT_SYMLINK_FOLLOW then REGULAR else SYMLINK) g)"
  "enter_paths h ''renameat'' g = Some (enter_two_at h SYMLINK g)"
  "enter_paths h ''renameat2'' g = Some (enter_two_at h SYMLINK g)"
  "enter_paths h ''link'' g = Some (enter_two_paths h g)"
  "enter_paths h ''rename'' g = Some (enter_two_paths h g)"
  unfolding enter_paths_def call_lists by simp_all

text \<open>None of these calls has a case of its own before those of the paths.\<close>

lemma listed_switch:
  "list_all (\<lambda>n. n \<noteq> ''chdir'' \<and> n \<noteq> ''fchdir'' \<and> n \<noteq> ''sendto'' \<and> n \<noteq> ''sendmsg'')
     (file_calls @ name_calls @ file_at_calls @ name_at_calls @ [''fstatat64'', ''newfstatat'', ''utimensat''] @
      [''fchownat'', ''name_to_handle_at''] @ [''link'', ''rename''] @ [''renameat'', ''renameat2''] @
      [''linkat'', ''renameat'', ''renameat2''])"
  by code_simp

lemma path_argument_switch:
  assumes "path_argument h g num r dir follow"
  shows "num \<noteq> ''chdir'' \<and> num \<noteq> ''fchdir'' \<and> num \<noteq> ''sendto'' \<and> num \<noteq> ''sendmsg''"
  using assms listed_switch unfolding list_all_iff set_append
  by (cases rule: path_argument.cases) blast+

text \<open>One path argument after its enter stage; the second one of \<open>link\<close> and \<open>rename\<close> is read later.\<close>

definition read_in :: "('k, 'w) host \<Rightarrow> sysnum \<Rightarrow> reg \<Rightarrow> ('k, 'w) guest \<Rightarrow> ('k, 'w) guest" where
  "read_in h num r g =
     (if num \<in> {''link'', ''rename''} \<and> r = SYSARG_2 then snd (translate_sysarg h SYSARG_1 SYMLINK g) else g)"

definition base_fd :: "('k, 'w) guest \<Rightarrow> reg option \<Rightarrow> int" where
  "base_fd g dir = (case dir of None \<Rightarrow> AT_FDCWD | Some d \<Rightarrow> c_int (sysarg g d))"

definition arrived ::
  "('k \<Rightarrow> memory) \<Rightarrow> ('k, 'w) host \<Rightarrow> sysnum \<Rightarrow> ('k, 'w) guest \<Rightarrow> ('k, 'w) guest \<Rightarrow> reg \<Rightarrow> reg option \<Rightarrow> bool \<Rightarrow> bool" where
  "arrived v h num g g' r dir follow \<longleftrightarrow>
     (\<exists>s. reached (h_env h) (paths g) s \<and>
        settled v h
          (if num \<in> {''open'', ''openat'', ''openat2''} then or_null (image_of h (read_in h num r g) s r (base_fd g dir) follow)
           else image_of h (read_in h num r g) s r (base_fd g dir) follow)
          4096 (read_in h num r g) g' r)"

lemma settled_weaken: "settled v h P k g g' r \<Longrightarrow> (\<And>p. P p \<Longrightarrow> Q p) \<Longrightarrow> settled v h Q k g g' r"
  using passed_weaken unfolding settled_def by blast

lemma arrivedI:
  assumes "settled v h (image_of h g s r (base_fd g dir) follow) 4096 g g' r" "reached (h_env h) (paths g) s"
    and "num \<in> {''link'', ''rename''} \<Longrightarrow> r \<noteq> SYSARG_2"
  shows "arrived v h num g g' r dir follow"
proof -
  have g: "read_in h num r g = g" using assms(3) by (auto simp: read_in_def)
  have "or_null P p" if "P p" for P p using that by (auto simp: or_null_def)
  then show ?thesis unfolding arrived_def g using assms(2) settled_weaken [OF assms(1)] assms(1)
    by (intro exI [of _ s]) auto
qed

lemma reached_refl: "reached e s s"
  by (simp add: reached_def)

text \<open>The groups of calls by the definition that translates their paths.\<close>

lemma arrive_sysarg:
  assumes "guest_ok v h g" "enter_paths h num g = Some (status, g')" "0 \<le> status"
    and "enter_paths h num g = Some (translate_sysarg h r type g)" "r \<in> {SYSARG_1, SYSARG_2}"
    and "num \<in> {''link'', ''rename''} \<Longrightarrow> r \<noteq> SYSARG_2" "follow = (type \<noteq> SYMLINK)"
  shows "arrived v h num g g' r None follow"
proof (rule arrivedI [OF _ reached_refl assms(6)])
  have "r \<in> set argument_regs" using assms(5) by (auto simp: argument_regs_def)
  from sysarg_settles [OF assms(1) this _ assms(3)]
  show "settled v h (image_of h g (paths g) r (base_fd g None) follow) 4096 g g' r"
    using assms(2,4,7) by (simp add: base_fd_def)
qed

lemma arrive_at:
  assumes "guest_ok v h g" "enter_paths h num g = Some (status, g')" "0 \<le> status"
    and "enter_paths h num g = Some (enter_at h d r type g)" "r \<in> {SYSARG_2, SYSARG_3}"
    and "num \<notin> {''link'', ''rename''}" "follow = (type \<noteq> SYMLINK)"
  shows "arrived v h num g g' r (Some d) follow"
proof (rule arrivedI [OF _ reached_refl])
  have "r \<in> set argument_regs" using assms(5) by (auto simp: argument_regs_def)
  from at_settles [OF assms(1) this _ assms(3)]
  show "settled v h (image_of h g (paths g) r (base_fd g (Some d)) follow) 4096 g g' r"
    using assms(2,4,7) by (simp add: base_fd_def)
qed (use assms(6) in blast)

lemma arrive_two_at:
  assumes "guest_ok v h g" "enter_paths h num g = Some (status, g')" "0 \<le> status"
    and "enter_paths h num g = Some (enter_two_at h type g)" "num \<notin> {''link'', ''rename''}"
  shows "arrived v h num g g' SYSARG_2 (Some SYSARG_1) (type \<noteq> SYMLINK)"
    "arrived v h num g g' SYSARG_4 (Some SYSARG_3) False"
proof -
  have "enter_two_at h type g = (status, g')" using assms(2,4) by simp
  note t = two_at_settles [OF assms(1) this assms(3)]
  have b: "base_fd g (Some d) = c_int (sysarg g d)" for d by (simp add: base_fd_def)
  show "arrived v h num g g' SYSARG_2 (Some SYSARG_1) (type \<noteq> SYMLINK)"
    using t(1) assms(5) unfolding b [symmetric] by (intro arrivedI [OF _ reached_refl]) auto
  show "arrived v h num g g' SYSARG_4 (Some SYSARG_3) False"
    using t(2) unfolding b [symmetric] by (auto intro: arrivedI)
qed

lemma arrive_two_paths:
  assumes "guest_ok v h g" "enter_paths h num g = Some (status, g')" "0 \<le> status" "num \<in> set [''link'', ''rename'']"
  shows "arrived v h num g g' SYSARG_1 None False" "arrived v h num g g' SYSARG_2 None False"
proof -
  have e: "enter_two_paths h g = (status, g')" using assms(2,4) by (auto simp: enter_paths_calls)
  note t = two_paths_settles [OF assms(1) e assms(3)]
  have b: "base_fd g None = AT_FDCWD" by (simp add: base_fd_def)
  show "arrived v h num g g' SYSARG_1 None False"
    using t(1) unfolding b [symmetric] by (intro arrivedI [OF _ reached_refl]) auto
  have r: "read_in h num SYSARG_2 g = snd (translate_sysarg h SYSARG_1 SYMLINK g)" "num \<notin> {''open'', ''openat'', ''openat2''}"
    using assms(4) by (auto simp: read_in_def)
  show "arrived v h num g g' SYSARG_2 None False"
    using t(2) unfolding arrived_def r(1) if_not_P [OF r(2)] b by blast
qed

lemma arrive_open:
  assumes "guest_ok v h g" "enter_paths h num g = Some (status, g')" "0 \<le> status"
  shows "num = ''open'' \<Longrightarrow> arrived v h num g g' SYSARG_1 None (opens_target (sysarg g SYSARG_2))"
    "num = ''openat'' \<Longrightarrow> arrived v h num g g' SYSARG_2 (Some SYSARG_1) (opens_target (sysarg g SYSARG_3))"
    "num = ''openat2'' \<Longrightarrow> arrived v h num g g' SYSARG_2 (Some SYSARG_1) (opens_target (how_flags h g))"
proof -
  have f: "(open_type flags \<noteq> SYMLINK) = opens_target flags" for flags
    by (auto simp: open_type_def opens_target_def)
  have b: "base_fd g None = AT_FDCWD" "base_fd g (Some d) = c_int (sysarg g d)" for d by (simp_all add: base_fd_def)
  have g: "read_in h num q g = g" if "num \<in> {''open'', ''openat'', ''openat2''}" for q using that by (auto simp: read_in_def)
  have a: "arrived v h num g g' q dir follow"
    if "settled v h (or_null (image_of h g (paths g) q (base_fd g dir) follow)) 4096 g g' q"
      "num \<in> {''open'', ''openat'', ''openat2''}" for q dir follow
    unfolding arrived_def g [OF that(2)] if_P [OF that(2)] using that(1) reached_refl by blast
  show "arrived v h num g g' SYSARG_1 None (opens_target (sysarg g SYSARG_2))" if "num = ''open''"
    using open_settles [OF assms(1) _ assms(3)] assms(2) that
    by (intro a) (simp_all add: enter_paths_calls f [symmetric] b del: f)
  show "arrived v h num g g' SYSARG_2 (Some SYSARG_1) (opens_target (sysarg g SYSARG_3))" if "num = ''openat''"
    using openat_settles [OF assms(1) _ assms(3)] assms(2) that
    by (intro a) (simp_all add: enter_paths_calls f [symmetric] b)
  show "arrived v h num g g' SYSARG_2 (Some SYSARG_1) (opens_target (how_flags h g))" if "num = ''openat2''"
    using openat2_settles [OF assms(1) _ assms(3)] assms(2) that
    by (intro a) (simp_all add: enter_paths_calls f [symmetric] b)
qed

lemma listed_single:
  "list_all (\<lambda>n. n \<noteq> ''link'' \<and> n \<noteq> ''rename'')
     (file_at_calls @ name_at_calls @ [''fstatat64'', ''newfstatat'', ''utimensat''] @ [''fchownat'', ''name_to_handle_at''])"
  by code_simp

lemma paths_arrive:
  assumes "path_argument h g num r dir follow"
    and "guest_ok v h g" "enter_paths h num g = Some (status, g')" "0 \<le> status"
  shows "arrived v h num g g' r dir follow"
proof -
  note e = assms(2-4)
  have single: "num \<notin> {''link'', ''rename''}"
    if "num \<in> set (file_at_calls @ name_at_calls @ [''fstatat64'', ''newfstatat'', ''utimensat''] @
          [''fchownat'', ''name_to_handle_at''])"
    using that listed_single unfolding list_all_iff by blast
  show ?thesis
    using assms(1)
  proof cases
    case file_arg
    show ?thesis unfolding file_arg(1-3) by (rule arrive_sysarg [OF e enter_listed(1) [OF file_arg(4)]]) simp_all
  next
    case name_arg
    show ?thesis unfolding name_arg(1-3) by (rule arrive_sysarg [OF e enter_listed(2) [OF name_arg(4)]]) simp_all
  next
    case file_at_arg
    show ?thesis unfolding file_at_arg(1-3)
      by (rule arrive_at [OF e enter_listed(3) [OF file_at_arg(4)] _ single]) (use file_at_arg(4) in simp_all)
  next
    case name_at_arg
    show ?thesis unfolding name_at_arg(1-3)
      by (rule arrive_at [OF e enter_listed(4) [OF name_at_arg(4)] _ single]) (use name_at_arg(4) in simp_all)
  next
    case stat_at_arg
    show ?thesis unfolding stat_at_arg(1-3)
      by (rule arrive_at [OF e enter_listed(5) [OF stat_at_arg(4)] _ single]) (use stat_at_arg(4) in auto)
  next
    case owner_at_arg
    show ?thesis unfolding owner_at_arg(1-3)
      by (rule arrive_at [OF e enter_listed(6) [OF owner_at_arg(4)] _ single]) (use owner_at_arg(4) in auto)
  next
    case statx_arg
    show ?thesis unfolding statx_arg
      by (rule arrive_at [OF e [unfolded statx_arg] enter_paths_calls(4)]) simp_all
  next
    case watch_arg
    show ?thesis unfolding watch_arg
      by (rule arrive_sysarg [OF e [unfolded watch_arg] enter_paths_calls(2)]) simp_all
  next
    case open_arg
    show ?thesis unfolding open_arg(2-4) by (rule arrive_open(1) [OF e open_arg(1)])
  next
    case openat_arg
    show ?thesis unfolding openat_arg(2-4) by (rule arrive_open(2) [OF e openat_arg(1)])
  next
    case openat2_arg
    show ?thesis unfolding openat2_arg(2-4) by (rule arrive_open(3) [OF e openat2_arg(1)])
  next
    case symlink_arg
    show ?thesis unfolding symlink_arg
      by (rule arrive_sysarg [OF e [unfolded symlink_arg] enter_paths_calls(3)]) simp_all
  next
    case symlinkat_arg
    show ?thesis unfolding symlinkat_arg
      by (rule arrive_at [OF e [unfolded symlinkat_arg] enter_paths_calls(7)]) simp_all
  next
    case old_arg
    show ?thesis unfolding old_arg(1-3) by (rule arrive_two_paths(1) [OF e old_arg(4)])
  next
    case new_arg
    show ?thesis unfolding new_arg(1-3) by (rule arrive_two_paths(2) [OF e new_arg(4)])
  next
    case linkat_arg
    show ?thesis unfolding linkat_arg
      using arrive_two_at(1) [OF e [unfolded linkat_arg] enter_paths_calls(8)] by (simp split: if_splits)
  next
    case old_at_arg
    then have "enter_paths h num g = Some (enter_two_at h SYMLINK g)" "num \<notin> {''link'', ''rename''}"
      by (auto simp: enter_paths_calls)
    from arrive_two_at(1) [OF e this] show ?thesis unfolding old_at_arg(1-3) by simp
  next
    case new_at_arg
    then have "\<exists>type. enter_paths h num g = Some (enter_two_at h type g)" "num \<notin> {''link'', ''rename''}"
      by (auto simp: enter_paths_calls)
    then show ?thesis unfolding new_at_arg(1-3) using arrive_two_at(2) [OF e] by blast
  qed
qed

text \<open>C9: After the enter stage of a call whose paths are handed on to the kernel has not failed, each register that
  holds a path points to exactly the translation of the path that the tracee has given there, as the kernel will read
  it from the memory of the tracee: relative to the descriptor that belongs to it, with the final link followed when
  the call, or its flags, say so (\<open>path_argument\<close>). What a translation yields is the subject of the property on
  \<open>translate_path\<close>: a path inside a binding. Only an open call may get \<open>/dev/null\<close> instead, for a file of user
  namespaces, and an empty path leaves its register alone. Both arguments of \<open>rename\<close> and its kin stay intact; the
  second one of \<open>link\<close> and \<open>rename\<close> is read after the first one has been translated. The state \<open>s\<close> in which a second path is
  translated is the one that an earlier translation has left. Not among these calls: \<open>chdir\<close>, \<open>mount\<close>,
  \<open>umount\<close> and \<open>pivot_root\<close>, which PRoot carries out itself, \<open>execve\<close>, whose loader is another component, and the
  socket calls with an address. The extensions may register callbacks on paths, as long as these keep a string in
  their buffer.\<close>

theorem path_calls_translated:
  assumes "guest_ok v h g" "path_argument h g num r dir follow"
    and "enter_switch h hs num g = (Break status, g')" "0 \<le> status"
  defines "g1 \<equiv> (if num \<in> {''link'', ''rename''} \<and> r = SYSARG_2 then snd (translate_sysarg h SYSARG_1 SYMLINK g) else g)"
  shows "(\<exists>s u p s' q. reached (h_env h) (paths g) s \<and> get_sysarg_path (h_mem h) r (mach g1) = Inr u \<and> u \<noteq> [] \<and>
       translate_path (h_env h) (case dir of None \<Rightarrow> AT_FDCWD | Some d \<Rightarrow> c_int (sysarg g d)) u follow s = (Inr p, s') \<and>
       (q = p \<or> num \<in> {''open'', ''openat'', ''openat2''} \<and> is_proc_userns_file p \<and> q = ''/dev/null'') \<and>
       points_to v g' r q) \<or>
    get_sysarg_path (h_mem h) r (mach g1) = Inr [] \<and> sysarg g' r = sysarg g1 r"
proof -
  have "enter_paths h num g \<noteq> None"
    using assms(2) by cases (auto simp: enter_paths_calls enter_listed)
  then have "enter_paths h num g = Some (status, g')"
    using assms(3) path_argument_switch [OF assms(2)] by (auto simp: enter_switch_def split: option.splits prod.splits)
  from paths_arrive [OF assms(2,1) this assms(4)]
  obtain s where s: "reached (h_env h) (paths g) s"
    "settled v h (if num \<in> {''open'', ''openat'', ''openat2''} then or_null (image_of h g1 s r (base_fd g dir) follow)
       else image_of h g1 s r (base_fd g dir) follow) 4096 g1 g' r"
    unfolding arrived_def read_in_def g1_def by blast
  show ?thesis
  proof (cases "get_sysarg_path (h_mem h) r (mach g1) = Inr [] \<and> sysarg g' r = sysarg g1 r")
    case False
    then obtain q where q: "(if num \<in> {''open'', ''openat'', ''openat2''} then or_null (image_of h g1 s r (base_fd g dir) follow)
       else image_of h g1 s r (base_fd g dir) follow) q" "points_to v g' r q"
      using s(2) unfolding settled_def passed_def by (blast dest: heldD)
    then obtain p where "image_of h g1 s r (base_fd g dir) follow p"
      "q = p \<or> num \<in> {''open'', ''openat'', ''openat2''} \<and> is_proc_userns_file p \<and> q = ''/dev/null''"
      by (auto simp: or_null_def split: if_splits)
    then show ?thesis using s(1) q(2) unfolding image_of_def base_fd_def by blast
  qed blast
qed

section \<open>Examples\<close>

definition example_host :: "(memory, unit) host" where
  "example_host = \<lparr>h_mem = small_kernel, h_env = example_env, h_beyond = (\<lambda>a. ''void''), h_lstat = (\<lambda>w p. Inr True),
     h_temp_name = (\<lambda>w. None), h_net = (\<lambda>w. example_net), h_probe = (\<lambda>w. (False, False)),
     h_seccomp_ptrace_event = True, h_heap_offset = 0, h_callbacks = []\<rparr>"

definition example_guest :: "(memory, unit) guest" where
  "example_guest = \<lparr>mach = example_machine\<lparr>tr := poke_reg SYSARG_1 1000 (tr example_machine),
       krn := put_bytes (krn example_machine) 1000 (bytes_of_string ''/lib'')\<rparr>,
     paths = example_state, clone_stripped_newns = False, fake_netlink_fds = [7], pending_fake_netlink_socket = False,
     fake_netlink_reply = [], netlink_probe = None, execfn_addr = 0, auxv_fd = - 1, sysexit_pending = False,
     call_status = 0, no_new_privs = False, seen_execve = True, seccomp = DISABLED\<rparr>"

definition no_handlers :: "('k, 'w) handlers" where
  "no_handlers = \<lparr>execve_enter = Pair 0, ptrace_enter = Pair 0, wait_enter = Pair 0\<rparr>"

lemma bytes_of_lib: "bytes_of_string ''/lib'' = [47, 108, 105, 98, 0]"
  by (simp add: bytes_of_string_def)

lemma example_path: "get_sysarg_path small_kernel SYSARG_1 (mach example_guest) = Inr ''/lib''"
proof -
  let ?b = "krn (mach example_guest)"
  have peek: "peek_reg (tr (mach example_guest)) CURRENT SYSARG_1 = 1000"
    by (simp add: example_guest_def peek_poke_same reg_norm_def example_machine_def example_tracee_def)
  have b: "?b = put_bytes (krn example_machine) 1000 [47, 108, 105, 98, 0]"
    by (simp add: example_guest_def bytes_of_lib)
  have p: "present ?b 1000 8" unfolding b by (intro present_put_bytes example_present) simp
  have l: "length [47, 108, 105, 98, 0 :: byte] = 5" by simp
  have at: "bytes_at ?b 1000 (5 + 3) = [47, 108, 105, 98, 0] @ bytes_at ?b 1005 3"
    using bytes_at_put_same [of "[47, 108, 105, 98, 0]" "krn example_machine" 1000] unfolding bytes_at_add b l by simp
  have bs: "bytes_of (word_of (bytes_at ?b 1000 8)) = [47, 108, 105, 98, 0] @ bytes_at ?b 1005 3"
    using at by (simp add: bytes_of_word_of)
  have k: "k_peekdata small_kernel ?b 1000 = Inr (word_of (bytes_at ?b 1000 8))"
    using p by (simp add: small_kernel_def)
  have c: "chunk_left 1000 = 24" by (simp add: chunk_left_def chunk_size_def)
  have "read_chunks small_kernel ?b 1000 4096 0 = None"
    by (subst read_chunks.simps) (simp add: c small_kernel_def Let_def)
  moreover have "read_string_words small_kernel ?b 1000 0 (Suc 511) 0 =
      Inr ([47, 108, 105, 98, 0] @ bytes_at ?b 1005 3, 5)"
    unfolding read_string_words.simps(2) using bs k by simp
  moreover have "untag_pointer 1000 = 1000" by (simp add: untag_pointer_def)
  ultimately have "read_string small_kernel 1000 4096 (mach example_guest) =
      Inr ([47, 108, 105, 98, 0] @ bytes_at ?b 1005 3, 5)"
    by (simp add: read_string_def)
  moreover have "string_of_bytes [47, 108, 105, 98, 0] = ''/lib''"
    using string_of_bytes_of_string [of "''/lib''"] by (simp add: bytes_of_lib cstr_def)
  ultimately show ?thesis by (simp add: get_sysarg_path_def peek read_path_def mem_PATH_MAX_def)
qed


lemma example_translated:
  "translate_path example_env AT_FDCWD ''/lib'' False example_state = (Inr ''/data/rootfs/lib'', example_state)"
  by code_simp

lemma example_guest_ok: "guest_ok id example_host example_guest"
proof -
  have "text_ok (cwd example_fs)" by code_simp
  moreover have "steady (mach example_guest)" by (simp add: steady_def example_guest_def example_machine_def)
  moreover have "callbacks_ok example_env" by (simp add: callbacks_ok_def example_env_def)
  ultimately show ?thesis
    using small_kernel_laws example_kernel_ok example_wf example_plain_hosts
    by (simp add: guest_ok_def example_host_def example_guest_def example_state_def)
qed

lemma example_set_path: "\<exists>m. set_sysarg_path small_kernel ''/data/rootfs/lib'' SYSARG_1 (mach example_guest) = (Inr (), m)"
proof -
  let ?m = "mach example_guest"
  let ?bs = "bytes_of_string ''/data/rootfs/lib''"
  have l: "length ?bs = 17" by (simp add: bytes_of_string_def)
  have sp: "peek_reg (tr ?m) CURRENT STACK_POINTER = 4096"
    by (simp add: example_guest_def example_machine_def peek_poke_other apart_def)
      (simp add: peek_reg_def is_32on64_mode_def example_tracee_def slot_def read_write_word)
  define m1 where "m1 = ?m\<lparr>tr := poke_reg STACK_POINTER 4079 (tr ?m)\<rparr>"
  have al: "alloc_mem 17 ?m = (4079, m1)" by (simp add: alloc_mem_def sp RED_ZONE_SIZE_def m1_def)
  have st: "steady m1" by (simp add: m1_def steady_def example_guest_def example_machine_def)
  have len: "length ?bs < 2 ^ 64" by (simp add: l)
  have pr: "present (krn m1) (untag_pointer 4079) (rounded (length ?bs))"
    unfolding m1_def l by (simp add: example_guest_def)
      (intro present_put_bytes example_present, simp add: rounded_def untag_pointer_def)
  obtain r m2 where w: "write_data small_kernel 4079 ?bs m1 = (r, m2)" by fastforce
  from write_data_steady [OF small_kernel_laws st len w] pr have "\<nexists>e. r = Inl e" by auto
  then obtain u where "r = Inr u" by (cases r) auto
  then show ?thesis using w by (simp add: set_sysarg_path_def set_sysarg_data_def l al)
qed

lemma path_calls_translated_witness:
  "\<exists>g'. enter_switch example_host no_handlers ''unlink'' example_guest = (Break 0, g') \<and>
     (\<exists>s s' p. translate_path example_env AT_FDCWD ''/lib'' False s = (Inr p, s') \<and> points_to id g' SYSARG_1 p)"
proof -
  obtain m where m: "set_sysarg_path small_kernel ''/data/rootfs/lib'' SYSARG_1 (mach example_guest) = (Inr (), m)"
    using example_set_path by blast
  have g: "paths example_guest = example_state" by (simp add: example_guest_def)
  have "translate_path2 example_host AT_FDCWD ''/lib'' SYSARG_1 SYMLINK example_guest = (0, example_guest\<lparr>mach := m\<rparr>)"
    using example_translated m g by (simp add: translate_path2_def on_paths_def on_mach_def example_host_def status_of_def)
  moreover have path: "get_sysarg_path (h_mem example_host) SYSARG_1 (mach example_guest) = Inr ''/lib''"
    using example_path by (simp add: example_host_def)
  ultimately have t: "translate_sysarg example_host SYSARG_1 SYMLINK example_guest = (0, example_guest\<lparr>mach := m\<rparr>)"
    by (simp add: translate_sysarg_def)
  have n: "''unlink'' \<in> set name_calls" by (simp add: name_calls_def)
  have sw: "enter_switch example_host no_handlers ''unlink'' example_guest = (Break 0, example_guest\<lparr>mach := m\<rparr>)"
    using t by (simp add: enter_switch_def enter_listed(2) [OF n])
  have e: "h_env example_host = example_env" by (simp add: example_host_def)
  from path_calls_translated [OF example_guest_ok name_arg [OF n] sw] show ?thesis
    using sw path unfolding e by auto
qed

end
