(* ===== verification/Rewritten.thy ===== *)
theory Rewritten
  imports Restart Confine
begin

text \<open>
  What the calls that are restarted under another name ask for: the same as the calls that were refused.
\<close>

section \<open>Requests\<close>

text \<open>What a system call asks for, whatever its number: descriptors of directories are \<open>AT_FDCWD\<close> where the
  call has none, and flags that a call does not have are not set.\<close>

datatype request =
    Open int word_t word_t word_t
  | Make_link word_t int word_t
  | Link int word_t int word_t bool
  | Change_mode int word_t word_t
  | Change_owner int word_t word_t word_t bool
  | Remove int word_t bool
  | Send word_t word_t word_t word_t word_t word_t
  | Receive word_t word_t word_t word_t word_t word_t
  | Wait word_t word_t word_t word_t
  | Pipe word_t word_t
  | Duplicate word_t word_t word_t
  | Test_access int word_t word_t
  | Make_directory int word_t word_t
  | Rename int word_t int word_t
  | Accept word_t word_t word_t word_t
  | Poll_events word_t word_t word_t word_t word_t
  | Truncate word_t word_t
  | Touch int word_t bool
  | Select word_t word_t word_t word_t
  | Poll word_t word_t

definition request_of ::
  "sysnum \<Rightarrow> word_t \<Rightarrow> word_t \<Rightarrow> word_t \<Rightarrow> word_t \<Rightarrow> word_t \<Rightarrow> word_t \<Rightarrow> request option" where
  "request_of num a1 a2 a3 a4 a5 a6 =
     (if num = ''open'' then Some (Open AT_FDCWD a1 a2 a3)
      else if num = ''openat'' then Some (Open (c_int a1) a2 a3 a4)
      else if num = ''symlink'' then Some (Make_link a1 AT_FDCWD a2)
      else if num = ''symlinkat'' then Some (Make_link a1 (c_int a2) a3)
      else if num = ''link'' then Some (Link AT_FDCWD a1 AT_FDCWD a2 False)
      else if num = ''linkat'' then Some (Link (c_int a1) a2 (c_int a3) a4 (has_flag a5 AT_SYMLINK_FOLLOW))
      else if num = ''chmod'' then Some (Change_mode AT_FDCWD a1 a2)
      else if num = ''fchmodat'' then Some (Change_mode (c_int a1) a2 a3)
      else if num = ''chown'' \<or> num = ''chown32'' then Some (Change_owner AT_FDCWD a1 a2 a3 True)
      else if num = ''lchown'' \<or> num = ''lchown32'' then Some (Change_owner AT_FDCWD a1 a2 a3 False)
      else if num = ''fchownat'' then Some (Change_owner (c_int a1) a2 a3 a4 (\<not> has_flag a5 AT_SYMLINK_NOFOLLOW))
      else if num = ''unlink'' then Some (Remove AT_FDCWD a1 False)
      else if num = ''rmdir'' then Some (Remove AT_FDCWD a1 True)
      else if num = ''unlinkat'' then Some (Remove (c_int a1) a2 (has_flag a3 AT_REMOVEDIR))
      else if num = ''send'' then Some (Send a1 a2 a3 a4 0 0)
      else if num = ''sendto'' then Some (Send a1 a2 a3 a4 a5 a6)
      else if num = ''recv'' then Some (Receive a1 a2 a3 a4 0 0)
      else if num = ''recvfrom'' then Some (Receive a1 a2 a3 a4 a5 a6)
      else if num = ''waitpid'' then Some (Wait a1 a2 a3 0)
      else if num = ''wait4'' then Some (Wait a1 a2 a3 a4)
      else if num = ''pipe'' then Some (Pipe a1 0)
      else if num = ''pipe2'' then Some (Pipe a1 a2)
      else if num = ''dup2'' \<and> a1 \<noteq> a2 then Some (Duplicate a1 a2 0)
      else if num = ''dup3'' \<and> a1 \<noteq> a2 then Some (Duplicate a1 a2 a3)
      else if num = ''access'' then Some (Test_access AT_FDCWD a1 a2)
      else if num = ''faccessat'' then Some (Test_access (c_int a1) a2 a3)
      else if num = ''mkdir'' then Some (Make_directory AT_FDCWD a1 a2)
      else if num = ''mkdirat'' then Some (Make_directory (c_int a1) a2 a3)
      else if num = ''rename'' then Some (Rename AT_FDCWD a1 AT_FDCWD a2)
      else if num = ''renameat'' then Some (Rename (c_int a1) a2 (c_int a3) a4)
      else if num = ''accept'' then Some (Accept a1 a2 a3 0)
      else if num = ''accept4'' then Some (Accept a1 a2 a3 a4)
      else if num = ''epoll_wait'' then Some (Poll_events a1 a2 a3 a4 0)
      else if num = ''epoll_pwait'' then Some (Poll_events a1 a2 a3 a4 a5)
      else if num = ''ftruncate'' \<and> a2 < 2 ^ 31 then Some (Truncate a1 a2)
      else if num = ''ftruncate64'' \<and> a3 < 2 ^ 32 then Some (Truncate a1 (a3 + 2 ^ 32 * a4))
      else if num \<in> {''utimes'', ''utime''} \<and> a2 = 0 then Some (Touch AT_FDCWD a1 True)
      else if num = ''utimensat'' \<and> a3 = 0 then Some (Touch (c_int a1) a2 (\<not> has_flag a4 AT_SYMLINK_NOFOLLOW))
      else if num = ''select'' \<and> a5 = 0 then Some (Select a1 a2 a3 a4)
      else if num = ''pselect6'' \<and> a5 = 0 \<and> a6 = 0 then Some (Select a1 a2 a3 a4)
      else if num = ''poll'' \<and> c_int a3 < 0 then Some (Poll a1 a2)
      else if num = ''ppoll'' \<and> a3 = 0 \<and> a4 = 0 then Some (Poll a1 a2)
      else None)"

definition requested :: "sysnum \<Rightarrow> (reg \<Rightarrow> word_t) \<Rightarrow> request option" where
  "requested num a =
     request_of num (a SYSARG_1) (a SYSARG_2) (a SYSARG_3) (a SYSARG_4) (a SYSARG_5) (a SYSARG_6)"

text \<open>
  The request of a tracee in its current state. That of \<open>openat2\<close> is in its memory: the first 24 bytes of \<open>struct open_how\<close>,
  that is the flags, the mode and \<open>resolve\<close>, here 0; flags above 32 bits do not exist. \<open>ftruncate\<close> asks
  here for a length of the 32-bit interface; a length from \<open>2 ^ 31\<close> on is negative there.
\<close>

definition asked_for :: "('k, 'w) host \<Rightarrow> sysnum \<Rightarrow> ('k, 'w) guest \<Rightarrow> request option" where
  "asked_for h num g =
     (if num = ''openat2'' then
        (case read_data (h_mem h) (sysarg g SYSARG_3) 24 (mach g) of
           Inl _ \<Rightarrow> None
         | Inr how \<Rightarrow>
             (let flags = word_at how 0; mode = word_at how 1; resolve = word_at how 2 in
              if 24 \<le> sysarg g SYSARG_4 \<and> length how = 24 \<and> flags < 2 ^ 32 \<and> mode < 2 ^ 32 \<and> resolve = 0
              then Some (Open (c_int (sysarg g SYSARG_1)) (sysarg g SYSARG_2) flags mode)
              else None))
      else if num = ''ftruncate'' \<and> \<not> is_aarch32 (regs_of g) then None
      else requested num (sysarg g))"

definition renamed_calls :: "sysnum list" where
  "renamed_calls =
     [''open'', ''openat2'', ''utimes'', ''utime'', ''select'', ''poll'', ''ftruncate'', ''symlink'', ''link'', ''chmod'', ''chown'', ''chown32'', ''lchown'', ''lchown32'', ''unlink'', ''rmdir'',
      ''send'', ''recv'', ''waitpid'', ''pipe'', ''dup2'', ''access'', ''mkdir'', ''rename'', ''accept'', ''epoll_wait'']"

lemma request_of_simps:
  "request_of ''open'' a1 a2 a3 a4 a5 a6 = Some (Open AT_FDCWD a1 a2 a3)"
  "request_of ''openat'' a1 a2 a3 a4 a5 a6 = Some (Open (c_int a1) a2 a3 a4)"
  "request_of ''symlink'' a1 a2 a3 a4 a5 a6 = Some (Make_link a1 AT_FDCWD a2)"
  "request_of ''symlinkat'' a1 a2 a3 a4 a5 a6 = Some (Make_link a1 (c_int a2) a3)"
  "request_of ''link'' a1 a2 a3 a4 a5 a6 = Some (Link AT_FDCWD a1 AT_FDCWD a2 False)"
  "request_of ''linkat'' a1 a2 a3 a4 a5 a6 = Some (Link (c_int a1) a2 (c_int a3) a4 (has_flag a5 AT_SYMLINK_FOLLOW))"
  "request_of ''chmod'' a1 a2 a3 a4 a5 a6 = Some (Change_mode AT_FDCWD a1 a2)"
  "request_of ''fchmodat'' a1 a2 a3 a4 a5 a6 = Some (Change_mode (c_int a1) a2 a3)"
  "request_of ''chown'' a1 a2 a3 a4 a5 a6 = Some (Change_owner AT_FDCWD a1 a2 a3 True)"
  "request_of ''chown32'' a1 a2 a3 a4 a5 a6 = Some (Change_owner AT_FDCWD a1 a2 a3 True)"
  "request_of ''lchown'' a1 a2 a3 a4 a5 a6 = Some (Change_owner AT_FDCWD a1 a2 a3 False)"
  "request_of ''lchown32'' a1 a2 a3 a4 a5 a6 = Some (Change_owner AT_FDCWD a1 a2 a3 False)"
  "request_of ''fchownat'' a1 a2 a3 a4 a5 a6 = Some (Change_owner (c_int a1) a2 a3 a4 (\<not> has_flag a5 AT_SYMLINK_NOFOLLOW))"
  "request_of ''unlink'' a1 a2 a3 a4 a5 a6 = Some (Remove AT_FDCWD a1 False)"
  "request_of ''rmdir'' a1 a2 a3 a4 a5 a6 = Some (Remove AT_FDCWD a1 True)"
  "request_of ''unlinkat'' a1 a2 a3 a4 a5 a6 = Some (Remove (c_int a1) a2 (has_flag a3 AT_REMOVEDIR))"
  "request_of ''send'' a1 a2 a3 a4 a5 a6 = Some (Send a1 a2 a3 a4 0 0)"
  "request_of ''sendto'' a1 a2 a3 a4 a5 a6 = Some (Send a1 a2 a3 a4 a5 a6)"
  "request_of ''recv'' a1 a2 a3 a4 a5 a6 = Some (Receive a1 a2 a3 a4 0 0)"
  "request_of ''recvfrom'' a1 a2 a3 a4 a5 a6 = Some (Receive a1 a2 a3 a4 a5 a6)"
  "request_of ''waitpid'' a1 a2 a3 a4 a5 a6 = Some (Wait a1 a2 a3 0)"
  "request_of ''wait4'' a1 a2 a3 a4 a5 a6 = Some (Wait a1 a2 a3 a4)"
  "request_of ''pipe'' a1 a2 a3 a4 a5 a6 = Some (Pipe a1 0)"
  "request_of ''pipe2'' a1 a2 a3 a4 a5 a6 = Some (Pipe a1 a2)"
  "request_of ''dup2'' a1 a2 a3 a4 a5 a6 = (if a1 \<noteq> a2 then Some (Duplicate a1 a2 0) else None)"
  "request_of ''dup3'' a1 a2 a3 a4 a5 a6 = (if a1 \<noteq> a2 then Some (Duplicate a1 a2 a3) else None)"
  "request_of ''access'' a1 a2 a3 a4 a5 a6 = Some (Test_access AT_FDCWD a1 a2)"
  "request_of ''faccessat'' a1 a2 a3 a4 a5 a6 = Some (Test_access (c_int a1) a2 a3)"
  "request_of ''mkdir'' a1 a2 a3 a4 a5 a6 = Some (Make_directory AT_FDCWD a1 a2)"
  "request_of ''mkdirat'' a1 a2 a3 a4 a5 a6 = Some (Make_directory (c_int a1) a2 a3)"
  "request_of ''rename'' a1 a2 a3 a4 a5 a6 = Some (Rename AT_FDCWD a1 AT_FDCWD a2)"
  "request_of ''renameat'' a1 a2 a3 a4 a5 a6 = Some (Rename (c_int a1) a2 (c_int a3) a4)"
  "request_of ''accept'' a1 a2 a3 a4 a5 a6 = Some (Accept a1 a2 a3 0)"
  "request_of ''accept4'' a1 a2 a3 a4 a5 a6 = Some (Accept a1 a2 a3 a4)"
  "request_of ''epoll_wait'' a1 a2 a3 a4 a5 a6 = Some (Poll_events a1 a2 a3 a4 0)"
  "request_of ''epoll_pwait'' a1 a2 a3 a4 a5 a6 = Some (Poll_events a1 a2 a3 a4 a5)"
  "request_of ''ftruncate'' a1 a2 a3 a4 a5 a6 = (if a2 < 2 ^ 31 then Some (Truncate a1 a2) else None)"
  "request_of ''ftruncate64'' a1 a2 a3 a4 a5 a6 = (if a3 < 2 ^ 32 then Some (Truncate a1 (a3 + 2 ^ 32 * a4)) else None)"
  "request_of ''utimes'' a1 a2 a3 a4 a5 a6 = (if a2 = 0 then Some (Touch AT_FDCWD a1 True) else None)"
  "request_of ''utime'' a1 a2 a3 a4 a5 a6 = (if a2 = 0 then Some (Touch AT_FDCWD a1 True) else None)"
  "request_of ''utimensat'' a1 a2 a3 a4 a5 a6 = (if a3 = 0 then Some (Touch (c_int a1) a2 (\<not> has_flag a4 AT_SYMLINK_NOFOLLOW)) else None)"
  "request_of ''select'' a1 a2 a3 a4 a5 a6 = (if a5 = 0 then Some (Select a1 a2 a3 a4) else None)"
  "request_of ''pselect6'' a1 a2 a3 a4 a5 a6 = (if a5 = 0 \<and> a6 = 0 then Some (Select a1 a2 a3 a4) else None)"
  "request_of ''poll'' a1 a2 a3 a4 a5 a6 = (if c_int a3 < 0 then Some (Poll a1 a2) else None)"
  "request_of ''ppoll'' a1 a2 a3 a4 a5 a6 = (if a3 = 0 \<and> a4 = 0 then Some (Poll a1 a2) else None)"
  by (simp_all add: request_of_def)

section \<open>The registers of a restarted call\<close>

lemma argument_poke:
  assumes "r \<in> set argument_regs" "q \<in> set argument_regs"
  shows "sysarg (poke r v g) q = (if r = q then reg_norm (regs_of g) v else sysarg g q)"
proof -
  have "r \<noteq> q \<Longrightarrow> apart r q" using assms by (auto simp: argument_regs_def apart_def)
  then show ?thesis by (simp add: sysarg_def poke_def regs_of_def on_regs_def peek_poke_same peek_poke_other)
qed

lemma reg_norm_sysarg: "reg_norm (regs_of g) (sysarg g r) = sysarg g r"
  by (simp add: reg_norm_def sysarg_def peek_reg_def is_32on64_mode_def Let_def and.assoc)

lemma regs_of_poke: "regs_of (poke r v g) = poke_reg r v (regs_of g)"
  by (simp add: poke_def regs_of_def on_regs_def)

lemma regs_of_on_regs: "regs_of (on_regs f g) = f (regs_of g)"
  by (simp add: regs_of_def on_regs_def)

text \<open>A step writes one argument with a value that depends on the arguments.\<close>

definition argument_step :: "(('k, 'w) guest \<Rightarrow> ('k, 'w) guest) \<Rightarrow> bool" where
  "argument_step step \<longleftrightarrow> (\<exists>r \<in> set argument_regs. \<forall>g. \<exists>v. step g = poke r v g)"

lemma argument_steps:
  "r \<in> set argument_regs \<Longrightarrow> argument_step (poke r v)"
  "r \<in> set argument_regs \<Longrightarrow> argument_step (move r q)"
  by (auto simp: argument_step_def move_def)

lemma argument_steps_keep:
  assumes "\<forall>step \<in> set steps. argument_step step"
  shows "get_sysnum beyond (regs_of (fold (\<lambda>step. step) steps g)) CURRENT = get_sysnum beyond (regs_of g) CURRENT \<and>
    is_aarch32 (regs_of (fold (\<lambda>step. step) steps g)) = is_aarch32 (regs_of g) \<and>
    restore_original_regs (regs_of (fold (\<lambda>step. step) steps g)) = restore_original_regs (regs_of g) \<and>
    get_systrap_size (regs_of (fold (\<lambda>step. step) steps g)) = get_systrap_size (regs_of g) \<and>
    sysarg (fold (\<lambda>step. step) steps g) INSTR_POINTER = sysarg g INSTR_POINTER \<and>
    krn (mach (fold (\<lambda>step. step) steps g)) = krn (mach g)"
  using assms
proof (induction steps arbitrary: g)
  case (Cons step steps)
  from Cons.prems have "argument_step step" by simp
  then obtain r v where r: "r \<in> set argument_regs" "step g = poke r v g" unfolding argument_step_def by blast
  have a: "apart r SYSARG_NUM" "apart r INSTR_POINTER" using r(1) by (auto simp: argument_regs_def apart_def)
  have s: "slot (regs_of g) r \<noteq> 16 \<or> \<not> is_aarch32 (regs_of g)"
    using r(1) by (auto simp: argument_regs_def slot_def)
  then have "is_aarch32 (regs_of g) \<Longrightarrow> regs (poke_reg r v (regs_of g)) CURRENT 16 = regs (regs_of g) CURRENT 16"
    by (auto simp: poke_reg_def is_32on64_mode_def Let_def)
  then have "get_systrap_size (regs_of (step g)) = get_systrap_size (regs_of g)"
    by (cases "is_aarch32 (regs_of g)") (simp_all add: r(2) regs_of_poke get_systrap_size_def)
  moreover have "krn (mach (step g)) = krn (mach g)" by (simp add: r(2) poke_def on_regs_def)
  moreover have "get_sysnum beyond (regs_of (step g)) CURRENT = get_sysnum beyond (regs_of g) CURRENT"
    "is_aarch32 (regs_of (step g)) = is_aarch32 (regs_of g)"
    "restore_original_regs (regs_of (step g)) = restore_original_regs (regs_of g)"
    "sysarg (step g) INSTR_POINTER = sysarg g INSTR_POINTER"
    using a by (simp_all add: r(2) regs_of_poke get_sysnum_def get_abi_def peek_poke_other sysarg_def)
  ultimately show ?case using Cons.IH [of "step g"] Cons.prems by simp
qed simp

text \<open>The registers are pushed as they are when there is nothing to restore.\<close>

lemma push_unrestored:
  assumes "\<not> restore_original_regs (regs_of g)" "regs_were_changed (regs_of g)"
  shows "push h False g =
    ((if k_accepts (h_mem h) (krn (mach g)) (SET_REGSET (regs (regs_of g) CURRENT)) then Inr () else Inl EPERM),
     g\<lparr>mach := (mach g)\<lparr>krn := k_request (h_mem h) (SET_REGSET (regs (regs_of g) CURRENT)) (krn (mach g))\<rparr>\<rparr>)"
  using assms
  by (simp add: push_def on_mach_def push_specific_regs_def restore_regs_def regs_of_def Let_def)

lemma peek_reg_seccomp_event [simp]: "peek_reg (t\<lparr>restore_after_seccomp_event := c\<rparr>) v r = peek_reg t v r"
  by (simp add: peek_reg_def is_32on64_mode_def slot_def)

lemma systrap_size_seccomp_event [simp]:
  "get_systrap_size (t\<lparr>restore_after_seccomp_event := c, restart_how := d\<rparr>) = get_systrap_size t"
  by (simp add: get_systrap_size_def)

lemma systrap_size_pos: "get_systrap_size t \<noteq> 0"
  by (simp add: get_systrap_size_def SYSTRAP_SIZE_def)

definition restarted :: "('k, 'w) host \<Rightarrow> ('k, 'w) guest \<Rightarrow> ('k, 'w) guest \<Rightarrow> bool" where
  "restarted h g g' \<longleftrightarrow>
     sysarg g' INSTR_POINTER = reg_norm (regs_of g) (sysarg g INSTR_POINTER - get_systrap_size (regs_of g)) \<and>
     restart_how (regs_of g') = PTRACE_SYSCALL \<and> restore_after_seccomp_event (regs_of g') \<and>
     krn (mach g') = k_request (h_mem h) (SET_REGSET (regs (regs_of g') CURRENT)) (krn (mach g))"

lemma restart_call_push:
  "restart_call h g =
     (let g = on_regs (\<lambda>t. t\<lparr>restore_after_seccomp_event := True, restart_how := PTRACE_SYSCALL\<rparr>) g;
          g = poke INSTR_POINTER (sysarg g INSTR_POINTER - get_systrap_size (regs_of g)) g in
      snd (push h False g))"
  by (simp add: restart_call_def with_requests_def restart_syscall_after_seccomp_def push_def on_mach_def on_regs_def
      poke_def sysarg_def regs_of_def Let_def split_beta)

lemma restart_effect:
  assumes "\<not> restore_original_regs (regs_of g)"
  shows "restarted h g (restart_call h g) \<and>
    (\<forall>r. apart INSTR_POINTER r \<longrightarrow> sysarg (restart_call h g) r = sysarg g r) \<and>
    is_aarch32 (regs_of (restart_call h g)) = is_aarch32 (regs_of g)"
proof -
  let ?g = "on_regs (\<lambda>t. t\<lparr>restore_after_seccomp_event := True, restart_how := PTRACE_SYSCALL\<rparr>) g"
  let ?g2 = "poke INSTR_POINTER (sysarg ?g INSTR_POINTER - get_systrap_size (regs_of ?g)) ?g"
  have e: "sysarg ?g r = sysarg g r" for r
    by (simp add: sysarg_def regs_of_on_regs)
  have z: "get_systrap_size (regs_of ?g) = get_systrap_size (regs_of g)"
    by (simp add: regs_of_on_regs)
  have ne: "sysarg ?g INSTR_POINTER \<noteq> sysarg ?g INSTR_POINTER - get_systrap_size (regs_of ?g)"
    using systrap_size_pos [of "regs_of ?g"] by simp
  then have ch: "regs_were_changed (regs_of ?g2)"
    by (simp add: regs_of_poke poke_reg_def sysarg_def Let_def)
  have nr: "\<not> restore_original_regs (regs_of ?g2)"
    using assms by (simp add: regs_of_poke regs_of_on_regs)
  define g2 where "g2 = ?g2"
  define g3 where "g3 = g2\<lparr>mach := (mach g2)\<lparr>krn := k_request (h_mem h) (SET_REGSET (regs (regs_of g2) CURRENT)) (krn (mach g2))\<rparr>\<rparr>"
  have r: "restart_call h g = g3"
    unfolding restart_call_push Let_def push_unrestored [OF nr ch] by (simp add: g3_def g2_def)
  have t: "regs_of g3 = regs_of g2" by (simp add: g3_def regs_of_def)
  have k: "krn (mach g2) = krn (mach g)" by (simp add: g2_def poke_def on_regs_def)
  have "sysarg g2 INSTR_POINTER = reg_norm (regs_of g) (sysarg g INSTR_POINTER - get_systrap_size (regs_of g))"
    unfolding e z by (simp add: g2_def e z sysarg_def [of "poke _ _ _"] regs_of_poke peek_poke_same regs_of_on_regs reg_norm_def)
  moreover have "sysarg g2 r = sysarg g r" if "apart INSTR_POINTER r" for r
    using that by (simp add: g2_def e sysarg_def [of "poke _ _ _"] regs_of_poke peek_poke_other sysarg_def [of ?g, symmetric])
  moreover have "sysarg g3 r = sysarg g2 r" for r
    unfolding sysarg_def t ..
  moreover have "restart_how (regs_of g2) = PTRACE_SYSCALL" "restore_after_seccomp_event (regs_of g2)"
    "is_aarch32 (regs_of g2) = is_aarch32 (regs_of g)"
    by (simp_all add: g2_def regs_of_poke regs_of_on_regs)
  moreover have "krn (mach g3) = k_request (h_mem h) (SET_REGSET (regs (regs_of g3) CURRENT)) (krn (mach g))"
    unfolding t by (simp add: g3_def k)
  ultimately show ?thesis unfolding r restarted_def t by simp
qed

text \<open>A call that is written anew: its number, its arguments, and that it will run again.\<close>

lemma rewrite_effect:
  assumes "\<not> restore_original_regs (regs_of g)" "\<forall>step \<in> set steps. argument_step step"
  shows "get_sysnum beyond (regs_of (rewrite h num' steps g)) CURRENT =
      (if num' \<in> set (sn_table (get_sysnums (get_abi (regs_of g)))) then num' else ''void'') \<and>
    restarted h g (rewrite h num' steps g) \<and>
    (\<forall>r \<in> set argument_regs.
       sysarg (rewrite h num' steps g) r = sysarg (fold (\<lambda>step. step) steps (on_regs (set_sysnum num') g)) r)"
proof -
  let ?g1 = "on_regs (set_sysnum num') g" and ?g2 = "fold (\<lambda>step. step) steps (on_regs (set_sysnum num') g)"
  note k = argument_steps_keep [OF assms(2), of _ ?g1]
  have s1: "get_systrap_size (regs_of ?g1) = get_systrap_size (regs_of g)"
    using systrap_size_poke [of SYSARG_NUM] by (simp add: regs_of_on_regs set_sysnum_def)
  have i1: "sysarg ?g1 INSTR_POINTER = sysarg g INSTR_POINTER"
    by (simp add: sysarg_def regs_of_on_regs set_sysnum_def peek_poke_other apart_def)
  have a1: "is_aarch32 (regs_of ?g1) = is_aarch32 (regs_of g)"
    "restore_original_regs (regs_of ?g1) = restore_original_regs (regs_of g)" "krn (mach ?g1) = krn (mach g)"
    by (simp_all add: regs_of_on_regs set_sysnum_def) (simp add: on_regs_def)
  have n1: "get_sysnum beyond (regs_of ?g1) CURRENT =
      (if num' \<in> set (sn_table (get_sysnums (get_abi (regs_of g)))) then num' else ''void'')" for beyond
    by (simp add: regs_of_on_regs set_sysnum_reads)
  have nr: "\<not> restore_original_regs (regs_of ?g2)" using assms(1) k a1(2) by simp
  note e = restart_effect [OF nr, of h]
  have r: "rewrite h num' steps g = restart_call h ?g2" by (simp add: rewrite_def)
  have "get_sysnum beyond (regs_of (restart_call h ?g2)) CURRENT =
      get_sysnum beyond (regs_of ?g2) CURRENT"
    using e [THEN conjunct2] by (simp add: get_sysnum_def get_abi_def sysarg_def apart_def)
  moreover have "restarted h g (restart_call h ?g2)"
    using e k a1 s1 i1 by (simp add: restarted_def reg_norm_def)
  moreover have "apart INSTR_POINTER r" if "r \<in> set argument_regs" for r
    using that by (auto simp: argument_regs_def apart_def)
  ultimately show ?thesis unfolding r using e k n1 by simp
qed

section \<open>The request is kept\<close>

definition new_names :: "sysnum list" where
  "new_names =
     [''openat'', ''symlinkat'', ''linkat'', ''fchmodat'', ''fchownat'', ''unlinkat'', ''sendto'', ''recvfrom'', ''wait4'',
      ''pipe2'', ''dup3'', ''faccessat'', ''mkdirat'', ''renameat'', ''accept4'', ''epoll_pwait'', ''utimensat'',
      ''pselect6'', ''ppoll'']"

lemma new_names_known:
  "list_all (\<lambda>n. n \<in> set sysnums_arm64) new_names" "list_all (\<lambda>n. n \<in> set sysnums_arm) new_names"
  by (simp_all add: new_names_def sysnums_arm64_def sysnums_arm_def)

lemma new_names_new: "list_all (\<lambda>n. n \<notin> set renamed_calls) new_names"
  by code_simp

lemma new_name_simps [simp]:
  "''openat'' \<in> set new_names" "''symlinkat'' \<in> set new_names" "''linkat'' \<in> set new_names"
  "''fchmodat'' \<in> set new_names" "''fchownat'' \<in> set new_names" "''unlinkat'' \<in> set new_names"
  "''sendto'' \<in> set new_names" "''recvfrom'' \<in> set new_names" "''wait4'' \<in> set new_names"
  "''pipe2'' \<in> set new_names" "''dup3'' \<in> set new_names" "''faccessat'' \<in> set new_names"
  "''mkdirat'' \<in> set new_names" "''renameat'' \<in> set new_names" "''accept4'' \<in> set new_names"
  "''epoll_pwait'' \<in> set new_names" "''utimensat'' \<in> set new_names" "''pselect6'' \<in> set new_names"
  "''ppoll'' \<in> set new_names"
  by code_simp+

lemma c_int_norm_at_cwd: "c_int (reg_norm t at_cwd) = AT_FDCWD"
  by (simp add: c_int_def reg_norm_def at_cwd_def of_c_int_def AT_FDCWD_def)

lemma has_flag_norm:
  "has_flag (reg_norm t AT_SYMLINK_NOFOLLOW) AT_SYMLINK_NOFOLLOW" "\<not> has_flag (reg_norm t 0) w"
  "has_flag (reg_norm t AT_REMOVEDIR) AT_REMOVEDIR" "reg_norm t 0 = 0" "\<not> has_flag 0 w"
  by (simp_all add: has_flag_def reg_norm_def AT_SYMLINK_NOFOLLOW_def AT_REMOVEDIR_def)

lemma argument_regs_simps [simp]:
  "SYSARG_1 \<in> set argument_regs" "SYSARG_2 \<in> set argument_regs" "SYSARG_3 \<in> set argument_regs"
  "SYSARG_4 \<in> set argument_regs" "SYSARG_5 \<in> set argument_regs" "SYSARG_6 \<in> set argument_regs"
  by (simp_all add: argument_regs_def)

lemma argument_set_sysnum: "r \<in> set argument_regs \<Longrightarrow> sysarg (on_regs (set_sysnum n) g) r = sysarg g r"
  by (auto simp: argument_regs_def sysarg_def regs_of_on_regs set_sysnum_def peek_poke_other apart_def)

lemma reg_norm_steps: "reg_norm (regs_of (poke r v g)) = reg_norm (regs_of g)"
  "reg_norm (regs_of (on_regs (set_sysnum n) g)) = reg_norm (regs_of g)"
  by (simp_all add: regs_of_poke regs_of_on_regs set_sysnum_def)

lemma requested_cong:
  "(\<And>r. r \<in> set argument_regs \<Longrightarrow> a r = b r) \<Longrightarrow> requested num a = requested num b"
  by (simp add: requested_def argument_regs_def)

lemmas step_simps = move_def argument_poke argument_set_sysnum reg_norm_steps reg_norm_sysarg c_int_norm_at_cwd
  has_flag_norm

lemma reg_norm_small: "v < 2 ^ 32 \<Longrightarrow> reg_norm t v = v"
proof -
  assume "v < 2 ^ 32"
  then have "unat (take_bit 32 v) = unat v" by (simp add: unsigned_take_bit_eq take_bit_nat_eq_self word_less_nat_alt)
  then have "take_bit 32 v = v" by (simp only: word_unat_eq_iff)
  then show ?thesis by (auto simp: reg_norm_def take_bit_eq_mask mask_eq_exp_minus_1)
qed

text \<open>What each of the calls becomes.\<close>

definition becomes :: "('k, 'w) host \<Rightarrow> request option \<Rightarrow> ('k, 'w) guest \<Rightarrow> ('k, 'w) guest \<Rightarrow> bool" where
  "becomes h req g g' \<longleftrightarrow>
     (\<exists>num' steps. g' = rewrite h num' steps g \<and> (\<forall>step \<in> set steps. argument_step step) \<and>
        num' \<in> set (sn_table (get_sysnums (get_abi (regs_of g)))) \<and> num' \<notin> set renamed_calls \<and>
        requested num' (sysarg (fold (\<lambda>step. step) steps (on_regs (set_sysnum num') g))) = req)"

lemma becomesI:
  "g' = rewrite h num' steps g \<Longrightarrow> \<forall>step \<in> set steps. argument_step step \<Longrightarrow>
   num' \<in> set new_names \<Longrightarrow>
   requested num' (sysarg (fold (\<lambda>step. step) steps (on_regs (set_sysnum num') g))) = req \<Longrightarrow>
   becomes h req g g'"
  using new_names_known new_names_new unfolding becomes_def list_all_iff
  by (intro exI [of _ num'] exI [of _ steps] conjI) (cases "get_abi (regs_of g)"; simp)+

text \<open>The calls whose arguments only move from register to register.\<close>

definition moved_calls :: "sysnum list" where
  "moved_calls =
     [''open'', ''symlink'', ''link'', ''chmod'', ''chown'', ''chown32'', ''lchown'', ''lchown32'', ''unlink'', ''rmdir'',
      ''send'', ''recv'', ''waitpid'', ''pipe'', ''dup2'', ''access'', ''mkdir'', ''rename'', ''accept'', ''epoll_wait'']"

lemmas restart_defs = handle_seccomp_event_common_def restart_open_def restart_renamed_def restart_links_def
  restart_transfers_def restart_files_def shift_args_def

lemma moved_becomes:
  assumes "notify (h_callbacks h) SIGSYS_OCC g = (0, g1)" "get_sysnum (h_beyond h) (regs_of g) CURRENT = num"
    "num \<in> set moved_calls" and "handle_seccomp_event_common h own g = Some g'"
  shows "becomes h (requested num (sysarg g1)) g1 g'"
  using assms(3) assms(1,2,4) unfolding moved_calls_def set_simps
  apply (elim insertE emptyE)
  apply (simp_all add: restart_defs)
  apply (clarify; rule becomesI [OF refl]; simp add: argument_steps requested_def request_of_simps step_simps Let_def)+
  done

lemma openat2_becomes:
  assumes "asked_for h ''openat2'' g1 = Some r"
  shows "becomes h (Some r) g1 (restart_openat2 h g1)"
proof -
  obtain how where how: "read_data (h_mem h) (sysarg g1 SYSARG_3) 24 (mach g1) = Inr how" "length how = 24"
      "24 \<le> sysarg g1 SYSARG_4" "word_at how 0 < 2 ^ 32" "word_at how 1 < 2 ^ 32"
      "r = Open (c_int (sysarg g1 SYSARG_1)) (sysarg g1 SYSARG_2) (word_at how 0) (word_at how 1)"
    using assms by (auto simp: asked_for_def Let_def split: sum.splits if_split_asm)
  have e: "restart_openat2 h g1 = rewrite h ''openat'' [poke SYSARG_3 (word_at how 0), poke SYSARG_4 (word_at how 1)] g1"
    using how(1-3) by (cases "sysarg g1 SYSARG_4 = 24") (simp_all add: restart_openat2_def Let_def word_at_def)
  show ?thesis
    using how(4-6) by (intro becomesI [OF e])
      (simp_all add: argument_steps requested_def request_of_simps step_simps Let_def reg_norm_small)
qed

lemma truncate_becomes:
  assumes "asked_for h ''ftruncate'' g1 = Some r"
  shows "becomes h (Some r) g1 (restart_ftruncate h g1)"
proof -
  have a: "is_aarch32 (regs_of g1)" "sysarg g1 SYSARG_2 < 2 ^ 31" "r = Truncate (sysarg g1 SYSARG_1) (sysarg g1 SYSARG_2)"
    using assms by (auto simp: asked_for_def requested_def request_of_simps Let_def split: if_split_asm)
  then have t: "get_abi (regs_of g1) = ABI_2" "''ftruncate64'' \<in> set (sn_table (get_sysnums ABI_2))"
    "''ftruncate64'' \<notin> set renamed_calls"
    by (simp add: get_abi_def, code_simp+)
  have "detranslate_sysnum ABI_2 ''ftruncate64'' \<noteq> SYSCALL_AVOIDER" by code_simp
  then have "restart_ftruncate h g1 = rewrite h ''ftruncate64'' [move SYSARG_3 SYSARG_2, poke SYSARG_2 0, poke SYSARG_4 0] g1"
    using t(1) by (simp add: restart_ftruncate_def)
  moreover have "sysarg g1 SYSARG_2 < 2 ^ 32" using a(2) by (simp add: word_less_nat_alt)
  ultimately show ?thesis unfolding becomes_def using t a(3)
    by (intro exI [of _ "''ftruncate64''"] exI [of _ "[move SYSARG_3 SYSARG_2, poke SYSARG_2 0, poke SYSARG_4 0]"] conjI)
      (simp_all add: argument_steps requested_def request_of_simps step_simps Let_def)
qed

lemma utime_becomes:
  assumes "requested num (sysarg g1) = Some r" "num \<in> {''utimes'', ''utime''}"
  shows "becomes h (Some r) g1 (restart_utime h n timens_of g1)"
proof -
  have a: "sysarg g1 SYSARG_2 = 0" "r = Touch AT_FDCWD (sysarg g1 SYSARG_1) True"
    using assms by (auto simp: requested_def request_of_simps split: if_split_asm)
  then have e: "restart_utime h n timens_of g1 = rewrite h ''utimensat''
      [poke SYSARG_4 0, move SYSARG_3 SYSARG_2, move SYSARG_2 SYSARG_1, poke SYSARG_1 at_cwd] g1"
    by (simp add: restart_utime_def rewrite_def utime_args_def argument_set_sysnum Let_def)
  show ?thesis using a by (intro becomesI [OF e])
    (simp_all add: argument_steps requested_def request_of_simps step_simps Let_def)
qed

lemma select_becomes:
  assumes "requested ''select'' (sysarg g1) = Some r"
  shows "becomes h (Some r) g1 (restart_select h g1)"
proof -
  have a: "sysarg g1 SYSARG_5 = 0"
      "r = Select (sysarg g1 SYSARG_1) (sysarg g1 SYSARG_2) (sysarg g1 SYSARG_3) (sysarg g1 SYSARG_4)"
    using assms by (auto simp: requested_def request_of_simps split: if_split_asm)
  then have e: "restart_select h g1 = rewrite h ''pselect6'' [poke SYSARG_5 0, poke SYSARG_6 0] g1"
    by (simp add: restart_select_def Let_def)
  show ?thesis using a by (intro becomesI [OF e])
    (simp_all add: argument_steps requested_def request_of_simps step_simps Let_def)
qed

lemma poll_becomes:
  assumes "requested ''poll'' (sysarg g1) = Some r"
  shows "becomes h (Some r) g1 (restart_poll h g1)"
proof -
  have a: "c_int (sysarg g1 SYSARG_3) < 0" "r = Poll (sysarg g1 SYSARG_1) (sysarg g1 SYSARG_2)"
    using assms by (auto simp: requested_def request_of_simps split: if_split_asm)
  then have e: "restart_poll h g1 = rewrite h ''ppoll'' [poke SYSARG_3 0, poke SYSARG_4 0, poke SYSARG_5 0] g1"
    by (simp add: restart_poll_def Let_def)
  show ?thesis using a by (intro becomesI [OF e])
    (simp_all add: argument_steps requested_def request_of_simps step_simps Let_def)
qed

lemma handled:
  assumes "notify (h_callbacks h) SIGSYS_OCC g = (0, g1)" "handle_seccomp_event_common h own g = Some g'"
  shows "get_sysnum (h_beyond h) (regs_of g) CURRENT = ''openat2'' \<Longrightarrow> g' = restart_openat2 h g1"
    "get_sysnum (h_beyond h) (regs_of g) CURRENT = ''ftruncate'' \<Longrightarrow> g' = restart_ftruncate h g1"
    "get_sysnum (h_beyond h) (regs_of g) CURRENT = ''utimes'' \<Longrightarrow> g' = restart_utime h 32 timens_of_timevals g1"
    "get_sysnum (h_beyond h) (regs_of g) CURRENT = ''utime'' \<Longrightarrow> g' = restart_utime h 16 timens_of_utimbuf g1"
    "get_sysnum (h_beyond h) (regs_of g) CURRENT = ''select'' \<Longrightarrow> g' = restart_select h g1"
    "get_sysnum (h_beyond h) (regs_of g) CURRENT = ''poll'' \<Longrightarrow> g' = restart_poll h g1"
  using assms by (simp_all add: handle_seccomp_event_common_def)

lemma renamed_split:
  assumes "num \<in> set renamed_calls"
  shows "num \<in> set moved_calls \<or> num \<in> {''openat2'', ''ftruncate'', ''utimes'', ''utime'', ''select'', ''poll''}"
proof -
  have "list_all (\<lambda>n. n \<in> set moved_calls \<or>
      n \<in> set [''openat2'', ''ftruncate'', ''utimes'', ''utime'', ''select'', ''poll'']) renamed_calls"
    by code_simp
  then show ?thesis using assms unfolding list_all_iff by (metis list.simps(15) list.set(1))
qed

lemma asked_for_requested:
  "num \<noteq> ''openat2'' \<and> num \<noteq> ''ftruncate'' \<Longrightarrow> asked_for h num g = requested num (sysarg g)"
  by (simp add: asked_for_def)

lemma moved_plain:  assumes "num \<in> set moved_calls"
  shows "num \<noteq> ''openat2'' \<and> num \<noteq> ''ftruncate''"
proof -
  have "list_all (\<lambda>n. n \<noteq> ''openat2'' \<and> n \<noteq> ''ftruncate'') moved_calls" by code_simp
  then show ?thesis using assms unfolding list_all_iff by blast
qed

lemma renamed_becomes:
  assumes "notify (h_callbacks h) SIGSYS_OCC g = (0, g1)" "get_sysnum (h_beyond h) (regs_of g) CURRENT = num"
    "num \<in> set renamed_calls" "asked_for h num g1 = Some r" and "handle_seccomp_event_common h own g = Some g'"
  shows "becomes h (Some r) g1 g'"
  using renamed_split [OF assms(3)]
proof
  assume m: "num \<in> set moved_calls"
  then have "requested num (sysarg g1) = Some r" using assms(4) asked_for_requested [OF moved_plain [OF m], of h g1] by simp
  then show ?thesis using moved_becomes [OF assms(1,2) m assms(5)] by simp
next
  note g' = handled [OF assms(1,5)]
  assume "num \<in> {''openat2'', ''ftruncate'', ''utimes'', ''utime'', ''select'', ''poll''}"
  then show ?thesis using assms(2,4)
    by (elim insertE emptyE)
      (simp_all add: g' openat2_becomes truncate_becomes asked_for_requested utime_becomes select_becomes poll_becomes)
qed

text \<open>C14: A call that a seccomp policy of the host has refused, that no extension answers and that PRoot restarts
  under another name asks for the same as before: the path, the modes, the flags and the descriptors are those of
  the refused call, its new number is one that is not restarted again, the tracee is back at its trap, and the
  kernel has been given the registers. The calls are those of \<open>renamed_calls\<close>, that is all that are restarted but
  \<open>stat\<close> and \<open>lstat\<close>, which are lost (see below), as far as \<open>asked_for\<close> reads them: \<open>utimes\<close>, \<open>utime\<close>,
  \<open>select\<close> and \<open>poll\<close> without a time (one that is given is converted with the fields of 64 bits of PRoot, which are not
  those of a 32-bit tracee), \<open>openat2\<close> without \<open>resolve\<close> (whose restrictions the code drops on purpose), \<open>ftruncate\<close> of a 32-bit tracee to a length that is not negative, and
  \<open>dup2\<close> of two different descriptors (\<open>dup3\<close> refuses equal ones).\<close>

theorem restart_keeps_request:
  assumes "notify (h_callbacks h) SIGSYS_OCC g = (0, g1)" "\<not> restore_original_regs (regs_of g1)"
    and "num \<in> set renamed_calls" "get_sysnum (h_beyond h) (regs_of g) CURRENT = num" "asked_for h num g1 = Some r"
    and "handle_seccomp_event_common h own g = Some g'"
  shows "asked_for h (get_sysnum beyond (regs_of g') CURRENT) g' = Some r \<and>
    get_sysnum beyond (regs_of g') CURRENT \<notin> set renamed_calls \<and> restarted h g1 g'"
proof -
  from renamed_becomes [OF assms(1,4,3,5,6)] obtain num' steps where b: "g' = rewrite h num' steps g1"
      "\<forall>step \<in> set steps. argument_step step" "num' \<in> set (sn_table (get_sysnums (get_abi (regs_of g1))))"
      "num' \<notin> set renamed_calls"
      "requested num' (sysarg (fold (\<lambda>step. step) steps (on_regs (set_sysnum num') g1))) = Some r"
    unfolding becomes_def by blast
  note e = rewrite_effect [OF assms(2) b(2), of beyond h num']
  have "requested num' (sysarg g') = requested num' (sysarg (fold (\<lambda>step. step) steps (on_regs (set_sysnum num') g1)))"
    unfolding b(1) using e by (intro requested_cong) blast
  moreover have "''openat2'' \<in> set renamed_calls \<and> ''ftruncate'' \<in> set renamed_calls" by code_simp
  then have "num' \<noteq> ''openat2'' \<and> num' \<noteq> ''ftruncate''" using b(4) by blast
  ultimately show ?thesis unfolding b(1) using e b by (simp add: asked_for_def)
qed

text \<open>C15: \<open>stat\<close> and \<open>lstat\<close> are lost: they are restarted under a number that neither table of the arm64 build has
  (its name there is \<open>fstatat64\<close>), so that the tracee executes a call that no kernel knows.\<close>

theorem refused_stat_is_lost:
  assumes "h_callbacks h = []" "\<not> restore_original_regs (regs_of g)"
    and "get_sysnum (h_beyond h) (regs_of g) CURRENT \<in> {''stat'', ''lstat''}"
    and "handle_seccomp_event_common h own g = Some g'"
  shows "get_sysnum beyond (regs_of g') CURRENT = ''void'' \<and> restarted h g g'"
proof -
  define flag where "flag = (if get_sysnum (h_beyond h) (regs_of g) CURRENT = ''lstat'' then AT_SYMLINK_NOFOLLOW else 0)"
  have g': "g' = rewrite h ''newfstatat''
      [poke SYSARG_4 flag, move SYSARG_3 SYSARG_2, move SYSARG_2 SYSARG_1, poke SYSARG_1 at_cwd] g"
    using assms(3) assms(1,4) by (elim insertE emptyE)
      (simp_all add: flag_def handle_seccomp_event_common_def restart_renamed_def restart_links_def
         restart_transfers_def restart_files_def)
  have "''newfstatat'' \<notin> set (sn_table (get_sysnums (get_abi (regs_of g))))"
    by (cases "get_abi (regs_of g)") (simp_all add: sysnums_arm64_def sysnums_arm_def)
  then show ?thesis unfolding g' using rewrite_effect [OF assms(2), of _ beyond h "''newfstatat''"]
    by (simp add: argument_steps)
qed

section \<open>A concrete refusal\<close>

text \<open>A 32-bit tracee that opens a file (number 5), and one that asks for the status of one (number 106).\<close>

definition old_tracee :: "nat \<Rightarrow> tracee" where
  "old_tracee n = example_tracee\<lparr>is_aarch32 := True, restore_original_regs := False,
     regs := (\<lambda>version i. if i = 7 then of_nat n else of_nat (1000 + i))\<rparr>"

definition old_guest :: "nat \<Rightarrow> (memory, unit) guest" where
  "old_guest n = on_regs (\<lambda>_. old_tracee n) example_guest"

lemma old_guest_reads:
  "get_sysnum beyond (regs_of (old_guest 5)) CURRENT = ''open''"
  "get_sysnum beyond (regs_of (old_guest 106)) CURRENT = ''stat''"
  "\<not> restore_original_regs (regs_of (old_guest n))"
  by (simp_all add: old_guest_def regs_of_on_regs old_tracee_def example_tracee_def get_sysnum_def get_abi_def
      peek_reg_def slot_def is_32on64_mode_def read_low translate_sysnum_def get_sysnums_simps sysnums_arm_def Let_def)

definition declining_host :: "(memory, unit) host" where
  "declining_host = example_host\<lparr>h_callbacks := [\<lambda>event g. (0, g)]\<rparr>"

lemma restart_witness:
  "\<forall>own. \<exists>g'. handle_seccomp_event_common declining_host own (old_guest 5) = Some g' \<and>
     asked_for declining_host (get_sysnum (h_beyond declining_host) (regs_of g') CURRENT) g' =
       Some (Open AT_FDCWD 1000 1001 1002)"
proof
  fix own
  have n: "notify (h_callbacks declining_host) SIGSYS_OCC (old_guest 5) = (0, old_guest 5)"
    by (simp add: declining_host_def)
  obtain g' where g': "handle_seccomp_event_common declining_host own (old_guest 5) = Some g'"
    by (simp add: handle_seccomp_event_common_def old_guest_reads n)
  have r: "asked_for declining_host ''open'' (old_guest 5) = Some (Open AT_FDCWD 1000 1001 1002)"
    by (simp add: asked_for_def requested_def request_of_simps sysarg_def old_guest_def regs_of_on_regs old_tracee_def
        example_tracee_def peek_reg_def slot_def is_32on64_mode_def read_low)
  have "''open'' \<in> set renamed_calls" by (simp add: renamed_calls_def)
  from restart_keeps_request [OF n old_guest_reads(3) this old_guest_reads(1) r g'] g'
  show "\<exists>g'. handle_seccomp_event_common declining_host own (old_guest 5) = Some g' \<and>
     asked_for declining_host (get_sysnum (h_beyond declining_host) (regs_of g') CURRENT) g' =
       Some (Open AT_FDCWD 1000 1001 1002)"
    by blast
qed

lemma refused_stat_witness:
  "\<forall>own. \<exists>g'. handle_seccomp_event_common example_host own (old_guest 106) = Some g' \<and>
     get_sysnum (h_beyond example_host) (regs_of g') CURRENT = ''void''"
proof
  fix own
  obtain g' where g': "handle_seccomp_event_common example_host own (old_guest 106) = Some g'"
    by (simp add: handle_seccomp_event_common_def old_guest_reads example_host_def restart_renamed_def
        restart_links_def restart_transfers_def restart_files_def)
  have "get_sysnum (h_beyond example_host) (regs_of g') CURRENT = ''void''"
    using refused_stat_is_lost [OF _ _ _ g'] old_guest_reads by (simp add: example_host_def)
  with g' show "\<exists>g'. handle_seccomp_event_common example_host own (old_guest 106) = Some g' \<and>
     get_sysnum (h_beyond example_host) (regs_of g') CURRENT = ''void''"
    by blast
qed

end
