(* ===== verification/Answers.thy ===== *)
theory Answers
  imports Exit Rewritten
begin

text \<open>
  What the exit stage tells the tracee: its directory, the contents of its links, and its directory after a
  renaming.
\<close>

section \<open>Writes to the memory of the tracee\<close>

text \<open>Exactly the given bytes have been written.\<close>

definition wrote ::
  "('k \<Rightarrow> memory) \<Rightarrow> ('k, 'w) guest \<Rightarrow> word_t \<Rightarrow> byte list \<Rightarrow> ('k, 'w) guest \<Rightarrow> bool" where
  "wrote v g address bs g' \<longleftrightarrow>
     present (v (krn (mach g))) (untag_pointer address) (length bs) \<and>
     v (krn (mach g')) = put_bytes (v (krn (mach g))) (untag_pointer address) bs"

lemma write_result:
  assumes "memory_laws k v" "steady (mach g)" "length bs < 2 ^ 64"
    and "on_mach (write_data k address bs) g = (r, g')"
  shows "paths g' = paths g \<and> regs_of g' = regs_of g \<and> (case r of Inr _ \<Rightarrow> wrote v g address bs g' | Inl _ \<Rightarrow> True)"
proof -
  obtain r' m where w: "write_data k address bs (mach g) = (r', m)" by fastforce
  with assms(4) have r: "r' = r" "g' = g\<lparr>mach := m\<rparr>" by (simp_all add: on_mach_def)
  from write_data_steady [OF assms(1-3) w] obtain s where "m = (mach g)\<lparr>krn := s\<rparr>"
    "case r of Inr _ \<Rightarrow> present (v (krn (mach g))) (untag_pointer address) (length bs) \<and>
       v s = put_bytes (v (krn (mach g))) (untag_pointer address) bs | Inl _ \<Rightarrow> True"
    unfolding r by (cases r) auto
  then show ?thesis by (cases r) (simp_all add: r(2) wrote_def regs_of_def)
qed

section \<open>The result of a call\<close>

lemma keep_void_result_keeps:
  "mach (keep_void_result g) = (mach g)\<lparr>tr := regs_of (keep_void_result g)\<rparr>"
  "paths (keep_void_result g) = paths g" "call_status (keep_void_result g) = call_status g"
  "version \<noteq> CURRENT \<Longrightarrow> arg (keep_void_result g) version r = arg g version r"
  by (simp_all add: keep_void_result_def poke_def on_regs_def regs_of_def arg_def Let_def)
    (simp add: peek_reg_def is_32on64_mode_def)

lemma get_sysnum_keep [simp]:
  "version \<noteq> CURRENT \<Longrightarrow> get_sysnum beyond (regs_of (keep_void_result g)) version = get_sysnum beyond (regs_of g) version"
  by (simp add: keep_void_result_def get_sysnum_def get_abi_def poke_def on_regs_def regs_of_def Let_def)
    (simp add: peek_reg_def is_32on64_mode_def)

lemma sysarg_result_poke: "sysarg (poke SYSARG_RESULT w g) SYSARG_RESULT = reg_norm (regs_of g) w"
  by (simp add: sysarg_def poke_def on_regs_def regs_of_def peek_poke_same)

text \<open>Without extensions, the status of a case is the result of the call.\<close>

lemma exit_result:
  assumes "h_callbacks h = []" "0 \<le> call_status g"
    and "translate_syscall_exit h own g = Some g'"
  shows "case exit_switch h own (get_sysnum (h_beyond h) (regs_of g) ORIGINAL) (keep_void_result g) of
       (Result n, g1) \<Rightarrow> g' = poke SYSARG_RESULT (of_c_int n) g1
     | (Keep, g1) \<Rightarrow> g' = g1
     | (Lost, _) \<Rightarrow> False"
  using assms by (auto simp: translate_syscall_exit_def Let_def split: prod.splits ending.splits)

lemma failed_result:
  assumes "h_callbacks h = []" "call_status g < 0" "translate_syscall_exit h own g = Some g'"
  shows "g' = poke SYSARG_RESULT (of_c_int (call_status g)) g"
  using assms by (simp add: translate_syscall_exit_def Let_def)

section \<open>The current working directory\<close>

lemma exit_getcwd_effect:
  assumes "memory_laws (h_mem h) v" "steady (mach g)" "glue_type (h_env h) = None"
    and "exit_getcwd h g = (e, g')"
  shows "regs_of g' = regs_of g \<and>
    (let path = cwd (fs_of (paths g)) in
     case e of
       Result n \<Rightarrow> (\<exists>err. n = neg err) \<or>
         n = int (length path + 1) \<and> length path < unat (arg g ORIGINAL SYSARG_2) \<and>
         wrote v g (arg g ORIGINAL SYSARG_1) (bytes_of_string path) g'
     | _ \<Rightarrow> False)"
proof -
  let ?p = "cwd (fs_of (paths g))" and ?n = "arg g ORIGINAL SYSARG_2"
  obtain r s where t: "translate_path (h_env h) AT_FDCWD ''.'' False (paths g) = (r, s)" by fastforce
  define g1 where "g1 = g\<lparr>paths := s\<rparr>"
  have o: "on_paths (translate_path (h_env h) AT_FDCWD ''.'' False) g = (r, g1)"
    by (simp add: on_paths_def t g1_def)
  have fs: "fs_of (paths g1) = fs_of (paths g)"
    using translate_path_frame [OF assms(3) t] by (simp add: frame_def g1_def)
  have a: "arg g1 = arg g" "mach g1 = mach g" "regs_of g1 = regs_of g" by (simp_all add: g1_def arg_def regs_of_def fun_eq_iff)
  obtain r2 g2 where w: "on_mach (write_data (h_mem h) (arg g ORIGINAL SYSARG_1) (bytes_of_string ?p)) g1 = (r2, g2)"
    by fastforce
  have e: "(e, g') = (if ?n = 0 then (Result (neg EINVAL), g)
      else case r of Inl err \<Rightarrow> (Result (neg err), g1)
      | Inr _ \<Rightarrow> if unat ?n < length ?p + 1 then (Result (neg ERANGE), g1)
          else case r2 of Inl err \<Rightarrow> (Result (neg err), g2) | Inr _ \<Rightarrow> (Result (int (length ?p + 1)), g2))"
    unfolding assms(4) [symmetric] exit_getcwd_def Let_def o
    by (simp add: fs a w split: sum.splits)
  show ?thesis
  proof (cases "?n = 0 \<or> (\<exists>err. r = Inl err) \<or> unat ?n < length ?p + 1")
    case True
    then show ?thesis using e a by (auto simp: Let_def split: if_splits sum.splits)
  next
    case False
    have "unat ?n < 2 ^ LENGTH(64)" by (rule unsigned_less)
    with False have l: "length (bytes_of_string ?p) < 2 ^ 64" by (simp add: bytes_of_string_def)
    have st: "steady (mach g1)" using assms(2) a(2) by simp
    from write_result [OF assms(1) st l w] have "regs_of g2 = regs_of g"
      "\<And>u. r2 = Inr u \<Longrightarrow> wrote v g (arg g ORIGINAL SYSARG_1) (bytes_of_string ?p) g2"
      by (auto simp: a wrote_def split: sum.splits)
    with e False show ?thesis by (auto simp: Let_def split: sum.splits)
  qed
qed

text \<open>C16: \<open>getcwd\<close> tells the tracee the directory that PRoot keeps for it: when the exit stage does not report an
  error, the buffer of the tracee holds this path with its terminator, nothing else of its memory has
  changed, the path fits the size that was given, and the result is the number of bytes written.\<close>

theorem getcwd_tells_cwd:
  assumes "memory_laws (h_mem h) v" "steady (mach g)" "glue_type (h_env h) = None"
    and "h_callbacks h = []" "0 \<le> call_status g" "get_sysnum (h_beyond h) (regs_of g) ORIGINAL = ''getcwd''"
    and "translate_syscall_exit h own g = Some g'"
  shows "(\<exists>err. sysarg g' SYSARG_RESULT = reg_norm (regs_of g) (of_c_int (neg err))) \<or>
    (let path = cwd (fs_of (paths g)) in
     sysarg g' SYSARG_RESULT = reg_norm (regs_of g) (of_nat (length path + 1)) \<and>
     length path < unat (arg g ORIGINAL SYSARG_2) \<and>
     wrote v g (arg g ORIGINAL SYSARG_1) (bytes_of_string path) g')"
proof -
  let ?g = "keep_void_result g"
  obtain e g1 where x: "exit_getcwd h ?g = (e, g1)" by fastforce
  have sw: "exit_switch h own ''getcwd'' ?g = (e, g1)" by (simp add: exit_switch_def x)
  have m: "mach ?g = (mach g)\<lparr>tr := regs_of ?g\<rparr>" by (rule keep_void_result_keeps(1))
  have st: "steady (mach ?g)" using assms(2) by (subst m) (simp add: steady_def)
  have kr: "wrote v ?g = wrote v g" by (simp only: wrote_def fun_eq_iff) (subst m, simp)+
  have nm: "reg_norm (regs_of ?g) = reg_norm (regs_of g)"
    by (simp add: keep_void_result_def Let_def reg_norm_steps)
  from exit_getcwd_effect [OF assms(1) st assms(3) x] obtain n where n: "e = Result n" "regs_of g1 = regs_of ?g"
      "(\<exists>err. n = neg err) \<or> n = int (length (cwd (fs_of (paths g))) + 1) \<and>
         length (cwd (fs_of (paths g))) < unat (arg g ORIGINAL SYSARG_2) \<and>
         wrote v g (arg g ORIGINAL SYSARG_1) (bytes_of_string (cwd (fs_of (paths g)))) g1"
    by (auto simp: Let_def keep_void_result_keeps kr split: ending.splits)
  have g': "g' = poke SYSARG_RESULT (of_c_int n) g1"
    using exit_result [OF assms(4,5,7)] unfolding assms(6) sw n(1) by simp
  have "sysarg g' SYSARG_RESULT = reg_norm (regs_of g) (of_c_int n)"
    by (simp add: g' sysarg_result_poke n(2) nm)
  moreover have "wrote v g a bs g' = wrote v g a bs g1" for a bs by (simp add: g' wrote_def poke_def on_regs_def)
  moreover have "of_c_int (int k) = of_nat k" for k by (simp add: of_c_int_def)
  ultimately show ?thesis using n(3) by (auto simp: Let_def simp del: of_nat_add of_nat_Suc)
qed

section \<open>The contents of a link\<close>

lemma remove_root_count: "remove_root fs p sc = Inr (n, r) \<Longrightarrow> n = 0 \<or> n = int (length r) + 1"
  by (auto simp: remove_root_def Let_def split: comparison.splits if_splits)

lemma detranslate_count:
  assumes "detranslate_path e fs p t = Inr (n, r)"
  shows "n = 0 \<or> n = int (length r) + 1"
proof -
  have "m = 0 \<or> m = int (length q) + 1" if "follow_then_remove fs p sc fb = Inr (m, q)" for sc fb m q
    using that by (auto simp: follow_then_remove_def split: if_splits sum.splits dest: remove_root_count)
  then show ?thesis using assms
    by (auto simp: detranslate_path_def split: if_splits option.splits sum.splits)
qed

definition link_buffer :: "('k, 'w) guest \<Rightarrow> sysnum \<Rightarrow> word_t \<times> nat" where
  "link_buffer g num =
     (if num = ''readlink'' then (arg g ORIGINAL SYSARG_2, min (unat (arg g ORIGINAL SYSARG_3)) PATH_MAX)
      else (arg g ORIGINAL SYSARG_3, min (unat (arg g ORIGINAL SYSARG_4)) PATH_MAX))"

text \<open>C17: When the exit stage changes the answer of \<open>readlink\<close>, the tracee gets the contents of the link as the guest
  sees it, cut to the size that the tracee has given (\<open>PATH_MAX\<close> at most), and nothing else is written. The result
  is the length of the contents, except that a buffer which also has room for the terminator, and for
  nothing more, makes the code count the terminator.\<close>

theorem readlink_answer:
  assumes "memory_laws (h_mem h) v" "steady (mach g)" "link_buffer g num = (output, max_size)"
    and "exit_readlink h num g = (Result n, g')" "0 \<le> n"
  shows "\<exists>bs referer path. read_data (h_mem h) output (unat (sysarg g SYSARG_RESULT)) (mach g) = Inr bs \<and>
    readlink_referer h num (arg g MODIFIED (if num = ''readlink'' then SYSARG_1 else SYSARG_2)) g = Inr referer \<and>
    detranslate_path (h_env h) (fs_of (paths g))
      (whole_link h (unat (sysarg g SYSARG_RESULT) = max_size) referer (string_of_bytes bs) g) (Some referer) =
      Inr (int (length path) + 1, path) \<and>
    wrote v g output (take max_size (bytes_of_string path)) g' \<and>
    n = int (if length path + 1 < max_size then length path else max_size) \<and> 0 < max_size"
proof -
  have nn: "n \<noteq> neg err" for err using assms(5) errno_val_pos [of err] by (simp add: neg_def)
  define old_size where "old_size = unat (sysarg g SYSARG_RESULT)"
  define input where "input = arg g MODIFIED (if num = ''readlink'' then SYSARG_1 else SYSARG_2)"
  define found where "found = bindE (read_data (h_mem h) output old_size (mach g)) (\<lambda>bs.
                 bindE (readlink_referer h num input g) (\<lambda>referer.
                   detranslate_path (h_env h) (fs_of (paths g))
                     (whole_link h (old_size = max_size) referer (string_of_bytes bs) g) (Some referer)))"
  have b: "arg g ORIGINAL (if num = ''readlink'' then SYSARG_2 else SYSARG_3) = output"
    "min (unat (arg g ORIGINAL (if num = ''readlink'' then SYSARG_3 else SYSARG_4))) PATH_MAX = max_size"
    using assms(3) by (auto simp: link_buffer_def split: if_splits)
  have m: "max_size \<le> PATH_MAX" using b(2) by linarith
  have x: "(Result n, g') = (if failed g then (Keep, g) else if max_size = 0 then (Result (neg EINVAL), g)
      else if old_size \<ge> PATH_MAX then (Lost, g)
      else case found of Inl err \<Rightarrow> (Result (neg err), g)
        | Inr (k, referee) \<Rightarrow> if k = 0 then (Keep, g)
            else (case on_mach (write_data (h_mem h) output
                     (take (if nat k < max_size then nat k else max_size) (bytes_of_string referee))) g of
                    (Inl err, g) \<Rightarrow> (Result (neg err), g)
                  | (Inr _, g) \<Rightarrow> (Result (if nat k < max_size then k - 1 else int max_size), g)))"
    unfolding assms(4) [symmetric] exit_readlink_def Let_def b found_def old_size_def input_def ..
  have ne: "\<not> failed g" "max_size \<noteq> 0" "\<not> old_size \<ge> PATH_MAX"
    using x nn [of EINVAL] by (auto split: if_splits)
  then obtain k path where f: "found = Inr (k, path)" "k \<noteq> 0" using x nn by (auto split: sum.splits if_splits)
  let ?bs = "take (if nat k < max_size then nat k else max_size) (bytes_of_string path)"
  obtain r g2 where w: "on_mach (write_data (h_mem h) output ?bs) g = (r, g2)" by fastforce
  then obtain u where r: "r = Inr u" "g' = g2" "n = (if nat k < max_size then k - 1 else int max_size)"
    using x ne f nn by (cases r) auto
  obtain bs referer where d: "read_data (h_mem h) output old_size (mach g) = Inr bs"
      "readlink_referer h num input g = Inr referer"
      "detranslate_path (h_env h) (fs_of (paths g))
         (whole_link h (old_size = max_size) referer (string_of_bytes bs) g) (Some referer) = Inr (k, path)"
    using f(1) unfolding found_def by (auto simp: bindE_def split: sum.splits)
  then have k: "k = int (length path) + 1" using detranslate_count f(2) by blast
  have nk: "nat k = length path + 1" by (simp add: k)
  have bs: "?bs = take max_size (bytes_of_string path)" unfolding nk by (simp add: bytes_of_string_def)
  have "length ?bs \<le> max_size" unfolding bs by simp
  then have "length ?bs < 2 ^ 64" using m by (simp add: PATH_MAX_def)
  from write_result [OF assms(1,2) this w] have "wrote v g output (take max_size (bytes_of_string path)) g'"
    unfolding bs r by simp
  moreover have "n = int (if length path + 1 < max_size then length path else max_size)"
    unfolding r(3) nk by (simp add: k)
  ultimately show ?thesis using d ne(2) unfolding k old_size_def input_def by blast
qed

section \<open>A directory that moves\<close>

text \<open>C18: A renaming of the current working directory, or of a directory above it, moves the directory that
  PRoot keeps for the tracee along: below the old path it gets the new one, and any other renaming leaves it
  as it is.\<close>

theorem rename_moves_cwd:
  assumes "\<not> failed g" "names olds" "names news" "names cs" "olds \<noteq> []"
    and "guest_path_at h (if num = ''rename'' then SYSARG_1 else SYSARG_2) g = Inr (render olds, length (render olds))"
    and "guest_path_at h (if num = ''rename'' then SYSARG_2 else SYSARG_4) g = Inr (render news, length (render news))"
    and "cwd (fs_of (paths g)) = render cs" "length (render cs) < PATH_MAX"
    and "length (render (news @ drop (length olds) cs)) + 1 < PATH_MAX"
  shows "\<exists>g'. exit_rename h num g = (Result 0, g') \<and> mach g' = mach g \<and>
    cwd (fs_of (paths g')) = (if prefix olds cs then render (news @ drop (length olds) cs) else render cs)"
proof -
  have c: "compare_paths (render olds) (render cs) = prefix_comparison olds cs"
    using assms(2,4) by (intro compare_paths_prefix denotes_render)
  show ?thesis
  proof (cases "prefix olds cs")
    case True
    then obtain rs where rs: "cs = olds @ rs" by (auto simp: prefix_def)
    have "compare_paths (render olds) (render cs) = PATH1_IS_PREFIX \<or> compare_paths (render olds) (render cs) = PATHS_ARE_EQUAL"
      unfolding c prefix_comparison_iff using True by (auto simp: strict_prefix_def)
    moreover have "substitute_path_prefix (render (olds @ rs)) (length (render olds)) (render news) (length (render news))
        = Inr (render (news @ rs))"
      using assms(2-5,10) rs by (intro substitute_path_prefix_render) auto
    ultimately show ?thesis
      using assms(1,6-9) True unfolding exit_rename_def rs by (auto simp: Let_def)
  next
    case False
    then have "compare_paths (render olds) (render cs) \<noteq> PATH1_IS_PREFIX" "compare_paths (render olds) (render cs) \<noteq> PATHS_ARE_EQUAL"
      unfolding c prefix_comparison_iff by (auto simp: strict_prefix_def)
    then show ?thesis using assms(1,6,8) False by (auto simp: exit_rename_def)
  qed
qed

end
