(* ===== verification/Syscall.thy ===== *)
theory Syscall
  imports Exit Chain
begin

text \<open>
  \<open>translate_syscall\<close> of \<open>syscall/syscall.c\<close>: what PRoot does at each of the two stops of a system call.
\<close>

section \<open>The code\<close>

text \<open>The enter stage up to the status of the translation; \<open>None\<close> has left the buffers of PRoot.\<close>

definition translate_or_chain ::
  "('k, 'w) host \<Rightarrow> ('k, 'w) handlers \<Rightarrow> ('k, 'w) guest \<Rightarrow> (int \<times> ('k, 'w) guest) option" where
  "translate_or_chain h hs g =
     (if chain_syscalls (regs_of g) = None then
        (let (status, g) = translate_syscall_enter h hs (on_regs (save_current_regs ORIGINAL) g) in
         map_option (\<lambda>status. (status, on_regs (save_current_regs MODIFIED) g)) status)
      else
        (let (status, g) = (if workaround_state (regs_of g) \<noteq> SYSNUM_WORKAROUND_PROCESS_REPLACED_CALL
                            then notify (h_callbacks h) SYSCALL_CHAINED_ENTER g else (0, g)) in
         Some (status, on_regs (\<lambda>t. t\<lparr>restart_how := PTRACE_SYSCALL\<rparr>) g)))"

definition note_status :: "int \<Rightarrow> ('k, 'w) guest \<Rightarrow> ('k, 'w) guest" where
  "note_status status g =
     (if status < 0
      then (poke SYSARG_RESULT (of_c_int status) (on_regs (set_sysnum ''void'') g))\<lparr>call_status := status\<rparr>
      else g\<lparr>call_status := 1\<rparr>)"

text \<open>
  How a stage goes on: \<open>Done\<close> returns at once, \<open>Push\<close> writes the registers with the status of a call that is
  not stopped at its end.
\<close>

datatype 'g stage = Done 'g | Push int 'g | Outside

definition enter_stage :: "('k, 'w) host \<Rightarrow> ('k, 'w) handlers \<Rightarrow> ('k, 'w) guest \<Rightarrow> ('k, 'w) guest stage" where
  "enter_stage h hs g =
     (let g = on_regs (\<lambda>t. t\<lparr>restore_original_regs := False\<rparr>) g in
      if relaunched_syscall (mach g) then
        Done (on_regs (\<lambda>t. t\<lparr>restart_how := PTRACE_SYSCALL\<rparr>)
          (g\<lparr>mach := (mach g)\<lparr>relaunched_syscall := False\<rparr>, call_status := 1\<rparr>))
      else
        (case translate_or_chain h hs g of
           None \<Rightarrow> Outside
         | Some (status, g) \<Rightarrow>
             (let g = note_status status g in
              if cancelled_syscall (mach g) then
                (let g = g\<lparr>mach := (mach g)\<lparr>cancelled_syscall := False, relaunched_syscall := True\<rparr>, call_status := 0\<rparr>;
                     g = on_regs (\<lambda>t. t\<lparr>restart_how := PTRACE_SYSCALL\<rparr>) g in
                 Done (snd (push h False (poke INSTR_POINTER (sysarg g INSTR_POINTER - SYSTRAP_SIZE) g))))
              else if restart_how (regs_of g) = PTRACE_CONT then
                Push (call_status g) (poke STACK_POINTER (arg g ORIGINAL STACK_POINTER) (g\<lparr>call_status := 0\<rparr>))
              else Push 0 g)))"

definition exit_stage :: "('k, 'w) host \<Rightarrow> ('k, 'w) own_calls \<Rightarrow> ('k, 'w) guest \<Rightarrow> ('k, 'w) guest stage" where
  "exit_stage h own g =
     (let g = on_regs (\<lambda>t. t\<lparr>restore_original_regs := True\<rparr>) g;
          workaround = workaround_state (regs_of g) in
      if relaunched_syscall (mach g) then Done g
      else
        (case (if chain_syscalls (regs_of g) = None \<or> workaround = SYSNUM_WORKAROUND_PROCESS_REPLACED_CALL then
                 translate_syscall_exit h own (on_regs (\<lambda>t. t\<lparr>workaround_state := SYSNUM_WORKAROUND_INACTIVE\<rparr>) g)
               else if workaround = SYSNUM_WORKAROUND_PROCESS_FAULTY_CALL then
                 Some (on_regs (\<lambda>t. t\<lparr>workaround_state := SYSNUM_WORKAROUND_PROCESS_REPLACED_CALL\<rparr>) g)
               else Some (snd (notify (h_callbacks h) SYSCALL_CHAINED_EXIT g))) of
           None \<Rightarrow> Outside
         | Some g \<Rightarrow>
             (let g = g\<lparr>mach := (mach g)\<lparr>cancelled_syscall := False\<rparr>, call_status := 0\<rparr> in
              Push 0 (if chain_syscalls (regs_of g) = None then g else on_regs chain_next_syscall g))))"

text \<open>The kernel has refused the new number: the call is made to fail, and chained when it was another one.\<close>

definition all_args :: "reg list" where
  "all_args = [SYSARG_1, SYSARG_2, SYSARG_3, SYSARG_4, SYSARG_5, SYSARG_6]"

definition sysnum_refused :: "('k, 'w) host \<Rightarrow> int \<Rightarrow> ('k, 'w) guest \<Rightarrow> ('k, 'w) guest" where
  "sysnum_refused h suppressed_status g =
     (let current_sysnum = arg g CURRENT SYSARG_NUM in
      if arg g ORIGINAL SYSARG_NUM = current_sysnum then g
      else
        (let g = (if current_sysnum \<noteq> SYSCALL_AVOIDER then
                    on_regs (restart_current_syscall_as_chained (h_beyond h)) g
                  else if suppressed_status \<noteq> 0 then
                    on_regs (\<lambda>t. t\<lparr>restart_how := PTRACE_SYSCALL\<rparr>) (g\<lparr>call_status := suppressed_status\<rparr>)
                  else g);
             g = on_regs (poke_all (map (\<lambda>r. (r, - 1)) all_args)) g;
             g = (if get_sysnum (h_beyond h) (regs_of g) ORIGINAL = ''brk'' then poke SYSARG_1 0 g else g) in
         snd (push h False g)))"

definition translate_syscall ::
  "('k, 'w) host \<Rightarrow> ('k, 'w) own_calls \<Rightarrow> ('k, 'w) handlers \<Rightarrow> ('k, 'w) guest \<Rightarrow> ('k, 'w) guest option" where
  "translate_syscall h own hs g =
     (let is_enter_stage = (call_status g = 0) in
      case fetch_regs (o_getregs own (krn (mach g))) (regs_of g) of
        (Inl _, t) \<Rightarrow> Some (on_regs (\<lambda>_. t) g)
      | (Inr _, t) \<Rightarrow>
          (let g = on_regs (\<lambda>_. t) g in
           case (if is_enter_stage then enter_stage h hs g else exit_stage h own g) of
             Outside \<Rightarrow> None
           | Done g \<Rightarrow> Some g
           | Push suppressed_status g \<Rightarrow>
               (let override_sysnum = (is_enter_stage \<and> chain_syscalls (regs_of g) = None);
                    (res, g) = push h override_sysnum g in
                Some (case res of
                        Inr _ \<Rightarrow> g
                      | Inl _ \<Rightarrow> if override_sysnum then sysnum_refused h suppressed_status g else g))))"

end
