(* ===== verification/Stages.thy ===== *)
theory Stages
  imports Syscall Answers
begin

text \<open>
  The two stops of a call together: what the enter stage decides reaches the tracee at the exit stage, and the
  registers that PRoot has written are those of the tracee again.
\<close>

section \<open>Registers at the end of a call\<close>

definition restored_args :: "reg set" where
  "restored_args = {SYSARG_2, SYSARG_3, SYSARG_4, SYSARG_5, SYSARG_6, STACK_POINTER}"

text \<open>The kernel runs the tracee between two stops: its side and the answer about the registers change.\<close>

definition runs :: "('k, 'w) guest \<Rightarrow> 'k \<Rightarrow> ('k, 'w) guest" where
  "runs g s = g\<lparr>mach := (mach g)\<lparr>krn := s\<rparr>\<rparr>"

lemma push_effect:
  assumes "push h including_sysnum g = (res, g')" "restore_original_regs (regs_of g)"
    and "regs_were_changed (regs_of g) \<or> restore_after_seccomp_event (regs_of g)"
    and "including_sysnum \<Longrightarrow> restored_from (regs_of g) = ORIGINAL"
  shows "(\<forall>r \<in> restored_args. sysarg g' r = arg g (restored_from (regs_of g)) r) \<and>
    sysarg g' SYSARG_RESULT = sysarg g SYSARG_RESULT \<and>
    krn (mach g') = k_request (h_mem h) (SET_REGSET (regs (regs_of g') CURRENT)) (krn (mach g)) \<and>
    call_status g' = call_status g"
proof -
  obtain st t requests where p: "push_specific_regs (k_accepts (h_mem h) (krn (mach g))) including_sysnum (regs_of g) =
      (st, t, requests)" by (metis prod_cases3)
  have g': "g' = g\<lparr>mach := (mach g)\<lparr>tr := t, krn := fold (k_request (h_mem h)) requests (krn (mach g))\<rparr>\<rparr>"
    using assms(1) p by (simp add: push_def on_mach_def regs_of_def)
  note e = push_specific_restores [OF assms(3,2,4) p]
  have t: "regs_of g' = t" by (simp add: g' regs_of_def)
  have "requests = [SET_REGSET (regs t CURRENT)]" using e by blast
  then have "krn (mach g') = k_request (h_mem h) (SET_REGSET (regs t CURRENT)) (krn (mach g))"
    "call_status g' = call_status g" by (simp_all add: g')
  with e show ?thesis by (simp add: sysarg_def arg_def t restored_args_def)
qed

section \<open>A call that fails\<close>

lemma failed_call_exit:
  assumes "h_callbacks h = []" "call_status g < 0" "chain_syscalls (regs_of g) = None"
    and "\<not> relaunched_syscall (mach g)" "regs_were_changed (regs_of g)" "o_getregs own s = Inr f"
  shows "\<exists>g3. translate_syscall h own hs (runs g s) = Some (snd (push h False g3)) \<and>
    regs_were_changed (regs_of g3) \<and> restore_original_regs (regs_of g3) \<and>
    restored_from (regs_of g3) = restored_from (regs_of g) \<and>
    sysarg g3 SYSARG_RESULT = reg_norm (regs_of g) (of_c_int (call_status g)) \<and>
    (\<forall>r. arg g3 (restored_from (regs_of g)) r = arg g (restored_from (regs_of g)) r) \<and>
    krn (mach g3) = s \<and> call_status g3 = 0"
proof -
  define t where "t = set_bank (regs_of g) CURRENT (f (regs (regs_of g) CURRENT))"
  define g1 where "g1 = on_regs (\<lambda>_. t\<lparr>restore_original_regs := True, workaround_state := SYSNUM_WORKAROUND_INACTIVE\<rparr>) (runs g s)"
  define g2 where "g2 = (poke SYSARG_RESULT (of_c_int (call_status g)) g1)"
  define g3 where "g3 = g2\<lparr>mach := (mach g2)\<lparr>cancelled_syscall := False\<rparr>, call_status := 0\<rparr>"
  have fetch: "fetch_regs (o_getregs own (krn (mach (runs g s)))) (regs_of (runs g s)) = (Inr (), t)"
    using assms(6) by (simp add: fetch_regs_def runs_def regs_of_def t_def)
  have r1: "on_regs (\<lambda>t. t\<lparr>workaround_state := SYSNUM_WORKAROUND_INACTIVE\<rparr>)
      (on_regs (\<lambda>t. t\<lparr>restore_original_regs := True\<rparr>) (on_regs (\<lambda>_. t) (runs g s))) = g1"
    by (simp add: on_regs_def g1_def)
  have t1: "chain_syscalls t = None" "is_aarch32 t = is_aarch32 (regs_of g)" "regs_were_changed t"
    "restore_after_seccomp_event t = restore_after_seccomp_event (regs_of g)"
    using assms(3,5) by (simp_all add: t_def)
  have c: "chain_syscalls (regs_of (on_regs (\<lambda>t. t\<lparr>restore_original_regs := True\<rparr>) (on_regs (\<lambda>_. t) (runs g s)))) = None"
    "relaunched_syscall (mach (on_regs (\<lambda>t. t\<lparr>restore_original_regs := True\<rparr>) (on_regs (\<lambda>_. t) (runs g s)))) = False"
    "call_status g1 = call_status g"
    using t1(1) assms(4) by (simp_all add: on_regs_def regs_of_def runs_def g1_def)
  have x: "translate_syscall_exit h own g1 = Some g2"
    using assms(1,2) c(3) by (simp add: translate_syscall_exit_def g2_def)
  have t3: "regs_of g3 = poke_reg SYSARG_RESULT (of_c_int (call_status g)) (regs_of g1)" "krn (mach g3) = s" "call_status g3 = 0"
    by (simp_all add: g3_def g2_def regs_of_def poke_def on_regs_def g1_def runs_def)
  have tg1: "regs_of g1 = t\<lparr>restore_original_regs := True, workaround_state := SYSNUM_WORKAROUND_INACTIVE\<rparr>"
    by (simp add: g1_def regs_of_def on_regs_def)
  have st: "exit_stage h own (on_regs (\<lambda>_. t) (runs g s)) = Push 0 g3"
    unfolding exit_stage_def Let_def c r1 x by (simp add: t3(1) tg1 t1(1) g3_def [symmetric])
  have tr: "translate_syscall h own hs (runs g s) = Some (snd (push h False g3))"
    using fetch st assms(2) by (simp add: translate_syscall_def runs_def Let_def split: prod.splits sum.splits)
  have ch: "regs_were_changed (regs_of g3)" "restore_original_regs (regs_of g3)"
    using t1(3) by (simp_all add: t3(1) tg1) (simp add: poke_reg_def Let_def)
  have same: "restored_from (regs_of g3) = restored_from (regs_of g)"
    by (simp add: restored_from_def t3(1) tg1 t1(4))
  have res: "sysarg g3 SYSARG_RESULT = reg_norm (regs_of g) (of_c_int (call_status g))"
    by (simp add: sysarg_def t3(1) peek_poke_same tg1 reg_norm_def t1(2))
  have args: "arg g3 (restored_from (regs_of g)) r = arg g (restored_from (regs_of g)) r" for r
  proof -
    have "restored_from (regs_of g) \<noteq> CURRENT" by (simp add: restored_from_def)
    then show ?thesis
      by (simp add: arg_def t3(1) tg1 t_def peek_reg_def is_32on64_mode_def slot_def)
  qed
  show ?thesis using tr ch same res args t3(2,3) by blast
qed

text \<open>C13: The error of a call that the enter stage has refused reaches the tracee: whatever the kernel did with the
  call in its place, the result after the exit stage is the error, the other arguments and the stack pointer
  are again those with which the tracee made the call (the refused one, when a seccomp policy had the
  call restarted), the kernel is given these registers, and PRoot waits for the next call.\<close>

theorem failed_call_leaves_no_trace:
  assumes "h_callbacks h = []" "call_status g < 0" "chain_syscalls (regs_of g) = None"
    and "\<not> relaunched_syscall (mach g)" "regs_were_changed (regs_of g)"
    and "o_getregs own s = Inr f" "translate_syscall h own hs (runs g s) = Some g'"
  shows "sysarg g' SYSARG_RESULT = reg_norm (regs_of g) (of_c_int (call_status g)) \<and>
    (\<forall>r \<in> restored_args. sysarg g' r = arg g (restored_from (regs_of g)) r) \<and> call_status g' = 0 \<and>
    krn (mach g') = k_request (h_mem h) (SET_REGSET (regs (regs_of g') CURRENT)) s"
proof -
  from failed_call_exit [OF assms(1-6), of hs] obtain g3 where g3:
    "translate_syscall h own hs (runs g s) = Some (snd (push h False g3))"
    "regs_were_changed (regs_of g3)" "restore_original_regs (regs_of g3)"
    "restored_from (regs_of g3) = restored_from (regs_of g)"
    "sysarg g3 SYSARG_RESULT = reg_norm (regs_of g) (of_c_int (call_status g))"
    "\<forall>r. arg g3 (restored_from (regs_of g)) r = arg g (restored_from (regs_of g)) r"
    "krn (mach g3) = s" "call_status g3 = 0" by blast
  obtain res where p: "push h False g3 = (res, g')" using g3(1) assms(7) by (metis option.inject prod.collapse)
  from push_effect [OF p g3(3)] g3(2,4-8) show ?thesis by simp
qed

section \<open>A concrete failure\<close>

definition example_own :: "(memory, unit) own_calls" where
  "example_own = \<lparr>o_stat = (\<lambda>w b p. Inl ENOENT), o_statfs = (\<lambda>w p. Inl ENOENT), o_getregs = (\<lambda>s. Inr (\<lambda>b. b(0 := 1))),
     o_getpgid = (\<lambda>w. 1), o_time = (\<lambda>w. 0), o_ids = (\<lambda>w n. None), o_stack_limit = (\<lambda>w. None),
     o_set_stack_limit = (\<lambda>l w. w), o_statx = [], o_execve_exit = id, o_ptrace_exit = Pair 0, o_wait_exit = Pair 0,
     o_waits_in_proot = (\<lambda>g. False)\<rparr>"

lemma failed_call_witness:
  "\<exists>g'. translate_syscall example_host example_own no_handlers (runs (example_guest\<lparr>call_status := - 2\<rparr>) (krn example_machine)) =
     Some g' \<and> sysarg g' SYSARG_RESULT = - 2 \<and> sysarg g' SYSARG_2 = arg example_guest ORIGINAL SYSARG_2"
proof -
  let ?g = "example_guest\<lparr>call_status := - 2\<rparr>"
  have h: "h_callbacks example_host = []" "call_status ?g < 0" "chain_syscalls (regs_of ?g) = None"
    "\<not> relaunched_syscall (mach ?g)" "regs_were_changed (regs_of ?g)" "o_getregs example_own (krn example_machine) = Inr (\<lambda>b. b(0 := 1))"
    "is_aarch32 (regs_of ?g) = False" "restore_after_seccomp_event (regs_of ?g) = False"
    by (simp_all add: example_host_def example_guest_def regs_of_def example_machine_def example_tracee_def example_own_def)
      (simp add: poke_reg_def Let_def)
  from failed_call_exit [OF h(1-6), of no_handlers] obtain g' where g':
    "translate_syscall example_host example_own no_handlers (runs ?g (krn example_machine)) = Some g'" by blast
  have "arg ?g v r = arg example_guest v r" for v r by (simp add: arg_def regs_of_def)
  moreover have "SYSARG_2 \<in> restored_args" by (simp add: restored_args_def)
  ultimately show ?thesis
    using failed_call_leaves_no_trace [OF h(1-6) g'] g' h(7,8) by (auto simp: reg_norm_def of_c_int_def restored_from_def)
qed

end
