(* ===== verification/Told.thy ===== *)
theory Told
  imports Answers Stages
begin

section \<open>Concrete answers\<close>

lemma read_path_held:
  assumes "memory_laws k v" "v (krn m) = put_bytes b (untag_pointer src) (bytes_of_string s)" "cstr s" "length s < 4095"
    and "present b (untag_pointer src) (rounded (Suc (length s)))"
  shows "\<exists>bs. read_path k src m = Inr (bs, Suc (length s)) \<and> string_of_bytes bs = s"
proof -
  let ?a = "untag_pointer src" and ?n = "Suc (length s)" and ?b = "v (krn m)"
  have l: "length (bytes_of_string s) = ?n" by (simp add: bytes_of_string_def)
  have cs: "cstring_at ?b ?a ?n" unfolding assms(2) using assms(3,4) by (intro cstring_at_put) simp_all
  have pr: "present ?b ?a (rounded ?n)" unfolding assms(2) by (rule present_put_bytes [OF assms(5)])
  note ok = read_string_spec [OF assms(1), where m = m and src = src and max_size = mem_PATH_MAX]
  show ?thesis
  proof (cases "read_string k src mem_PATH_MAX m")
    case (Inl e)
    with ok obtain q where q: "no_nul ?b ?a (8 * q)" "\<not> present ?b (?a + of_nat (8 * q)) 8"
      by (auto simp: read_string_ok_def)
    have "8 * q + 8 \<le> rounded ?n" using cstring_no_nul [OF cs q(1)] by (rule rounded_pointer)
    then show ?thesis using pr q(2) present_le [OF pr, of "8 * q + 8"] unfolding present_add by blast
  next
    case (Inr y)
    obtain bs n where y: "y = (bs, n)" by fastforce
    have "\<not> no_nul ?b ?a 4096" using cstring_no_nul [OF cs] assms(4) by fastforce
    with ok Inr y have n: "cstring_at ?b ?a n" "take n bs = bytes_at ?b ?a n"
      by (auto simp: read_string_ok_def mem_PATH_MAX_def)
    then have e: "n = ?n" using cstring_unique cs by blast
    have "bytes_at ?b ?a ?n = bytes_of_string s"
      unfolding assms(2) using bytes_at_put_same [of "bytes_of_string s"] assms(4) unfolding l by simp
    then have t: "bs = bytes_of_string s @ drop ?n bs" using n(2) unfolding e by (metis append_take_drop_id)
    have "string_of_bytes bs = string_of_bytes (bytes_of_string s)"
      by (subst t) (simp add: string_of_bytes_def bytes_of_string_def takeWhile_tail)
    then show ?thesis using Inr y e assms(4) string_of_bytes_of_string [OF assms(3)]
      by (simp add: read_path_def mem_PATH_MAX_def)
  qed
qed

text \<open>A tracee at the end of a call: the registers at the entry, what PRoot made of them, and the result.\<close>

definition bank_of :: "(nat \<times> word_t) list \<Rightarrow> bank" where
  "bank_of l = fold (\<lambda>(i, w) b. write_word b i w) l (\<lambda>_. 0)"

definition ended :: "(nat \<times> word_t) list \<Rightarrow> (nat \<times> word_t) list \<Rightarrow> word_t \<Rightarrow> memory \<Rightarrow> (memory, unit) guest" where
  "ended original modified result memory =
     example_guest\<lparr>mach := example_machine\<lparr>krn := memory,
       tr := (tr example_machine)\<lparr>regs := (\<lambda>version.
         if version = ORIGINAL then bank_of original else if version = MODIFIED then bank_of modified
         else bank_of [(0, result)])\<rparr>\<rparr>, call_status := 1\<rparr>"

lemma ended_simps:
  "paths (ended a m r b) = example_state" "krn (mach (ended a m r b)) = b" "steady (mach (ended a m r b))"
  "call_status (ended a m r b) = 1" "is_aarch32 (regs_of (ended a m r b)) = False"
  "arg (ended a m r b) ORIGINAL q = read_word (bank_of a) (reg_offset q)"
  "arg (ended a m r b) MODIFIED q = read_word (bank_of m) (reg_offset q)"
  "sysarg (ended a m r b) SYSARG_RESULT = r"
  by (simp_all add: ended_def example_guest_def steady_def example_machine_def regs_of_def example_tracee_def arg_def
      sysarg_def peek_reg_def slot_def is_32on64_mode_def bank_of_def read_write_word)

lemma ended_num:
  "get_sysnum beyond (regs_of (ended a m r b)) ORIGINAL = translate_sysnum beyond ABI_DEFAULT (read_word (bank_of a) 16)"
  using ended_simps(6) [of a m r b SYSARG_NUM] ended_simps(5) [of a m r b] by (simp add: get_sysnum_def get_abi_def arg_def)

lemmas bank_simps = bank_of_def read_write_word read_write_other

text \<open>\<open>getcwd\<close> in a buffer of 100 bytes at 1000.\<close>

definition asks_cwd :: "(memory, unit) guest" where
  "asks_cwd = ended [(16, 17), (0, 1000), (2, 100)] [] 0 (krn example_machine)"

lemma example_dot: "translate_path example_env AT_FDCWD ''.'' False example_state = (Inr ''/data/rootfs/.'', example_state)"
  "cwd example_fs = ''/''" "detranslate_path example_env example_fs ''/sdcard/a'' (Some ''/sdcard/a'') = Inr (7, ''/mnt/a'')"
  by code_simp+

lemma example_put:
  assumes "krn (mach g) = put_bytes (krn example_machine) c cs \<or> krn (mach g) = krn example_machine" "steady (mach g)"
    and "unat (untag_pointer a) + rounded (length bs) \<le> 8192"
  shows "\<exists>g'. on_mach (write_data small_kernel a bs) g = (Inr (), g') \<and> paths g' = paths g \<and> regs_of g' = regs_of g"
proof -
  obtain r g' where w: "on_mach (write_data small_kernel a bs) g = (r, g')" by fastforce
  obtain r2 m where w2: "write_data small_kernel a bs (mach g) = (r2, m)" by fastforce
  have len: "length bs < 2 ^ 64" using assms(3) rounded_split(2) [of "length bs"] by simp
  have "present (krn (mach g)) (untag_pointer a) (rounded (length bs))"
    using assms(1) example_present [OF assms(3)] present_put_bytes by auto
  with write_data_steady [OF small_kernel_laws assms(2) len w2] have "\<nexists>e. r2 = Inl e" by auto
  moreover have "r = r2" using w w2 by (simp add: on_mach_def)
  ultimately have "r = Inr ()" by (cases r) auto
  with w write_result [OF small_kernel_laws assms(2) len w] show ?thesis by auto
qed

lemma getcwd_witness:
  "\<exists>g'. translate_syscall_exit example_host example_own asks_cwd = Some g' \<and> sysarg g' SYSARG_RESULT = 2 \<and>
     wrote id asks_cwd 1000 (bytes_of_string ''/'') g'"
proof -
  have v: "keep_void_result asks_cwd = asks_cwd"
    by (simp add: keep_void_result_def asks_cwd_def ended_simps bank_of_def read_word_def SYSCALL_AVOIDER_def Let_def)
  have num: "get_sysnum (h_beyond example_host) (regs_of asks_cwd) ORIGINAL = ''getcwd''"
    by (simp add: asks_cwd_def ended_num bank_simps translate_sysnum_def get_sysnums_simps sysnums_arm64_def Let_def)
  have args: "arg asks_cwd ORIGINAL SYSARG_1 = 1000" "arg asks_cwd ORIGINAL SYSARG_2 = 100"
    by (simp_all add: asks_cwd_def ended_simps bank_simps)
  have e: "steady (mach asks_cwd)" "call_status asks_cwd = 1" "paths asks_cwd = example_state"
    "krn (mach asks_cwd) = krn example_machine" "is_aarch32 (regs_of asks_cwd) = False"
    by (simp_all add: asks_cwd_def ended_simps)
  have fs: "fs_of example_state = example_fs" by (simp add: example_state_def)
  have h: "h_mem example_host = small_kernel" "h_env example_host = example_env" "h_callbacks example_host = []"
    "glue_type example_env = None" by (simp_all add: example_host_def example_env_def)
  have b: "length (bytes_of_string ''/'') = 2" by (simp add: bytes_of_string_def)
  have "unat (untag_pointer 1000) + rounded (length (bytes_of_string ''/'')) \<le> 8192"
    unfolding b by (simp add: rounded_def untag_pointer_def)
  with example_put [of asks_cwd] e obtain g1 where
    g1: "on_mach (write_data small_kernel 1000 (bytes_of_string ''/'')) asks_cwd = (Inr (), g1)" "regs_of g1 = regs_of asks_cwd"
    by blast
  have dot: "on_paths (translate_path example_env AT_FDCWD ''.'' False) asks_cwd = (Inr ''/data/rootfs/.'', asks_cwd)"
    using example_dot(1) e(3) by (simp add: on_paths_def)
  have "exit_getcwd example_host asks_cwd = (Result 2, g1)"
    using dot g1(1) example_dot(2) by (simp add: exit_getcwd_def args h e(3) fs Let_def)
  then have sw: "exit_switch example_host example_own ''getcwd'' asks_cwd = (Result 2, g1)" by (simp add: exit_switch_def)
  then have t: "translate_syscall_exit example_host example_own asks_cwd = Some (poke SYSARG_RESULT 2 g1)"
    by (simp add: translate_syscall_exit_def h num v e(2) Let_def of_c_int_def)
  have r: "sysarg (poke SYSARG_RESULT 2 g1) SYSARG_RESULT = 2"
    by (simp add: sysarg_result_poke g1(2) reg_norm_def e(5))
  have "reg_norm (regs_of asks_cwd) (of_c_int (neg err)) \<noteq> 2" for err
    by (cases err) (simp_all add: reg_norm_def e(5) of_c_int_def neg_def)
  then show ?thesis
    using getcwd_tells_cwd [of example_host id asks_cwd, OF _ e(1) _ _ _ num t] small_kernel_laws h e(2) t r args(1)
    by (auto simp: Let_def e(3) fs example_dot(2))
qed

text \<open>\<open>readlink\<close> of \<open>/sdcard/a\<close>, whose path and whose contents both lie at 1000.\<close>

definition link_memory :: memory where
  "link_memory = put_bytes (krn example_machine) 1000 (bytes_of_string ''/sdcard/a'')"

definition asks_link :: "(memory, unit) guest" where
  "asks_link = ended [(2, 1000), (4, 64)] [(0, 1000)] 9 link_memory"

lemma readlink_witness:
  "\<exists>g'. exit_readlink example_host ''readlink'' asks_link = (Result 6, g') \<and>
     wrote id asks_link 1000 (bytes_of_string ''/mnt/a'') g'"
proof -
  let ?s = "''/sdcard/a''"
  have args: "arg asks_link ORIGINAL SYSARG_2 = 1000" "arg asks_link ORIGINAL SYSARG_3 = 64"
    "arg asks_link MODIFIED SYSARG_1 = 1000" "sysarg asks_link SYSARG_RESULT = 9"
    by (simp_all add: asks_link_def ended_simps bank_simps)
  have e: "steady (mach asks_link)" "paths asks_link = example_state" "krn (mach asks_link) = link_memory"
    by (simp_all add: asks_link_def ended_simps)
  have l: "length (bytes_of_string ?s) = 10" "bytes_of_string ?s = map (\<lambda>c. word_of_nat (of_char c)) ?s @ [0]" "cstr ?s"
    by (simp_all add: bytes_of_string_def cstr_def)
  have u: "untag_pointer 1000 = 1000" by (simp add: untag_pointer_def)
  have pr: "present (krn example_machine) 1000 16" by (intro example_present) simp
  have ok: "\<not> failed asks_link" by (simp add: failed_def args c_int_def)
  have h: "h_mem example_host = small_kernel" "h_env example_host = example_env" by (simp_all add: example_host_def)
  have at: "bytes_at link_memory 1000 9 = map (\<lambda>c. word_of_nat (of_char c)) ?s"
  proof -
    have "bytes_at link_memory 1000 10 = bytes_of_string ?s"
      unfolding link_memory_def using bytes_at_put_same [of "bytes_of_string ?s" "krn example_machine" 1000] unfolding l(1) by simp
    then have "take 9 (bytes_at link_memory 1000 10) = take 9 (bytes_of_string ?s)" by simp
    then show ?thesis by (simp add: take_bytes_at l(2))
  qed
  have pr9: "present link_memory 1000 16" unfolding link_memory_def by (rule present_put_bytes [OF pr])
  have rd: "read_data small_kernel 1000 9 (mach asks_link) = Inr (map (\<lambda>c. word_of_nat (of_char c)) ?s)"
    using read_data_bytes [OF small_kernel_laws, where src = 1000 and n = 9 and m = "mach asks_link"] pr9 at
    by (cases "read_data small_kernel 1000 9 (mach asks_link)") (simp_all add: e(3) u rounded_def)
  obtain bs where rp: "read_path small_kernel 1000 (mach asks_link) = Inr (bs, 10)" "string_of_bytes bs = ?s"
    using read_path_held [OF small_kernel_laws _ l(3), of "mach asks_link" "krn example_machine" 1000] pr
    by (auto simp: e(3) link_memory_def u rounded_def)
  have str: "string_of_bytes (map (\<lambda>c. word_of_nat (of_char c)) ?s) = ?s"
    using string_of_bytes_of_string [OF l(3)] unfolding l(2) by (simp add: string_of_bytes_def)
  have fs: "fs_of example_state = example_fs" by (simp add: example_state_def)
  have b: "length (bytes_of_string ''/mnt/a'') = 7" by (simp add: bytes_of_string_def)
  have "unat (untag_pointer 1000) + rounded (length (bytes_of_string ''/mnt/a'')) \<le> 8192"
    unfolding b by (simp add: rounded_def u)
  with example_put [of asks_link] e obtain g' where
    g': "on_mach (write_data small_kernel 1000 (bytes_of_string ''/mnt/a'')) asks_link = (Inr (), g')"
    unfolding link_memory_def by blast
  have x: "exit_readlink example_host ''readlink'' asks_link = (Result 6, g')"
    using ok rd rp str g' b
    by (simp add: exit_readlink_def readlink_referer_def whole_link_def args h e(2) fs example_dot(3) PATH_MAX_def Let_def)
  have k: "link_buffer asks_link ''readlink'' = (1000, 64)" by (simp add: link_buffer_def args PATH_MAX_def)
  have "wrote id asks_link 1000 (take 64 (bytes_of_string ''/mnt/a'')) g'"
    using readlink_answer [of example_host id, OF _ e(1) k x] small_kernel_laws h rd rp str
    by (auto simp: args readlink_referer_def whole_link_def e(2) fs example_dot(3) PATH_MAX_def)
  with x b show ?thesis by simp
qed

text \<open>A tracee in \<open>/mnt/a/x\<close> renames \<open>/sdcard/a\<close>, at 1000, to \<open>/sdcard/b\<close>, at 2000.\<close>

definition rename_memory :: memory where
  "rename_memory = put_bytes (put_bytes (krn example_machine) 1000 (bytes_of_string ''/sdcard/a'')) 2000
     (bytes_of_string ''/sdcard/b'')"

definition renames :: "(memory, unit) guest" where
  "renames = (ended [] [(0, 1000), (2, 2000)] 0 rename_memory)\<lparr>paths :=
     example_state\<lparr>fs_of := example_fs\<lparr>cwd := ''/mnt/a/x''\<rparr>\<rparr>\<rparr>"

lemma put_bytes_swap:
  assumes "\<And>x. \<not> (unat (x - a) < length xs \<and> unat (x - c) < length ys)"
  shows "put_bytes (put_bytes b a xs) c ys = put_bytes (put_bytes b c ys) a xs"
  using assms by (auto simp: put_bytes_def fun_eq_iff)

lemma rename_apart: "\<not> (unat (x - 1000 :: word_t) < 10 \<and> unat (x - 2000) < 10)"
proof
  assume l: "unat (x - 1000) < 10 \<and> unat (x - 2000) < 10"
  define i where "i = unat (x - 1000)"
  have "x - 1000 = of_nat i" by (simp add: i_def)
  then have x: "x - 2000 = of_nat i - 1000" by (simp add: algebra_simps)
  have "i \<in> {0, 1, 2, 3, 4, 5, 6, 7, 8, 9}" using l by (auto simp: i_def)
  then have "\<not> unat (of_nat i - 1000 :: word_t) < 10" by auto
  then show False using l unfolding x by simp
qed

lemma rename_witness:
  "\<exists>g'. exit_rename example_host ''rename'' renames = (Result 0, g') \<and> cwd (fs_of (paths g')) = ''/mnt/b/x''"
proof -
  let ?a = "''/sdcard/a''" and ?b = "''/sdcard/b''"
  have l: "length (bytes_of_string ?a) = 10" "length (bytes_of_string ?b) = 10" "cstr ?a" "cstr ?b"
    by (simp_all add: bytes_of_string_def cstr_def)
  have u: "untag_pointer 1000 = 1000" "untag_pointer 2000 = 2000" by (simp_all add: untag_pointer_def)
  have args: "arg renames MODIFIED SYSARG_1 = 1000" "arg renames MODIFIED SYSARG_2 = 2000" "sysarg renames SYSARG_RESULT = 0"
    using ended_simps(7,8) by (simp_all add: renames_def arg_def sysarg_def regs_of_def) (simp_all add: bank_simps)
  have k: "krn (mach renames) = rename_memory" "paths renames = example_state\<lparr>fs_of := example_fs\<lparr>cwd := ''/mnt/a/x''\<rparr>\<rparr>"
    using ended_simps(2) by (simp_all add: renames_def)
  have swap: "rename_memory = put_bytes (put_bytes (krn example_machine) 2000 (bytes_of_string ?b)) 1000 (bytes_of_string ?a)"
    unfolding rename_memory_def by (rule put_bytes_swap) (simp add: l rename_apart)
  have pr: "present (put_bytes (krn example_machine) c cs) 1000 16" "present (put_bytes (krn example_machine) c cs) 2000 16" for c cs
    by (intro present_put_bytes example_present; simp)+
  obtain as where ra: "read_path small_kernel 1000 (mach renames) = Inr (as, 10)" "string_of_bytes as = ?a"
    using read_path_held [OF small_kernel_laws _ l(3), of "mach renames"
        "put_bytes (krn example_machine) 2000 (bytes_of_string ?b)" 1000] pr
    by (auto simp: k(1) swap u rounded_def)
  obtain bs where rb: "read_path small_kernel 2000 (mach renames) = Inr (bs, 10)" "string_of_bytes bs = ?b"
    using read_path_held [OF small_kernel_laws _ l(4), of "mach renames"
        "put_bytes (krn example_machine) 1000 (bytes_of_string ?a)" 2000] pr
    by (auto simp: k(1) rename_memory_def u rounded_def)
  have d: "detranslate_path example_env (example_fs\<lparr>cwd := ''/mnt/a/x''\<rparr>) ?a None = Inr (7, render [''mnt'', ''a''])"
    "detranslate_path example_env (example_fs\<lparr>cwd := ''/mnt/a/x''\<rparr>) ?b None = Inr (7, render [''mnt'', ''b''])"
    by code_simp+
  have n: "length (render [''mnt'', ''a'']) = 6" "length (render [''mnt'', ''b'']) = 6"
    "names [''mnt'', ''a'']" "names [''mnt'', ''b'']" "names [''mnt'', ''a'', ''x'']" by code_simp+
  have h: "h_mem example_host = small_kernel" "h_env example_host = example_env" by (simp_all add: example_host_def)
  have "guest_path_at example_host SYSARG_1 renames = Inr (render [''mnt'', ''a''], length (render [''mnt'', ''a'']))"
    "guest_path_at example_host SYSARG_2 renames = Inr (render [''mnt'', ''b''], length (render [''mnt'', ''b'']))"
    using ra rb d by (simp_all add: guest_path_at_def h args k(2) n(1,2))
  moreover have "\<not> failed renames" by (simp add: failed_def args c_int_def)
  moreover have "cwd (fs_of (paths renames)) = render [''mnt'', ''a'', ''x'']" by (simp add: k(2)) code_simp
  moreover have "length (render [''mnt'', ''a'', ''x'']) < PATH_MAX"
    "length (render ([''mnt'', ''b''] @ drop (length [''mnt'', ''a'']) [''mnt'', ''a'', ''x''])) + 1 < PATH_MAX"
    "render ([''mnt'', ''b''] @ drop (length [''mnt'', ''a'']) [''mnt'', ''a'', ''x'']) = ''/mnt/b/x''"
    by code_simp+
  ultimately show ?thesis
    using rename_moves_cwd [of renames "[''mnt'', ''a'']" "[''mnt'', ''b'']" "[''mnt'', ''a'', ''x'']" example_host "''rename''"]
      n(3-5) by auto
qed

end
