(* ===== verification/Emulate.thy ===== *)
theory Emulate
  imports Confine
begin

text \<open>
  Calls that PRoot answers itself: the kernel never runs them, and a netlink request and its reply travel
  through the memory of the tracee alone.
\<close>

section \<open>A call that is answered\<close>

lemma void_call_reads:
  "get_sysnum beyond (regs_of (void_call w g)) CURRENT = ''void''"
  "sysarg (void_call w g) SYSARG_RESULT = reg_norm (regs_of g) w"
  by (simp_all add: void_call_def regs_of_def on_regs_def poke_def sysarg_def set_sysnum_reads)
    (simp add: set_sysnum_def peek_poke_other peek_poke_same apart_def)

lemma void_call_simps:
  "paths (void_call w g) = paths g" "krn (mach (void_call w g)) = krn (mach g)"
  "fake_netlink_reply (void_call w g) = fake_netlink_reply g" "fake_netlink_fds (void_call w g) = fake_netlink_fds g"
  by (simp_all add: void_call_def on_regs_def poke_def)

definition voided :: "('k, 'w) guest \<Rightarrow> bool" where
  "voided g \<longleftrightarrow> (\<exists>w g1. g = void_call w g1)"

lemma voided_call [simp]: "voided (void_call w g)"
  by (auto simp: voided_def)

lemma voided_reads: "voided g \<Longrightarrow> get_sysnum beyond (regs_of g) CURRENT = ''void''"
  using void_call_reads(1) by (auto simp: voided_def)

definition emulated :: "('k, 'w) guest \<Rightarrow> sysnum \<Rightarrow> bool" where
  "emulated g num \<longleftrightarrow>
     num \<in> {''getcwd'', ''unshare'', ''setns'', ''umount'', ''umount2'', ''mount'', ''pivot_root''} \<or>
     num \<in> {''bind'', ''getsockname'', ''getpeername'', ''sendto'', ''sendmsg'', ''recvfrom'', ''recvmsg''} \<and>
       is_fake_netlink_fd g (c_int (sysarg g SYSARG_1))"

lemma enter_paths_other:
  "enter_paths h ''getcwd'' g = None"
  "enter_paths h ''unshare'' g = None"
  "enter_paths h ''setns'' g = None"
  "enter_paths h ''umount'' g = None"
  "enter_paths h ''umount2'' g = None"
  "enter_paths h ''mount'' g = None"
  "enter_paths h ''pivot_root'' g = None"
  "enter_paths h ''bind'' g = None"
  "enter_paths h ''getsockname'' g = None"
  "enter_paths h ''getpeername'' g = None"
  "enter_paths h ''recvfrom'' g = None"
  "enter_paths h ''recvmsg'' g = None"
  unfolding enter_paths_def call_lists by simp_all

lemma socket_calls_void:
  assumes "is_fake_netlink_fd g (c_int (sysarg g SYSARG_1))"
  shows "\<exists>g1. enter_recvfrom h g = (0, g1) \<and> voided g1" "\<exists>g1. enter_recvmsg h g = (0, g1) \<and> voided g1"
    "\<exists>g1. enter_bind_connect h ''bind'' g = (0, g1) \<and> voided g1"
    "num = ''getsockname'' \<or> num = ''getpeername'' \<Longrightarrow> \<exists>g1. enter_accept h num g = (0, g1) \<and> voided g1"
    "enter_sendto h g = (Break status, g') \<Longrightarrow> status = 0 \<and> voided g'"
    "enter_sendmsg h g = (Break status, g') \<Longrightarrow> status = 0 \<and> voided g'"
proof -
  show "\<exists>g1. enter_recvfrom h g = (0, g1) \<and> voided g1" "\<exists>g1. enter_recvmsg h g = (0, g1) \<and> voided g1"
    unfolding enter_recvfrom_def enter_recvmsg_def if_P [OF assms] Let_def case_prod_beta by simp_all
  show "\<exists>g1. enter_bind_connect h ''bind'' g = (0, g1) \<and> voided g1"
    by (simp add: enter_bind_connect_def assms)
  show "\<exists>g1. enter_accept h num g = (0, g1) \<and> voided g1" if "num = ''getsockname'' \<or> num = ''getpeername''"
  proof -
    have "enter_accept h num g = (0, void_call
        (of_c_int (fst (write_fake_netlink_sockname h (sysarg g SYSARG_2) (sysarg g SYSARG_3) g)))
        (snd (write_fake_netlink_sockname h (sysarg g SYSARG_2) (sysarg g SYSARG_3) g)))"
      using that assms by (elim disjE) (simp_all add: enter_accept_def case_prod_beta)
    then show ?thesis by simp
  qed
  show "status = 0 \<and> voided g'" if "enter_sendto h g = (Break status, g')"
    using that unfolding enter_sendto_def if_P [OF assms] by (fastforce split: option.splits)
  show "status = 0 \<and> voided g'" if "enter_sendmsg h g = (Break status, g')"
    using that unfolding enter_sendmsg_def if_P [OF assms] Let_def case_prod_beta
    by (auto split: option.splits if_splits)
qed

text \<open>C10: The kernel never runs the calls that PRoot emulates: after the enter stage of \<open>getcwd\<close>, of the mount and
  namespace calls, and, on a descriptor that stands for a netlink socket, of \<open>bind\<close>, \<open>getsockname\<close>,
  \<open>getpeername\<close> and the four calls that send and receive (not \<open>connect\<close>), the number of the call is one that no
  kernel knows, and there is no error. (\<open>chdir\<close> and \<open>fchdir\<close>, whose case can end early, are not among
  them.)\<close>

theorem emulated_calls_are_void:
  assumes "emulated g num" "enter_switch h hs num g = (Break status, g')"
  shows "status = 0 \<and> get_sysnum beyond (regs_of g') CURRENT = ''void''"
proof -
  have "status = 0 \<and> voided g'"
  proof (cases "num \<in> {''getcwd'', ''unshare'', ''setns'', ''umount'', ''umount2'', ''mount'', ''pivot_root''}")
    case True
    then have "\<exists>g1. enter_others h hs num g = (0, g1) \<and> voided g1"
      by (elim insertE emptyE) (auto simp: enter_others_def)
    moreover have "enter_switch h hs num g = (let (status, g) = enter_others h hs num g in (Break status, g))"
      using True by (elim insertE emptyE) (simp_all add: enter_switch_def enter_paths_other)
    ultimately show ?thesis using assms(2) by auto
  next
    case False
    then have fd: "is_fake_netlink_fd g (c_int (sysarg g SYSARG_1))"
      and n: "num \<in> {''bind'', ''getsockname'', ''getpeername'', ''sendto'', ''sendmsg'', ''recvfrom'', ''recvmsg''}"
      using assms(1) by (auto simp: emulated_def)
    note v = socket_calls_void [OF fd]
    from n show ?thesis
    proof (elim insertE emptyE, goal_cases)
      case 1
      with assms(2) v(3) [of h] show ?case by (auto simp: enter_switch_def enter_paths_other enter_others_def)
    next
      case 2
      with assms(2) v(4) [of num h] show ?case by (auto simp: enter_switch_def enter_paths_other enter_others_def)
    next
      case 3
      with assms(2) v(4) [of num h] show ?case by (auto simp: enter_switch_def enter_paths_other enter_others_def)
    next
      case 4
      with assms(2) v(5) [of h status g'] show ?case by (simp add: enter_switch_def)
    next
      case 5
      with assms(2) v(6) [of h status g'] show ?case by (simp add: enter_switch_def)
    next
      case 6
      with assms(2) v(1) [of h] show ?case by (auto simp: enter_switch_def enter_paths_other enter_others_def)
    next
      case 7
      with assms(2) v(2) [of h] show ?case by (auto simp: enter_switch_def enter_paths_other enter_others_def)
    qed
  qed
  then show ?thesis using voided_reads by blast
qed


section \<open>A request and its reply\<close>

lemma on_mach_write:
  assumes "memory_laws (h_mem h) v" "steady (mach g)" "length bs < 2 ^ 64"
    and "present (v (krn (mach g))) (untag_pointer a) (rounded (length bs))"
  shows "\<exists>s. on_mach (write_data (h_mem h) a bs) g = (Inr (), g\<lparr>mach := (mach g)\<lparr>krn := s\<rparr>\<rparr>) \<and>
    v s = put_bytes (v (krn (mach g))) (untag_pointer a) bs"
proof -
  obtain r m where w: "write_data (h_mem h) a bs (mach g) = (r, m)" by fastforce
  from write_data_steady [OF assms(1-3) w] assms(4) show ?thesis
    by (cases r) (auto simp: on_mach_def w)
qed

lemma sendto_reply:
  assumes "is_fake_netlink_fd g (c_int (sysarg g SYSARG_1))"
    and "net_ok (h_net h (world (paths g)))" "routes_ok (h_net h (world (paths g)))"
  shows "\<exists>g' ms seq. enter_sendto h g = (Break 0, g') \<and>
    reply_ok MAX_FAKE_NETLINK_REPLY seq (tracee_port h) (fake_netlink_reply g') ms"
proof -
  let ?n = "h_net h (world (paths g))"
  obtain reply ms seq where r: "build_fake_netlink_reply (h_mem h) ?n (tracee_port h) (sysarg g SYSARG_2) (sysarg g SYSARG_3) (mach g)
      = Some reply" "reply_ok MAX_FAKE_NETLINK_REPLY seq (tracee_port h) reply ms"
  proof (cases "build_fake_netlink_reply (h_mem h) ?n (tracee_port h) (sysarg g SYSARG_2) (sysarg g SYSARG_3) (mach g) = Some []")
    case True
    then show thesis using that reply_ok_Nil by blast
  next
    case False
    then obtain req where "build_fake_netlink_reply (h_mem h) ?n (tracee_port h) (sysarg g SYSARG_2) (sysarg g SYSARG_3) (mach g)
        = netlink_reply ?n (tracee_port h) req"
      by (auto simp: build_fake_netlink_reply_def split: if_splits sum.splits)
    then show thesis using that netlink_reply_ok [OF assms(2,3), of "tracee_port h" req] by auto
  qed
  have "enter_sendto h g = (Break 0, void_call (sysarg (g\<lparr>fake_netlink_reply := reply\<rparr>) SYSARG_3) (g\<lparr>fake_netlink_reply := reply\<rparr>))"
    unfolding enter_sendto_def if_P [OF assms(1)] netlink_request_def r(1) by simp
  then show ?thesis using r(2) by (auto simp: void_call_simps)
qed

text \<open>C11: A request that is sent on an emulated netlink socket always succeeds, and a later receive with room
  enough hands the tracee, in its memory, a sequence of whole messages that carry its port, and their length as
  the result; the reply is then used up, unless the receive only peeks.\<close>

theorem netlink_exchange:
  assumes "memory_laws (h_mem h) v" "steady (mach g2)"
    and "net_ok (h_net h (world (paths g)))" "routes_ok (h_net h (world (paths g)))"
    and "is_fake_netlink_fd g (c_int (sysarg g SYSARG_1))" "enter_sendto h g = (out, g1)"
    and "is_fake_netlink_fd g2 (c_int (sysarg g2 SYSARG_1))" "fake_netlink_reply g2 = fake_netlink_reply g1"
    and "sysarg g2 SYSARG_2 \<noteq> 0" "length (fake_netlink_reply g1) \<le> unat (sysarg g2 SYSARG_3)" "sysarg g2 SYSARG_5 = 0"
    and "present (v (krn (mach g2))) (untag_pointer (sysarg g2 SYSARG_2)) (rounded (length (fake_netlink_reply g1)))"
    and "enter_recvfrom h g2 = (status, g3)"
  shows "out = Break 0 \<and> status = 0 \<and>
    (\<exists>ms. messages (bytes_at (v (krn (mach g3))) (untag_pointer (sysarg g2 SYSARG_2)) (length (fake_netlink_reply g1))) = Some ms \<and>
       (\<forall>(type, flags, s, p, body) \<in> set ms. p = tracee_port h)) \<and>
    sysarg g3 SYSARG_RESULT = of_nat (length (fake_netlink_reply g1)) \<and>
    fake_netlink_reply g3 = (if has_flag (sysarg g2 SYSARG_4) MSG_PEEK then fake_netlink_reply g1 else [])"
proof -
  let ?reply = "fake_netlink_reply g1"
  let ?a = "untag_pointer (sysarg g2 SYSARG_2)"
  obtain ms seq where o: "out = Break 0" and r: "reply_ok MAX_FAKE_NETLINK_REPLY seq (tracee_port h) ?reply ms"
    using sendto_reply [OF assms(5,3,4)] assms(6) by auto
  then have ok: "length ?reply \<le> 8192" "messages ?reply = Some ms"
      "\<forall>(type, flags, s, p, body) \<in> set ms. p = tracee_port h"
    by (auto simp: reply_ok_def MAX_FAKE_NETLINK_REPLY_def)
  have len: "length ?reply < 2 ^ 64" using ok(1) by simp
  obtain s where s: "on_mach (write_data (h_mem h) (sysarg g2 SYSARG_2) ?reply) g2 =
      (Inr (), g2\<lparr>mach := (mach g2)\<lparr>krn := s\<rparr>\<rparr>)" "v s = put_bytes (v (krn (mach g2))) ?a ?reply"
    using on_mach_write [OF assms(1,2) len assms(12)] by blast
  have at: "bytes_at (put_bytes (v (krn (mach g2))) ?a ?reply) ?a (length ?reply) = ?reply"
    using ok(1) by (intro bytes_at_put_same) simp
  define g4 where "g4 = (if ?reply = [] then g2 else g2\<lparr>mach := (mach g2)\<lparr>krn := s\<rparr>\<rparr>)"
  have n: "(if unat (sysarg g2 SYSARG_3) < length ?reply then unat (sysarg g2 SYSARG_3) else length ?reply) = length ?reply"
    using assms(10) by simp
  have rest: "sysarg g2 SYSARG_5 \<noteq> 0 \<and> sysarg g2 SYSARG_6 \<noteq> 0 \<longleftrightarrow> False" using assms(11) by simp
  have e: "enter_recvfrom h g2 = (0, void_call (fst (take_reply (sysarg g2 SYSARG_4) (length ?reply) g4))
      (snd (take_reply (sysarg g2 SYSARG_4) (length ?reply) g4)))"
    unfolding enter_recvfrom_def if_P [OF assms(7)] assms(8) Let_def case_prod_beta n rest
    using s(1) assms(9) by (cases "?reply = []") (simp_all add: g4_def)
  have g4: "fake_netlink_reply g4 = ?reply" "regs_of g4 = regs_of g2" "?reply \<noteq> [] \<longrightarrow> krn (mach g4) = s"
    by (simp_all add: g4_def assms(8) regs_of_def)
  have w: "fst (take_reply (sysarg g2 SYSARG_4) (length ?reply) g4) = of_nat (length ?reply)"
    by (simp add: take_reply_def Let_def g4(1))
  have t: "krn (mach (snd (take_reply f c g4))) = krn (mach g4)" "regs_of (snd (take_reply f c g4)) = regs_of g4" for f c
    by (simp_all add: take_reply_def Let_def regs_of_def)
  have rn: "reg_norm (regs_of g2) (of_nat (length ?reply)) = of_nat (length ?reply)"
  proof -
    have "unat (of_nat (length ?reply) :: word_t) < 2 ^ 32" using ok(1) by (simp add: unat_of_nat)
    then have "take_bit 32 (of_nat (length ?reply) :: word_t) = of_nat (length ?reply)"
      by (simp add: word_unat_eq_iff unsigned_take_bit_eq take_bit_nat_eq_self)
    moreover have "(0xFFFFFFFF :: word_t) = mask 32" by (simp add: mask_eq_exp_minus_1)
    ultimately show ?thesis by (simp add: reg_norm_def take_bit_eq_mask)
  qed
  have g3: "g3 = void_call (of_nat (length ?reply)) (snd (take_reply (sysarg g2 SYSARG_4) (length ?reply) g4))" "status = 0"
    using assms(13) e w by simp_all
  have res: "sysarg g3 SYSARG_RESULT = of_nat (length ?reply)"
    unfolding g3(1) void_call_reads(2) t(2) g4(2) by (rule rn)
  have left: "fake_netlink_reply g3 = (if has_flag (sysarg g2 SYSARG_4) MSG_PEEK then ?reply else [])"
    unfolding g3(1) void_call_simps by (simp add: take_reply_def Let_def g4(1))
  have "messages (bytes_at (v (krn (mach g3))) ?a (length ?reply)) = Some ms"
  proof (cases "?reply = []")
    case True
    then show ?thesis using ok(2) by (simp add: bytes_at_def)
  next
    case False
    then have "v (krn (mach g3)) = put_bytes (v (krn (mach g2))) ?a ?reply"
      unfolding g3(1) void_call_simps t(1) using g4(3) s(2) by simp
    then show ?thesis using at ok(2) by simp
  qed
  then show ?thesis using o g3(2) res left ok(3) by blast
qed


section \<open>Clones\<close>

text \<open>C12: A \<open>clone\<close> reaches the kernel with exactly the flags of new namespaces taken away, in no other
  argument changed, and PRoot remembers when the tracee has asked for a mount namespace of its own.\<close>

theorem clone_strips_namespaces:
  assumes "enter_clone g = (status, g')"
  shows "status = 0 \<and> sysarg g' SYSARG_1 = sysarg g SYSARG_1 AND NOT CLONE_NS_MASK \<and>
    (\<forall>r. apart SYSARG_1 r \<longrightarrow> sysarg g' r = sysarg g r) \<and>
    clone_stripped_newns g' = (clone_stripped_newns g \<or> has_flag (sysarg g SYSARG_1) CLONE_NEWNS) \<and>
    paths g' = paths g \<and> krn (mach g') = krn (mach g)"
proof (cases "sysarg g SYSARG_1 AND CLONE_NS_MASK = 0")
  case True
  have m: "w AND CLONE_NS_MASK = 0 \<Longrightarrow> w AND NOT CLONE_NS_MASK = w" for w
    by (rule bit_word_eqI) (metis bit_0_eq bit_and_iff bit_not_iff bot_apply bot_bool_def possible_bit_word)
  have "CLONE_NS_MASK AND CLONE_NEWNS = CLONE_NEWNS" by (simp add: CLONE_NEWNS_def CLONE_NS_MASK_def)
  then have "sysarg g SYSARG_1 AND CLONE_NEWNS = (sysarg g SYSARG_1 AND CLONE_NS_MASK) AND CLONE_NEWNS"
    by (simp only: and.assoc)
  then have "\<not> has_flag (sysarg g SYSARG_1) CLONE_NEWNS" unfolding has_flag_def True by simp
  with True assms m show ?thesis by (simp add: enter_clone_def)
next
  case False
  let ?w = "sysarg g SYSARG_1 AND NOT CLONE_NS_MASK"
  let ?g = "if sysarg g SYSARG_1 AND CLONE_NEWNS \<noteq> 0 then g\<lparr>clone_stripped_newns := True\<rparr> else g"
  have "reg_norm (regs_of g) (sysarg g SYSARG_1 AND x) = sysarg g SYSARG_1 AND x" for x
    by (simp add: reg_norm_def sysarg_def peek_reg_def is_32on64_mode_def Let_def ac_simps)
  then have reads: "sysarg (poke SYSARG_1 ?w k) SYSARG_1 = ?w" if "regs_of k = regs_of g" for k :: "('a, 'b) guest"
    using that by (simp add: sysarg_def regs_of_def poke_def on_regs_def peek_poke_same)
  obtain k where k: "g' = poke SYSARG_1 ?w k" "status = 0" "regs_of k = regs_of g" "paths k = paths g" "krn (mach k) = krn (mach g)"
    "clone_stripped_newns k = (clone_stripped_newns g \<or> has_flag (sysarg g SYSARG_1) CLONE_NEWNS)"
    using assms False that [of ?g] by (simp add: enter_clone_def Let_def regs_of_def has_flag_def)
  have "sysarg k = sysarg g" using k(3) by (simp add: sysarg_def fun_eq_iff)
  moreover have "clone_stripped_newns g' = clone_stripped_newns k" by (simp add: k(1) poke_def on_regs_def)
  ultimately show ?thesis using reads [OF k(3)] k by (simp add: sysarg_poke on_regs_simps)
qed

section \<open>Examples\<close>

lemma emulated_void_witness:
  "fst (enter_switch example_host no_handlers ''unshare'' example_guest) = Break 0 \<and>
   get_sysnum (\<lambda>a. ''void'') (regs_of (snd (enter_switch example_host no_handlers ''unshare'' example_guest))) CURRENT = ''void''"
proof -
  obtain out g' where e: "enter_switch example_host no_handlers ''unshare'' example_guest = (out, g')" by fastforce
  have "out = Break 0" using e by (simp add: enter_switch_def enter_paths_other enter_others_def)
  moreover have "emulated example_guest ''unshare''" by (simp add: emulated_def)
  ultimately show ?thesis using emulated_calls_are_void [of example_guest "''unshare''"] e by force
qed

lemma clone_witness:
  "sysarg (snd (enter_clone (poke SYSARG_1 0x20011 example_guest))) SYSARG_1 = 0x11 \<and>
   clone_stripped_newns (snd (enter_clone (poke SYSARG_1 0x20011 example_guest)))"
proof -
  let ?g = "poke SYSARG_1 0x20011 example_guest"
  obtain status g' where e: "enter_clone ?g = (status, g')" by fastforce
  have "\<not> is_aarch32 (regs_of example_guest)"
    by (simp add: regs_of_def example_guest_def example_machine_def example_tracee_def)
  then have "sysarg ?g SYSARG_1 = 0x20011"
    by (simp add: sysarg_def regs_of_def poke_def on_regs_def peek_poke_same reg_norm_def)
  then show ?thesis
    using clone_strips_namespaces [OF e] e by (simp add: has_flag_def CLONE_NEWNS_def CLONE_NS_MASK_def)
qed

definition example_request :: "byte list" where
  "example_request = nlmsghdr 16 24 1 5 0"

definition netlink_guest :: "word_t \<Rightarrow> word_t \<Rightarrow> word_t \<Rightarrow> (memory, unit) guest \<Rightarrow> (memory, unit) guest" where
  "netlink_guest buf len addr g = poke SYSARG_5 addr (poke SYSARG_4 0 (poke SYSARG_3 len (poke SYSARG_2 buf (poke SYSARG_1 7 g))))"

lemma netlink_guest_reads:
  assumes "\<not> is_aarch32 (regs_of g)"
  shows "sysarg (netlink_guest buf len addr g) SYSARG_1 = 7" "sysarg (netlink_guest buf len addr g) SYSARG_2 = buf"
    "sysarg (netlink_guest buf len addr g) SYSARG_3 = len" "sysarg (netlink_guest buf len addr g) SYSARG_5 = addr"
    "fake_netlink_fds (netlink_guest buf len addr g) = fake_netlink_fds g"
    "fake_netlink_reply (netlink_guest buf len addr g) = fake_netlink_reply g"
    "krn (mach (netlink_guest buf len addr g)) = krn (mach g)" "paths (netlink_guest buf len addr g) = paths g"
    "steady (mach (netlink_guest buf len addr g)) = steady (mach g)"
  using assms
  by (simp_all add: netlink_guest_def sysarg_def regs_of_def poke_def on_regs_def peek_poke_other peek_poke_same
      apart_def reg_norm_def steady_def)

lemma example_ack: "map_option length (netlink_reply example_net 42 example_request) = Some 36"
  by code_simp


lemma netlink_exchange_witness:
  "\<exists>g1 g3. enter_sendto example_host (netlink_guest 2000 16 0 (example_guest\<lparr>mach := (mach example_guest)\<lparr>krn :=
        put_bytes (krn example_machine) 2000 example_request\<rparr>\<rparr>)) = (Break 0, g1) \<and>
     enter_recvfrom example_host (netlink_guest 100 4096 0 g1) = (0, g3) \<and>
     sysarg g3 SYSARG_RESULT = 36 \<and> fake_netlink_reply g3 = []"
proof -
  let ?start = "example_guest\<lparr>mach := (mach example_guest)\<lparr>krn := put_bytes (krn example_machine) 2000 example_request\<rparr>\<rparr>"
  let ?g = "netlink_guest 2000 16 0 ?start"
  have arm: "\<not> is_aarch32 (regs_of ?start)"
    by (simp add: regs_of_def example_guest_def example_machine_def example_tracee_def)
  note g = netlink_guest_reads [OF arm]
  have world: "paths ?start = example_state" "fake_netlink_fds ?start = [7]" "steady (mach ?start)"
    by (simp_all add: example_guest_def steady_def example_machine_def)
  have h: "h_mem example_host = small_kernel" "h_net example_host w = example_net" "tracee_port example_host = 42" for w
    by (simp_all add: example_host_def tracee_port_def example_env_def)
  have seven: "c_int 7 = 7" by (simp add: c_int_def)
  have lr: "length example_request = 16" by (simp add: example_request_def)
  have pr: "present (krn (mach ?g)) 2000 16" unfolding g by simp (intro present_put_bytes example_present, simp)
  have at: "bytes_at (krn (mach ?g)) 2000 16 = example_request"
    unfolding g using bytes_at_put_same [of example_request "krn example_machine" 2000] lr by simp
  have u: "untag_pointer 2000 = 2000" "untag_pointer 100 = 100" by (simp_all add: untag_pointer_def)
  have "rounded 16 = 16" by (simp add: rounded_def)
  then have read: "read_data small_kernel 2000 16 (mach ?g) = Inr example_request"
    using read_data_bytes [OF small_kernel_laws, where src = 2000 and n = 16 and m = "mach ?g"] pr at u by (auto split: sum.splits)
  obtain reply where reply: "netlink_reply example_net 42 example_request = Some reply" "length reply = 36"
    using example_ack by auto
  have "build_fake_netlink_reply small_kernel example_net 42 2000 16 (mach ?g) = Some reply"
    using read reply(1) by (simp add: build_fake_netlink_reply_def)
  then have s: "enter_sendto example_host ?g = (Break 0, void_call 16 (?g\<lparr>fake_netlink_reply := reply\<rparr>))"
    by (simp add: enter_sendto_def g world seven is_fake_netlink_fd_def netlink_request_def h)
      (simp add: sysarg_def regs_of_def g(3) [unfolded sysarg_def regs_of_def])
  let ?sent = "void_call 16 (?g\<lparr>fake_netlink_reply := reply\<rparr>)"
  let ?again = "netlink_guest 100 4096 0 ?sent"
  have arm1: "\<not> is_aarch32 (regs_of ?sent)"
    using arm by (simp add: void_call_def regs_of_def on_regs_def poke_def netlink_guest_def set_sysnum_def)
  note g1 = netlink_guest_reads [OF arm1]
  have st: "steady (mach ?sent)" using world(3) g(9) by (simp add: void_call_def on_regs_def poke_def steady_def)
  obtain status g3 where r: "enter_recvfrom example_host ?again = (status, g3)" by fastforce
  have pr1: "present (id (krn (mach ?again))) (untag_pointer (sysarg ?again SYSARG_2)) (rounded (length (fake_netlink_reply ?sent)))"
    by (simp add: g1 void_call_simps g reply(2) u rounded_def) (intro present_put_bytes example_present, simp)
  have nets: "net_ok (h_net example_host (world (paths ?g)))" "routes_ok (h_net example_host (world (paths ?g)))"
    unfolding h using example_net_ok by simp_all
  have fd: "is_fake_netlink_fd ?g (c_int (sysarg ?g SYSARG_1))" "is_fake_netlink_fd ?again (c_int (sysarg ?again SYSARG_1))"
    by (simp_all add: g g1 seven is_fake_netlink_fd_def void_call_simps world)
  have "status = 0 \<and> sysarg g3 SYSARG_RESULT = of_nat (length (fake_netlink_reply ?sent)) \<and>
      fake_netlink_reply g3 = (if has_flag (sysarg ?again SYSARG_4) MSG_PEEK then fake_netlink_reply ?sent else [])"
    using netlink_exchange [OF small_kernel_laws [folded h(1)] _ nets fd(1) s fd(2) _ _ _ _ pr1 r]
    by (simp add: g1 st void_call_simps reply(2) h)
  moreover have "sysarg ?again SYSARG_4 = 0"
    using arm1 by (simp add: netlink_guest_def sysarg_def regs_of_def poke_def on_regs_def peek_poke_other peek_poke_same
      apart_def reg_norm_def)
  ultimately show ?thesis using s r by (auto simp: void_call_simps reply(2) has_flag_def)
qed

end
