(* ===== verification/Seccomp.thy ===== *)
theory Seccomp
  imports Sysnums
begin

text \<open>
  The seccomp filter of the tracees, \<open>syscall/seccomp.c\<close>: the list of the system calls that PRoot and its
  extensions handle, and the BPF program that tells the kernel to report exactly these. The semantics of
  the four kinds of statements that the program uses is the one that the kernel documents; jumps only go
  forward, so a program is what is left of it at each step.
\<close>

section \<open>The virtual machine\<close>

datatype sock_filter =
    BPF_LD_ABS u32
  | BPF_JEQ u32 nat nat
  | BPF_JA u32
  | BPF_RET u32

text \<open>The word of \<open>struct seccomp_data\<close> at an offset: the system call number and the architecture.\<close>

record seccomp_data =
  data_nr :: u32
  data_arch :: u32

definition load :: "seccomp_data \<Rightarrow> u32 \<Rightarrow> u32" where
  "load d offset = (if offset = 0 then data_nr d else if offset = 4 then data_arch d else 0)"

function bpf_run :: "seccomp_data \<Rightarrow> u32 \<Rightarrow> sock_filter list \<Rightarrow> u32 option" where
  "bpf_run d a [] = None"
| "bpf_run d a (BPF_LD_ABS offset # p) = bpf_run d (load d offset) p"
| "bpf_run d a (BPF_JEQ k jt jf # p) = bpf_run d a (drop (if a = k then jt else jf) p)"
| "bpf_run d a (BPF_JA k # p) = bpf_run d a (drop (unat k) p)"
| "bpf_run d a (BPF_RET k # p) = Some k"
  by pat_completeness auto

termination
  by (relation "measure (\<lambda>(d, a, p). length p)") auto

section \<open>The code\<close>

definition SECCOMP_RET_KILL :: u32 where "SECCOMP_RET_KILL = 0"
definition SECCOMP_RET_TRACE :: u32 where "SECCOMP_RET_TRACE = 0x7FF00000"
definition SECCOMP_RET_ALLOW :: u32 where "SECCOMP_RET_ALLOW = 0x7FFF0000"
definition UINT32_MAX :: nat where "UINT32_MAX = 2 ^ 32 - 1"
definition FILTER_SYSEXIT :: word_t where "FILTER_SYSEXIT = 1"

text \<open>A \<open>FilteredSysnum\<close>; the arrays end with \<open>PR_void\<close>, their lists without it.\<close>

type_synonym filtered_sysnum = "sysnum \<times> word_t"

record seccomp_arch =
  sa_value :: u32
  sa_abis :: "abi list"

definition SECCOMP_ARCHS :: "seccomp_arch list" where
  "SECCOMP_ARCHS =
     [\<lparr>sa_value = 0xC00000B7, sa_abis = [ABI_DEFAULT]\<rparr>, \<lparr>sa_value = 0x40000028, sa_abis = [ABI_2]\<rparr>]"

text \<open>\<open>struct sock_fprog\<close>: its \<open>len\<close> is an \<open>unsigned short\<close>. Allocation is taken to succeed.\<close>

record sock_fprog =
  len :: u16
  bpf :: "sock_filter list"

definition new_program_filter :: sock_fprog where
  "new_program_filter = \<lparr>len = 0, bpf = []\<rparr>"

definition add_statements :: "sock_filter list \<Rightarrow> sock_fprog \<Rightarrow> sock_fprog" where
  "add_statements statements program = program\<lparr>bpf := bpf program @ statements\<rparr>"

definition set_len :: "sock_fprog \<Rightarrow> sock_fprog" where
  "set_len program = program\<lparr>len := of_nat (length (bpf program))\<rparr>"

definition add_trace_syscall :: "word_t \<Rightarrow> word_t \<Rightarrow> sock_fprog \<Rightarrow> sock_fprog res" where
  "add_trace_syscall syscall flag program =
     (if unat syscall > UINT32_MAX then Inl ERANGE
      else Inr (add_statements [BPF_JEQ (ucast syscall) 0 1, BPF_RET (SECCOMP_RET_TRACE + ucast flag)] program))"

definition section_length :: "nat \<Rightarrow> nat" where
  "section_length nb_traced_syscalls = 1 + nb_traced_syscalls * 2"

definition end_arch_section :: "nat \<Rightarrow> sock_fprog \<Rightarrow> sock_fprog res" where
  "end_arch_section nb_traced_syscalls program =
     (let program = add_statements [BPF_RET SECCOMP_RET_ALLOW] program in
      if int (length (bpf program)) - int (unat (len program)) \<noteq> int (section_length nb_traced_syscalls)
      then Inl ERANGE else Inr program)"

definition start_arch_section :: "u32 \<Rightarrow> nat \<Rightarrow> sock_fprog \<Rightarrow> sock_fprog res" where
  "start_arch_section arch nb_traced_syscalls program =
     (if section_length nb_traced_syscalls > UINT32_MAX - 1 then Inl ERANGE
      else Inr (set_len (add_statements
        [BPF_LD_ABS 4, BPF_JEQ arch 1 0, BPF_JA (of_nat (section_length nb_traced_syscalls + 1)), BPF_LD_ABS 0]
        program)))"

definition finalize_program_filter :: "sock_fprog \<Rightarrow> sock_fprog" where
  "finalize_program_filter program = set_len (add_statements [BPF_RET SECCOMP_RET_KILL] program)"

text \<open>The loops over the calls of one architecture, that count and that add.\<close>

fun count_traced :: "filtered_sysnum list \<Rightarrow> abi \<Rightarrow> nat" where
  "count_traced [] abi = 0"
| "count_traced ((num, flags) # sysnums) abi =
     (if detranslate_sysnum abi num \<noteq> SYSCALL_AVOIDER then 1 else 0) + count_traced sysnums abi"

fun add_traced :: "filtered_sysnum list \<Rightarrow> abi \<Rightarrow> sock_fprog \<Rightarrow> sock_fprog res" where
  "add_traced [] abi program = Inr program"
| "add_traced ((num, flags) # sysnums) abi program =
     (let syscall = detranslate_sysnum abi num in
      if syscall = SYSCALL_AVOIDER then add_traced sysnums abi program
      else bindE (add_trace_syscall syscall flags program) (add_traced sysnums abi))"

fun add_abis :: "filtered_sysnum list \<Rightarrow> abi list \<Rightarrow> sock_fprog \<Rightarrow> sock_fprog res" where
  "add_abis sysnums [] program = Inr program"
| "add_abis sysnums (abi # abis) program = bindE (add_traced sysnums abi program) (add_abis sysnums abis)"

fun add_archs :: "filtered_sysnum list \<Rightarrow> seccomp_arch list \<Rightarrow> sock_fprog \<Rightarrow> sock_fprog res" where
  "add_archs sysnums [] program = Inr program"
| "add_archs sysnums (arch # archs) program =
     (let nb_traced_syscalls = sum_list (map (count_traced sysnums) (sa_abis arch)) in
      bindE (start_arch_section (sa_value arch) nb_traced_syscalls program) (\<lambda>program.
      bindE (add_abis sysnums (sa_abis arch) program) (\<lambda>program.
      bindE (end_arch_section nb_traced_syscalls program) (add_archs sysnums archs))))"

text \<open>
  \<open>set_seccomp_filters\<close>; the two calls of \<open>prctl(2)\<close> are arguments, and the program that the kernel takes,
  if any, is a result.
\<close>

definition set_seccomp_filters ::
  "int \<Rightarrow> (sock_fprog \<Rightarrow> int) \<Rightarrow> filtered_sysnum list \<Rightarrow> (errno + int) \<times> sock_fprog option" where
  "set_seccomp_filters no_new_privs set_filter sysnums =
     (case add_archs sysnums SECCOMP_ARCHS new_program_filter of
        Inl err \<Rightarrow> (Inl err, None)
      | Inr program \<Rightarrow>
          (let program = finalize_program_filter program in
           if no_new_privs < 0 then (Inr no_new_privs, None)
           else if set_filter program < 0 then (Inr (set_filter program), None)
           else (Inr 0, Some program)))"

definition proot_sysnums :: "filtered_sysnum list" where
  "proot_sysnums =
    [(''accept'', FILTER_SYSEXIT), (''accept4'', FILTER_SYSEXIT), (''access'', 0), (''acct'', 0),
     (''bind'', 0), (''brk'', FILTER_SYSEXIT), (''chdir'', FILTER_SYSEXIT), (''chmod'', 0),
     (''chown'', 0), (''chown32'', 0), (''chroot'', 0), (''clone'', 0), (''clone3'', 0),
     (''close'', 0), (''connect'', 0), (''creat'', 0), (''recvfrom'', 0), (''recvmsg'', 0),
     (''sendmsg'', 0), (''sendto'', 0), (''socket'', FILTER_SYSEXIT), (''execve'', FILTER_SYSEXIT),
     (''execveat'', FILTER_SYSEXIT), (''faccessat'', 0), (''faccessat2'', FILTER_SYSEXIT),
     (''fchdir'', FILTER_SYSEXIT), (''fchmodat'', 0), (''fchownat'', 0), (''fstatat64'', 0),
     (''futimesat'', 0), (''getcwd'', FILTER_SYSEXIT), (''getpeername'', FILTER_SYSEXIT),
     (''getsockname'', FILTER_SYSEXIT), (''getxattr'', 0), (''inotify_add_watch'', 0),
     (''ioctl'', FILTER_SYSEXIT), (''lchown'', 0), (''lchown32'', 0), (''lgetxattr'', 0),
     (''link'', 0), (''linkat'', 0), (''listxattr'', 0), (''llistxattr'', 0), (''lremovexattr'', 0),
     (''lsetxattr'', 0), (''lstat'', 0), (''lstat64'', 0), (''memfd_create'', 0), (''mkdir'', 0),
     (''mkdirat'', 0), (''mknod'', 0), (''mknodat'', 0), (''mount'', FILTER_SYSEXIT),
     (''name_to_handle_at'', 0), (''newfstatat'', 0), (''oldlstat'', 0), (''oldstat'', 0),
     (''open'', 0), (''openat'', 0), (''openat2'', 0), (''pivot_root'', FILTER_SYSEXIT),
     (''prctl'', 0), (''prlimit64'', FILTER_SYSEXIT), (''ptrace'', FILTER_SYSEXIT),
     (''readlink'', FILTER_SYSEXIT), (''readlinkat'', FILTER_SYSEXIT), (''removexattr'', 0),
     (''rename'', FILTER_SYSEXIT), (''renameat'', FILTER_SYSEXIT), (''renameat2'', FILTER_SYSEXIT),
     (''rmdir'', 0), (''setrlimit'', FILTER_SYSEXIT), (''setxattr'', 0),
     (''socketcall'', FILTER_SYSEXIT), (''stat'', 0), (''stat64'', 0), (''statfs'', FILTER_SYSEXIT),
     (''statfs64'', FILTER_SYSEXIT), (''statx'', FILTER_SYSEXIT), (''swapoff'', 0), (''swapon'', 0),
     (''symlink'', 0), (''symlinkat'', 0), (''truncate'', 0), (''truncate64'', 0),
     (''umount'', FILTER_SYSEXIT), (''umount2'', FILTER_SYSEXIT), (''uname'', FILTER_SYSEXIT),
     (''unshare'', FILTER_SYSEXIT), (''setns'', FILTER_SYSEXIT), (''unlink'', 0), (''unlinkat'', 0),
     (''uselib'', 0), (''utime'', FILTER_SYSEXIT), (''utimensat'', 0), (''utimes'', 0),
     (''wait4'', FILTER_SYSEXIT), (''waitpid'', FILTER_SYSEXIT)]"

text \<open>\<open>merge_filtered_sysnums\<close>: its inner loop, and the whole.\<close>

fun merge_sysnum :: "filtered_sysnum list \<Rightarrow> filtered_sysnum \<Rightarrow> filtered_sysnum list" where
  "merge_sysnum [] new = [new]"
| "merge_sysnum ((num, flags) # sysnums) new =
     (if num = fst new then (num, flags OR snd new) # sysnums
      else (num, flags) # merge_sysnum sysnums new)"

definition merge_filtered_sysnums :: "filtered_sysnum list \<Rightarrow> filtered_sysnum list \<Rightarrow> filtered_sysnum list" where
  "merge_filtered_sysnums sysnums new_sysnums = foldl merge_sysnum sysnums new_sysnums"

text \<open>\<open>enable_syscall_filtering\<close>; an extension without a list is \<open>None\<close>.\<close>

definition enable_syscall_filtering ::
  "int \<Rightarrow> (sock_fprog \<Rightarrow> int) \<Rightarrow> filtered_sysnum list option list \<Rightarrow> (errno + int) \<times> sock_fprog option" where
  "enable_syscall_filtering no_new_privs set_filter extensions =
     set_seccomp_filters no_new_privs set_filter
       (foldl (\<lambda>sysnums extension. case extension of
            None \<Rightarrow> sysnums
          | Some new_sysnums \<Rightarrow> merge_filtered_sysnums sysnums new_sysnums)
         (merge_filtered_sysnums [] proot_sysnums) extensions)"

section \<open>What the program decides\<close>

text \<open>The numbers that one ABI traces, with their flags, and the statements for them.\<close>

definition traced :: "filtered_sysnum list \<Rightarrow> abi \<Rightarrow> (u32 \<times> word_t) list" where
  "traced sysnums abi = map (\<lambda>(num, flags). (ucast (detranslate_sysnum abi num), flags))
     (filter (\<lambda>(num, flags). detranslate_sysnum abi num \<noteq> SYSCALL_AVOIDER) sysnums)"

definition entries :: "(u32 \<times> word_t) list \<Rightarrow> sock_filter list" where
  "entries l = concat (map (\<lambda>(k, flags). [BPF_JEQ k 0 1, BPF_RET (SECCOMP_RET_TRACE + ucast flags)]) l)"

definition arch_section :: "u32 \<Rightarrow> (u32 \<times> word_t) list \<Rightarrow> sock_filter list" where
  "arch_section arch l =
     [BPF_LD_ABS 4, BPF_JEQ arch 1 0, BPF_JA (of_nat (section_length (length l) + 1)), BPF_LD_ABS 0] @
     entries l @ [BPF_RET SECCOMP_RET_ALLOW]"

definition traced_by :: "filtered_sysnum list \<Rightarrow> seccomp_arch \<Rightarrow> (u32 \<times> word_t) list" where
  "traced_by sysnums arch = concat (map (traced sysnums) (sa_abis arch))"

lemma entries_simps [simp]:
  "entries [] = []"
  "entries ((k, flags) # l) = [BPF_JEQ k 0 1, BPF_RET (SECCOMP_RET_TRACE + ucast flags)] @ entries l"
  "entries (l @ m) = entries l @ entries m" "length (entries l) = 2 * length l"
  by (simp_all add: entries_def) (induction l, auto)

lemma traced_simps [simp]:
  "traced [] abi = []"
  "traced ((num, flags) # sysnums) abi =
     (if detranslate_sysnum abi num = SYSCALL_AVOIDER then [] else [(ucast (detranslate_sysnum abi num), flags)]) @
     traced sysnums abi"
  by (simp_all add: traced_def)

lemma count_traced_length: "count_traced sysnums abi = length (traced sysnums abi)"
  by (induction sysnums abi rule: count_traced.induct) auto

lemma length_traced: "length (traced sysnums abi) \<le> length sysnums"
  by (simp add: traced_def)

lemma syscall_small: "detranslate_sysnum abi num \<noteq> SYSCALL_AVOIDER \<Longrightarrow> unat (detranslate_sysnum abi num) < 440"
  by (rule detranslate_cases [of num abi]) (auto simp: unat_of_nat)

lemma add_traced_entries:
  "add_traced sysnums abi program = Inr (add_statements (entries (traced sysnums abi)) program)"
proof (induction sysnums abi program rule: add_traced.induct)
  case (1 abi program)
  then show ?case by (simp add: add_statements_def)
next
  case (2 num flags sysnums abi program)
  show ?case
  proof (cases "detranslate_sysnum abi num = SYSCALL_AVOIDER")
    case False
    with syscall_small [OF False] 2(2) [OF refl False] show ?thesis
      by (simp add: add_trace_syscall_def UINT32_MAX_def add_statements_def Let_def)
  qed (use 2 in simp)
qed

lemma add_abis_entries:
  "add_abis sysnums abis program = Inr (add_statements (entries (concat (map (traced sysnums) abis))) program)"
  by (induction abis arbitrary: program) (simp_all add: add_traced_entries add_statements_def)

lemma end_arch_section_complete:
  assumes "unat (len p) + section_length n = length (bpf p) + 1"
  shows "end_arch_section n p = Inr (add_statements [BPF_RET SECCOMP_RET_ALLOW] p)"
proof -
  have "int (length (bpf p) + 1) - int (unat (len p)) = int (section_length n)" using assms by linarith
  then show ?thesis by (simp add: end_arch_section_def Let_def add_statements_def)
qed

lemma add_archs_sections:
  assumes "length (bpf program) + sum_list (map (\<lambda>arch. length (arch_section 0 (traced_by sysnums arch))) archs) < 2 ^ 16"
  shows "\<exists>l. add_archs sysnums archs program =
    Inr \<lparr>len = l, bpf = bpf program @ concat (map (\<lambda>arch. arch_section (sa_value arch) (traced_by sysnums arch)) archs)\<rparr>"
  using assms
proof (induction archs arbitrary: program)
  case Nil
  show ?case by (intro exI [of _ "len program"]) simp
next
  case (Cons arch archs)
  let ?l = "traced_by sysnums arch"
  let ?n = "sum_list (map (count_traced sysnums) (sa_abis arch))"
  let ?start = "[BPF_LD_ABS 4, BPF_JEQ (sa_value arch) 1 0, BPF_JA (of_nat (section_length (length ?l) + 1)), BPF_LD_ABS 0]"
  let ?p1 = "set_len (add_statements ?start program)"
  let ?p2 = "add_statements [BPF_RET SECCOMP_RET_ALLOW] (add_statements (entries ?l) ?p1)"
  have "count_traced sysnums = (\<lambda>abi. length (traced sysnums abi))" by (rule ext) (rule count_traced_length)
  then have n: "?n = length ?l" by (simp add: traced_by_def length_concat comp_def)
  have small: "length (bpf program) + 5 + 2 * length ?l < 2 ^ 16"
    using Cons.prems by (simp add: arch_section_def)
  have b: "bpf ?p2 = bpf program @ arch_section (sa_value arch) ?l"
    by (simp add: add_statements_def set_len_def arch_section_def)
  have "unat (of_nat (length (bpf program) + 4) :: u16) = length (bpf program) + 4"
    using small by (simp add: unat_of_nat del: of_nat_add)
  then have "unat (len ?p2) = length (bpf program) + 4"
    by (simp add: add_statements_def set_len_def add.commute)
  then have "unat (len (add_statements (entries ?l) ?p1)) + section_length (length ?l) =
      length (bpf (add_statements (entries ?l) ?p1)) + 1"
    by (simp add: add_statements_def set_len_def section_length_def)
  from end_arch_section_complete [OF this] have steps: "start_arch_section (sa_value arch) ?n program = Inr ?p1"
      "add_abis sysnums (sa_abis arch) ?p1 = Inr (add_statements (entries ?l) ?p1)"
      "end_arch_section ?n (add_statements (entries ?l) ?p1) = Inr ?p2"
    using small unfolding n
    by (simp_all add: start_arch_section_def section_length_def UINT32_MAX_def add_abis_entries traced_by_def)
  obtain l where "add_archs sysnums archs ?p2 = Inr \<lparr>len = l,
      bpf = bpf ?p2 @ concat (map (\<lambda>arch. arch_section (sa_value arch) (traced_by sysnums arch)) archs)\<rparr>"
    using Cons.IH [of ?p2] Cons.prems b by (auto simp: arch_section_def)
  then have "add_archs sysnums archs ?p2 = Inr \<lparr>len = l,
      bpf = (bpf program @ arch_section (sa_value arch) ?l) @
        concat (map (\<lambda>arch. arch_section (sa_value arch) (traced_by sysnums arch)) archs)\<rparr>"
    unfolding b .
  then have "add_archs sysnums (arch # archs) program = Inr \<lparr>len = l,
      bpf = (bpf program @ arch_section (sa_value arch) ?l) @
        concat (map (\<lambda>arch. arch_section (sa_value arch) (traced_by sysnums arch)) archs)\<rparr>"
    by (simp only: add_archs.simps Let_def steps bindE_simps)
  then show ?case by simp
qed

text \<open>Running a section.\<close>

lemma run_entries:
  "bpf_run d a (entries l @ p) =
     (case find (\<lambda>(k, flags). k = a) l of
        None \<Rightarrow> bpf_run d a p
      | Some (k, flags) \<Rightarrow> Some (SECCOMP_RET_TRACE + ucast flags))"
proof (induction l)
  case (Cons x l)
  obtain k flags where x: "x = (k, flags)" by fastforce
  have "drop 1 (BPF_RET v # q) = q" "drop 0 q = q" for v q by simp_all
  with Cons show ?case unfolding x by (cases "a = k") auto
qed simp

definition section_decision :: "(u32 \<times> word_t) list \<Rightarrow> u32 \<Rightarrow> u32" where
  "section_decision l nr =
     (case find (\<lambda>(k, flags). k = nr) l of
        None \<Rightarrow> SECCOMP_RET_ALLOW | Some (k, flags) \<Rightarrow> SECCOMP_RET_TRACE + ucast flags)"

lemma run_section:
  assumes "2 * length l + 2 < 2 ^ 32"
  shows "bpf_run d a (arch_section arch l @ p) =
    (if data_arch d = arch then Some (section_decision l (data_nr d)) else bpf_run d (data_arch d) p)"
proof -
  have "unat (of_nat (Suc (section_length (length l))) :: u32) = 2 * length l + 2"
    using assms by (simp add: section_length_def unat_of_nat del: of_nat_add of_nat_Suc)
  then have jump: "drop (unat (of_nat (Suc (section_length (length l))) :: u32))
      (BPF_LD_ABS 0 # entries l @ BPF_RET SECCOMP_RET_ALLOW # p) = p" by simp
  show ?thesis
    by (simp add: arch_section_def load_def jump run_entries section_decision_def
        del: of_nat_add of_nat_Suc split: option.split)
qed

section \<open>What merging the lists keeps\<close>

text \<open>The flags with which a call occurs in a list, taken together.\<close>

definition merged_flags :: "sysnum \<Rightarrow> filtered_sysnum list \<Rightarrow> word_t" where
  "merged_flags num l = foldr (\<lambda>(v, flags) acc. if v = num then flags OR acc else acc) l 0"

lemma merged_flags_simps [simp]:
  "merged_flags num [] = 0"
  "merged_flags num ((v, flags) # l) = (if v = num then flags OR merged_flags num l else merged_flags num l)"
  by (simp_all add: merged_flags_def)

lemma merged_flags_snoc:
  "merged_flags num (l @ [(v, flags)]) = (if v = num then merged_flags num l OR flags else merged_flags num l)"
  by (induction l) (auto simp: or.assoc)

lemma keys_merge_sysnum: "fst ` set (merge_sysnum l x) = insert (fst x) (fst ` set l)"
proof (induction l)
  case (Cons y l)
  then show ?case by (cases y) (simp add: insert_commute)
qed simp

lemma distinct_merge_sysnum: "distinct (map fst l) \<Longrightarrow> distinct (map fst (merge_sysnum l x))"
proof (induction l)
  case (Cons y l)
  obtain v flags where y: "y = (v, flags)" by fastforce
  have "fst ` set (merge_sysnum l x) = insert (fst x) (fst ` set l)" by (rule keys_merge_sysnum)
  with Cons show ?case unfolding y by (auto simp: image_iff)
qed simp

lemma merge_sysnum_map:
  "map_of (merge_sysnum l (v, flags)) num =
     (if num = v then Some (case map_of l v of None \<Rightarrow> flags | Some f \<Rightarrow> f OR flags) else map_of l num)"
  by (induction l) auto

lemma merge_all:
  "distinct (map fst (foldl merge_sysnum [] l)) \<and>
   map_of (foldl merge_sysnum [] l) num = (if num \<in> fst ` set l then Some (merged_flags num l) else None) \<and>
   length (foldl merge_sysnum [] l) \<le> length l"
proof (induction l rule: rev_induct)
  case (snoc x l)
  obtain v flags where x: "x = (v, flags)" by fastforce
  have "length (merge_sysnum m x) \<le> Suc (length m)" for m by (induction m) auto
  moreover have none: "merged_flags v l = 0" if "v \<notin> fst ` set l" using that by (induction l) auto
  moreover have "length (foldl merge_sysnum [] l) \<le> length l" "distinct (map fst (foldl merge_sysnum [] l))"
    "map_of (foldl merge_sysnum [] l) num = (if num \<in> fst ` set l then Some (merged_flags num l) else None)"
    using snoc by blast+
  ultimately show ?case using distinct_merge_sysnum none
    by (cases "num \<in> fst ` set l"; cases "num = v")
      (simp_all add: x merge_sysnum_map merged_flags_snoc, (meson Suc_le_mono le_trans)+)
qed simp

section \<open>The reference\<close>

text \<open>
  What the filter is for: a call of an unknown architecture kills the tracee, a call that PRoot or one of its
  extensions has listed is reported with all the flags that it is listed with, any other call is allowed.
\<close>

definition abi_of_arch :: "u32 \<Rightarrow> abi option" where
  "abi_of_arch arch = (if arch = 0xC00000B7 then Some ABI_DEFAULT else if arch = 0x40000028 then Some ABI_2 else None)"

definition filter_reference :: "filtered_sysnum list \<Rightarrow> seccomp_data \<Rightarrow> u32" where
  "filter_reference listed d =
     (case abi_of_arch (data_arch d) of
        None \<Rightarrow> SECCOMP_RET_KILL
      | Some abi \<Rightarrow>
          (let wanted = filter (\<lambda>(num, flags). num \<in> set (sn_table (get_sysnums abi)) \<and>
                 detranslate_sysnum abi num = ucast (data_nr d)) listed in
           if wanted = [] then SECCOMP_RET_ALLOW
           else SECCOMP_RET_TRACE + ucast (foldr (\<lambda>(num, flags) acc. flags OR acc) wanted 0)))"

text \<open>Numbers identify the calls of an ABI.\<close>

lemma detranslate_known:
  assumes "num \<noteq> ''void''"
  shows "detranslate_sysnum abi num \<noteq> SYSCALL_AVOIDER \<longleftrightarrow> num \<in> set (sn_table (get_sysnums abi))"
proof (rule detranslate_cases [of num abi])
  fix k :: nat
  assume k: "k < 440" "sn_table (get_sysnums abi) ! k = num" "detranslate_sysnum abi num = of_nat k"
  have "(of_nat k :: word_t) \<noteq> SYSCALL_AVOIDER"
  proof
    assume "(of_nat k :: word_t) = SYSCALL_AVOIDER"
    then have "unat (of_nat k :: word_t) = unat SYSCALL_AVOIDER" by simp
    then show False using k(1) by (simp add: unat_of_nat SYSCALL_AVOIDER_def)
  qed
  moreover have "num \<in> set (sn_table (get_sysnums abi))"
    using k by (metis get_sysnums_simps(2) nth_mem)
  ultimately show ?thesis using k(3) by simp
qed (use assms in auto)

lemma detranslate_inject:
  assumes "num \<in> set (sn_table (get_sysnums abi))" "v \<in> set (sn_table (get_sysnums abi))"
    and "detranslate_sysnum abi num = detranslate_sysnum abi v"
  shows "num = v"
  using assms detranslate_translate_sysnum [of "\<lambda>_. ''void''" abi] by metis

lemma number_width:
  assumes "num \<noteq> ''void''" "num \<in> set (sn_table (get_sysnums abi))"
  shows "ucast (detranslate_sysnum abi num) = (nr :: u32) \<longleftrightarrow> detranslate_sysnum abi num = ucast nr"
proof (rule detranslate_cases [of num abi])
  fix k :: nat
  assume k: "k < 440" "detranslate_sysnum abi num = of_nat k"
  have "(ucast (of_nat k :: word_t) :: u32) = of_nat k"
    by (rule word_unat_eq_iff [THEN iffD2])
      (use k(1) in \<open>simp add: unsigned_ucast_eq unat_of_nat take_bit_nat_eq_self\<close>)
  moreover have "unat nr < 2 ^ LENGTH(32)" by (rule unsigned_less)
  then have "take_bit 64 (unat nr) = unat nr" by (simp add: take_bit_nat_eq_self)
  then have "(of_nat k :: u32) = nr \<longleftrightarrow> (of_nat k :: word_t) = ucast nr"
    using k(1) by (auto simp: word_unat_eq_iff unsigned_ucast_eq unat_of_nat take_bit_nat_eq_self)
  ultimately show ?thesis using k(2) by simp
qed (use assms in auto)

lemma wanted_flags:
  assumes "num \<in> set (sn_table (get_sysnums abi))" "detranslate_sysnum abi num = w"
  shows "foldr (\<lambda>(v, flags) acc. flags OR acc)
      (filter (\<lambda>(v, flags). v \<in> set (sn_table (get_sysnums abi)) \<and> detranslate_sysnum abi v = w) listed) 0 =
    merged_flags num listed"
proof (induction listed)
  case (Cons x listed)
  obtain v flags where x: "x = (v, flags)" by fastforce
  have "v \<in> set (sn_table (get_sysnums abi)) \<and> detranslate_sysnum abi v = w \<longleftrightarrow> v = num"
    using assms detranslate_inject by blast
  with Cons show ?case by (simp add: x)
qed simp

lemma find_traced:
  assumes "distinct (map fst m)" "''void'' \<notin> fst ` set m"
  shows "find (\<lambda>(k, flags). k = nr) (traced m abi) =
    (case find (\<lambda>(v, flags). v \<in> set (sn_table (get_sysnums abi)) \<and> detranslate_sysnum abi v = ucast nr) m of
       None \<Rightarrow> None | Some (v, flags) \<Rightarrow> Some (nr, flags))"
  using assms
proof (induction m)
  case (Cons x m)
  obtain v flags where x: "x = (v, flags)" by fastforce
  have v: "v \<noteq> ''void''" using Cons.prems by (auto simp: x)
  show ?case
  proof (cases "v \<in> set (sn_table (get_sysnums abi))")
    case True
    then have "detranslate_sysnum abi v \<noteq> SYSCALL_AVOIDER" using detranslate_known [OF v] by blast
    then show ?thesis using Cons True number_width [OF v True, of nr]
      by (cases "detranslate_sysnum abi v = ucast nr") (simp_all add: x)
  next
    case False
    then have "detranslate_sysnum abi v = SYSCALL_AVOIDER" using detranslate_known [OF v] by blast
    then show ?thesis using Cons False by (simp add: x)
  qed
qed simp

lemma section_reference:
  assumes "''void'' \<notin> fst ` set listed" "abi_of_arch (data_arch d) = Some abi"
  shows "section_decision (traced (foldl merge_sysnum [] listed) abi) (data_nr d) = filter_reference listed d"
proof -
  let ?m = "foldl merge_sysnum [] listed"
  let ?known = "\<lambda>v. v \<in> set (sn_table (get_sysnums abi)) \<and> detranslate_sysnum abi v = ucast (data_nr d)"
  have d: "distinct (map fst ?m)" and keys: "v \<in> fst ` set ?m \<longleftrightarrow> v \<in> fst ` set listed" for v
    using merge_all [of listed v] by (auto simp: dom_map_of_conv_image_fst [symmetric] domIff)
  note f = find_traced [OF d, of "data_nr d" abi]
  have void: "''void'' \<notin> fst ` set ?m" using assms(1) keys by blast
  show ?thesis
  proof (cases "find (\<lambda>(v, flags). ?known v) ?m")
    case None
    then have none: "\<not> ?known v" if "(v, flags) \<in> set ?m" for v flags
      using that by (auto simp: find_None_iff)
    have "\<forall>v \<in> fst ` set listed. \<not> ?known v"
    proof
      fix v
      assume "v \<in> fst ` set listed"
      then obtain flags where "(v, flags) \<in> set ?m" unfolding keys [symmetric] by auto
      then show "\<not> ?known v" by (rule none)
    qed
    then have "filter (\<lambda>(v, flags). ?known v) listed = []" by (auto simp: filter_empty_conv)
    then show ?thesis using f [OF void] None assms(2)
      by (simp add: section_decision_def filter_reference_def Let_def)
  next
    case (Some x)
    obtain v flags where x: "x = (v, flags)" by fastforce
    then have v: "(v, flags) \<in> set ?m" "?known v"
      using Some nth_mem by (force simp: find_Some_iff)+
    then have "map_of ?m v = Some flags" using d by simp
    then have fl: "flags = merged_flags v listed" "v \<in> fst ` set listed"
      using merge_all [of listed v] by (auto split: if_split_asm)
    then have "filter (\<lambda>(v, flags). ?known v) listed \<noteq> []"
      using v(2) by (auto simp: filter_empty_conv)
    then show ?thesis using f [OF void] Some x v(2) fl(1) wanted_flags [of v abi "ucast (data_nr d)" listed] assms(2)
      by (simp add: section_decision_def filter_reference_def Let_def)
  qed
qed

lemma archs_decide:
  assumes "\<forall>arch \<in> set archs. 2 * length (traced_by sysnums arch) + 2 < 2 ^ 32"
  shows "bpf_run d a (concat (map (\<lambda>arch. arch_section (sa_value arch) (traced_by sysnums arch)) archs) @
      [BPF_RET SECCOMP_RET_KILL]) =
    Some (case find (\<lambda>arch. data_arch d = sa_value arch) archs of
      None \<Rightarrow> SECCOMP_RET_KILL | Some arch \<Rightarrow> section_decision (traced_by sysnums arch) (data_nr d))"
  using assms by (induction archs arbitrary: a) (simp_all add: run_section)

lemma archs_of_abi:
  "abi_of_arch w = None \<longleftrightarrow> find (\<lambda>arch. w = sa_value arch) SECCOMP_ARCHS = None"
  "abi_of_arch w = Some abi \<Longrightarrow> find (\<lambda>arch. w = sa_value arch) SECCOMP_ARCHS = Some \<lparr>sa_value = w, sa_abis = [abi]\<rparr>"
  by (auto simp: abi_of_arch_def SECCOMP_ARCHS_def split: if_split_asm)

section \<open>Properties\<close>

text \<open>C35: The BPF program that is installed decides as the reference says, for every call of every
  architecture: reported with all its flags if PRoot or an extension lists it, allowed otherwise, and killed
  for a foreign architecture. It fits into the 16-bit length of the program.\<close>

theorem filter_equals_reference:
  assumes "listed = proot_sysnums @ concat (map (case_option [] id) extensions)"
    and "length listed \<le> 16000" "''void'' \<notin> fst ` set listed" "0 \<le> no_new_privs" "\<forall>program. 0 \<le> set_filter program"
  shows "\<exists>program. enable_syscall_filtering no_new_privs set_filter extensions = (Inr 0, Some program) \<and>
    unat (len program) = length (bpf program) \<and>
    (\<forall>d a. bpf_run d a (bpf program) = Some (filter_reference listed d))"
proof -
  let ?m = "foldl merge_sysnum [] listed"
  have "foldl (\<lambda>sysnums extension. case extension of None \<Rightarrow> sysnums
      | Some new_sysnums \<Rightarrow> merge_filtered_sysnums sysnums new_sysnums) l es =
      foldl merge_sysnum l (concat (map (case_option [] id) es))" for l es
    by (induction es arbitrary: l) (auto simp: merge_filtered_sysnums_def split: option.split)
  then have m: "enable_syscall_filtering no_new_privs set_filter extensions = set_seccomp_filters no_new_privs set_filter ?m"
    by (simp add: enable_syscall_filtering_def assms(1) merge_filtered_sysnums_def)
  have "length ?m \<le> 16000" using merge_all [of listed undefined] assms(2) by linarith
  then have t: "length (traced ?m abi) \<le> 16000" for abi using length_traced le_trans by blast
  let ?b = "concat (map (\<lambda>arch. arch_section (sa_value arch) (traced_by ?m arch)) SECCOMP_ARCHS)"
  have small: "length ?b < 64100" "\<forall>arch \<in> set SECCOMP_ARCHS. 2 * length (traced_by ?m arch) + 2 < 2 ^ 32"
    using t [of ABI_DEFAULT] t [of ABI_2] by (simp_all add: SECCOMP_ARCHS_def arch_section_def traced_by_def)
  then have "length (bpf new_program_filter) +
      sum_list (map (\<lambda>arch. length (arch_section 0 (traced_by ?m arch))) SECCOMP_ARCHS) < 2 ^ 16"
    by (simp add: SECCOMP_ARCHS_def new_program_filter_def arch_section_def)
  from add_archs_sections [OF this] obtain l where
    l: "add_archs ?m SECCOMP_ARCHS new_program_filter = Inr \<lparr>len = l, bpf = ?b\<rparr>"
    by (auto simp: new_program_filter_def)
  let ?p = "finalize_program_filter \<lparr>len = l, bpf = ?b\<rparr>"
  have "enable_syscall_filtering no_new_privs set_filter extensions = (Inr 0, Some ?p)"
    using assms(4,5) by (simp add: m set_seccomp_filters_def l not_less Let_def)
  moreover have b: "bpf ?p = ?b @ [BPF_RET SECCOMP_RET_KILL]"
    by (simp add: finalize_program_filter_def add_statements_def set_len_def)
  moreover have "unat (len ?p) = length (bpf ?p)"
    unfolding b using small(1)
    by (simp add: finalize_program_filter_def add_statements_def set_len_def unat_of_nat
        del: of_nat_add of_nat_Suc length_concat)
  moreover have "bpf_run d a (bpf ?p) = Some (filter_reference listed d)" for d a
  proof (cases "abi_of_arch (data_arch d)")
    case None
    then show ?thesis unfolding b archs_decide [OF small(2)]
      using archs_of_abi(1) [of "data_arch d"] by (simp add: filter_reference_def)
  next
    case (Some abi)
    then show ?thesis unfolding b archs_decide [OF small(2)]
      using archs_of_abi(2) [OF Some] section_reference [OF assms(3) Some] by (simp add: traced_by_def)
  qed
  ultimately show ?thesis by blast
qed

section \<open>Witness\<close>

lemma filter_witness:
  "\<exists>program. enable_syscall_filtering 0 (\<lambda>_. 0) [None, Some [(''msgget'', 0), (''open'', FILTER_SYSEXIT)]] = (Inr 0, Some program) \<and>
     bpf_run \<lparr>data_nr = 20, data_arch = 0xC00000B8\<rparr> 0 (bpf program) = Some SECCOMP_RET_KILL"
proof -
  let ?ext = "[None, Some [(''msgget'', 0), (''open'', FILTER_SYSEXIT)]]"
  have l: "length (proot_sysnums @ concat (map (case_option [] id) ?ext)) \<le> 16000"
    "''void'' \<notin> fst ` set (proot_sysnums @ concat (map (case_option [] id) ?ext))"
    by (simp_all add: proot_sysnums_def)
  have "filter_reference (proot_sysnums @ concat (map (case_option [] id) ?ext)) \<lparr>data_nr = 20, data_arch = 0xC00000B8\<rparr>
      = SECCOMP_RET_KILL" by (simp add: filter_reference_def abi_of_arch_def)
  then show ?thesis
    using filter_equals_reference [OF refl l, of 0 "\<lambda>_. 0"] by auto
qed

end
