(* ===== verification/Ipc.thy ===== *)
theory Ipc
  imports Chain
begin

text \<open>
  The state of the System V IPC extension (\<open>extension/sysvipc/sysvipc_internal.h\<close>) and what its three
  parts share: the tables of objects with their generations, the identifiers, the look-up macro, and
  \<open>sysvipc_wake_tracee\<close>. There is one IPC namespace, which every tracee shares. The locale
  \<open>ipc_objects\<close> is the contract of the removal of an object.
\<close>

section \<open>Objects and identifiers\<close>

text \<open>The fields that the three kinds of objects have in common; \<open>generation\<close> is an \<open>int16_t\<close>.\<close>

record ipc_slot =
  slot_key :: u32
  generation :: u16
  valid :: bool

definition IPC_PRIVATE :: word_t where "IPC_PRIVATE = 0"
definition IPC_CREAT :: word_t where "IPC_CREAT = 0x200"
definition IPC_EXCL :: word_t where "IPC_EXCL = 0x400"
definition IPC_NOWAIT :: word_t where "IPC_NOWAIT = 0x800"
definition IPC_RMID :: int where "IPC_RMID = 0"
definition IPC_STAT :: int where "IPC_STAT = 2"
definition SYSVIPC_IPC_64 :: int where "SYSVIPC_IPC_64 = 0x100"

text \<open>\<open>IPC_OBJECT_ID\<close>, an \<open>int\<close>.\<close>

definition IPC_OBJECT_ID :: "nat \<Rightarrow> 'a ipc_slot_scheme \<Rightarrow> int" where
  "IPC_OBJECT_ID index object =
     sint (of_nat (index + 1) OR push_bit 12 (scast (generation object)) :: u32)"

text \<open>\<open>LOOKUP_IPC_OBJECT\<close>, for the first argument of the call: \<open>None\<close> is the return of \<open>-EINVAL\<close>.\<close>

definition lookup_ipc_object :: "word_t \<Rightarrow> 'a ipc_slot_scheme list \<Rightarrow> nat option" where
  "lookup_ipc_object arg objects =
     (let object_id = ucast arg :: u32;
          object_index = uint (object_id AND 0xFFF) in
      if object_index \<le> 0 \<or> object_index > int (length objects) then None
      else
        (let object = objects ! (nat object_index - 1) in
         if \<not> valid object \<or> sint (generation object) \<noteq> uint (drop_bit 12 object_id AND 0xFFFF)
         then None else Some (nat object_index - 1)))"

text \<open>
  The search that \<open>msgget\<close>, \<open>semget\<close> and \<open>shmget\<close> make in their tables: the index of the object with the
  key, if any, and the first unused slot in front of where the search stopped.
\<close>

fun ipc_scan :: "word_t \<Rightarrow> 'a ipc_slot_scheme list \<Rightarrow> nat \<Rightarrow> nat option \<Rightarrow> nat option \<times> nat option" where
  "ipc_scan key_arg [] index unused = (None, unused)"
| "ipc_scan key_arg (object # objects) index unused =
     (if valid object then
        (if key_arg \<noteq> IPC_PRIVATE \<and> slot_key object = ucast key_arg then (Some index, unused)
         else ipc_scan key_arg objects (Suc index) unused)
      else ipc_scan key_arg objects (Suc index) (if unused = None then Some index else unused))"

section \<open>The state\<close>

record msg_item =
  mtype :: word_t
  mtext :: "8 word list"

record msg_stats =
  msg_qnum :: word_t
  msg_cbytes :: word_t
  msg_qbytes :: word_t
  msg_lspid :: int
  msg_lrpid :: int
  msg_stime :: int
  msg_rtime :: int

record msg_queue = ipc_slot +
  items :: "msg_item list"
  msg_stats_of :: msg_stats

record semaphore = ipc_slot +
  sems :: "u16 list"
  nsems :: int

record shared_mem = ipc_slot +
  rmid_pending :: bool
  shm_fd :: int
  shm_segsz :: word_t
  shm_mode :: word_t
  shm_cpid :: int
  shm_nattch :: nat

datatype wait_reason =
  WR_NOT_WAITING | WR_WAIT_QUEUE_RECV | WR_WAIT_SEMOP | WR_WAIT_SHMAT_HELPER_BUSY

datatype wait_state =
    WSTATE_NOT_WAITING | WSTATE_RESTARTED_INTO_PPOLL_CANCELED | WSTATE_RESTARTED_INTO_PPOLL
  | WSTATE_ENTERED_PPOLL | WSTATE_SIGNALED_PPOLL | WSTATE_ENTERED_GETPID

datatype chain_state =
    CSTATE_NOT_CHAINED | CSTATE_SINGLE | CSTATE_SHMAT_SOCKET | CSTATE_SHMAT_CONNECT
  | CSTATE_SHMAT_RECVMSG | CSTATE_SHMAT_MMAP | CSTATE_MSGRCV_RETRY

record sembuf =
  sem_num :: u16
  sem_op :: u16
  sem_flg :: u16

text \<open>\<open>struct SysVIpcConfig\<close>; \<open>process_of\<close> is the number of the process of the thread.\<close>

record ipc_config =
  process_of :: nat
  wait_reason_of :: wait_reason
  wait_state_of :: wait_state
  chain_state_of :: chain_state
  status_after_wait :: word_t
  waiting_object_index :: nat
  msgrcv_msgp :: word_t
  msgrcv_msgsz :: word_t
  msgrcv_msgtyp :: int
  msgrcv_msgflg :: u32
  semop_sops :: "sembuf list"
  shmat_guest_buf :: word_t
  shmat_socket_fd :: int
  shmat_mem_fd :: int

record ipc_task =
  task_pid :: int
  task_regs :: tracee
  task_cfg :: ipc_config

text \<open>
  A mapped region of shared memory belongs to a process and to a segment; the two linked lists that
  hold it are the list of all mappings, filtered by the one or the other.
\<close>

record shm_map =
  map_process :: nat
  map_shm :: nat
  map_addr :: word_t
  map_size :: word_t

text \<open>
  What the handlers change: the namespace, the tracees of \<open>SYSVIPC_FOREACH_TRACEE\<close> in order, the
  mappings, and as traces the memory written in tracees, the stop signals sent, the requests made to
  the shared memory helper and the registers pushed outside of the usual stops.
\<close>

datatype helper_request = SHMHELPER_DISTRIBUTE int | SHMHELPER_ALLOC int word_t | SHMHELPER_FREE int

record ipc_state =
  queues :: "msg_queue list"
  semaphores :: "semaphore list"
  shms :: "shared_mem list"
  tasks :: "ipc_task list"
  mappings :: "shm_map list"
  pgids :: "nat \<Rightarrow> int"
  written :: "(nat \<times> word_t \<times> 8 word list) list"
  stop_signals :: "int list"
  helper_requests :: "helper_request list"
  pushed :: "(nat \<times> ptrace_request) list"

definition cfg :: "ipc_state \<Rightarrow> nat \<Rightarrow> ipc_config" where
  "cfg s i = task_cfg (tasks s ! i)"

definition update_task :: "nat \<Rightarrow> (ipc_task \<Rightarrow> ipc_task) \<Rightarrow> ipc_state \<Rightarrow> ipc_state" where
  "update_task i f s = s\<lparr>tasks := (tasks s)[i := f (tasks s ! i)]\<rparr>"

definition update_cfg :: "nat \<Rightarrow> (ipc_config \<Rightarrow> ipc_config) \<Rightarrow> ipc_state \<Rightarrow> ipc_state" where
  "update_cfg i f s = update_task i (\<lambda>t. t\<lparr>task_cfg := f (task_cfg t)\<rparr>) s"

definition update_regs :: "nat \<Rightarrow> (tracee \<Rightarrow> tracee) \<Rightarrow> ipc_state \<Rightarrow> ipc_state" where
  "update_regs i f s = update_task i (\<lambda>t. t\<lparr>task_regs := f (task_regs t)\<rparr>) s"

definition arg :: "ipc_state \<Rightarrow> nat \<Rightarrow> reg \<Rightarrow> word_t" where
  "arg s i r = peek_reg (task_regs (tasks s ! i)) CURRENT r"

text \<open>
  The memory of the tracees and the clock, which the program only reaches through system calls:
  reading bytes, whether a write succeeds, the time, the answers and the address of the helper process, the page size,
  which register requests the kernel accepts, and the layout of two structures of the C library.
\<close>

record ipc_env =
  read_data :: "nat \<Rightarrow> word_t \<Rightarrow> nat \<Rightarrow> (8 word list) res"
  can_write :: "nat \<Rightarrow> word_t \<Rightarrow> nat \<Rightarrow> bool"
  current_time :: int
  helper_alloc :: "helper_request \<Rightarrow> int"
  helper_ok :: "helper_request \<Rightarrow> bool"
  page_size :: word_t
  msqid_bytes :: "msg_stats \<Rightarrow> 8 word list"
  shmid_bytes :: "shared_mem \<Rightarrow> 8 word list"
  helper_address :: "8 word list"
  regs_accepted :: "ptrace_request \<Rightarrow> bool"

definition write_data ::
  "ipc_env \<Rightarrow> nat \<Rightarrow> word_t \<Rightarrow> 8 word list \<Rightarrow> ipc_state \<Rightarrow> int \<times> ipc_state" where
  "write_data e i addr bytes s =
     (if can_write e i addr (length bytes) then (0, s\<lparr>written := written s @ [(i, addr, bytes)]\<rparr>)
      else (neg EFAULT, s))"

section \<open>Waking a tracee\<close>

text \<open>\<open>sysvipc_wake_tracee\<close>. Its assertions, that the tracee waits and is in or before \<open>ppoll\<close>, are not a failure
  here: a tracee in another state is left in it. The invariant of the reachable states in \<open>Sysvipc\<close> gives what
  they ask of the callers.\<close>

definition sysvipc_wake_tracee :: "nat \<Rightarrow> int \<Rightarrow> ipc_state \<Rightarrow> ipc_state" where
  "sysvipc_wake_tracee i status s =
     (let s = update_cfg i (\<lambda>c. c\<lparr>wait_reason_of := WR_NOT_WAITING,
                                  status_after_wait := of_c_int status\<rparr>) s in
      case wait_state_of (cfg s i) of
        WSTATE_ENTERED_PPOLL \<Rightarrow>
          (update_cfg i (\<lambda>c. c\<lparr>wait_state_of := WSTATE_SIGNALED_PPOLL\<rparr>) s)
             \<lparr>stop_signals := stop_signals s @ [task_pid (tasks s ! i)]\<rparr>
      | WSTATE_RESTARTED_INTO_PPOLL \<Rightarrow>
          update_cfg i (\<lambda>c. c\<lparr>wait_state_of := WSTATE_RESTARTED_INTO_PPOLL_CANCELED\<rparr>) s
      | _ \<Rightarrow> s)"

text \<open>\<open>SYSVIPC_FOREACH_TRACEE\<close>.\<close>

definition foreach_tracee :: "(nat \<Rightarrow> ipc_state \<Rightarrow> ipc_state) \<Rightarrow> ipc_state \<Rightarrow> ipc_state" where
  "foreach_tracee f s = fold f [0..<length (tasks s)] s"

section \<open>Identifiers find their objects\<close>

lemma and_masks32: "(w :: u32) AND 0xFFF = take_bit 12 w" "(w :: u32) AND 0xFFFF = take_bit 16 w"
proof -
  have "(0xFFF :: u32) = mask 12" "(0xFFFF :: u32) = mask 16" by (simp_all add: mask_eq_exp_minus_1)
  then show "w AND 0xFFF = take_bit 12 w" "w AND 0xFFFF = take_bit 16 w"
    by (simp_all only: take_bit_eq_mask)
qed

text \<open>The two fields of an identifier.\<close>

definition id_index :: "word_t \<Rightarrow> nat" where
  "id_index a = unat ((ucast a :: u32) AND 0xFFF)"

definition id_generation :: "word_t \<Rightarrow> int" where
  "id_generation a = uint (drop_bit 12 (ucast a :: u32) AND 0xFFFF)"

lemma id_index_bound: "id_index a < 4096"
proof -
  have "(ucast a :: u32) AND 0xFFF \<le> 0xFFF" by (rule word_and_le1)
  then show ?thesis by (simp add: word_le_nat_alt id_index_def)
qed

lemma lookup_alt:
  "lookup_ipc_object a objects =
     (if id_index a = 0 \<or> id_index a > length objects then None
      else if valid (objects ! (id_index a - 1)) \<and>
          sint (generation (objects ! (id_index a - 1))) = id_generation a
      then Some (id_index a - 1) else None)"
proof -
  have u: "uint ((ucast a :: u32) AND 0xFFF) = int (id_index a)" by (simp add: id_index_def)
  show ?thesis unfolding lookup_ipc_object_def Let_def u id_generation_def [symmetric] by auto
qed

lemma lookup_Some:
  assumes "lookup_ipc_object a objects = Some i"
  shows "i < length objects" "valid (objects ! i)" "i < 4095"
    and "sint (generation (objects ! i)) = id_generation a" "id_index a = Suc i"
  using assms id_index_bound [of a] by (auto simp: lookup_alt split: if_splits)

lemma ucast_of_c_int: "(ucast (of_c_int (sint (w :: u32))) :: u32) = w"
proof (rule bit_word_eqI)
  fix n assume "n < LENGTH(32)"
  then have "min n 31 = n" by simp
  with \<open>n < LENGTH(32)\<close> show "bit (ucast (of_c_int (sint w)) :: u32) n = bit w n"
    by (simp add: of_c_int_def bit_ucast_iff bit_signed_iff)
qed

lemma id_fields:
  assumes "i < 4095" "0 \<le> sint (generation object)"
  shows "id_index (of_c_int (IPC_OBJECT_ID i object)) = Suc i"
    and "id_generation (of_c_int (IPC_OBJECT_ID i object)) = sint (generation object)"
proof -
  let ?v = "of_nat (i + 1) :: u32"
  let ?g = "generation object"
  have small: "take_bit 12 (i + 1) = i + 1" using assms(1) by (simp add: take_bit_nat_eq_self)
  have v: "take_bit 12 ?v = ?v" by (simp only: take_bit_of_nat small)
  have hi: "\<not> bit ?v n" if "12 \<le> n" for n
    using that v by (metis bit_take_bit_iff not_less)
  have w: "(ucast (of_c_int (IPC_OBJECT_ID i object)) :: u32) = ?v OR push_bit 12 (scast ?g)"
    by (simp add: IPC_OBJECT_ID_def ucast_of_c_int)
  have "take_bit 12 (?v OR push_bit 12 (scast ?g)) = ?v"
    by (subst (2) v [symmetric], rule bit_word_eqI) (auto simp: bit_take_bit_iff bit_or_iff bit_push_bit_iff)
  then have "unat ((ucast (of_c_int (IPC_OBJECT_ID i object)) :: u32) AND 0xFFF) = unat ?v"
    unfolding w and_masks32 by (rule arg_cong)
  also have "unat ?v = (i + 1) mod 2 ^ 32" by (simp only: unat_of_nat) simp
  finally show "id_index (of_c_int (IPC_OBJECT_ID i object)) = Suc i"
    using assms(1) by (simp add: id_index_def)
  have "take_bit 16 (drop_bit 12 (?v OR push_bit 12 (scast ?g))) = (ucast ?g :: u32)"
  proof (rule bit_word_eqI)
    fix n assume "n < LENGTH(32)"
    have "min n 15 = n" "min 15 n = n" if "bit ?g n" using bit_imp_le_length [OF that] by simp_all
    moreover have "min n 15 = n" "min 15 n = n" if "n < 16" using that by simp_all
    ultimately show "bit (take_bit 16 (drop_bit 12 (?v OR push_bit 12 (scast ?g)))) n = bit (ucast ?g :: u32) n"
      using hi [of "12 + n"] \<open>n < LENGTH(32)\<close>
      by (auto simp: bit_take_bit_iff bit_drop_bit_eq bit_or_iff bit_push_bit_iff bit_ucast_iff
          bit_signed_iff simp del: of_nat_add of_nat_Suc dest: bit_imp_le_length)
  qed
  then have "id_generation (of_c_int (IPC_OBJECT_ID i object)) = uint ?g"
    unfolding id_generation_def w and_masks32
    by (simp only: unsigned_ucast_eq) (use uint_lt2p [of ?g] in \<open>simp add: take_bit_int_eq_self\<close>)
  moreover have "uint ?g = sint ?g"
    using assms(2) uint_sint [of ?g] sint_lt [of ?g] by (simp add: take_bit_eq_mod)
  ultimately show "id_generation (of_c_int (IPC_OBJECT_ID i object)) = sint ?g" by simp
qed

lemma lookup_own_id:
  assumes "i < length objects" "i < 4095" "valid (objects ! i)" "0 \<le> sint (generation (objects ! i))"
  shows "lookup_ipc_object (of_c_int (IPC_OBJECT_ID i (objects ! i))) objects = Some i"
  using assms id_fields [OF assms(2,4)] by (simp add: lookup_alt)

text \<open>The search of the \<open>*get\<close> calls.\<close>

lemma ipc_scan_found:
  assumes "ipc_scan a objects i u = (Some j, u')"
  shows "i \<le> j \<and> j < i + length objects \<and> valid (objects ! (j - i)) \<and>
    slot_key (objects ! (j - i)) = ucast a \<and> a \<noteq> IPC_PRIVATE"
  using assms
proof (induction objects arbitrary: i u)
  case (Cons x xs)
  show ?case
  proof (cases "valid x \<and> a \<noteq> IPC_PRIVATE \<and> slot_key x = ucast a")
    case True
    with Cons.prems show ?thesis by auto
  next
    case False
    then obtain u2 where "ipc_scan a xs (Suc i) u2 = (Some j, u')"
      using Cons.prems by (auto split: if_splits)
    from Cons.IH [OF this] show ?thesis by (auto simp: nth_Cons' Suc_diff_Suc)
  qed
qed simp

lemma ipc_scan_missing:
  assumes "ipc_scan a objects i u = (None, u')"
  shows "\<forall>x \<in> set objects. valid x \<and> a \<noteq> IPC_PRIVATE \<longrightarrow> slot_key x \<noteq> ucast a"
  using assms by (induction objects arbitrary: i u) (auto split: if_splits)

lemma ipc_scan_keeps_unused: "ipc_scan a objects i (Some k) = (r, u') \<Longrightarrow> u' = Some k"
  by (induction objects arbitrary: i) (auto split: if_splits)

lemma ipc_scan_unused:
  assumes "ipc_scan a objects i None = (None, u')"
  shows "case u' of None \<Rightarrow> \<forall>x \<in> set objects. valid x
    | Some j \<Rightarrow> i \<le> j \<and> j < i + length objects \<and> \<not> valid (objects ! (j - i))"
  using assms
proof (induction objects arbitrary: i)
  case (Cons x xs)
  show ?case
  proof (cases "valid x")
    case True
    with Cons.prems have "ipc_scan a xs (Suc i) None = (None, u')" by (auto split: if_splits)
    from Cons.IH [OF this] True show ?thesis
      by (auto split: option.splits simp: nth_Cons' Suc_diff_Suc)
  next
    case False
    with Cons.prems have "u' = Some i" by (auto dest: ipc_scan_keeps_unused)
    with False show ?thesis by simp
  qed
qed simp

section \<open>The contract of a removal\<close>

text \<open>
  The three kinds of objects promise the same of their removal: the slot becomes invalid and its
  generation is incremented; the other slots do not change.
\<close>

locale ipc_objects =
  fixes objects :: "'s \<Rightarrow> 'a ipc_slot_scheme list"
    and remove :: "nat \<Rightarrow> 's \<Rightarrow> 's"
  assumes remove_objects: "i < length (objects s) \<Longrightarrow>
    \<exists>x. objects (remove i s) = (objects s)[i := x] \<and> \<not> valid x \<and>
      generation x = generation (objects s ! i) + 1"
begin

lemma removed_not_found:
  assumes "i < length (objects s)"
  shows "lookup_ipc_object a (objects (remove i s)) \<noteq> Some i"
proof
  assume "lookup_ipc_object a (objects (remove i s)) = Some i"
  from lookup_Some(2) [OF this] remove_objects [OF assms] assms show False by auto
qed

lemma others_kept:
  assumes "i < length (objects s)" "j \<noteq> i"
  shows "lookup_ipc_object a (objects (remove i s)) = Some j \<longleftrightarrow>
    lookup_ipc_object a (objects s) = Some j"
proof -
  obtain x where x: "objects (remove i s) = (objects s)[i := x]" using remove_objects [OF assms(1)] by blast
  show ?thesis using assms(2) unfolding x by (auto simp: lookup_alt nth_list_update)
qed

text \<open>An identifier of a removed object stays dead when the slot is taken again.\<close>

lemma stale_identifier:
  assumes "lookup_ipc_object a (objects s) = Some i"
    and "generation y = generation (objects (remove i s) ! i)"
  shows "lookup_ipc_object a ((objects (remove i s))[i := y]) = None"
proof -
  note l = lookup_Some [OF assms(1)]
  obtain x where x: "objects (remove i s) = (objects s)[i := x]"
      "generation x = generation (objects s ! i) + 1"
    using remove_objects [OF l(1)] by blast
  have "generation y = generation (objects s ! i) + 1" using assms(2) x l(1) by simp
  then have "generation y \<noteq> generation (objects s ! i)" by simp
  then have "sint (generation y) \<noteq> id_generation a" using l(4) signed_word_eqI by metis
  then show ?thesis using l(1,5) by (simp add: lookup_alt x(1))
qed

end

section \<open>The state after an update\<close>

lemma update_task_simps [simp]:
  "queues (update_task i f s) = queues s" "semaphores (update_task i f s) = semaphores s"
  "shms (update_task i f s) = shms s" "mappings (update_task i f s) = mappings s"
  "length (tasks (update_task i f s)) = length (tasks s)"
  "written (update_task i f s) = written s" "helper_requests (update_task i f s) = helper_requests s"
  "pgids (update_task i f s) = pgids s" "stop_signals (update_task i f s) = stop_signals s"
  by (simp_all add: update_task_def)

lemma update_cfg_simps [simp]:
  "queues (update_cfg i f s) = queues s" "semaphores (update_cfg i f s) = semaphores s"
  "shms (update_cfg i f s) = shms s" "mappings (update_cfg i f s) = mappings s"
  "length (tasks (update_cfg i f s)) = length (tasks s)"
  "written (update_cfg i f s) = written s" "helper_requests (update_cfg i f s) = helper_requests s"
  "pgids (update_cfg i f s) = pgids s" "stop_signals (update_cfg i f s) = stop_signals s"
  by (simp_all add: update_cfg_def)

lemma cfg_update_cfg [simp]:
  "cfg (update_cfg i f s) j = (if j = i \<and> i < length (tasks s) then f (cfg s i) else cfg s j)"
  by (cases "i < length (tasks s)")
    (auto simp: cfg_def update_cfg_def update_task_def nth_list_update list_update_beyond)

lemma cfg_other_fields [simp]:
  "cfg (s\<lparr>stop_signals := x\<rparr>) = cfg s" "cfg (s\<lparr>queues := q\<rparr>) = cfg s" "cfg (s\<lparr>semaphores := m\<rparr>) = cfg s"
  "cfg (s\<lparr>shms := h\<rparr>) = cfg s" "cfg (s\<lparr>mappings := p\<rparr>) = cfg s" "cfg (s\<lparr>written := w\<rparr>) = cfg s"
  "cfg (s\<lparr>helper_requests := r\<rparr>) = cfg s" "cfg (s\<lparr>pushed := y\<rparr>) = cfg s"
  by (simp_all add: cfg_def fun_eq_iff)

lemma wake_simps [simp]:
  "queues (sysvipc_wake_tracee i st s) = queues s" "semaphores (sysvipc_wake_tracee i st s) = semaphores s"
  "shms (sysvipc_wake_tracee i st s) = shms s" "mappings (sysvipc_wake_tracee i st s) = mappings s"
  "length (tasks (sysvipc_wake_tracee i st s)) = length (tasks s)"
  by (simp_all add: sysvipc_wake_tracee_def Let_def split: wait_state.split)

text \<open>What waking does to the configuration of the tracee.\<close>

definition woken :: "int \<Rightarrow> ipc_config \<Rightarrow> ipc_config" where
  "woken st c = c\<lparr>wait_reason_of := WR_NOT_WAITING, status_after_wait := of_c_int st,
     wait_state_of := (case wait_state_of c of
        WSTATE_ENTERED_PPOLL \<Rightarrow> WSTATE_SIGNALED_PPOLL
      | WSTATE_RESTARTED_INTO_PPOLL \<Rightarrow> WSTATE_RESTARTED_INTO_PPOLL_CANCELED
      | w \<Rightarrow> w)\<rparr>"

lemma woken_simps [simp]:
  "wait_reason_of (woken st c) = WR_NOT_WAITING" "status_after_wait (woken st c) = of_c_int st"
  "waiting_object_index (woken st c) = waiting_object_index c" "semop_sops (woken st c) = semop_sops c"
  "chain_state_of (woken st c) = chain_state_of c" "process_of (woken st c) = process_of c"
  by (simp_all add: woken_def)

lemma cfg_wake [simp]:
  "cfg (sysvipc_wake_tracee i st s) j = (if j = i \<and> i < length (tasks s) then woken st (cfg s i) else cfg s j)"
  by (auto simp: sysvipc_wake_tracee_def Let_def woken_def split: wait_state.split)

text \<open>The registers of the tracees stay as they are.\<close>

lemma arg_update_cfg [simp]: "arg (update_cfg i f s) k r = arg s k r"
  by (cases "k = i \<and> i < length (tasks s)")
    (auto simp: arg_def update_cfg_def update_task_def nth_list_update list_update_beyond)

lemma arg_other_fields [simp]:
  "arg (s\<lparr>stop_signals := x\<rparr>) = arg s" "arg (s\<lparr>queues := q\<rparr>) = arg s" "arg (s\<lparr>semaphores := m\<rparr>) = arg s"
  "arg (s\<lparr>shms := h\<rparr>) = arg s" "arg (s\<lparr>mappings := p\<rparr>) = arg s" "arg (s\<lparr>written := w\<rparr>) = arg s"
  "arg (s\<lparr>helper_requests := u\<rparr>) = arg s" "arg (s\<lparr>pushed := y\<rparr>) = arg s"
  by (simp_all add: arg_def fun_eq_iff)

lemma arg_wake [simp]: "arg (sysvipc_wake_tracee i st s) k r = arg s k r"
  by (simp add: sysvipc_wake_tracee_def Let_def split: wait_state.split)

section \<open>Loops over the tracees\<close>

lemma fold_upt_invariant:
  assumes "P s" "\<And>k s. k < n \<Longrightarrow> P s \<Longrightarrow> P (f k s)"
  shows "P (fold f [0..<n] s)"
proof -
  have "m \<le> n \<Longrightarrow> P (fold f [0..<m] s)" for m
    using assms by (induction m) auto
  then show ?thesis by simp
qed

lemma foreach_invariant:
  assumes "P s" "\<And>k t. k < length (tasks t) \<Longrightarrow> length (tasks t) = length (tasks s) \<Longrightarrow> P t \<Longrightarrow>
      P (f k t) \<and> length (tasks (f k t)) = length (tasks t)"
  shows "P (foreach_tracee f s) \<and> length (tasks (foreach_tracee f s)) = length (tasks s)"
  unfolding foreach_tracee_def
  by (rule fold_upt_invariant) (use assms in auto)

text \<open>What the step of every tracee establishes and no step destroys holds of all in the end.\<close>

lemma foreach_each:
  assumes "\<And>k t. length (tasks (f k t)) = length (tasks t)"
    and "\<And>k t. k < length (tasks t) \<Longrightarrow> R k (f k t)"
    and "\<And>j k t. R j t \<Longrightarrow> R j (f k t)"
    and "k < length (tasks s)"
  shows "R k (foreach_tracee f s)"
proof -
  have len: "length (tasks (fold f [0..<m] s)) = length (tasks s)" for m
    by (induction m) (auto simp: assms(1))
  have "k < m \<Longrightarrow> m \<le> length (tasks s) \<Longrightarrow> R k (fold f [0..<m] s)" for m
  proof (induction m)
    case (Suc m)
    then show ?case using assms(2) [of k "fold f [0..<m] s"] assms(3) len
      by (cases "k = m") auto
  qed simp
  then show ?thesis using assms(4) by (simp add: foreach_tracee_def)
qed

lemma foreach_pointwise:
  assumes "\<And>k t. length (tasks (f k t)) = length (tasks t)"
    and "\<And>k j t. k < length (tasks t) \<Longrightarrow> cfg (f k t) j = (if j = k then g (cfg t j) else cfg t j)"
    and "j < length (tasks s)"
  shows "cfg (foreach_tracee f s) j = g (cfg s j)"
proof -
  have len: "length (tasks (fold f [0..<m] s)) = length (tasks s)" for m
    by (induction m) (auto simp: assms(1))
  have "m \<le> length (tasks s) \<Longrightarrow>
      cfg (fold f [0..<m] s) j = (if j < m then g (cfg s j) else cfg s j)" for m
  proof (induction m)
    case (Suc m)
    then show ?case using assms(2) [of m "fold f [0..<m] s" j] len by auto
  qed simp
  then show ?thesis using assms(3) by (simp add: foreach_tracee_def)
qed

section \<open>Concrete states\<close>

text \<open>A tracee that makes a call with the given arguments (below \<open>2 ^ 32\<close>), and a namespace without objects.\<close>

definition example_config :: "nat \<Rightarrow> ipc_config" where
  "example_config p =
     \<lparr>process_of = p, wait_reason_of = WR_NOT_WAITING, wait_state_of = WSTATE_NOT_WAITING,
      chain_state_of = CSTATE_NOT_CHAINED, status_after_wait = 0, waiting_object_index = 0,
      msgrcv_msgp = 0, msgrcv_msgsz = 0, msgrcv_msgtyp = 0, msgrcv_msgflg = 0, semop_sops = [],
      shmat_guest_buf = 0, shmat_socket_fd = 0, shmat_mem_fd = 0\<rparr>"

definition calling :: "word_t list \<Rightarrow> tracee" where
  "calling args = example_tracee\<lparr>regs :=
     (\<lambda>version i. if even i \<and> i div 2 < length args then ucast (args ! (i div 2)) else 0)\<rparr>"

definition example_task :: "nat \<Rightarrow> word_t list \<Rightarrow> ipc_task" where
  "example_task p args =
     \<lparr>task_pid = 1000 + int p, task_regs = calling args, task_cfg = example_config p\<rparr>"

definition example_ipc :: "ipc_task list \<Rightarrow> ipc_state" where
  "example_ipc ts = \<lparr>queues = [], semaphores = [], shms = [], tasks = ts, mappings = [],
     pgids = (\<lambda>p. 1000 + int p), written = [], stop_signals = [], helper_requests = [], pushed = []\<rparr>"

definition example_machine :: "8 word list \<Rightarrow> ipc_env" where
  "example_machine bytes = \<lparr>read_data = (\<lambda>i a n. Inr (take n (drop (unat a) bytes))),
     can_write = (\<lambda>i a n. True), current_time = 7, helper_alloc = (\<lambda>r. 5), helper_ok = (\<lambda>r. True),
     page_size = 4096, msqid_bytes = (\<lambda>x. []), shmid_bytes = (\<lambda>x. []),
     helper_address = replicate 110 0, regs_accepted = (\<lambda>r. True)\<rparr>"

end
