(* ===== verification/Ipc_Sem.thy ===== *)
theory Ipc_Sem
  imports Ipc
begin

text \<open>
  Semaphores, \<open>extension/sysvipc/sysvipc_sem.c\<close>: \<open>semget\<close>, \<open>semop\<close> with its waiting tracees and \<open>semctl\<close>,
  the arithmetic of a list of operations, the invariant that keeps the operations of a waiting
  tracee inside its set, and what removal does to the waiters.
\<close>

section \<open>The code\<close>

definition SYSVIPC_MAX_SEMS :: nat where "SYSVIPC_MAX_SEMS = 512"
definition SYSVIPC_MAX_NSEMS :: int where "SYSVIPC_MAX_NSEMS = 512"
definition SYSVIPC_MAX_NSOPS :: word_t where "SYSVIPC_MAX_NSOPS = 512"
definition SYSVIPC_MAX_SEMVAL :: int where "SYSVIPC_MAX_SEMVAL = 0x7000"

definition new_semaphore :: "word_t \<Rightarrow> int \<Rightarrow> u16 \<Rightarrow> semaphore" where
  "new_semaphore key n gen =
     \<lparr>slot_key = ucast key, generation = gen, valid = True, sems = replicate (nat n) 0, nsems = n\<rparr>"

definition sysvipc_semget :: "nat \<Rightarrow> ipc_state \<Rightarrow> int \<times> ipc_state" where
  "sysvipc_semget i s =
     (let semaphore_id = arg s i SYSARG_1;
          n = c_int (arg s i SYSARG_2);
          semflg = arg s i SYSARG_3 in
      if n \<le> 0 \<or> n > SYSVIPC_MAX_NSEMS then (neg EINVAL, s)
      else
        (case ipc_scan semaphore_id (semaphores s) 0 None of
           (Some index, _) \<Rightarrow>
             if has_flag semflg IPC_CREAT \<and> has_flag semflg IPC_EXCL then (neg EEXIST, s)
             else if nsems (semaphores s ! index) < n then (neg EINVAL, s)
             else (IPC_OBJECT_ID index (semaphores s ! index), s)
         | (None, unused) \<Rightarrow>
             if \<not> has_flag semflg IPC_CREAT then (neg ENOENT, s)
             else
               (case unused of
                  Some index \<Rightarrow>
                    (let x = new_semaphore semaphore_id n (generation (semaphores s ! index)) in
                     (IPC_OBJECT_ID index x, s\<lparr>semaphores := (semaphores s)[index := x]\<rparr>))
                | None \<Rightarrow>
                    if length (semaphores s) \<ge> SYSVIPC_MAX_SEMS then (neg ENOSPC, s)
                    else
                      (let x = new_semaphore semaphore_id n 0 in
                       (IPC_OBJECT_ID (length (semaphores s)) x,
                        s\<lparr>semaphores := semaphores s @ [x]\<rparr>)))))"

text \<open>
  \<open>sysvipc_sem_check\<close>: the status 1 tells to wait; the values are only written back at the end. The
  output \<open>out_wait_type\<close> is never asked for.
\<close>

fun sem_check_loop :: "sembuf list \<Rightarrow> u16 list \<Rightarrow> int \<times> u16 list" where
  "sem_check_loop [] new_sems = (0, new_sems)"
| "sem_check_loop (sop # sops) new_sems =
     (let op = sint (sem_op sop);
          num = unat (sem_num sop);
          nowait = (ucast (sem_flg sop) AND IPC_NOWAIT \<noteq> 0) in
      if op = 0 then
        (if new_sems ! num \<noteq> 0 then (if nowait then (neg EAGAIN, new_sems) else (1, new_sems))
         else sem_check_loop sops new_sems)
      else
        (let new_value = uint (new_sems ! num) + op in
         if new_value < 0 then (if nowait then (neg EAGAIN, new_sems) else (1, new_sems))
         else if new_value > SYSVIPC_MAX_SEMVAL then (neg ERANGE, new_sems)
         else sem_check_loop sops (new_sems[num := word_of_int new_value])))"

definition sysvipc_sem_check :: "ipc_config \<Rightarrow> semaphore \<Rightarrow> int \<times> semaphore" where
  "sysvipc_sem_check config x =
     (case sem_check_loop (semop_sops config) (sems x) of
        (status, new_sems) \<Rightarrow> (status, if status = 0 then x\<lparr>sems := new_sems\<rparr> else x))"

definition set_semaphore :: "nat \<Rightarrow> semaphore \<Rightarrow> ipc_state \<Rightarrow> ipc_state" where
  "set_semaphore index x s = s\<lparr>semaphores := (semaphores s)[index := x]\<rparr>"

text \<open>The loop over the other tracees that wait for the set.\<close>

definition sem_try_wake :: "nat \<Rightarrow> nat \<Rightarrow> nat \<Rightarrow> ipc_state \<Rightarrow> ipc_state" where
  "sem_try_wake i index k s =
     (if k \<noteq> i \<and> wait_reason_of (cfg s k) = WR_WAIT_SEMOP \<and> waiting_object_index (cfg s k) = index then
        (case sysvipc_sem_check (cfg s k) (semaphores s ! index) of
           (status, x) \<Rightarrow>
             if status \<noteq> 1 then
               sysvipc_wake_tracee k status
                 (update_cfg k (\<lambda>c. c\<lparr>semop_sops := []\<rparr>) (set_semaphore index x s))
             else s)
      else s)"

fun decode_u16 :: "8 word \<Rightarrow> 8 word \<Rightarrow> u16" where
  "decode_u16 lo hi = ucast lo OR push_bit 8 (ucast hi)"

fun decode_sops :: "8 word list \<Rightarrow> sembuf list" where
  "decode_sops (a # b # c # d # e # f # bytes) =
     \<lparr>sem_num = decode_u16 a b, sem_op = decode_u16 c d, sem_flg = decode_u16 e f\<rparr> # decode_sops bytes"
| "decode_sops _ = []"

definition sysvipc_semop :: "ipc_env \<Rightarrow> nat \<Rightarrow> ipc_state \<Rightarrow> int \<times> ipc_state" where
  "sysvipc_semop e i s =
     (case lookup_ipc_object (arg s i SYSARG_1) (semaphores s) of
        None \<Rightarrow> (neg EINVAL, s)
      | Some index \<Rightarrow>
          (let sops_ptr = arg s i SYSARG_2; nsops = arg s i SYSARG_3 in
           if nsops > SYSVIPC_MAX_NSOPS then (neg E2BIG, s)
           else if nsops = 0 then (neg EINVAL, s)
           else
             (case read_data e i sops_ptr (6 * unat nsops) of
                Inl err \<Rightarrow> (neg err, s)
              | Inr bytes \<Rightarrow>
                  (let sops = decode_sops bytes in
                   if list_ex (\<lambda>sop. int (unat (sem_num sop)) \<ge> nsems (semaphores s ! index)) sops
                   then (neg EFBIG, s)
                   else
                     (let s = update_cfg i (\<lambda>c. c\<lparr>wait_reason_of := WR_WAIT_SEMOP,
                                waiting_object_index := index, semop_sops := sops\<rparr>) s;
                          (this_status, x) = sysvipc_sem_check (cfg s i) (semaphores s ! index);
                          s = set_semaphore index x s;
                          s = foreach_tracee (sem_try_wake i index) s in
                      if this_status = 1 then (0, s)
                      else (this_status, update_cfg i (\<lambda>c. c\<lparr>semop_sops := [],
                                           wait_reason_of := WR_NOT_WAITING\<rparr>) s))))))"

definition sysvipc_semop_timedout :: "nat \<Rightarrow> ipc_state \<Rightarrow> ipc_state" where
  "sysvipc_semop_timedout i s =
     update_cfg i (\<lambda>c. c\<lparr>semop_sops := [], wait_reason_of := WR_NOT_WAITING\<rparr>) s"

text \<open>The commands of \<open>semctl\<close>; the structure it writes for \<open>IPC_INFO\<close> is ten \<open>int\<close>s.\<close>

definition encode_u16 :: "u16 \<Rightarrow> 8 word list" where
  "encode_u16 v = [ucast v, ucast (drop_bit 8 v)]"

definition encode_int :: "int \<Rightarrow> 8 word list" where
  "encode_int v = (let w = word_of_int v :: u32 in
     [ucast w, ucast (drop_bit 8 w), ucast (drop_bit 16 w), ucast (drop_bit 24 w)])"

definition sem_wake_removed :: "nat \<Rightarrow> nat \<Rightarrow> ipc_state \<Rightarrow> ipc_state" where
  "sem_wake_removed index k s =
     (if wait_reason_of (cfg s k) = WR_WAIT_SEMOP \<and> waiting_object_index (cfg s k) = index
      then sysvipc_wake_tracee k (neg EIDRM) s else s)"

definition sem_rmid :: "nat \<Rightarrow> ipc_state \<Rightarrow> ipc_state" where
  "sem_rmid index s =
     (let s = foreach_tracee (sem_wake_removed index) s; x = semaphores s ! index in
      set_semaphore index (x\<lparr>valid := False, generation := generation x + 1, sems := []\<rparr>) s)"

definition sem_info :: "int \<Rightarrow> ipc_state \<Rightarrow> int list" where
  "sem_info cmd s =
     [0, int SYSVIPC_MAX_SEMS, int SYSVIPC_MAX_SEMS * SYSVIPC_MAX_NSEMS, 0, SYSVIPC_MAX_NSEMS,
      uint SYSVIPC_MAX_NSOPS, 0, (if cmd = 19 then int (length (semaphores s)) else 0), SYSVIPC_MAX_SEMVAL,
      (if cmd = 19 then sum_list (map nsems (semaphores s)) else 0)]"

definition sysvipc_semctl :: "ipc_env \<Rightarrow> nat \<Rightarrow> ipc_state \<Rightarrow> int \<times> ipc_state" where
  "sysvipc_semctl e i s =
     (case lookup_ipc_object (arg s i SYSARG_1) (semaphores s) of
        None \<Rightarrow> (neg EINVAL, s)
      | Some index \<Rightarrow>
          (let x = semaphores s ! index;
               semnum = c_int (arg s i SYSARG_2);
               cmd = c_int (arg s i SYSARG_3);
               command = sint ((ucast (arg s i SYSARG_3) :: u32) AND NOT 0x100);
               cmdarg = arg s i SYSARG_4 in
           if command = 12 then
             (if semnum < 0 \<or> semnum \<ge> nsems x then (neg EINVAL, s)
              else (uint (sems x ! nat semnum), s))
           else if command = 16 then
             (if uint cmdarg > SYSVIPC_MAX_SEMVAL then (neg ERANGE, s)
              else if semnum < 0 \<or> semnum \<ge> nsems x then (neg EINVAL, s)
              else (0, set_semaphore index (x\<lparr>sems := (sems x)[nat semnum := ucast cmdarg]\<rparr>) s))
           else if command = 13 then write_data e i cmdarg (concat (map encode_u16 (sems x))) s
           else if command = IPC_RMID then (0, sem_rmid index s)
           else if command = 3 \<or> command = 19 then
             write_data e i cmdarg (concat (map encode_int (sem_info cmd s))) s
           else (neg EINVAL, s)))"

section \<open>The arithmetic of a list of operations\<close>

text \<open>What the operations add to a semaphore.\<close>

definition sem_delta :: "sembuf list \<Rightarrow> nat \<Rightarrow> int" where
  "sem_delta sops k = sum_list (map (\<lambda>sop. if unat (sem_num sop) = k then sint (sem_op sop) else 0) sops)"

definition sems_ok :: "u16 list \<Rightarrow> bool" where
  "sems_ok xs \<longleftrightarrow> (\<forall>x \<in> set xs. uint x \<le> SYSVIPC_MAX_SEMVAL)"

lemma sem_check_loop_length: "sem_check_loop sops xs = (st, ys) \<Longrightarrow> length ys = length xs"
  by (induction sops xs rule: sem_check_loop.induct) (auto simp: Let_def split: if_splits)

lemma sem_check_loop_status:
  "sem_check_loop sops xs = (st, ys) \<Longrightarrow> st \<in> {0, 1, neg EAGAIN, neg ERANGE}"
  by (induction sops xs rule: sem_check_loop.induct) (auto simp: Let_def split: if_splits)

lemma sem_value: "0 \<le> v \<Longrightarrow> v \<le> SYSVIPC_MAX_SEMVAL \<Longrightarrow> uint (word_of_int v :: u16) = v"
  by (simp add: SYSVIPC_MAX_SEMVAL_def uint_word_of_int)

lemma sem_check_loop_done:
  assumes "sem_check_loop sops xs = (0, ys)" "\<forall>sop \<in> set sops. unat (sem_num sop) < length xs"
    and "sems_ok xs"
  shows "sems_ok ys \<and> (\<forall>k < length xs. uint (ys ! k) = uint (xs ! k) + sem_delta sops k)"
  using assms
proof (induction sops xs rule: sem_check_loop.induct)
  case (1 xs)
  then show ?case by (simp add: sem_delta_def)
next
  case (2 sop sops xs)
  let ?n = "unat (sem_num sop)" and ?op = "sint (sem_op sop)"
  show ?case
  proof (cases "?op = 0")
    case True
    with 2 show ?thesis
      by (auto simp: sem_delta_def Let_def neg_def split: if_splits)
  next
    case False
    let ?v = "uint (xs ! ?n) + ?op"
    let ?xs = "xs[?n := word_of_int ?v]"
    have r: "0 \<le> ?v" "?v \<le> SYSVIPC_MAX_SEMVAL" "sem_check_loop sops ?xs = (0, ys)"
      using "2.prems"(1) False by (auto simp: Let_def neg_def split: if_splits)
    have ok: "sems_ok ?xs"
      using "2.prems"(3) r sem_value [OF r(1,2)]
      by (auto simp: sems_ok_def dest!: set_update_subset_insert [THEN subsetD])
    have "sems_ok ys \<and> (\<forall>k < length ?xs. uint (ys ! k) = uint (?xs ! k) + sem_delta sops k)"
      using 2(2) [OF refl refl refl False refl] r ok "2.prems"(2) by (auto simp: not_less)
    then show ?thesis
      using "2.prems"(2) sem_value [OF r(1,2)] by (auto simp: sem_delta_def nth_list_update)
  qed
qed

section \<open>The invariant\<close>

definition sem_set_ok :: "semaphore \<Rightarrow> bool" where
  "sem_set_ok x \<longleftrightarrow> (valid x \<longrightarrow> int (length (sems x)) = nsems x \<and> sems_ok (sems x) \<and>
     0 < nsems x \<and> nsems x \<le> SYSVIPC_MAX_NSEMS)"

definition sem_waiter_ok :: "semaphore list \<Rightarrow> ipc_config \<Rightarrow> bool" where
  "sem_waiter_ok xs c \<longleftrightarrow> (wait_reason_of c = WR_WAIT_SEMOP \<longrightarrow>
     waiting_object_index c < length xs \<and> valid (xs ! waiting_object_index c) \<and>
     (\<forall>sop \<in> set (semop_sops c). unat (sem_num sop) < length (sems (xs ! waiting_object_index c))))"

text \<open>
  The sets are within the limits, and every operation of a waiting tracee addresses a semaphore that
  exists: \<open>sysvipc_sem_check\<close> never reads or writes outside its array.
\<close>

definition sem_inv :: "ipc_state \<Rightarrow> bool" where
  "sem_inv s \<longleftrightarrow> (\<forall>x \<in> set (semaphores s). sem_set_ok x) \<and> length (semaphores s) \<le> SYSVIPC_MAX_SEMS \<and>
     (\<forall>k < length (tasks s). sem_waiter_ok (semaphores s) (cfg s k))"

lemma unat_less_uint: "unat w < n \<longleftrightarrow> uint w < int n"
  by (simp only: uint_nat of_nat_less_iff)

lemma sem_check_ok:
  assumes "sysvipc_sem_check c x = (st, y)" "sem_set_ok x" "valid x"
    and "\<forall>sop \<in> set (semop_sops c). unat (sem_num sop) < length (sems x)"
  shows "sem_set_ok y \<and> valid y \<and> length (sems y) = length (sems x)"
  using assms sem_check_loop_done [of "semop_sops c" "sems x"] sem_check_loop_length [of "semop_sops c" "sems x"]
  by (auto simp: sysvipc_sem_check_def sem_set_ok_def split: prod.splits if_splits)

lemma sem_inv_set:
  assumes "sem_inv s" "index < length (semaphores s)" "sem_set_ok y" "valid y"
    and "length (sems y) = length (sems (semaphores s ! index))"
  shows "sem_inv (set_semaphore index y s)"
  using assms
  by (auto simp: sem_inv_def set_semaphore_def sem_waiter_ok_def nth_list_update
      dest!: set_update_subset_insert [THEN subsetD])

lemma sem_inv_cfg:
  assumes "sem_inv s" "sem_waiter_ok (semaphores s) (f (cfg s k))"
  shows "sem_inv (update_cfg k f s)"
  using assms by (auto simp: sem_inv_def)

lemma sem_inv_wake: "sem_inv s \<Longrightarrow> sem_inv (sysvipc_wake_tracee k st s)"
  by (auto simp: sem_inv_def cfg_wake sem_waiter_ok_def)

lemma cfg_set_semaphore [simp]:
  "cfg (set_semaphore index x s) = cfg s" "tasks (set_semaphore index x s) = tasks s"
  "semaphores (set_semaphore index x s) = (semaphores s)[index := x]"
  by (simp_all add: set_semaphore_def)

lemma sem_inv_waiter:
  assumes "sem_inv s" "k < length (tasks s)" "wait_reason_of (cfg s k) = WR_WAIT_SEMOP"
  shows "waiting_object_index (cfg s k) < length (semaphores s)"
    and "sem_set_ok (semaphores s ! waiting_object_index (cfg s k))"
    and "valid (semaphores s ! waiting_object_index (cfg s k))"
    and "\<forall>sop \<in> set (semop_sops (cfg s k)).
      unat (sem_num sop) < length (sems (semaphores s ! waiting_object_index (cfg s k)))"
  using assms by (auto simp: sem_inv_def sem_waiter_ok_def)

lemma sem_inv_try_wake:
  assumes "sem_inv s" "k < length (tasks s)"
  shows "sem_inv (sem_try_wake i index k s) \<and> length (tasks (sem_try_wake i index k s)) = length (tasks s)"
proof (cases "k \<noteq> i \<and> wait_reason_of (cfg s k) = WR_WAIT_SEMOP \<and> waiting_object_index (cfg s k) = index")
  case True
  obtain st y where c: "sysvipc_sem_check (cfg s k) (semaphores s ! index) = (st, y)" by fastforce
  note w = sem_inv_waiter [OF assms]
  have "sem_inv (set_semaphore index y s)"
    using True w sem_check_ok [OF c] by (intro sem_inv_set assms(1)) auto
  moreover have "sem_waiter_ok (semaphores (set_semaphore index y s)) ((cfg s k)\<lparr>semop_sops := []\<rparr>)"
    using True w sem_check_ok [OF c] by (auto simp: sem_waiter_ok_def nth_list_update)
  ultimately have "sem_inv (update_cfg k (\<lambda>c. c\<lparr>semop_sops := []\<rparr>) (set_semaphore index y s))"
    by (intro sem_inv_cfg) simp_all
  with True c show ?thesis using assms(1) by (auto simp: sem_try_wake_def sem_inv_wake)
qed (use assms in \<open>auto simp: sem_try_wake_def\<close>)

lemma foreach_sem_inv:
  assumes "sem_inv s"
  shows "sem_inv (foreach_tracee (sem_try_wake i index) s) \<and>
    length (tasks (foreach_tracee (sem_try_wake i index) s)) = length (tasks s)"
  using sem_inv_try_wake by (intro foreach_invariant assms) auto

lemma semget_inv:
  assumes "sem_inv s"
  shows "sem_inv (snd (sysvipc_semget i s))"
proof -
  have new: "sem_set_ok (new_semaphore key n g)" if "0 < n" "n \<le> SYSVIPC_MAX_NSEMS" for key n g
    using that by (auto simp: sem_set_ok_def new_semaphore_def sems_ok_def SYSVIPC_MAX_SEMVAL_def)
  have app: "sem_inv (s\<lparr>semaphores := semaphores s @ [x]\<rparr>)"
    if "sem_set_ok x" "length (semaphores s) < SYSVIPC_MAX_SEMS" for x
    using assms that by (auto simp: sem_inv_def sem_waiter_ok_def nth_append)
  have upd: "sem_inv (s\<lparr>semaphores := (semaphores s)[j := x]\<rparr>)"
    if "sem_set_ok x" "\<not> valid (semaphores s ! j)" for j x
  proof -
    have "(semaphores s)[j := x] ! w = semaphores s ! w" if "valid (semaphores s ! w)" for w
      using that \<open>\<not> valid (semaphores s ! j)\<close> by (cases "w = j") auto
    then show ?thesis using assms that by (auto simp: sem_inv_def sem_waiter_ok_def
        dest!: set_update_subset_insert [THEN subsetD])
  qed
  have unused: "\<not> valid (semaphores s ! j)"
    if "ipc_scan (arg s i SYSARG_1) (semaphores s) 0 None = (None, Some j)" for j
    using ipc_scan_unused [OF that] by simp
  show ?thesis
    using assms app upd unused new
    by (auto simp: sysvipc_semget_def Let_def not_le not_less split: prod.splits option.splits)
qed

lemma sem_inv_fields [simp]:
  "sem_inv (s\<lparr>written := w\<rparr>) = sem_inv s" "sem_inv (s\<lparr>queues := q\<rparr>) = sem_inv s"
  "sem_inv (s\<lparr>shms := h\<rparr>) = sem_inv s" "sem_inv (s\<lparr>mappings := p\<rparr>) = sem_inv s"
  by (simp_all add: sem_inv_def)

lemma semop_inv:
  assumes "sem_inv s" "i < length (tasks s)"
  shows "sem_inv (snd (sysvipc_semop e i s))"
proof (cases "\<exists>index bytes. lookup_ipc_object (arg s i SYSARG_1) (semaphores s) = Some index \<and>
    read_data e i (arg s i SYSARG_2) (6 * unat (arg s i SYSARG_3)) = Inr bytes \<and>
    \<not> list_ex (\<lambda>sop. int (unat (sem_num sop)) \<ge> nsems (semaphores s ! index)) (decode_sops bytes)")
  case True
  then obtain index bytes where l: "lookup_ipc_object (arg s i SYSARG_1) (semaphores s) = Some index"
    and rd: "read_data e i (arg s i SYSARG_2) (6 * unat (arg s i SYSARG_3)) = Inr bytes"
    and ex: "\<not> list_ex (\<lambda>sop. int (unat (sem_num sop)) \<ge> nsems (semaphores s ! index)) (decode_sops bytes)"
    by blast
  note lk = lookup_Some [OF l]
  let ?s1 = "update_cfg i (\<lambda>c. c\<lparr>wait_reason_of := WR_WAIT_SEMOP, waiting_object_index := index,
    semop_sops := decode_sops bytes\<rparr>) s"
  have set: "sem_set_ok (semaphores s ! index)" using assms(1) lk(1) by (auto simp: sem_inv_def)
  then have r: "\<forall>sop \<in> set (decode_sops bytes). unat (sem_num sop) < length (sems (semaphores s ! index))"
    using ex lk(2) by (auto simp: list_ex_iff sem_set_ok_def not_le unat_less_uint)
  then have s1: "sem_inv ?s1"
    using assms lk by (intro sem_inv_cfg) (auto simp: sem_waiter_ok_def)
  obtain st y where c: "sysvipc_sem_check (cfg ?s1 i) (semaphores ?s1 ! index) = (st, y)" by fastforce
  have y: "sem_set_ok y \<and> valid y \<and> length (sems y) = length (sems (semaphores s ! index))"
    using sem_check_ok [OF c] set lk(2) r assms(2) by simp
  have "sem_inv (set_semaphore index y ?s1)"
    using s1 lk(1) y by (intro sem_inv_set) auto
  from foreach_sem_inv [OF this, of i index]
  have s2: "sem_inv (foreach_tracee (sem_try_wake i index) (set_semaphore index y ?s1))" by simp
  then have "sem_inv (update_cfg i (\<lambda>c. c\<lparr>semop_sops := [], wait_reason_of := WR_NOT_WAITING\<rparr>)
      (foreach_tracee (sem_try_wake i index) (set_semaphore index y ?s1)))"
    by (intro sem_inv_cfg) (auto simp: sem_waiter_ok_def)
  with assms s2 c l rd ex show ?thesis
    by (simp add: sysvipc_semop_def Let_def del: set_semaphore_def)
next
  case False
  with assms(1) show ?thesis
    by (auto simp: sysvipc_semop_def Let_def split: option.splits sum.splits)
qed

section \<open>Removal\<close>

definition waits_for_sem :: "nat \<Rightarrow> ipc_config \<Rightarrow> bool" where
  "waits_for_sem index c \<longleftrightarrow> wait_reason_of c = WR_WAIT_SEMOP \<and> waiting_object_index c = index"

lemma sem_wake_removed_simps [simp]:
  "length (tasks (sem_wake_removed index k s)) = length (tasks s)"
  "semaphores (sem_wake_removed index k s) = semaphores s"
  by (simp_all add: sem_wake_removed_def)

lemma cfg_sem_wake_removed:
  "cfg (sem_wake_removed index k s) j =
     (if j = k \<and> k < length (tasks s) \<and> waits_for_sem index (cfg s k)
      then cfg (sysvipc_wake_tracee k (neg EIDRM) s) k else cfg s j)"
  by (auto simp: sem_wake_removed_def waits_for_sem_def cfg_wake)

lemma removed_no_waiter:
  "j < length (tasks s) \<Longrightarrow> \<not> waits_for_sem index (cfg (foreach_tracee (sem_wake_removed index) s) j)"
  by (rule foreach_each [where R = "\<lambda>j t. \<not> waits_for_sem index (cfg t j)"])
    (auto simp: cfg_sem_wake_removed cfg_wake, auto simp: waits_for_sem_def cfg_wake)

lemma foreach_removed:
  assumes "sem_inv s"
  shows "(sem_inv (foreach_tracee (sem_wake_removed index) s) \<and>
      semaphores (foreach_tracee (sem_wake_removed index) s) = semaphores s) \<and>
    length (tasks (foreach_tracee (sem_wake_removed index) s)) = length (tasks s)"
  by (rule foreach_invariant [where P = "\<lambda>t. sem_inv t \<and> semaphores t = semaphores s"])
    (use assms in \<open>auto simp: sem_wake_removed_def sem_inv_wake\<close>)

lemma semaphores_foreach_removed [simp]:
  "semaphores (foreach_tracee (sem_wake_removed index) s) = semaphores s"
  "length (tasks (foreach_tracee (sem_wake_removed index) s)) = length (tasks s)"
proof -
  have "semaphores (foreach_tracee (sem_wake_removed index) s) = semaphores s \<and>
      length (tasks (foreach_tracee (sem_wake_removed index) s)) = length (tasks s)"
    by (rule foreach_invariant) auto
  then show "semaphores (foreach_tracee (sem_wake_removed index) s) = semaphores s"
    "length (tasks (foreach_tracee (sem_wake_removed index) s)) = length (tasks s)" by blast+
qed

lemma semaphores_rmid:
  "semaphores (sem_rmid index s) = (semaphores s)[index := (semaphores s ! index)
     \<lparr>valid := False, generation := generation (semaphores s ! index) + 1, sems := []\<rparr>]"
  by (simp add: sem_rmid_def Let_def)

interpretation sem_objects: ipc_objects semaphores sem_rmid
  by unfold_locales (auto simp: semaphores_rmid)

lemma rmid_inv:
  assumes "sem_inv s" "index < length (semaphores s)"
  shows "sem_inv (sem_rmid index s)"
proof -
  let ?t = "foreach_tracee (sem_wake_removed index) s"
  let ?x = "(semaphores s ! index)\<lparr>valid := False, generation := generation (semaphores s ! index) + 1, sems := []\<rparr>"
  have t: "sem_inv ?t" using foreach_removed [OF assms(1)] by blast
  have "sem_waiter_ok ((semaphores s)[index := ?x]) (cfg ?t k)" if k: "k < length (tasks s)" for k
  proof -
    have "\<not> waits_for_sem index (cfg ?t k)" using removed_no_waiter [OF k] .
    moreover have "sem_waiter_ok (semaphores s) (cfg ?t k)" using t k by (simp add: sem_inv_def)
    ultimately show ?thesis by (auto simp: sem_waiter_ok_def waits_for_sem_def nth_list_update)
  qed
  then show ?thesis
    using t by (auto simp: sem_inv_def sem_rmid_def Let_def sem_set_ok_def
        dest!: set_update_subset_insert [THEN subsetD])
qed

lemma sem_write_data: "sem_inv s \<Longrightarrow> sem_inv (snd (write_data e i a bytes s))"
  by (simp add: write_data_def)

lemma semctl_inv:
  assumes "sem_inv s"
  shows "sem_inv (snd (sysvipc_semctl e i s))"
proof (cases "lookup_ipc_object (arg s i SYSARG_1) (semaphores s)")
  case None
  with assms show ?thesis by (simp add: sysvipc_semctl_def)
next
  case (Some index)
  note l = lookup_Some [OF Some]
  let ?x = "semaphores s ! index"
  have x: "sem_set_ok ?x" using assms l(1) by (auto simp: sem_inv_def)
  have "sem_inv (set_semaphore index (?x\<lparr>sems := (sems ?x)[n := ucast w]\<rparr>) s)"
    if "uint w \<le> SYSVIPC_MAX_SEMVAL" for n and w :: word_t
  proof -
    have "uint (ucast w :: u16) = uint w"
      using that by (simp add: unsigned_ucast_eq take_bit_int_eq_self SYSVIPC_MAX_SEMVAL_def)
    then have "sems_ok ((sems ?x)[n := ucast w])"
      using x l(2) that by (auto simp: sem_set_ok_def sems_ok_def dest!: set_update_subset_insert [THEN subsetD])
    with x l show ?thesis by (intro sem_inv_set assms) (auto simp: sem_set_ok_def)
  qed
  moreover have "sem_inv (sem_rmid index s)" using rmid_inv assms l(1) by blast
  ultimately show ?thesis
    using Some assms sem_write_data [OF assms]
    by (simp add: sysvipc_semctl_def Let_def not_less)
qed

section \<open>Properties\<close>

text \<open>C23: A list of semaphore operations is atomic: it either applies all of them, so that every semaphore of the set
  changes by the sum of the operations on it and stays within the maximal value, or returns an error
  or the wait status and leaves the set as it was.\<close>

theorem sem_check_atomic:
  assumes "sysvipc_sem_check c x = (status, y)" "sems_ok (sems x)"
    and "\<forall>sop \<in> set (semop_sops c). unat (sem_num sop) < length (sems x)"
  shows "(status = 0 \<and> sems_ok (sems y) \<and>
      (\<forall>k < length (sems x). uint (sems y ! k) = uint (sems x ! k) + sem_delta (semop_sops c) k))
    \<or> (status \<in> {1, neg EAGAIN, neg ERANGE} \<and> y = x)"
proof -
  obtain st ys where l: "sem_check_loop (semop_sops c) (sems x) = (st, ys)" by fastforce
  show ?thesis
    using assms l sem_check_loop_status [OF l] sem_check_loop_done [of "semop_sops c" "sems x" ys]
    by (auto simp: sysvipc_sem_check_def split: if_splits)
qed

text \<open>C24: Every semaphore call keeps the invariant: the sets respect their limits and the operations of every
  waiting tracee stay inside the set it waits for, also when sets are removed and created while it
  waits.\<close>

theorem sem_calls_invariant:
  assumes "sem_inv s" "i < length (tasks s)"
  shows "sem_inv (snd (sysvipc_semget i s)) \<and> sem_inv (snd (sysvipc_semop e i s)) \<and>
    sem_inv (snd (sysvipc_semctl e i s)) \<and> sem_inv (sysvipc_semop_timedout i s)"
proof (intro conjI)
  show "sem_inv (sysvipc_semop_timedout i s)"
    unfolding sysvipc_semop_timedout_def by (intro sem_inv_cfg assms(1)) (simp add: sem_waiter_ok_def)
qed (simp_all add: assms semget_inv semop_inv semctl_inv)

text \<open>\<open>semctl(IPC_RMID)\<close> returns 0, kills the identifier, also for the case that the slot is taken
  again, leaves no tracee waiting for the set and gives every tracee that did the status \<open>-EIDRM\<close>; the
  other tracees and the other sets are not touched.\<close>

theorem semctl_removes:
  assumes "lookup_ipc_object (arg s i SYSARG_1) (semaphores s) = Some index"
    and "arg s i SYSARG_3 = 0 \<or> arg s i SYSARG_3 = 0x100"
    and "sysvipc_semctl e i s = (status, t)"
  shows "status = 0 \<and>
    (\<forall>y. generation y = generation (semaphores t ! index) \<longrightarrow>
      lookup_ipc_object (arg s i SYSARG_1) ((semaphores t)[index := y]) = None) \<and>
    (\<forall>a j. j \<noteq> index \<longrightarrow>
      (lookup_ipc_object a (semaphores t) = Some j \<longleftrightarrow> lookup_ipc_object a (semaphores s) = Some j)) \<and>
    (\<forall>k < length (tasks s). cfg t k =
      (if waits_for_sem index (cfg s k) then woken (neg EIDRM) (cfg s k) else cfg s k))"
proof -
  note l = lookup_Some [OF assms(1)]
  have "sint ((ucast (arg s i SYSARG_3) :: u32) AND NOT 0x100) = IPC_RMID"
    using assms(2) by (auto simp: IPC_RMID_def)
  then have t: "status = 0" "t = sem_rmid index s"
    using assms(1,3) by (auto simp: sysvipc_semctl_def IPC_RMID_def)
  have "cfg (sem_rmid index s) k =
      (if waits_for_sem index (cfg s k) then woken (neg EIDRM) (cfg s k) else cfg s k)"
    if "k < length (tasks s)" for k
  proof -
    have "cfg (sem_rmid index s) k = cfg (foreach_tracee (sem_wake_removed index) s) k"
      by (simp add: sem_rmid_def Let_def)
    also have "\<dots> = (\<lambda>c. if waits_for_sem index c then woken (neg EIDRM) c else c) (cfg s k)"
      by (rule foreach_pointwise) (auto simp: cfg_sem_wake_removed that)
    finally show ?thesis .
  qed
  then show ?thesis
    unfolding t using sem_objects.stale_identifier [OF assms(1)] sem_objects.others_kept [OF l(1)] by blast
qed

text \<open>A successful \<open>semget\<close> returns an identifier that the other calls accept and that names a set with the
  key and with at least the semaphores that were asked for.\<close>

theorem semget_identifier:
  assumes "sem_inv s" "\<forall>x \<in> set (semaphores s). 0 \<le> sint (generation x)"
    and "sysvipc_semget i s = (status, t)" "0 \<le> status"
  shows "\<exists>index. lookup_ipc_object (of_c_int status) (semaphores t) = Some index \<and>
    slot_key (semaphores t ! index) = ucast (arg s i SYSARG_1) \<and>
    c_int (arg s i SYSARG_2) \<le> nsems (semaphores t ! index)"
proof -
  have bound: "length (semaphores s) \<le> 512" using assms(1) by (simp add: sem_inv_def SYSVIPC_MAX_SEMS_def)
  have own: "lookup_ipc_object (of_c_int (IPC_OBJECT_ID j (objects ! j))) objects = Some j"
    if "j < length objects" "length objects \<le> 512" "valid (objects ! j)" "0 \<le> sint (generation (objects ! j))"
    for j and objects :: "semaphore list"
    using that by (intro lookup_own_id) auto
  have neg: "(0 \<le> neg err) = False" for err using neg_negative [of err] by simp
  obtain found unused where sc: "ipc_scan (arg s i SYSARG_1) (semaphores s) 0 None = (found, unused)"
    by fastforce
  show ?thesis
  proof (cases found)
    case (Some j)
    from ipc_scan_found [OF sc [unfolded Some]] have j: "j < length (semaphores s)" "valid (semaphores s ! j)"
        "slot_key (semaphores s ! j) = ucast (arg s i SYSARG_1)" by auto
    then show ?thesis
      using assms(2-4) sc Some bound neg
      by (intro exI [of _ j]) (auto simp: sysvipc_semget_def Let_def not_less own split: if_splits)
  next
    case None
    show ?thesis
    proof (cases unused)
      case None2: None
      let ?x = "new_semaphore (arg s i SYSARG_1) (c_int (arg s i SYSARG_2)) 0"
      let ?n = "length (semaphores s)"
      have "lookup_ipc_object (of_c_int (IPC_OBJECT_ID ?n ?x)) (semaphores s @ [?x]) = Some ?n"
        if "?n < 512" using own [of ?n "semaphores s @ [?x]"] that by (simp add: new_semaphore_def nth_append)
      then show ?thesis
        using assms(3,4) sc None None2 neg
        by (intro exI [of _ ?n]) (auto simp: sysvipc_semget_def Let_def new_semaphore_def
            SYSVIPC_MAX_SEMS_def split: if_splits)
    next
      case (Some j)
      from ipc_scan_unused [OF sc [unfolded None]] Some have j: "j < length (semaphores s)" by simp
      let ?x = "new_semaphore (arg s i SYSARG_1) (c_int (arg s i SYSARG_2)) (generation (semaphores s ! j))"
      have "lookup_ipc_object (of_c_int (IPC_OBJECT_ID j ?x)) ((semaphores s)[j := ?x]) = Some j"
        using own [of j "(semaphores s)[j := ?x]"] j bound assms(2) by (simp add: new_semaphore_def)
      then show ?thesis
        using assms(3,4) sc None Some neg j
        by (intro exI [of _ j]) (auto simp: sysvipc_semget_def Let_def new_semaphore_def split: if_splits)
    qed
  qed
qed

definition sem_op_of :: "nat \<Rightarrow> int \<Rightarrow> sembuf" where
  "sem_op_of n op = \<lparr>sem_num = of_nat n, sem_op = word_of_int op, sem_flg = 0\<rparr>"

definition sem_waiter :: "nat \<Rightarrow> sembuf list \<Rightarrow> ipc_task" where
  "sem_waiter p sops = (example_task p [1, 0, 1])\<lparr>task_cfg := (example_config p)
     \<lparr>wait_reason_of := WR_WAIT_SEMOP, wait_state_of := WSTATE_ENTERED_PPOLL, semop_sops := sops\<rparr>\<rparr>"

definition two_waiters :: ipc_state where
  "two_waiters = (example_ipc [example_task 0 [1, 0, 1], sem_waiter 1 [sem_op_of 1 (-1)],
     sem_waiter 2 [sem_op_of 0 (-1), sem_op_of 1 1]])
     \<lparr>semaphores := [new_semaphore 5 2 0]\<rparr>"

text \<open>A post can leave a tracee asleep whose operations have become possible: the waiting tracees are
  tried once, in the order of the list, and an operation that a later one of them completes is not
  offered again to the earlier ones.\<close>

theorem semop_loses_a_wakeup:
  "\<exists>s e i k. sem_inv s \<and> k < length (tasks s) \<and> fst (sysvipc_semop e i s) = 0 \<and>
     waits_for_sem 0 (cfg (snd (sysvipc_semop e i s)) k) \<and>
     fst (sysvipc_sem_check (cfg (snd (sysvipc_semop e i s)) k)
            (semaphores (snd (sysvipc_semop e i s)) ! 0)) = 0"
proof (intro exI conjI)
  let ?e = "example_machine [0, 0, 1, 0, 0, 0]"
  show "sem_inv two_waiters" by code_simp
  show "1 < length (tasks two_waiters)" by code_simp
  show "fst (sysvipc_semop ?e 0 two_waiters) = 0" by code_simp
  show "waits_for_sem 0 (cfg (snd (sysvipc_semop ?e 0 two_waiters)) 1)" by code_simp
  show "fst (sysvipc_sem_check (cfg (snd (sysvipc_semop ?e 0 two_waiters)) 1)
      (semaphores (snd (sysvipc_semop ?e 0 two_waiters)) ! 0)) = 0" by code_simp
qed

section \<open>Witnesses\<close>

lemma sem_check_witness:
  "fst (sysvipc_sem_check (task_cfg (sem_waiter 3 [sem_op_of 0 2, sem_op_of 0 (-1)])) (new_semaphore 5 2 0)) = 0 \<and>
   uint (sems (snd (sysvipc_sem_check (task_cfg (sem_waiter 3 [sem_op_of 0 2, sem_op_of 0 (-1)]))
      (new_semaphore 5 2 0))) ! 0) = 1"
proof -
  let ?c = "task_cfg (sem_waiter 3 [sem_op_of 0 2, sem_op_of 0 (-1)])"
  let ?x = "new_semaphore 5 2 0"
  have "fst (sysvipc_sem_check ?c ?x) = 0" by code_simp
  then obtain y where y: "sysvipc_sem_check ?c ?x = (0, y)" by (metis prod.collapse)
  moreover have "sems_ok (sems ?x)" by code_simp
  moreover have "\<forall>sop \<in> set (semop_sops ?c). unat (sem_num sop) < length (sems ?x)" by code_simp
  ultimately have "\<forall>k < length (sems ?x). uint (sems y ! k) = uint (sems ?x ! k) + sem_delta (semop_sops ?c) k"
    using sem_check_atomic [of ?c ?x 0 y] by (auto simp: neg_def)
  moreover have "0 < length (sems ?x)" "uint (sems ?x ! 0) + sem_delta (semop_sops ?c) 0 = 1" by code_simp+
  ultimately show ?thesis by (simp add: y)
qed

lemma sem_calls_witness: "sem_inv (snd (sysvipc_semop (example_machine [0, 0, 1, 0, 0, 0]) 0 two_waiters))"
proof -
  have "sem_inv two_waiters" "0 < length (tasks two_waiters)" by code_simp+
  then show ?thesis using sem_calls_invariant by blast
qed

definition removing :: ipc_state where
  "removing = (example_ipc [example_task 0 [1, 0, 0], sem_waiter 1 [sem_op_of 1 (-1)]])
     \<lparr>semaphores := [new_semaphore 5 2 0]\<rparr>"

lemma semctl_witness:
  "status_after_wait (cfg (snd (sysvipc_semctl (example_machine []) 0 removing)) 1) = of_c_int (neg EIDRM)"
proof -
  let ?r = "sysvipc_semctl (example_machine []) 0 removing"
  have "lookup_ipc_object (arg removing 0 SYSARG_1) (semaphores removing) = Some 0" by code_simp
  moreover have "arg removing 0 SYSARG_3 = 0 \<or> arg removing 0 SYSARG_3 = 0x100" by code_simp
  moreover have "?r = (fst ?r, snd ?r)" by simp
  ultimately have "\<forall>k < length (tasks removing). cfg (snd ?r) k =
      (if waits_for_sem 0 (cfg removing k) then woken (neg EIDRM) (cfg removing k) else cfg removing k)"
    using semctl_removes by blast
  moreover have "1 < length (tasks removing)" "waits_for_sem 0 (cfg removing 1)" by code_simp+
  ultimately show ?thesis by simp
qed

lemma semget_witness:
  "lookup_ipc_object 1 (semaphores (snd (sysvipc_semget 0 (example_ipc [example_task 0 [5, 2, 0x200]])))) \<noteq> None"
proof -
  let ?s = "example_ipc [example_task 0 [5, 2, 0x200]]"
  have "sem_inv ?s" "\<forall>x \<in> set (semaphores ?s). 0 \<le> sint (generation x)" by code_simp+
  moreover have f: "fst (sysvipc_semget 0 ?s) = 1" by code_simp
  moreover have "sysvipc_semget 0 ?s = (fst (sysvipc_semget 0 ?s), snd (sysvipc_semget 0 ?s))" by simp
  ultimately obtain j where "lookup_ipc_object (of_c_int (fst (sysvipc_semget 0 ?s)))
      (semaphores (snd (sysvipc_semget 0 ?s))) = Some j"
    using semget_identifier by force
  then show ?thesis unfolding f by (simp add: of_c_int_def)
qed

end
