(* ===== verification/Ipc_Msg.thy ===== *)
theory Ipc_Msg
  imports Ipc
begin

text \<open>
  Message queues, \<open>extension/sysvipc/sysvipc_msg.c\<close>: \<open>msgget\<close>, \<open>msgsnd\<close>, \<open>msgrcv\<close> with its retry after a
  wait, and \<open>msgctl\<close>; which message a receive takes, what a send does to the waiting receivers, the
  counters of a queue, and the assertion that a removal between a wake-up and its retry violates.
\<close>

section \<open>The code\<close>

definition SYSVIPC_MAX_MSG_SIZE :: word_t where "SYSVIPC_MAX_MSG_SIZE = 0xFFFF"
definition MSG_NOERROR :: u32 where "MSG_NOERROR = 0x1000"
definition MSG_EXCEPT :: u32 where "MSG_EXCEPT = 0x2000"
definition MSG_COPY :: u32 where "MSG_COPY = 0x4000"
definition MSG_NOWAIT :: u32 where "MSG_NOWAIT = 0x800"

definition new_queue :: "word_t \<Rightarrow> u16 \<Rightarrow> msg_queue" where
  "new_queue key gen =
     \<lparr>slot_key = ucast key, generation = gen, valid = True, items = [],
      msg_stats_of = \<lparr>msg_qnum = 0, msg_cbytes = 0, msg_qbytes = 1024 * 64, msg_lspid = 0,
        msg_lrpid = 0, msg_stime = 0, msg_rtime = 0\<rparr>\<rparr>"

definition sysvipc_msgget :: "nat \<Rightarrow> ipc_state \<Rightarrow> int \<times> ipc_state" where
  "sysvipc_msgget i s =
     (let queue_id = arg s i SYSARG_1; msgflg = arg s i SYSARG_2 in
      case ipc_scan queue_id (queues s) 0 None of
        (Some index, _) \<Rightarrow>
          if has_flag msgflg IPC_CREAT \<and> has_flag msgflg IPC_EXCL then (neg EEXIST, s)
          else (IPC_OBJECT_ID index (queues s ! index), s)
      | (None, unused) \<Rightarrow>
          if \<not> has_flag msgflg IPC_CREAT then (neg ENOENT, s)
          else
            (case unused of
               Some index \<Rightarrow>
                 (let q = new_queue queue_id (generation (queues s ! index)) in
                  (IPC_OBJECT_ID index q, s\<lparr>queues := (queues s)[index := q]\<rparr>))
             | None \<Rightarrow>
                 (let q = new_queue queue_id 0 in
                  (IPC_OBJECT_ID (length (queues s)) q, s\<lparr>queues := queues s @ [q]\<rparr>))))"

text \<open>
  \<open>sysvipc_msg_match\<close>: all three are \<open>int\<close>s. The negation of the smallest filter is undefined in C;
  here it wraps.
\<close>

definition c_neg :: "int \<Rightarrow> int" where
  "c_neg v = sint (- (word_of_int v) :: u32)"

definition sysvipc_msg_match :: "int \<Rightarrow> int \<Rightarrow> u32 \<Rightarrow> bool" where
  "sysvipc_msg_match sender_type receiver_filter receiver_flag =
     (let matched = (receiver_filter = 0 \<or> sender_type = receiver_filter \<or>
          (receiver_filter < 0 \<and> sender_type \<le> c_neg receiver_filter)) in
      if receiver_flag AND MSG_EXCEPT \<noteq> 0 then \<not> matched else matched)"

definition set_queue :: "nat \<Rightarrow> (msg_queue \<Rightarrow> msg_queue) \<Rightarrow> ipc_state \<Rightarrow> ipc_state" where
  "set_queue index f s = s\<lparr>queues := (queues s)[index := f (queues s ! index)]\<rparr>"

definition update_stats :: "(msg_stats \<Rightarrow> msg_stats) \<Rightarrow> msg_queue \<Rightarrow> msg_queue" where
  "update_stats f q = q\<lparr>msg_stats_of := f (msg_stats_of q)\<rparr>"

text \<open>A \<open>long\<close> in memory.\<close>

definition encode_long :: "word_t \<Rightarrow> 8 word list" where
  "encode_long w = map (\<lambda>k. ucast (drop_bit (8 * k) w)) [0..<8]"

definition decode_long :: "8 word list \<Rightarrow> word_t" where
  "decode_long bytes = foldr (\<lambda>b w. ucast b OR push_bit 8 w) bytes 0"

definition sysvipc_msg_deliver ::
  "ipc_env \<Rightarrow> nat \<Rightarrow> nat \<Rightarrow> msg_item \<Rightarrow> int \<Rightarrow> ipc_state \<Rightarrow> int \<times> ipc_state" where
  "sysvipc_msg_deliver e i index msg delivery_time s =
     (let c = cfg s i; msgsz = unat (msgrcv_msgsz c) in
      if length (mtext msg) > msgsz \<and> msgrcv_msgflg c AND MSG_NOERROR = 0 then (neg E2BIG, s)
      else
        (let msgsz = (if length (mtext msg) > msgsz then msgsz else length (mtext msg));
             (status, s) = write_data e i (msgrcv_msgp c) (encode_long (mtype msg)) s in
         if status < 0 then (status, s)
         else
           (let (status, s) = write_data e i (msgrcv_msgp c + 8) (take msgsz (mtext msg)) s in
            if status < 0 then (status, s)
            else (int msgsz, set_queue index (update_stats (\<lambda>st. st\<lparr>
                    msg_lrpid := task_pid (tasks s ! i), msg_rtime := delivery_time\<rparr>)) s))))"

text \<open>The first waiting receiver that takes the message.\<close>

definition receives :: "nat \<Rightarrow> msg_item \<Rightarrow> ipc_config \<Rightarrow> bool" where
  "receives index item c \<longleftrightarrow> wait_reason_of c = WR_WAIT_QUEUE_RECV \<and> waiting_object_index c = index \<and>
     sysvipc_msg_match (c_int (mtype item)) (msgrcv_msgtyp c) (msgrcv_msgflg c)"

definition wake_receiver :: "nat \<Rightarrow> msg_item \<Rightarrow> ipc_state \<Rightarrow> ipc_state" where
  "wake_receiver index item s =
     (case List.find (\<lambda>k. receives index item (cfg s k)) [0..<length (tasks s)] of
        None \<Rightarrow> s
      | Some k \<Rightarrow> sysvipc_wake_tracee k (neg EAGAIN)
                   (update_cfg k (\<lambda>c. c\<lparr>chain_state_of := CSTATE_MSGRCV_RETRY\<rparr>) s))"

definition sysvipc_msgsnd :: "ipc_env \<Rightarrow> nat \<Rightarrow> ipc_state \<Rightarrow> int \<times> ipc_state" where
  "sysvipc_msgsnd e i s =
     (case lookup_ipc_object (arg s i SYSARG_1) (queues s) of
        None \<Rightarrow> (neg EINVAL, s)
      | Some index \<Rightarrow>
          (let msgp = arg s i SYSARG_2; msgsz = arg s i SYSARG_3 in
           if msgsz > SYSVIPC_MAX_MSG_SIZE then (neg EINVAL, s)
           else
             (case read_data e i msgp 8 of
                Inl err \<Rightarrow> (neg err, s)
              | Inr bytes \<Rightarrow>
                  if sint (decode_long bytes) < 1 then (neg EINVAL, s)
                  else
                    (case read_data e i (msgp + 8) (unat msgsz) of
                       Inl err \<Rightarrow> (neg err, s)
                     | Inr text \<Rightarrow>
                         (let item = \<lparr>mtype = decode_long bytes, mtext = text\<rparr>;
                              s = set_queue index (update_stats (\<lambda>st. st\<lparr>
                                    msg_lspid := task_pid (tasks s ! i),
                                    msg_stime := current_time e\<rparr>)) s;
                              s = wake_receiver index item s;
                              s = set_queue index (\<lambda>q. q\<lparr>items := items q @ [item]\<rparr>) s in
                          (0, set_queue index (update_stats (\<lambda>st. st\<lparr>
                                msg_qnum := msg_qnum st + 1,
                                msg_cbytes := msg_cbytes st + of_nat (length text)\<rparr>)) s))))))"

text \<open>The position of the first message in a queue that a search accepts.\<close>

fun msg_search :: "(nat \<Rightarrow> msg_item \<Rightarrow> bool) \<Rightarrow> nat \<Rightarrow> msg_item list \<Rightarrow> nat option" where
  "msg_search accept index [] = None"
| "msg_search accept index (item # queue_items) =
     (if accept index item then Some index else msg_search accept (Suc index) queue_items)"

definition sysvipc_do_msgrcv :: "ipc_env \<Rightarrow> nat \<Rightarrow> nat \<Rightarrow> ipc_state \<Rightarrow> int \<times> ipc_state" where
  "sysvipc_do_msgrcv e i index s =
     (let c = cfg s i; flags = msgrcv_msgflg c; copying = (flags AND MSG_COPY \<noteq> 0) in
      if c_int (msgrcv_msgsz c) < 0 then (neg EINVAL, s)
      else if flags AND NOT (MSG_NOWAIT OR MSG_NOERROR OR MSG_COPY OR MSG_EXCEPT) \<noteq> 0 then (neg EINVAL, s)
      else if copying \<and> (flags AND MSG_NOWAIT = 0 \<or> flags AND MSG_EXCEPT \<noteq> 0) then (neg EINVAL, s)
      else
        (case msg_search (if copying then (\<lambda>k item. int k = msgrcv_msgtyp c)
                else (\<lambda>k item. sysvipc_msg_match (c_int (mtype item)) (msgrcv_msgtyp c) flags))
              0 (items (queues s ! index)) of
           None \<Rightarrow>
             if flags AND MSG_NOWAIT \<noteq> 0 then (neg ENOMSG, s)
             else (0, update_cfg i (\<lambda>c. c\<lparr>wait_reason_of := WR_WAIT_QUEUE_RECV,
                                          waiting_object_index := index\<rparr>) s)
         | Some k \<Rightarrow>
             (let item = items (queues s ! index) ! k;
                  (status, s) = sysvipc_msg_deliver e i index item (current_time e) s in
              if status \<ge> 0 \<and> \<not> copying then
                (status, set_queue index (\<lambda>q. update_stats (\<lambda>st. st\<lparr>
                    msg_qnum := msg_qnum st - 1,
                    msg_cbytes := msg_cbytes st - of_nat (length (mtext item))\<rparr>)
                    (q\<lparr>items := take k (items q) @ drop (Suc k) (items q)\<rparr>)) s)
              else (status, s))))"

definition sysvipc_msgrcv :: "ipc_env \<Rightarrow> nat \<Rightarrow> ipc_state \<Rightarrow> int \<times> ipc_state" where
  "sysvipc_msgrcv e i s =
     (case lookup_ipc_object (arg s i SYSARG_1) (queues s) of
        None \<Rightarrow> (neg EINVAL, s)
      | Some index \<Rightarrow>
          sysvipc_do_msgrcv e i index
            (update_cfg i (\<lambda>c. c\<lparr>msgrcv_msgp := arg s i SYSARG_2, msgrcv_msgsz := arg s i SYSARG_3,
               msgrcv_msgtyp := c_int (arg s i SYSARG_4), msgrcv_msgflg := ucast (arg s i SYSARG_5)\<rparr>) s))"

text \<open>\<open>sysvipc_msgrcv_retry\<close>; \<open>None\<close> is a failed assertion, which ends the program.\<close>

definition sysvipc_msgrcv_retry :: "ipc_env \<Rightarrow> nat \<Rightarrow> ipc_state \<Rightarrow> (int \<times> ipc_state) option" where
  "sysvipc_msgrcv_retry e i s =
     (let c = cfg s i; status = c_int (status_after_wait c);
          unchain = update_cfg i (\<lambda>c. c\<lparr>chain_state_of := CSTATE_NOT_CHAINED\<rparr>) in
      if chain_state_of c \<noteq> CSTATE_MSGRCV_RETRY then None
      else if status = neg EAGAIN then
        (let index = waiting_object_index c in
         if \<not> index < length (queues s) \<or> \<not> valid (queues s ! index) then None
         else
           (let (status, s) = sysvipc_do_msgrcv e i index s in
            if wait_reason_of (cfg s i) \<noteq> WR_NOT_WAITING then
              Some (neg EINTR, unchain (update_cfg i (\<lambda>c. c\<lparr>wait_reason_of := WR_NOT_WAITING\<rparr>) s))
            else Some (status, unchain s)))
      else Some (status, unchain s))"

definition waits_for_msg :: "nat \<Rightarrow> ipc_config \<Rightarrow> bool" where
  "waits_for_msg index c \<longleftrightarrow> wait_reason_of c = WR_WAIT_QUEUE_RECV \<and> waiting_object_index c = index"

definition msg_wake_removed :: "nat \<Rightarrow> nat \<Rightarrow> ipc_state \<Rightarrow> ipc_state" where
  "msg_wake_removed index k s =
     (if waits_for_msg index (cfg s k) then sysvipc_wake_tracee k (neg EIDRM) s else s)"

definition msg_rmid :: "nat \<Rightarrow> ipc_state \<Rightarrow> ipc_state" where
  "msg_rmid index s =
     set_queue index (\<lambda>q. q\<lparr>valid := False, generation := generation q + 1, items := []\<rparr>)
       (foreach_tracee (msg_wake_removed index) s)"

definition sysvipc_msgctl :: "ipc_env \<Rightarrow> nat \<Rightarrow> ipc_state \<Rightarrow> int \<times> ipc_state" where
  "sysvipc_msgctl e i s =
     (case lookup_ipc_object (arg s i SYSARG_1) (queues s) of
        None \<Rightarrow> (neg EINVAL, s)
      | Some index \<Rightarrow>
          (let cmd = c_int (arg s i SYSARG_2); buf = arg s i SYSARG_3 in
           if cmd = IPC_RMID \<or> cmd = SYSVIPC_IPC_64 then (0, msg_rmid index s)
           else if cmd = IPC_STAT \<or> cmd = IPC_STAT + SYSVIPC_IPC_64 then
             write_data e i buf (msqid_bytes e (msg_stats_of (queues s ! index))) s
           else (neg EINVAL, s)))"

section \<open>What the steps change\<close>

lemma set_queue_simps [simp]:
  "queues (set_queue index f s) = (queues s)[index := f (queues s ! index)]"
  "tasks (set_queue index f s) = tasks s" "cfg (set_queue index f s) = cfg s"
  "semaphores (set_queue index f s) = semaphores s" "shms (set_queue index f s) = shms s"
  "mappings (set_queue index f s) = mappings s" "written (set_queue index f s) = written s"
  by (simp_all add: set_queue_def)

lemma update_stats_simps [simp]:
  "items (update_stats f q) = items q" "valid (update_stats f q) = valid q"
  "generation (update_stats f q) = generation q" "slot_key (update_stats f q) = slot_key q"
  "msg_stats_of (update_stats f q) = f (msg_stats_of q)"
  by (simp_all add: update_stats_def)

lemma wake_receiver_simps [simp]:
  "queues (wake_receiver index item s) = queues s" "semaphores (wake_receiver index item s) = semaphores s"
  "shms (wake_receiver index item s) = shms s" "mappings (wake_receiver index item s) = mappings s"
  "length (tasks (wake_receiver index item s)) = length (tasks s)"
  by (simp_all add: wake_receiver_def split: option.split)

lemma find_upt_Some:
  "List.find P [0..<n] = Some k \<longleftrightarrow> k < n \<and> P k \<and> (\<forall>j<k. \<not> P j)"
  by (auto simp: find_Some_iff)

lemma arg_set_queue [simp]: "arg (set_queue index f s) = arg s"
  by (simp add: set_queue_def)

lemma arg_msgsnd: "arg (snd (sysvipc_msgsnd e i s)) k r = arg s k r"
  by (simp add: sysvipc_msgsnd_def Let_def wake_receiver_def split: option.split sum.split)

text \<open>The search of a message.\<close>

lemma msg_search_Some:
  assumes "msg_search accept n xs = Some k"
  shows "\<exists>pre x post. xs = pre @ x # post \<and> k = n + length pre \<and> accept k x \<and>
    (\<forall>j < length pre. \<not> accept (n + j) (pre ! j))"
  using assms
proof (induction xs arbitrary: n)
  case (Cons y ys)
  show ?case
  proof (cases "accept n y")
    case True
    with Cons.prems show ?thesis by (intro exI [of _ "[]"]) auto
  next
    case False
    with Cons.prems have "msg_search accept (Suc n) ys = Some k" by simp
    from Cons.IH [OF this] obtain pre x post where
      "ys = pre @ x # post" "k = Suc n + length pre" "accept k x"
      "\<forall>j < length pre. \<not> accept (Suc n + j) (pre ! j)" by blast
    with False show ?thesis
      by (intro exI [of _ "y # pre"]) (auto simp: nth_Cons split: nat.split)
  qed
qed simp

lemma msg_search_None:
  "msg_search accept n xs = None \<longleftrightarrow> (\<forall>j < length xs. \<not> accept (n + j) (xs ! j))"
  by (induction xs arbitrary: n) (auto simp: nth_Cons less_Suc_eq_0_disj split: nat.splits)

text \<open>The delivery: on success the type and the text are written, on failure no queue changes.\<close>

lemma write_data_simps [simp]:
  "queues (snd (write_data e i a bytes s)) = queues s" "tasks (snd (write_data e i a bytes s)) = tasks s"
  "cfg (snd (write_data e i a bytes s)) = cfg s" "semaphores (snd (write_data e i a bytes s)) = semaphores s"
  by (simp_all add: write_data_def)

lemma deliver_done:
  assumes "sysvipc_msg_deliver e i index msg time s = (n, t)" "0 \<le> n"
  shows "n = int (min (unat (msgrcv_msgsz (cfg s i))) (length (mtext msg)))"
    and "written t = written s @ [(i, msgrcv_msgp (cfg s i), encode_long (mtype msg)),
           (i, msgrcv_msgp (cfg s i) + 8, take (nat n) (mtext msg))]"
    and "\<exists>f. (\<forall>st. msg_qnum (f st) = msg_qnum st \<and> msg_cbytes (f st) = msg_cbytes st) \<and>
           queues t = (queues s)[index := update_stats f (queues s ! index)]"
    and "cfg t = cfg s"
proof -
  obtain m where m: "unat (msgrcv_msgsz (cfg s i)) = m" by blast
  note d = assms [unfolded sysvipc_msg_deliver_def Let_def write_data_def m]
  show "n = int (min (unat (msgrcv_msgsz (cfg s i))) (length (mtext msg)))"
    "written t = written s @ [(i, msgrcv_msgp (cfg s i), encode_long (mtype msg)),
       (i, msgrcv_msgp (cfg s i) + 8, take (nat n) (mtext msg))]" "cfg t = cfg s"
    unfolding m using d by (auto simp: neg_signs min_def split: if_splits)
  show "\<exists>f. (\<forall>st. msg_qnum (f st) = msg_qnum st \<and> msg_cbytes (f st) = msg_cbytes st) \<and>
      queues t = (queues s)[index := update_stats f (queues s ! index)]"
    using d
    by (intro exI [of _ "\<lambda>st. st\<lparr>msg_lrpid := task_pid (tasks s ! i), msg_rtime := time\<rparr>"])
      (auto simp: neg_signs split: if_splits)
qed

lemma deliver_failed:
  assumes "sysvipc_msg_deliver e i index msg time s = (n, t)" "n < 0"
  shows "queues t = queues s" "cfg t = cfg s"
  using assms
  by (auto simp: sysvipc_msg_deliver_def Let_def write_data_def neg_signs split: if_splits)

lemma deliver_tasks:
  "sysvipc_msg_deliver e i index msg time s = (n, t) \<Longrightarrow> tasks t = tasks s \<and> semaphores t = semaphores s"
  by (auto simp: sysvipc_msg_deliver_def Let_def write_data_def split: if_splits)

section \<open>What a receive takes\<close>

text \<open>The message that a receive without \<open>MSG_COPY\<close> looks for.\<close>

definition wanted :: "ipc_config \<Rightarrow> msg_item \<Rightarrow> bool" where
  "wanted c item \<longleftrightarrow> sysvipc_msg_match (c_int (mtype item)) (msgrcv_msgtyp c) (msgrcv_msgflg c)"

lemma do_msgrcv_done:
  assumes "sysvipc_do_msgrcv e i index s = (n, t)" "0 \<le> n" "i < length (tasks s)"
    and "msgrcv_msgflg (cfg s i) AND MSG_COPY = 0" "wait_reason_of (cfg t i) = WR_NOT_WAITING"
    and "index < length (queues s)"
  shows "\<exists>pre item post. items (queues s ! index) = pre @ item # post \<and> wanted (cfg s i) item \<and>
    (\<forall>x \<in> set pre. \<not> wanted (cfg s i) x) \<and> items (queues t ! index) = pre @ post \<and>
    msg_qnum (msg_stats_of (queues t ! index)) = msg_qnum (msg_stats_of (queues s ! index)) - 1 \<and>
    msg_cbytes (msg_stats_of (queues t ! index)) =
      msg_cbytes (msg_stats_of (queues s ! index)) - of_nat (length (mtext item)) \<and>
    n = int (min (unat (msgrcv_msgsz (cfg s i))) (length (mtext item))) \<and>
    written t = written s @ [(i, msgrcv_msgp (cfg s i), encode_long (mtype item)),
      (i, msgrcv_msgp (cfg s i) + 8, take (nat n) (mtext item))] \<and> cfg t = cfg s \<and>
    (\<exists>q. queues t = (queues s)[index := q] \<and> valid q = valid (queues s ! index))"
proof -
  let ?c = "cfg s i" and ?q = "queues s ! index"
  note d = assms(1) [unfolded sysvipc_do_msgrcv_def Let_def]
  obtain k where k: "msg_search (\<lambda>k. wanted ?c) 0 (items ?q) = Some k"
  proof (cases "msg_search (\<lambda>k. wanted ?c) 0 (items ?q)")
    case None
    then show thesis using d assms(2-5) by (auto simp: wanted_def [abs_def] neg_signs split: if_split_asm)
  qed (use that in blast)
  let ?item = "items ?q ! k"
  obtain st u where u: "sysvipc_msg_deliver e i index ?item (current_time e) s = (st, u)" by fastforce
  have st: "0 \<le> st" "n = st" and t: "t = set_queue index (\<lambda>q. update_stats (\<lambda>st. st\<lparr>
        msg_qnum := msg_qnum st - 1, msg_cbytes := msg_cbytes st - of_nat (length (mtext ?item))\<rparr>)
        (q\<lparr>items := take k (items q) @ drop (Suc k) (items q)\<rparr>)) u"
    using d assms(2,4) k u by (auto simp: wanted_def [abs_def] neg_signs split: if_split_asm)
  note del = deliver_done [OF u st(1)]
  from msg_search_Some [OF k] obtain pre x post where
    x: "items ?q = pre @ x # post" "k = length pre" "wanted ?c x" "\<forall>j < length pre. \<not> wanted ?c (pre ! j)"
    by auto
  from del(3) obtain f where f: "\<And>z. msg_qnum (f z) = msg_qnum z" "\<And>z. msg_cbytes (f z) = msg_cbytes z"
      "queues u = (queues s)[index := update_stats f ?q]" by blast
  have "?item = x" using x(1,2) by simp
  moreover have "\<forall>y \<in> set pre. \<not> wanted ?c y" using x(4) by (metis in_set_conv_nth)
  ultimately show ?thesis
    using x del f assms(6) t st(2) by (intro exI [of _ pre] exI [of _ x] exI [of _ post]) auto
qed

lemma do_msgrcv_wait:
  assumes "sysvipc_do_msgrcv e i index s = (n, t)" "n < 0 \<or> wait_reason_of (cfg t i) \<noteq> WR_NOT_WAITING"
    and "wait_reason_of (cfg s i) = WR_NOT_WAITING" "i < length (tasks s)"
  shows "queues t = queues s \<and> (if n < 0 then cfg t = cfg s
    else n = 0 \<and> waits_for_msg index (cfg t i) \<and> msgrcv_msgflg (cfg s i) AND MSG_NOWAIT = 0 \<and>
      (\<forall>item \<in> set (items (queues s ! index)). \<not> wanted (cfg s i) item))"
proof -
  let ?c = "cfg s i" and ?q = "queues s ! index"
  note d = assms(1) [unfolded sysvipc_do_msgrcv_def Let_def]
  define r where "r = msg_search (if msgrcv_msgflg ?c AND MSG_COPY \<noteq> 0 then (\<lambda>k item. int k = msgrcv_msgtyp ?c)
      else (\<lambda>k. wanted ?c)) 0 (items ?q)"
  note d = d [folded wanted_def [abs_def], folded wanted_def, folded r_def]
  show ?thesis
  proof (cases r)
    case None
    have "\<not> wanted ?c item" if "msgrcv_msgflg ?c AND MSG_COPY = 0" "item \<in> set (items ?q)" for item
      using None that msg_search_None [of "\<lambda>k. wanted ?c" 0 "items ?q"]
      by (auto simp: r_def in_set_conv_nth)
    with None d assms(2-4) show ?thesis
      by (auto simp: neg_signs waits_for_msg_def split: if_split_asm)
  next
    case (Some k)
    obtain st u where u: "sysvipc_msg_deliver e i index (items ?q ! k) (current_time e) s = (st, u)" by fastforce
    show ?thesis
    proof (cases "0 \<le> st")
      case True
      then have "cfg u = cfg s" using deliver_done(4) [OF u] by simp
      with True d Some u assms(2,3) show ?thesis by (auto simp: neg_signs split: if_split_asm)
    next
      case False
      then have "st < 0" by simp
      from deliver_failed [OF u this] this d Some u assms(2,3) show ?thesis
        by (auto simp: neg_signs split: if_split_asm)
    qed
  qed
qed

section \<open>The counters of a queue\<close>

definition queue_ok :: "msg_queue \<Rightarrow> bool" where
  "queue_ok q \<longleftrightarrow> (valid q \<longrightarrow> msg_qnum (msg_stats_of q) = of_nat (length (items q)) \<and>
     msg_cbytes (msg_stats_of q) = of_nat (sum_list (map (\<lambda>m. length (mtext m)) (items q))))"

definition msg_inv :: "ipc_state \<Rightarrow> bool" where
  "msg_inv s \<longleftrightarrow> (\<forall>q \<in> set (queues s). queue_ok q)"

lemma msg_inv_set:
  "msg_inv s \<Longrightarrow> queues t = (queues s)[index := q] \<Longrightarrow> queue_ok q \<Longrightarrow> msg_inv t"
  by (auto simp: msg_inv_def dest!: set_update_subset_insert [THEN subsetD])

lemma msg_inv_same: "msg_inv s \<Longrightarrow> queues t = queues s \<Longrightarrow> msg_inv t"
  by (simp add: msg_inv_def)

lemma new_queue_ok: "queue_ok (new_queue key gen)"
  by (simp add: queue_ok_def new_queue_def)

lemma msgget_inv: "msg_inv s \<Longrightarrow> msg_inv (snd (sysvipc_msgget i s))"
  by (auto simp: sysvipc_msgget_def Let_def msg_inv_def new_queue_ok
      dest!: set_update_subset_insert [THEN subsetD] split: prod.split option.split)

text \<open>Which tracee a send wakes, and everything a send changes.\<close>

lemma cfg_wake_receiver:
  "cfg (wake_receiver index item s) j =
     (if j < length (tasks s) \<and> receives index item (cfg s j) \<and> (\<forall>k<j. \<not> receives index item (cfg s k))
      then woken (neg EAGAIN) ((cfg s j)\<lparr>chain_state_of := CSTATE_MSGRCV_RETRY\<rparr>) else cfg s j)"
proof (cases "List.find (\<lambda>k. receives index item (cfg s k)) [0..<length (tasks s)]")
  case None
  then have "wake_receiver index item s = s" by (simp add: wake_receiver_def)
  with None show ?thesis by (auto simp: find_None_iff)
next
  case (Some k)
  from Some [unfolded find_upt_Some] Some show ?thesis
    by (cases j k rule: linorder_cases) (auto simp: wake_receiver_def)
qed

definition queued :: "msg_item \<Rightarrow> msg_queue \<Rightarrow> msg_queue \<Rightarrow> bool" where
  "queued item q q' \<longleftrightarrow> items q' = items q @ [item] \<and> valid q' = valid q \<and> generation q' = generation q \<and>
     msg_qnum (msg_stats_of q') = msg_qnum (msg_stats_of q) + 1 \<and>
     msg_cbytes (msg_stats_of q') = msg_cbytes (msg_stats_of q) + of_nat (length (mtext item))"

lemma msgsnd_done:
  assumes "sysvipc_msgsnd e i s = (n, t)" "lookup_ipc_object (arg s i SYSARG_1) (queues s) = Some index"
  shows "n < 0 \<and> t = s \<or> n = 0 \<and> (\<exists>bytes text item q.
    read_data e i (arg s i SYSARG_2) 8 = Inr bytes \<and>
    read_data e i (arg s i SYSARG_2 + 8) (unat (arg s i SYSARG_3)) = Inr text \<and>
    item = \<lparr>mtype = decode_long bytes, mtext = text\<rparr> \<and> 1 \<le> sint (mtype item) \<and>
    queued item (queues s ! index) q \<and> queues t = (queues s)[index := q] \<and>
    cfg t = cfg (wake_receiver index item s) \<and> length (tasks t) = length (tasks s) \<and> written t = written s)"
proof -
  have w: "cfg (wake_receiver index item (set_queue index f s)) = cfg (wake_receiver index item s)"
    for item f by (auto simp: fun_eq_iff cfg_wake_receiver)
  have wr: "written (wake_receiver index item u) = written u" for item u
    by (simp add: wake_receiver_def sysvipc_wake_tracee_def Let_def split: option.split wait_state.split)
  show ?thesis
    using assms lookup_Some(1) [OF assms(2)]
    by (auto simp: sysvipc_msgsnd_def Let_def queued_def w wr neg_signs not_less list_update_eq_iff split: if_splits sum.splits)
qed

lemma msgsnd_inv:
  assumes "msg_inv s"
  shows "msg_inv (snd (sysvipc_msgsnd e i s))"
proof (cases "lookup_ipc_object (arg s i SYSARG_1) (queues s)")
  case None
  with assms show ?thesis by (simp add: sysvipc_msgsnd_def)
next
  case (Some index)
  have q: "queue_ok (queues s ! index)" using assms lookup_Some(1) [OF Some] by (simp add: msg_inv_def)
  have "queue_ok q" if "queued item (queues s ! index) q" for item q
    using q that by (auto simp: queue_ok_def queued_def)
  moreover obtain n t where "sysvipc_msgsnd e i s = (n, t)" by fastforce
  ultimately show ?thesis
    using msgsnd_done [OF _ Some] assms by (fastforce intro: msg_inv_set)
qed

lemma do_msgrcv_inv:
  assumes "msg_inv s" "index < length (queues s)"
  shows "msg_inv (snd (sysvipc_do_msgrcv e i index s))"
proof -
  let ?c = "cfg s i" and ?q = "queues s ! index"
  define r where "r = msg_search (if msgrcv_msgflg ?c AND MSG_COPY \<noteq> 0 then (\<lambda>k item. int k = msgrcv_msgtyp ?c)
      else (\<lambda>k item. sysvipc_msg_match (c_int (mtype item)) (msgrcv_msgtyp ?c) (msgrcv_msgflg ?c))) 0 (items ?q)"
  note d = sysvipc_do_msgrcv_def [of e i index s, unfolded Let_def, folded r_def]
  show ?thesis
  proof (cases r)
    case None
    then show ?thesis using assms(1) by (auto simp: d elim!: msg_inv_same)
  next
    case (Some k)
    let ?item = "items ?q ! k"
    obtain st u where u: "sysvipc_msg_deliver e i index ?item (current_time e) s = (st, u)" by fastforce
    have "queue_ok ?q" using assms by (simp add: msg_inv_def)
    obtain pre x post where x: "items ?q = pre @ x # post" "k = length pre"
      using msg_search_Some [OF Some [unfolded r_def]] by auto
    have removed: "queue_ok (update_stats f2 (g (update_stats f1 ?q)))"
      if "g = (\<lambda>q. q\<lparr>items := take k (items q) @ drop (Suc k) (items q)\<rparr>)"
        "f2 = (\<lambda>st. st\<lparr>msg_qnum := msg_qnum st - 1, msg_cbytes := msg_cbytes st - of_nat (length (mtext ?item))\<rparr>)"
        "\<And>z. msg_qnum (f1 z) = msg_qnum z" "\<And>z. msg_cbytes (f1 z) = msg_cbytes z" for f1 f2 g
      using \<open>queue_ok ?q\<close> that x by (auto simp: queue_ok_def update_stats_def)
    have u_ok: "msg_inv u \<and> (0 \<le> st \<longrightarrow> msg_inv (set_queue index (\<lambda>q. update_stats (\<lambda>st. st\<lparr>
        msg_qnum := msg_qnum st - 1, msg_cbytes := msg_cbytes st - of_nat (length (mtext ?item))\<rparr>)
        (q\<lparr>items := take k (items q) @ drop (Suc k) (items q)\<rparr>)) u))"
    proof (cases "0 \<le> st")
      case True
      obtain f where f: "\<And>z. msg_qnum (f z) = msg_qnum z" "\<And>z. msg_cbytes (f z) = msg_cbytes z"
          "queues u = (queues s)[index := update_stats f ?q]"
        using deliver_done(3) [OF u True] by blast
      have "queue_ok (update_stats f ?q)" using \<open>queue_ok ?q\<close> f by (simp add: queue_ok_def)
      with f removed [OF refl refl f(1,2)] assms(2) show ?thesis
        by (auto intro!: msg_inv_set [OF assms(1)])
    next
      case False
      with assms(1) deliver_failed [OF u] show ?thesis by (auto elim!: msg_inv_same)
    qed
    show ?thesis using assms(1) Some u u_ok by (auto simp: d)
  qed
qed

lemma msgrcv_inv:
  assumes "msg_inv s"
  shows "msg_inv (snd (sysvipc_msgrcv e i s))"
proof (cases "lookup_ipc_object (arg s i SYSARG_1) (queues s)")
  case None
  with assms show ?thesis by (simp add: sysvipc_msgrcv_def)
next
  case (Some index)
  let ?u = "update_cfg i (\<lambda>c. c\<lparr>msgrcv_msgp := arg s i SYSARG_2, msgrcv_msgsz := arg s i SYSARG_3,
      msgrcv_msgtyp := c_int (arg s i SYSARG_4), msgrcv_msgflg := ucast (arg s i SYSARG_5)\<rparr>) s"
  have "msg_inv ?u" using assms by (rule msg_inv_same) simp
  with Some lookup_Some(1) [OF Some] show ?thesis
    by (simp add: sysvipc_msgrcv_def do_msgrcv_inv)
qed

lemma msgrcv_retry_inv:
  assumes "msg_inv s" "sysvipc_msgrcv_retry e i s = Some (n, t)"
  shows "msg_inv t"
proof -
  obtain st u where u: "sysvipc_do_msgrcv e i (waiting_object_index (cfg s i)) s = (st, u)" by fastforce
  show ?thesis
    using assms do_msgrcv_inv [OF assms(1), of "waiting_object_index (cfg s i)" e i] u
    by (auto simp: sysvipc_msgrcv_retry_def Let_def split: if_split_asm elim!: msg_inv_same)
qed

lemma queues_foreach_removed [simp]:
  "queues (foreach_tracee (msg_wake_removed index) s) = queues s"
  "length (tasks (foreach_tracee (msg_wake_removed index) s)) = length (tasks s)"
proof -
  have "queues (foreach_tracee (msg_wake_removed index) s) = queues s \<and>
      length (tasks (foreach_tracee (msg_wake_removed index) s)) = length (tasks s)"
    by (rule foreach_invariant) (auto simp: msg_wake_removed_def)
  then show "queues (foreach_tracee (msg_wake_removed index) s) = queues s"
    "length (tasks (foreach_tracee (msg_wake_removed index) s)) = length (tasks s)" by blast+
qed

lemma queues_rmid:
  "queues (msg_rmid index s) = (queues s)[index := (queues s ! index)
     \<lparr>valid := False, generation := generation (queues s ! index) + 1, items := []\<rparr>]"
  by (simp add: msg_rmid_def)

lemma cfg_msg_rmid:
  "k < length (tasks s) \<Longrightarrow> cfg (msg_rmid index s) k =
     (if waits_for_msg index (cfg s k) then woken (neg EIDRM) (cfg s k) else cfg s k)"
  unfolding msg_rmid_def set_queue_simps
  by (rule foreach_pointwise [where g = "\<lambda>c. if waits_for_msg index c then woken (neg EIDRM) c else c"])
    (auto simp: msg_wake_removed_def)

interpretation msg_objects: ipc_objects queues msg_rmid
  by unfold_locales (auto simp: queues_rmid)

lemma msg_rmid_inv: "msg_inv s \<Longrightarrow> msg_inv (msg_rmid index s)"
  by (rule msg_inv_set [OF _ queues_rmid]) (simp_all add: queue_ok_def)

lemma msgctl_inv: "msg_inv s \<Longrightarrow> msg_inv (snd (sysvipc_msgctl e i s))"
  by (simp add: sysvipc_msgctl_def Let_def msg_rmid_inv msg_inv_same split: option.split)

section \<open>Properties\<close>

text \<open>C25: A receive without \<open>MSG_COPY\<close> that returns a length takes the first message of the queue that matches
  its type filter: it removes that message and no other, keeps the order of the rest, writes its
  type and its text, cut to the size of the buffer, returns the length of what it wrote, and takes the
  message off the counters.\<close>

theorem msgrcv_takes_first:
  assumes "lookup_ipc_object (arg s i SYSARG_1) (queues s) = Some index" "i < length (tasks s)"
    and "ucast (arg s i SYSARG_5) AND MSG_COPY = 0"
    and "sysvipc_msgrcv e i s = (n, t)" "0 \<le> n" "wait_reason_of (cfg t i) = WR_NOT_WAITING"
  shows "\<exists>pre item post. items (queues s ! index) = pre @ item # post \<and>
    sysvipc_msg_match (c_int (mtype item)) (c_int (arg s i SYSARG_4)) (ucast (arg s i SYSARG_5)) \<and>
    (\<forall>x \<in> set pre. \<not> sysvipc_msg_match (c_int (mtype x)) (c_int (arg s i SYSARG_4)) (ucast (arg s i SYSARG_5))) \<and>
    items (queues t ! index) = pre @ post \<and>
    n = int (min (unat (arg s i SYSARG_3)) (length (mtext item))) \<and>
    written t = written s @ [(i, arg s i SYSARG_2, encode_long (mtype item)),
      (i, arg s i SYSARG_2 + 8, take (nat n) (mtext item))] \<and>
    msg_qnum (msg_stats_of (queues t ! index)) = msg_qnum (msg_stats_of (queues s ! index)) - 1"
proof -
  let ?f = "\<lambda>c. c\<lparr>msgrcv_msgp := arg s i SYSARG_2, msgrcv_msgsz := arg s i SYSARG_3,
               msgrcv_msgtyp := c_int (arg s i SYSARG_4), msgrcv_msgflg := ucast (arg s i SYSARG_5)\<rparr>"
  have "sysvipc_do_msgrcv e i index (update_cfg i ?f s) = (n, t)"
    using assms(1,4) by (simp add: sysvipc_msgrcv_def)
  from do_msgrcv_done [OF this assms(5) _ _ assms(6)] lookup_Some(1) [OF assms(1)] assms(2,3)
  show ?thesis by (auto simp: wanted_def)
qed

text \<open>A receive that fails leaves every queue as it was; one that decides to wait does so only when no
  message of the queue matches and \<open>IPC_NOWAIT\<close> is not given, and it also leaves the queues.\<close>

theorem msgrcv_waits_only_for_missing:
  assumes "lookup_ipc_object (arg s i SYSARG_1) (queues s) = Some index" "i < length (tasks s)"
    and "wait_reason_of (cfg s i) = WR_NOT_WAITING" "sysvipc_msgrcv e i s = (n, t)"
    and "n < 0 \<or> wait_reason_of (cfg t i) \<noteq> WR_NOT_WAITING"
  shows "queues t = queues s \<and> (if n < 0 then wait_reason_of (cfg t i) = WR_NOT_WAITING
    else n = 0 \<and> waits_for_msg index (cfg t i) \<and> ucast (arg s i SYSARG_5) AND MSG_NOWAIT = 0 \<and>
      (\<forall>item \<in> set (items (queues s ! index)). \<not> sysvipc_msg_match (c_int (mtype item))
         (c_int (arg s i SYSARG_4)) (ucast (arg s i SYSARG_5))))"
proof -
  let ?f = "\<lambda>c. c\<lparr>msgrcv_msgp := arg s i SYSARG_2, msgrcv_msgsz := arg s i SYSARG_3,
               msgrcv_msgtyp := c_int (arg s i SYSARG_4), msgrcv_msgflg := ucast (arg s i SYSARG_5)\<rparr>"
  have "sysvipc_do_msgrcv e i index (update_cfg i ?f s) = (n, t)"
    using assms(1,4) by (simp add: sysvipc_msgrcv_def)
  from do_msgrcv_wait [OF this assms(5)] assms(2,3)
  show ?thesis by (auto simp: wanted_def split: if_split_asm)
qed

text \<open>C26: Every message call keeps the counters of every queue exact: \<open>msg_qnum\<close> is the number of messages
  and \<open>msg_cbytes\<close> the sum of their lengths, as far as the words can hold them.\<close>

theorem message_calls_invariant:
  assumes "msg_inv s"
  shows "msg_inv (snd (sysvipc_msgget i s)) \<and> msg_inv (snd (sysvipc_msgsnd e i s)) \<and>
    msg_inv (snd (sysvipc_msgrcv e i s)) \<and> msg_inv (snd (sysvipc_msgctl e i s)) \<and>
    (\<forall>n t. sysvipc_msgrcv_retry e i s = Some (n, t) \<longrightarrow> msg_inv t)"
  using msgget_inv [OF assms] msgsnd_inv [OF assms] msgrcv_inv [OF assms] msgctl_inv [OF assms]
    msgrcv_retry_inv [OF assms] by blast

text \<open>A send that succeeds appends the message to the queue, counts it, and wakes the first tracee in
  the list that waits for the queue with a matching filter, to retry its receive; no other tracee
  changes, and no other queue.\<close>

theorem msgsnd_appends_and_wakes:
  assumes "lookup_ipc_object (arg s i SYSARG_1) (queues s) = Some index"
    and "sysvipc_msgsnd e i s = (n, t)" "0 \<le> n"
  shows "\<exists>item q. items q = items (queues s ! index) @ [item] \<and> 1 \<le> sint (mtype item) \<and>
    msg_qnum (msg_stats_of q) = msg_qnum (msg_stats_of (queues s ! index)) + 1 \<and>
    queues t = (queues s)[index := q] \<and>
    (\<forall>k. cfg t k =
      (if k < length (tasks s) \<and> receives index item (cfg s k) \<and> (\<forall>j<k. \<not> receives index item (cfg s j))
       then woken (neg EAGAIN) ((cfg s k)\<lparr>chain_state_of := CSTATE_MSGRCV_RETRY\<rparr>) else cfg s k))"
proof -
  from msgsnd_done [OF assms(2,1)] assms(3) obtain item q where
    "queued item (queues s ! index) q" "1 \<le> sint (mtype item)" "queues t = (queues s)[index := q]"
    "cfg t = cfg (wake_receiver index item s)" by auto
  then show ?thesis
    by (intro exI [of _ item] exI [of _ q]) (simp add: queued_def cfg_wake_receiver)
qed

lemma bit_decode_long:
  assumes "length bs \<le> 8"
  shows "bit (decode_long bs) n \<longleftrightarrow> n div 8 < length bs \<and> bit (bs ! (n div 8)) (n mod 8)"
  using assms
proof (induction bs arbitrary: n)
  case Nil
  then show ?case by (simp add: decode_long_def)
next
  case (Cons b bs)
  have d: "bit (decode_long (b # bs)) n \<longleftrightarrow> bit b n \<or> (8 \<le> n \<and> n < 64 \<and> bit (decode_long bs) (n - 8))"
    using bit_imp_le_length [of b n]
    by (auto simp: decode_long_def bit_or_iff bit_ucast_iff bit_push_bit_iff)
  show ?case
  proof (cases "8 \<le> n")
    case True
    then obtain m where m: "n = 8 + m" by (metis le_Suc_ex)
    have "\<not> bit b n" using True bit_imp_le_length [of b n] by auto
    moreover have "8 + m < 64" if "m div 8 < length bs" using Cons.prems that by simp
    moreover have "bit (decode_long bs) m \<longleftrightarrow> m div 8 < length bs \<and> bit (bs ! (m div 8)) (m mod 8)"
      using Cons by simp
    moreover have "n div 8 = Suc (m div 8)" "n mod 8 = m mod 8" using m by simp_all
    ultimately show ?thesis using True m unfolding d by auto
  next
    case False
    then show ?thesis unfolding d by simp
  qed
qed

lemma encode_decode_long:
  assumes "length bytes = 8"
  shows "encode_long (decode_long bytes) = bytes"
proof (rule nth_equalityI)
  show "length (encode_long (decode_long bytes)) = length bytes"
    using assms by (simp add: encode_long_def)
  fix k assume "k < length (encode_long (decode_long bytes))"
  then have k: "k < 8" by (simp add: encode_long_def)
  have "encode_long (decode_long bytes) ! k = ucast (drop_bit (8 * k) (decode_long bytes))"
    using k by (simp add: encode_long_def)
  also have "\<dots> = bytes ! k"
    using k assms by (intro bit_word_eqI) (simp add: bit_ucast_iff bit_drop_bit_eq bit_decode_long)
  finally show "encode_long (decode_long bytes) ! k = bytes ! k" .
qed

lemma msg_search_last:
  assumes "\<forall>j < length xs. \<not> accept (n + j) (xs ! j)" "accept (n + length xs) x"
  shows "msg_search accept n (xs @ [x]) = Some (n + length xs)"
  using assms by (induction xs arbitrary: n) (auto simp: nth_Cons less_Suc_eq_0_disj split: nat.splits)

text \<open>C27: What a send puts into a queue comes back unchanged: when no older message matches the
  filter of the receiver and its buffer is large enough, the receive returns the length of the
  text, writes exactly the bytes that the sender gave, and leaves the queue as it was before the send.\<close>

theorem msgsnd_msgrcv_roundtrip:
  assumes snd: "lookup_ipc_object (arg s i SYSARG_1) (queues s) = Some index"
      "sysvipc_msgsnd e i s = (0, t)"
      "read_data e i (arg s i SYSARG_2) 8 = Inr bytes" "length bytes = 8"
      "read_data e i (arg s i SYSARG_2 + 8) (unat (arg s i SYSARG_3)) = Inr text"
    and rcv: "lookup_ipc_object (arg t j SYSARG_1) (queues t) = Some index" "j < length (tasks t)"
      "ucast (arg t j SYSARG_5) AND NOT (MSG_NOWAIT OR MSG_NOERROR OR MSG_COPY OR MSG_EXCEPT) = 0"
      "ucast (arg t j SYSARG_5) AND MSG_COPY = 0"
      "0 \<le> c_int (arg t j SYSARG_3)" "length text \<le> unat (arg t j SYSARG_3)"
      "can_write e j (arg t j SYSARG_2) 8" "can_write e j (arg t j SYSARG_2 + 8) (length text)"
    and matching: "sysvipc_msg_match (c_int (decode_long bytes)) (c_int (arg t j SYSARG_4)) (ucast (arg t j SYSARG_5))"
      "\<forall>x \<in> set (items (queues s ! index)).
         \<not> sysvipc_msg_match (c_int (mtype x)) (c_int (arg t j SYSARG_4)) (ucast (arg t j SYSARG_5))"
  shows "\<exists>u. sysvipc_msgrcv e j t = (int (length text), u) \<and>
    items (queues u ! index) = items (queues s ! index) \<and>
    written u = written s @ [(j, arg t j SYSARG_2, bytes), (j, arg t j SYSARG_2 + 8, text)]"
proof -
  let ?item = "\<lparr>mtype = decode_long bytes, mtext = text\<rparr>"
  let ?accept = "\<lambda>item. sysvipc_msg_match (c_int (mtype item)) (c_int (arg t j SYSARG_4)) (ucast (arg t j SYSARG_5))"
  note l = lookup_Some [OF snd(1)]
  from msgsnd_done [OF snd(2,1)] snd(3,5) obtain q where
    q: "queued ?item (queues s ! index) q" "queues t = (queues s)[index := q]" and w: "written t = written s"
    by auto
  have its: "items (queues t ! index) = items (queues s ! index) @ [?item]"
    using q l(1) by (simp add: queued_def)
  have search: "msg_search (\<lambda>k. ?accept) 0 (items (queues t ! index)) = Some (length (items (queues s ! index)))"
    using matching msg_search_last [of "items (queues s ! index)" "\<lambda>k. ?accept" 0 ?item] unfolding its by auto
  let ?u = "update_cfg j (\<lambda>c. c\<lparr>msgrcv_msgp := arg t j SYSARG_2, msgrcv_msgsz := arg t j SYSARG_3,
      msgrcv_msgtyp := c_int (arg t j SYSARG_4), msgrcv_msgflg := ucast (arg t j SYSARG_5)\<rparr>) t"
  obtain st v where v: "sysvipc_msg_deliver e j index ?item (current_time e) ?u = (st, v)" by fastforce
  have "st = int (length text) \<and> written v = written t @ [(j, arg t j SYSARG_2, bytes), (j, arg t j SYSARG_2 + 8, text)]"
    using v rcv(2,6-8) snd(4) encode_decode_long [OF snd(4)]
    by (auto simp: sysvipc_msg_deliver_def Let_def write_data_def not_less)
  moreover have "items (queues v ! index) = items (queues t ! index)"
    using deliver_done(3) [OF v] calculation l(1) q(2) by auto
  moreover have "index < length (queues v)"
    using deliver_done(3) [OF v] calculation l(1) q(2) by auto
  ultimately show ?thesis
    using rcv(1-5) search its v w
    by (simp add: sysvipc_msgrcv_def sysvipc_do_msgrcv_def Let_def not_less nth_append)
qed

text \<open>A namespace with one queue: a tracee that waits for a message, one that sends, one that removes the
  queue and one that receives.\<close>

definition mailbox :: "msg_item list \<Rightarrow> ipc_state" where
  "mailbox msgs = (example_ipc
     [(example_task 0 [1, 64, 10, 0, 0])\<lparr>task_cfg := (example_config 0)
        \<lparr>wait_reason_of := WR_WAIT_QUEUE_RECV, wait_state_of := WSTATE_ENTERED_PPOLL,
         msgrcv_msgp := 64, msgrcv_msgsz := 10\<rparr>\<rparr>,
      example_task 1 [1, 0, 2, 0], example_task 2 [1, 0, 0], example_task 3 [1, 64, 10, 0, 0]])
     \<lparr>queues := [(new_queue 5 0)\<lparr>items := msgs, msg_stats_of := (msg_stats_of (new_queue 5 0))
        \<lparr>msg_qnum := of_nat (length msgs),
         msg_cbytes := of_nat (sum_list (map (\<lambda>m. length (mtext m)) msgs))\<rparr>\<rparr>]\<rparr>"

definition hi_bytes :: "8 word list" where
  "hi_bytes = [3, 0, 0, 0, 0, 0, 0, 0, 104, 105]"

text \<open>C28: The retry of a receive can fail its assertion on the queue, which ends the program with all its tracees:
  the wake-up by a send leaves the tracee with the index of the queue, and a removal of the queue between the
  wake-up and the retry does not reach a tracee that is no longer waiting.\<close>

theorem msgrcv_retry_aborts:
  "\<exists>s e t u. msg_inv s \<and> waits_for_msg 0 (cfg s 0) \<and> wait_state_of (cfg s 0) = WSTATE_ENTERED_PPOLL \<and>
     sysvipc_msgsnd e 1 s = (0, t) \<and> sysvipc_msgctl e 2 t = (0, u) \<and>
     wait_state_of (cfg u 0) = WSTATE_SIGNALED_PPOLL \<and> sysvipc_msgrcv_retry e 0 u = None"
proof -
  let ?e = "example_machine hi_bytes" and ?s = "mailbox []"
  let ?t = "snd (sysvipc_msgsnd ?e 1 ?s)"
  let ?u = "snd (sysvipc_msgctl ?e 2 ?t)"
  have "fst (sysvipc_msgsnd ?e 1 ?s) = 0" "fst (sysvipc_msgctl ?e 2 ?t) = 0" by code_simp+
  then have "sysvipc_msgsnd ?e 1 ?s = (0, ?t)" "sysvipc_msgctl ?e 2 ?t = (0, ?u)"
    by (metis prod.collapse)+
  moreover have "msg_inv ?s" "waits_for_msg 0 (cfg ?s 0)" "wait_state_of (cfg ?s 0) = WSTATE_ENTERED_PPOLL"
    by code_simp+
  moreover have "wait_state_of (cfg ?u 0) = WSTATE_SIGNALED_PPOLL" by code_simp
  moreover have "chain_state_of (cfg ?u 0) = CSTATE_MSGRCV_RETRY"
      "c_int (status_after_wait (cfg ?u 0)) = neg EAGAIN" "waiting_object_index (cfg ?u 0) = 0"
      "\<not> valid (queues ?u ! 0)" by code_simp+
  then have "sysvipc_msgrcv_retry ?e 0 ?u = None" by (simp add: sysvipc_msgrcv_retry_def)
  ultimately show ?thesis by blast
qed

section \<open>Witnesses\<close>

text \<open>A queue with a message of type 9 and one of type 3, which the filter 3 selects.\<close>

definition two_messages :: ipc_state where
  "two_messages = update_task 3 (\<lambda>t. t\<lparr>task_regs := calling [1, 64, 10, 3, 0]\<rparr>)
     (mailbox [\<lparr>mtype = 9, mtext = [1]\<rparr>, \<lparr>mtype = 3, mtext = [2, 2]\<rparr>])"

lemma msgrcv_first_witness:
  "\<exists>pre item post. items (queues two_messages ! 0) = pre @ item # post \<and>
     items (queues (snd (sysvipc_msgrcv (example_machine []) 3 two_messages)) ! 0) = pre @ post"
proof -
  let ?r = "sysvipc_msgrcv (example_machine []) 3 two_messages"
  have "lookup_ipc_object (arg two_messages 3 SYSARG_1) (queues two_messages) = Some 0"
    "3 < length (tasks two_messages)" "ucast (arg two_messages 3 SYSARG_5) AND MSG_COPY = 0"
    "0 \<le> fst ?r" "wait_reason_of (cfg (snd ?r) 3) = WR_NOT_WAITING" by code_simp+
  moreover have "?r = (fst ?r, snd ?r)" by simp
  ultimately show ?thesis using msgrcv_takes_first by blast
qed

lemma msgrcv_waits_witness:
  "queues (snd (sysvipc_msgrcv (example_machine []) 3 (mailbox []))) = queues (mailbox [])"
proof -
  let ?r = "sysvipc_msgrcv (example_machine []) 3 (mailbox [])"
  have "lookup_ipc_object (arg (mailbox []) 3 SYSARG_1) (queues (mailbox [])) = Some 0"
    "3 < length (tasks (mailbox []))" "wait_reason_of (cfg (mailbox []) 3) = WR_NOT_WAITING"
    "wait_reason_of (cfg (snd ?r) 3) \<noteq> WR_NOT_WAITING" by code_simp+
  moreover have "?r = (fst ?r, snd ?r)" by simp
  ultimately show ?thesis using msgrcv_waits_only_for_missing by blast
qed

lemma message_calls_witness: "msg_inv (snd (sysvipc_msgrcv (example_machine []) 3 two_messages))"
proof -
  have "msg_inv two_messages" by code_simp
  then show ?thesis using message_calls_invariant by blast
qed

lemma msgsnd_witness:
  "\<exists>item q. queues (snd (sysvipc_msgsnd (example_machine hi_bytes) 1 (mailbox []))) = [q] \<and> items q = [item]"
proof -
  let ?r = "sysvipc_msgsnd (example_machine hi_bytes) 1 (mailbox [])"
  have "lookup_ipc_object (arg (mailbox []) 1 SYSARG_1) (queues (mailbox [])) = Some 0"
    "0 \<le> fst ?r" "items (queues (mailbox []) ! 0) = []" "length (queues (mailbox [])) = 1" by code_simp+
  moreover have "?r = (fst ?r, snd ?r)" by simp
  ultimately obtain item q where "items q = [item]" "queues (snd ?r) = (queues (mailbox []))[0 := q]"
    using msgsnd_appends_and_wakes [of "mailbox []" 1 0 "example_machine hi_bytes" "fst ?r" "snd ?r"] by auto
  then show ?thesis using \<open>length (queues (mailbox [])) = 1\<close> by (cases "queues (mailbox [])") auto
qed

lemma roundtrip_witness:
  "fst (sysvipc_msgrcv (example_machine hi_bytes) 3 (snd (sysvipc_msgsnd (example_machine hi_bytes) 1 (mailbox [])))) = 2"
proof -
  let ?e = "example_machine hi_bytes" and ?s = "mailbox []"
  let ?t = "snd (sysvipc_msgsnd ?e 1 ?s)"
  have "fst (sysvipc_msgsnd ?e 1 ?s) = 0" by code_simp
  then have t: "sysvipc_msgsnd ?e 1 ?s = (0, ?t)" by (metis prod.collapse)
  have a: "arg ?s 1 SYSARG_2 = 0" "unat (arg ?s 1 SYSARG_3) = 2" by code_simp+
  have b: "arg ?s 3 SYSARG_1 = 1" "arg ?s 3 SYSARG_3 = 10" "arg ?s 3 SYSARG_4 = 0" "arg ?s 3 SYSARG_5 = 0"
    by code_simp+
  have r: "read_data ?e 1 (arg ?s 1 SYSARG_2) 8 = Inr [3, 0, 0, 0, 0, 0, 0, 0]"
    "read_data ?e 1 (arg ?s 1 SYSARG_2 + 8) (unat (arg ?s 1 SYSARG_3)) = Inr [104, 105]"
    unfolding a by (simp_all add: example_machine_def hi_bytes_def)
  have s: "lookup_ipc_object (arg ?s 1 SYSARG_1) (queues ?s) = Some 0" by code_simp
  have i: "items (queues ?s ! 0) = []" by code_simp
  have c: "lookup_ipc_object (arg ?t 3 SYSARG_1) (queues ?t) = Some 0" "3 < length (tasks ?t)"
    unfolding arg_msgsnd b by code_simp+
  have f: "ucast (arg ?t 3 SYSARG_5) AND NOT (MSG_NOWAIT OR MSG_NOERROR OR MSG_COPY OR MSG_EXCEPT) = 0"
    "ucast (arg ?t 3 SYSARG_5) AND MSG_COPY = 0" "0 \<le> c_int (arg ?t 3 SYSARG_3)"
    "length [104, 105 :: 8 word] \<le> unat (arg ?t 3 SYSARG_3)"
    "sysvipc_msg_match (c_int (decode_long [3, 0, 0, 0, 0, 0, 0, 0])) (c_int (arg ?t 3 SYSARG_4))
      (ucast (arg ?t 3 SYSARG_5))"
    unfolding arg_msgsnd b by (simp_all add: c_int_def sysvipc_msg_match_def Let_def)
  have w: "can_write ?e k a n" for k a n by (simp add: example_machine_def)
  have "\<exists>u. sysvipc_msgrcv ?e 3 ?t = (int (length [104, 105 :: 8 word]), u) \<and>
      items (queues u ! 0) = items (queues ?s ! 0) \<and>
      written u = written ?s @ [(3, arg ?t 3 SYSARG_2, [3, 0, 0, 0, 0, 0, 0, 0]), (3, arg ?t 3 SYSARG_2 + 8, [104, 105])]"
    by (rule msgsnd_msgrcv_roundtrip [OF s t r(1) _ r(2) c f(1-4) w w f(5)]) (simp_all add: i)
  then show ?thesis by auto
qed

end
