(* ===== verification/Ipc_Shm.thy ===== *)
theory Ipc_Shm
  imports Ipc
begin

text \<open>
  Shared memory, \<open>extension/sysvipc/sysvipc_shm.c\<close>: the segments, their mappings, the chain of system
  calls by which \<open>shmat\<close> receives the descriptor of a segment from the helper process, and the
  deferred removal. The helper process itself is an argument of the model; what it is asked is a trace.
  The list of a segment and the list of a process are the two filters of one list of mappings, which
  keeps the order of both.
\<close>

section \<open>The code\<close>

text \<open>\<open>sysvipc_shm_send_helper_request\<close>: the answer to an allocation is a descriptor.\<close>

definition send_helper_request :: "ipc_env \<Rightarrow> helper_request \<Rightarrow> ipc_state \<Rightarrow> int \<times> ipc_state" where
  "send_helper_request e request s =
     ((case request of
         SHMHELPER_ALLOC _ _ \<Rightarrow> helper_alloc e request
       | _ \<Rightarrow> if helper_ok e request then 0 else - 1),
      s\<lparr>helper_requests := helper_requests s @ [request]\<rparr>)"

definition set_shm :: "nat \<Rightarrow> (shared_mem \<Rightarrow> shared_mem) \<Rightarrow> ipc_state \<Rightarrow> ipc_state" where
  "set_shm index f s = s\<lparr>shms := (shms s)[index := f (shms s ! index)]\<rparr>"

definition unused_shm :: shared_mem where
  "unused_shm = \<lparr>slot_key = 0, generation = 0, valid = False, rmid_pending = False, shm_fd = 0,
     shm_segsz = 0, shm_mode = 0, shm_cpid = 0, shm_nattch = 0\<rparr>"

text \<open>The allocation of a segment in a slot, for the arguments of the call.\<close>

definition shm_allocate :: "ipc_env \<Rightarrow> nat \<Rightarrow> nat \<Rightarrow> ipc_state \<Rightarrow> int \<times> ipc_state" where
  "shm_allocate e i index s =
     (let shm_key = arg s i SYSARG_1; shm_size = arg s i SYSARG_2; shmflg = arg s i SYSARG_3;
          object_id = IPC_OBJECT_ID index (shms s ! index);
          (fd, s) = send_helper_request e (SHMHELPER_ALLOC object_id shm_size) s;
          s = set_shm index (\<lambda>x. x\<lparr>shm_fd := fd\<rparr>) s in
      if fd < 0 then (neg ENOSPC, s)
      else
        (object_id,
         set_shm index (\<lambda>x. x\<lparr>shm_mode := shmflg AND 0x1FF, shm_segsz := shm_size,
           shm_cpid := pgids s (process_of (cfg s i)), slot_key := ucast shm_key, valid := True\<rparr>) s))"

definition sysvipc_shmget :: "ipc_env \<Rightarrow> nat \<Rightarrow> ipc_state \<Rightarrow> int \<times> ipc_state" where
  "sysvipc_shmget e i s =
     (let shm_key = arg s i SYSARG_1; shm_size = arg s i SYSARG_2; shmflg = arg s i SYSARG_3 in
      case ipc_scan shm_key (shms s) 0 None of
        (Some index, _) \<Rightarrow>
          if has_flag shmflg IPC_CREAT \<and> has_flag shmflg IPC_EXCL then (neg EEXIST, s)
          else if shm_size \<noteq> 0 \<and> shm_size \<noteq> shm_segsz (shms s ! index) then (neg EINVAL, s)
          else (IPC_OBJECT_ID index (shms s ! index), s)
      | (None, unused) \<Rightarrow>
          if \<not> has_flag shmflg IPC_CREAT then (neg ENOENT, s)
          else
            (case unused of
               Some index \<Rightarrow> shm_allocate e i index s
             | None \<Rightarrow> shm_allocate e i (length (shms s)) (s\<lparr>shms := shms s @ [unused_shm]\<rparr>)))"

definition sysvipc_do_rmid :: "ipc_env \<Rightarrow> nat \<Rightarrow> ipc_state \<Rightarrow> ipc_state" where
  "sysvipc_do_rmid e index s =
     (let s = snd (send_helper_request e (SHMHELPER_FREE (shm_fd (shms s ! index))) s) in
      set_shm index (\<lambda>x. x\<lparr>valid := False, rmid_pending := False,
        generation := generation x + 1, shm_fd := - 1\<rparr>) s)"

text \<open>The destructor of the mapping at a position of the list.\<close>

definition free_mapping :: "ipc_env \<Rightarrow> nat \<Rightarrow> ipc_state \<Rightarrow> ipc_state" where
  "free_mapping e k s =
     (let index = map_shm (mappings s ! k);
          s = s\<lparr>mappings := take k (mappings s) @ drop (Suc k) (mappings s)\<rparr> in
      if rmid_pending (shms s ! index) \<and> \<not> list_ex (\<lambda>m. map_shm m = index) (mappings s)
      then sysvipc_do_rmid e index s else s)"

text \<open>The position of the first mapping of a process with a property.\<close>

fun find_mapping :: "(shm_map \<Rightarrow> bool) \<Rightarrow> nat \<Rightarrow> shm_map list \<Rightarrow> nat option" where
  "find_mapping P k [] = None"
| "find_mapping P k (m # ms) = (if P m then Some k else find_mapping P (Suc k) ms)"

definition shmat_socket_args :: "word_t list" where
  "shmat_socket_args = [1, 5, 0, 0, 0, 0]"

definition wake_pending_shmat :: "ipc_state \<Rightarrow> ipc_state" where
  "wake_pending_shmat s =
     (case List.find (\<lambda>k. wait_reason_of (cfg s k) = WR_WAIT_SHMAT_HELPER_BUSY) [0..<length (tasks s)] of
        None \<Rightarrow> s
      | Some k \<Rightarrow>
          (let s = sysvipc_wake_tracee k 0 s;
               s = update_regs k (register_chained_syscall ''socket'' shmat_socket_args) s in
           update_cfg k (\<lambda>c. c\<lparr>chain_state_of := CSTATE_SHMAT_SOCKET\<rparr>) s))"

text \<open>\<open>chain_state > CSTATE_SHMAT_SOCKET && chain_state <= CSTATE_SHMAT_MMAP\<close>.\<close>

definition helper_in_use :: "ipc_config \<Rightarrow> bool" where
  "helper_in_use c \<longleftrightarrow>
     chain_state_of c \<in> {CSTATE_SHMAT_CONNECT, CSTATE_SHMAT_RECVMSG, CSTATE_SHMAT_MMAP}"

definition sysvipc_shmat :: "nat \<Rightarrow> ipc_state \<Rightarrow> int \<times> ipc_state" where
  "sysvipc_shmat i s =
     (case lookup_ipc_object (arg s i SYSARG_1) (shms s) of
        None \<Rightarrow> (neg EINVAL, s)
      | Some index \<Rightarrow>
          (let s = update_cfg i (\<lambda>c. c\<lparr>waiting_object_index := index\<rparr>) s;
               mapping = \<lparr>map_process = process_of (cfg s i), map_shm = index, map_addr = 0, map_size = 0\<rparr>;
               s = s\<lparr>mappings := mapping # mappings s\<rparr> in
           if list_ex (\<lambda>k. helper_in_use (cfg s k)) [0..<length (tasks s)]
           then (0, update_cfg i (\<lambda>c. c\<lparr>wait_reason_of := WR_WAIT_SHMAT_HELPER_BUSY\<rparr>) s)
           else
             (let s = update_regs i (\<lambda>t. poke_all [(SYSARG_1, 1), (SYSARG_2, 5), (SYSARG_3, 0)]
                        (set_sysnum ''socket'' t)) s in
              (0, update_cfg i (\<lambda>c. c\<lparr>chain_state_of := CSTATE_SHMAT_SOCKET\<rparr>) s))))"

definition pending_mapping :: "nat \<Rightarrow> nat \<Rightarrow> shm_map \<Rightarrow> bool" where
  "pending_mapping p index m \<longleftrightarrow> map_process m = p \<and> map_size m = 0 \<and> map_shm m = index"

text \<open>\<open>None\<close> is the failed assertion that no pending mapping is found.\<close>

definition find_pending_mapping :: "nat \<Rightarrow> ipc_state \<Rightarrow> nat option" where
  "find_pending_mapping i s =
     find_mapping (pending_mapping (process_of (cfg s i)) (waiting_object_index (cfg s i))) 0 (mappings s)"

text \<open>
  \<open>sysvipc_shm_recvmsg_pointers\<close>: the addresses of the fields in the guest's stack, and the
  \<open>struct msghdr\<close> for \<open>recvmsg\<close> that is built in a buffer of the size of a \<open>struct sockaddr_un\<close>, 110 bytes.
\<close>

record recvmsg_pointers =
  msghdr_ptr :: word_t
  cmsg_controllen_ptr :: word_t
  cmsg_control_ptr :: word_t

definition SOCKADDR_UN_SIZE :: nat where
  "SOCKADDR_UN_SIZE = 110"

definition little_endian :: "nat \<Rightarrow> word_t \<Rightarrow> 8 word list" where
  "little_endian n w = map (\<lambda>k. ucast (drop_bit (8 * k) w)) [0..<n]"

definition put_bytes :: "nat \<Rightarrow> 8 word list \<Rightarrow> 8 word list \<Rightarrow> 8 word list" where
  "put_bytes offset bytes data = take offset data @ bytes @ drop (offset + length bytes) data"

definition msghdr_offset :: "nat \<Rightarrow> nat \<Rightarrow> nat" where
  "msghdr_offset ptr_len k = SOCKADDR_UN_SIZE - 4 - k * ptr_len"

definition recvmsg_bytes :: "nat \<Rightarrow> word_t \<Rightarrow> 8 word list" where
  "recvmsg_bytes ptr_len guest_buf =
     (let at = msghdr_offset ptr_len;
          address = (\<lambda>k. guest_buf + of_nat (msghdr_offset ptr_len k));
          put = (\<lambda>k w. put_bytes (at k) (little_endian ptr_len w)) in
      put 4 20 (put 5 guest_buf (put 6 1 (put 7 (address 2) (put 1 1 (put 2 (address 0)
        (replicate SOCKADDR_UN_SIZE 0)))))))"

definition recvmsg_pointers_at ::
  "ipc_env \<Rightarrow> nat \<Rightarrow> word_t \<Rightarrow> bool \<Rightarrow> ipc_state \<Rightarrow> (int + recvmsg_pointers) \<times> ipc_state" where
  "recvmsg_pointers_at e i guest_buf do_write s =
     (let ptr_len = (if is_32on64_mode (task_regs (tasks s ! i)) then 4 else 8);
          at = (\<lambda>k. guest_buf + of_nat (msghdr_offset ptr_len k));
          (status, s) = (if do_write then write_data e i guest_buf (recvmsg_bytes ptr_len guest_buf) s
                         else (0, s)) in
      if status < 0 then (Inl status, s)
      else (Inr \<lparr>msghdr_ptr = at 9, cmsg_controllen_ptr = at 4, cmsg_control_ptr = guest_buf\<rparr>, s))"

text \<open>
  \<open>sysvipc_shmat_chain\<close>, one definition per case of its switch. The two labels for failures free the
  pending mapping; \<open>None\<close> is a failed assertion.
\<close>

definition chain_call :: "nat \<Rightarrow> sysnum \<Rightarrow> word_t list \<Rightarrow> ipc_state \<Rightarrow> ipc_state" where
  "chain_call i sysnum sysargs s = update_regs i (register_chained_syscall sysnum sysargs) s"

definition set_chain :: "nat \<Rightarrow> chain_state \<Rightarrow> ipc_state \<Rightarrow> ipc_state" where
  "set_chain i state s = update_cfg i (\<lambda>c. c\<lparr>chain_state_of := state\<rparr>) s"

definition fail_dont_close :: "ipc_env \<Rightarrow> nat \<Rightarrow> ipc_state \<Rightarrow> (int \<times> ipc_state) option" where
  "fail_dont_close e i s =
     (let s = set_chain i CSTATE_NOT_CHAINED s in
      case find_pending_mapping i s of
        None \<Rightarrow> None
      | Some k \<Rightarrow> Some (neg ENOMEM, wake_pending_shmat (free_mapping e k s)))"

definition fail_close_socket :: "ipc_env \<Rightarrow> nat \<Rightarrow> ipc_state \<Rightarrow> (int \<times> ipc_state) option" where
  "fail_close_socket e i s =
     (let s = chain_call i ''close'' [of_c_int (shmat_socket_fd (cfg s i)), 0, 0, 0, 0, 0] s;
          s = update_regs i (force_chain_final_result (of_c_int (neg ENOMEM))) s;
          s = set_chain i CSTATE_NOT_CHAINED s in
      case find_pending_mapping i s of
        None \<Rightarrow> None
      | Some k \<Rightarrow> Some (1, wake_pending_shmat (free_mapping e k s)))"

definition shmat_socket :: "ipc_env \<Rightarrow> nat \<Rightarrow> ipc_state \<Rightarrow> (int \<times> ipc_state) option" where
  "shmat_socket e i s =
     (let fd = c_int (arg s i SYSARG_RESULT);
          s = update_cfg i (\<lambda>c. c\<lparr>shmat_socket_fd := fd\<rparr>) s;
          guest_addr = arg s i STACK_POINTER - of_nat SOCKADDR_UN_SIZE in
      if fd < 0 \<or> guest_addr = 0 then fail_dont_close e i s
      else
        (let (status, s) = write_data e i guest_addr (helper_address e) s in
         if status < 0 then fail_dont_close e i s
         else
           (let s = chain_call i ''connect'' [of_c_int fd, guest_addr, of_nat SOCKADDR_UN_SIZE, 0, 0, 0] s;
                s = update_cfg i (\<lambda>c. c\<lparr>shmat_guest_buf := guest_addr\<rparr>) s in
            Some (1, set_chain i CSTATE_SHMAT_CONNECT s))))"

definition shmat_connect :: "ipc_env \<Rightarrow> nat \<Rightarrow> shared_mem \<Rightarrow> ipc_state \<Rightarrow> (int \<times> ipc_state) option" where
  "shmat_connect e i shm s =
     (if c_int (arg s i SYSARG_RESULT) \<noteq> 0 then fail_close_socket e i s
      else
        (case recvmsg_pointers_at e i (shmat_guest_buf (cfg s i)) True s of
           (Inl _, s) \<Rightarrow> fail_close_socket e i s
         | (Inr pointers, s) \<Rightarrow>
             (let (status, s) = send_helper_request e (SHMHELPER_DISTRIBUTE (shm_fd shm)) s in
              if status < 0 then fail_close_socket e i s
              else
                (let s = chain_call i ''recvmsg'' [of_c_int (shmat_socket_fd (cfg s i)),
                           msghdr_ptr pointers, 0, 0, 0, 0] s in
                 Some (1, set_chain i CSTATE_SHMAT_RECVMSG s)))))"

text \<open>The \<open>struct cmsghdr\<close> of the host: a length of 8 bytes, then the level and the type.\<close>

definition CMSG_SIZE :: nat where
  "CMSG_SIZE = 16"

definition decode_bytes :: "8 word list \<Rightarrow> word_t" where
  "decode_bytes bytes = foldr (\<lambda>b w. ucast b OR push_bit 8 w) bytes 0"

definition cmsg_is_rights :: "8 word list \<Rightarrow> bool" where
  "cmsg_is_rights cmsg \<longleftrightarrow>
     c_int (decode_bytes (take 4 (drop 8 cmsg))) = 1 \<and> c_int (decode_bytes (take 4 (drop 12 cmsg))) = 1"

definition page_aligned_size :: "word_t \<Rightarrow> word_t \<Rightarrow> word_t" where
  "page_aligned_size page sz = (sz + (page - 1)) AND NOT (page - 1)"

definition shmat_recvmsg :: "ipc_env \<Rightarrow> nat \<Rightarrow> shared_mem \<Rightarrow> ipc_state \<Rightarrow> (int \<times> ipc_state) option" where
  "shmat_recvmsg e i shm s =
     (case recvmsg_pointers_at e i (shmat_guest_buf (cfg s i)) False s of
        (Inl _, s) \<Rightarrow> fail_close_socket e i s
      | (Inr pointers, s) \<Rightarrow>
          (case read_data e i (cmsg_control_ptr pointers) CMSG_SIZE of
             Inl _ \<Rightarrow> fail_close_socket e i s
           | Inr cmsg \<Rightarrow>
               if \<not> cmsg_is_rights cmsg then fail_close_socket e i s
               else
                 (case read_data e i (cmsg_control_ptr pointers + of_nat CMSG_SIZE) 4 of
                    Inl _ \<Rightarrow> fail_close_socket e i s
                  | Inr bytes \<Rightarrow>
                      (let fd = decode_bytes bytes in
                       if fd > 0xFFFF then fail_close_socket e i s
                       else
                         (let s = update_cfg i (\<lambda>c. c\<lparr>shmat_mem_fd := c_int fd\<rparr>) s;
                              sysnum = (if detranslate_sysnum (get_abi (task_regs (tasks s ! i))) ''mmap2''
                                          \<noteq> SYSCALL_AVOIDER then ''mmap2'' else ''mmap'');
                              s = chain_call i sysnum
                                    [0, page_aligned_size (page_size e) (shm_segsz shm), 3, 1, fd, 0] s in
                          Some (1, set_chain i CSTATE_SHMAT_MMAP s))))))"

definition shmat_mmap :: "nat \<Rightarrow> ipc_state \<Rightarrow> (int \<times> ipc_state) option" where
  "shmat_mmap i s =
     (let addr = arg s i SYSARG_RESULT in
      case find_pending_mapping i s of
        None \<Rightarrow> None
      | Some k \<Rightarrow>
          (let s = s\<lparr>mappings := (mappings s)[k := (mappings s ! k)
                      \<lparr>map_addr := addr, map_size := arg s i SYSARG_2\<rparr>]\<rparr>;
               s = chain_call i ''close'' [of_c_int (shmat_mem_fd (cfg s i)), 0, 0, 0, 0, 0] s;
               s = chain_call i ''close'' [of_c_int (shmat_socket_fd (cfg s i)), 0, 0, 0, 0, 0] s;
               s = update_regs i (force_chain_final_result addr) s in
           Some (1, wake_pending_shmat (set_chain i CSTATE_NOT_CHAINED s))))"

definition sysvipc_shmat_chain :: "ipc_env \<Rightarrow> nat \<Rightarrow> ipc_state \<Rightarrow> (int \<times> ipc_state) option" where
  "sysvipc_shmat_chain e i s =
     (let index = waiting_object_index (cfg s i) in
      if \<not> index < length (shms s) \<or> \<not> valid (shms s ! index) then None
      else
        (case chain_state_of (cfg s i) of
           CSTATE_SHMAT_SOCKET \<Rightarrow> shmat_socket e i s
         | CSTATE_SHMAT_CONNECT \<Rightarrow> shmat_connect e i (shms s ! index) s
         | CSTATE_SHMAT_RECVMSG \<Rightarrow> shmat_recvmsg e i (shms s ! index) s
         | CSTATE_SHMAT_MMAP \<Rightarrow> shmat_mmap i s
         | _ \<Rightarrow> None))"

definition sysvipc_shmdt :: "ipc_env \<Rightarrow> nat \<Rightarrow> ipc_state \<Rightarrow> int \<times> ipc_state" where
  "sysvipc_shmdt e i s =
     (let addr = arg s i SYSARG_1; p = process_of (cfg s i) in
      case find_mapping (\<lambda>m. map_process m = p \<and> map_addr m = addr) 0 (mappings s) of
        None \<Rightarrow> (neg EINVAL, s)
      | Some k \<Rightarrow>
          (let s = update_regs i (\<lambda>t. poke_reg SYSARG_2 (map_size (mappings s ! k))
                     (set_sysnum ''munmap'' t)) s;
               s = set_chain i CSTATE_SINGLE s in
           (0, free_mapping e k s)))"

definition shm_update_stats :: "nat \<Rightarrow> ipc_state \<Rightarrow> ipc_state" where
  "shm_update_stats index s =
     set_shm index (\<lambda>x. x\<lparr>shm_nattch := length (filter (\<lambda>m. map_shm m = index) (mappings s))\<rparr>) s"

definition sysvipc_shmctl :: "ipc_env \<Rightarrow> nat \<Rightarrow> ipc_state \<Rightarrow> int \<times> ipc_state" where
  "sysvipc_shmctl e i s =
     (case lookup_ipc_object (arg s i SYSARG_1) (shms s) of
        None \<Rightarrow> (neg EINVAL, s)
      | Some index \<Rightarrow>
          (let cmd = c_int (arg s i SYSARG_2); buf = arg s i SYSARG_3 in
           if cmd = IPC_RMID \<or> cmd = SYSVIPC_IPC_64 then
             (0, if list_ex (\<lambda>m. map_shm m = index) (mappings s)
                 then set_shm index (\<lambda>x. x\<lparr>rmid_pending := True\<rparr>) s
                 else sysvipc_do_rmid e index s)
           else if cmd = IPC_STAT then
             (let s = shm_update_stats index s in write_data e i buf (shmid_bytes e (shms s ! index)) s)
           else (neg EINVAL, s)))"

text \<open>A new process gets a copy of every mapping of its parent, right after it.\<close>

definition shm_inherit_process :: "nat \<Rightarrow> nat \<Rightarrow> ipc_state \<Rightarrow> ipc_state" where
  "shm_inherit_process parent child s =
     s\<lparr>mappings := concat (map (\<lambda>m. if map_process m = parent then [m, m\<lparr>map_process := child\<rparr>] else [m])
         (mappings s))\<rparr>"

lemma find_mapping_Some:
  "find_mapping P n ms = Some k \<longleftrightarrow>
     n \<le> k \<and> k - n < length ms \<and> P (ms ! (k - n)) \<and> (\<forall>j < k - n. \<not> P (ms ! j))"
proof (induction ms arbitrary: n)
  case (Cons m ms)
  show ?case
  proof (cases "P m")
    case True
    then show ?thesis by (cases "k = n") (auto intro: exI [of _ 0])
  next
    case False
    show ?thesis
    proof (cases "Suc n \<le> k")
      case True
      then obtain d where d: "k = Suc (n + d)" by (metis add_Suc less_eqE)
      then have "(\<forall>j < k - n. \<not> P ((m # ms) ! j)) = (\<forall>j < d. \<not> P (ms ! j))"
        using False by (auto simp: less_Suc_eq_0_disj)
      with False d Cons [of "Suc n"] show ?thesis by simp
    next
      case False2: False
      then show ?thesis using False Cons [of "Suc n"] by (cases "k = n") auto
    qed
  qed
qed simp

lemma find_mapping_None: "find_mapping P n ms = None \<longleftrightarrow> (\<forall>m \<in> set ms. \<not> P m)"
  by (induction ms arbitrary: n) auto

lemma mappings_do_rmid [simp]: "mappings (sysvipc_do_rmid e index s) = mappings s"
  by (simp add: sysvipc_do_rmid_def send_helper_request_def set_shm_def Let_def)

lemma mappings_free_mapping [simp]:
  "mappings (free_mapping e k s) = take k (mappings s) @ drop (Suc k) (mappings s)"
  by (simp add: free_mapping_def Let_def)

text \<open>The loop frees the mappings of the process from the first on.\<close>

function shm_remove_mappings :: "ipc_env \<Rightarrow> nat \<Rightarrow> ipc_state \<Rightarrow> ipc_state" where
  "shm_remove_mappings e p s =
     (case find_mapping (\<lambda>m. map_process m = p) 0 (mappings s) of
        None \<Rightarrow> s
      | Some k \<Rightarrow> shm_remove_mappings e p (free_mapping e k s))"
  by pat_completeness auto

termination
  by (relation "measure (\<lambda>(e, p, s). length (mappings s))") (auto simp: find_mapping_Some)

declare shm_remove_mappings.simps [simp del]

text \<open>The rows of \<open>/proc/sysvipc/shm\<close>: the fields that this extension sets, without their formatting.\<close>

definition shm_fill_row :: "ipc_env \<Rightarrow> nat \<Rightarrow> ipc_state \<Rightarrow> (u32 \<times> int \<times> word_t \<times> word_t \<times> int \<times> nat \<times> word_t)" where
  "shm_fill_row e index s =
     (let x = shms s ! index; page = page_size e in
      (slot_key x, IPC_OBJECT_ID index x, shm_mode x, shm_segsz x, shm_cpid x, shm_nattch x,
       (shm_segsz x + (page - 1)) AND NOT page))"

fun shm_fill_rows ::
  "ipc_env \<Rightarrow> nat list \<Rightarrow> ipc_state \<Rightarrow> (u32 \<times> int \<times> word_t \<times> word_t \<times> int \<times> nat \<times> word_t) list \<times> ipc_state"
where
  "shm_fill_rows e [] s = ([], s)"
| "shm_fill_rows e (index # rest) s =
     (if \<not> valid (shms s ! index) then shm_fill_rows e rest s
      else
        (let s = shm_update_stats index s;
             row = shm_fill_row e index s;
             (rows, s) = shm_fill_rows e rest s in
         (row # rows, s)))"

definition shm_fill_proc ::
  "ipc_env \<Rightarrow> ipc_state \<Rightarrow> (u32 \<times> int \<times> word_t \<times> word_t \<times> int \<times> nat \<times> word_t) list \<times> ipc_state" where
  "shm_fill_proc e s = shm_fill_rows e [0..<length (shms s)] s"

section \<open>What the steps leave alone\<close>

lemma update_regs_simps [simp]:
  "shms (update_regs i f s) = shms s" "mappings (update_regs i f s) = mappings s"
  "queues (update_regs i f s) = queues s" "semaphores (update_regs i f s) = semaphores s"
  "length (tasks (update_regs i f s)) = length (tasks s)"
  "helper_requests (update_regs i f s) = helper_requests s"
  by (simp_all add: update_regs_def)

lemma cfg_update_regs [simp]: "cfg (update_regs i f s) = cfg s"
proof
  fix j
  show "cfg (update_regs i f s) j = cfg s j"
    by (cases "i < length (tasks s)")
      (auto simp: cfg_def update_regs_def update_task_def nth_list_update list_update_beyond)
qed

lemma set_shm_simps [simp]:
  "shms (set_shm index f s) = (shms s)[index := f (shms s ! index)]"
  "mappings (set_shm index f s) = mappings s" "tasks (set_shm index f s) = tasks s"
  "cfg (set_shm index f s) = cfg s" "queues (set_shm index f s) = queues s"
  "semaphores (set_shm index f s) = semaphores s" "helper_requests (set_shm index f s) = helper_requests s"
  by (simp_all add: set_shm_def)

lemma send_helper_simps [simp]:
  "shms (snd (send_helper_request e r s)) = shms s" "mappings (snd (send_helper_request e r s)) = mappings s"
  "tasks (snd (send_helper_request e r s)) = tasks s" "cfg (snd (send_helper_request e r s)) = cfg s"
  "queues (snd (send_helper_request e r s)) = queues s"
  "semaphores (snd (send_helper_request e r s)) = semaphores s"
  "helper_requests (snd (send_helper_request e r s)) = helper_requests s @ [r]"
  by (simp_all add: send_helper_request_def cfg_def fun_eq_iff)

lemma chain_call_simps [simp]:
  "shms (chain_call i n a s) = shms s" "mappings (chain_call i n a s) = mappings s"
  "cfg (chain_call i n a s) = cfg s" "length (tasks (chain_call i n a s)) = length (tasks s)"
  "queues (chain_call i n a s) = queues s" "semaphores (chain_call i n a s) = semaphores s"
  by (simp_all add: chain_call_def)

lemma set_chain_simps [simp]:
  "shms (set_chain i c s) = shms s" "mappings (set_chain i c s) = mappings s"
  "length (tasks (set_chain i c s)) = length (tasks s)" "queues (set_chain i c s) = queues s"
  "semaphores (set_chain i c s) = semaphores s"
  "cfg (set_chain i c s) j =
     (if j = i \<and> i < length (tasks s) then (cfg s i)\<lparr>chain_state_of := c\<rparr> else cfg s j)"
  by (simp_all add: set_chain_def)

lemma write_shm_simps [simp]:
  "shms (snd (write_data e i a b s)) = shms s" "mappings (snd (write_data e i a b s)) = mappings s"
  by (simp_all add: write_data_def)

lemma wake_pending_simps [simp]:
  "shms (wake_pending_shmat s) = shms s" "mappings (wake_pending_shmat s) = mappings s"
  "length (tasks (wake_pending_shmat s)) = length (tasks s)" "queues (wake_pending_shmat s) = queues s"
  "semaphores (wake_pending_shmat s) = semaphores s"
  by (simp_all add: wake_pending_shmat_def Let_def split: option.split)

lemma recvmsg_simps [simp]:
  "shms (snd (recvmsg_pointers_at e i b w s)) = shms s"
  "mappings (snd (recvmsg_pointers_at e i b w s)) = mappings s"
  by (auto simp: recvmsg_pointers_at_def Let_def write_data_def split: prod.split)

section \<open>The invariant\<close>

text \<open>
  A mapping refers to an existing segment, and a removal is only deferred while the segment is mapped.
\<close>

definition attached :: "nat \<Rightarrow> ipc_state \<Rightarrow> bool" where
  "attached index s \<longleftrightarrow> list_ex (\<lambda>m. map_shm m = index) (mappings s)"

definition shm_inv :: "ipc_state \<Rightarrow> bool" where
  "shm_inv s \<longleftrightarrow> (\<forall>m \<in> set (mappings s). map_shm m < length (shms s) \<and> valid (shms s ! map_shm m)) \<and>
     (\<forall>index < length (shms s). rmid_pending (shms s ! index) \<longrightarrow> valid (shms s ! index) \<and> attached index s)"

lemma shm_inv_same:
  "shm_inv s \<Longrightarrow> shms t = shms s \<Longrightarrow> mappings t = mappings s \<Longrightarrow> shm_inv t"
  by (simp add: shm_inv_def attached_def)

text \<open>Changes of a segment that keep its life cycle fields, and a mapping whose address changes.\<close>

lemma shm_inv_update:
  assumes "shm_inv s" "\<And>x. valid (f x) = valid x \<and> rmid_pending (f x) = rmid_pending x"
  shows "shm_inv (set_shm index f s)"
  using assms by (auto simp: shm_inv_def attached_def nth_updated)

lemma shm_inv_relocate:
  assumes "shm_inv s" "mappings t = (mappings s)[k := m]" "map_shm m = map_shm (mappings s ! k)"
    and "shms t = shms s"
  shows "shm_inv t"
proof -
  have "map map_shm (mappings t) = map map_shm (mappings s)"
    using assms(2,3) by (simp add: map_update list_update_same_conv) (metis list_update_id map_update)
  then have "map_shm ` set (mappings t) = map_shm ` set (mappings s)" by (metis set_map)
  with assms(1,4) show ?thesis unfolding shm_inv_def attached_def list_ex_iff
    by (metis (no_types, lifting) image_iff)
qed

lemma shms_do_rmid:
  "shms (sysvipc_do_rmid e index s) = (shms s)[index := (shms s ! index)
     \<lparr>valid := False, rmid_pending := False, generation := generation (shms s ! index) + 1, shm_fd := - 1\<rparr>]"
  by (simp add: sysvipc_do_rmid_def Let_def)

interpretation shm_objects: ipc_objects shms "sysvipc_do_rmid e" for e
  by unfold_locales (auto simp: shms_do_rmid)

lemma do_rmid_inv:
  assumes "\<forall>m \<in> set (mappings s). map_shm m < length (shms s) \<and> valid (shms s ! map_shm m)"
    and "\<forall>j < length (shms s). j \<noteq> index \<longrightarrow> rmid_pending (shms s ! j) \<longrightarrow>
      valid (shms s ! j) \<and> attached j s"
    and "\<not> attached index s"
  shows "shm_inv (sysvipc_do_rmid e index s)"
  using assms by (auto simp: shm_inv_def shms_do_rmid attached_def list_ex_iff nth_updated)

text \<open>Freeing a mapping either leaves the segments as they are or, for the last mapping of a segment whose removal
  is pending, removes that segment.\<close>

lemma split_nth: "k < length xs \<Longrightarrow> set xs = insert (xs ! k) (set (take k xs @ drop (Suc k) xs))"
  by (metis Un_insert_right id_take_nth_drop list.simps(15) set_append)

lemma free_mapping_inv:
  assumes "shm_inv s" "k < length (mappings s)"
  shows "shm_inv (free_mapping e k s)"
proof -
  let ?ms = "take k (mappings s) @ drop (Suc k) (mappings s)"
  let ?index = "map_shm (mappings s ! k)"
  let ?t = "s\<lparr>mappings := ?ms\<rparr>"
  note set = split_nth [OF assms(2)]
  have sub: "\<forall>m \<in> set (mappings ?t). map_shm m < length (shms ?t) \<and> valid (shms ?t ! map_shm m)"
    using assms(1) set by (auto simp: shm_inv_def)
  have others: "\<forall>j < length (shms ?t). j \<noteq> ?index \<longrightarrow> rmid_pending (shms ?t ! j) \<longrightarrow>
      valid (shms ?t ! j) \<and> attached j ?t"
    using assms(1) set by (auto simp: shm_inv_def attached_def list_ex_iff)
  show ?thesis
  proof (cases "rmid_pending (shms s ! ?index) \<and> \<not> attached ?index ?t")
    case True
    then show ?thesis using do_rmid_inv [OF sub others] by (simp add: free_mapping_def attached_def)
  next
    case False
    have "shm_inv ?t"
      using sub others False assms(1) set by (auto simp: shm_inv_def)
    moreover have "free_mapping e k s = ?t" using False by (auto simp: free_mapping_def attached_def Let_def)
    ultimately show ?thesis by simp
  qed
qed

lemma find_pending_bound: "find_pending_mapping i s = Some k \<Longrightarrow> k < length (mappings s)"
  by (simp add: find_pending_mapping_def find_mapping_Some)

lemma wake_pending_inv: "shm_inv s \<Longrightarrow> shm_inv (wake_pending_shmat s)"
  by (rule shm_inv_same) simp_all

lemma fail_inv:
  assumes "shm_inv s"
  shows "fail_dont_close e i s = Some (n, t) \<Longrightarrow> shm_inv t"
    and "fail_close_socket e i s = Some (n, t) \<Longrightarrow> shm_inv t"
proof -
  have free: "shm_inv (wake_pending_shmat (free_mapping e k u))"
    if "find_pending_mapping i u = Some k" "shms u = shms s" "mappings u = mappings s" for k u
    by (intro wake_pending_inv free_mapping_inv shm_inv_same [OF assms] that find_pending_bound [OF that(1)])
  show "fail_dont_close e i s = Some (n, t) \<Longrightarrow> shm_inv t"
    by (auto simp: fail_dont_close_def Let_def intro: free split: option.splits)
  show "fail_close_socket e i s = Some (n, t) \<Longrightarrow> shm_inv t"
    by (auto simp: fail_close_socket_def Let_def intro: free split: option.splits)
qed

lemma shmat_steps_inv:
  assumes "shm_inv s"
  shows "shmat_socket e i s = Some (n, t) \<Longrightarrow> shm_inv t"
    and "shmat_connect e i x s = Some (n, t) \<Longrightarrow> shm_inv t"
    and "shmat_recvmsg e i x s = Some (n, t) \<Longrightarrow> shm_inv t"
    and "shmat_mmap i s = Some (n, t) \<Longrightarrow> shm_inv t"
proof -
  note same = shm_inv_same [OF assms]
  have fails: "fail_dont_close e i u = Some (n, t) \<Longrightarrow> shms u = shms s \<Longrightarrow> mappings u = mappings s \<Longrightarrow> shm_inv t"
    "fail_close_socket e i u = Some (n, t) \<Longrightarrow> shms u = shms s \<Longrightarrow> mappings u = mappings s \<Longrightarrow> shm_inv t"
    for u using fail_inv [OF same] by blast+
  show "shmat_socket e i s = Some (n, t) \<Longrightarrow> shm_inv t"
    by (auto simp: shmat_socket_def Let_def case_prod_beta intro: same elim!: fails split: if_split_asm)
  show "shmat_connect e i x s = Some (n, t) \<Longrightarrow> shm_inv t"
    by (cases "recvmsg_pointers_at e i (shmat_guest_buf (cfg s i)) True s")
      (use recvmsg_simps [of e i "shmat_guest_buf (cfg s i)" True s] in
        \<open>auto simp: shmat_connect_def Let_def case_prod_beta intro: same elim!: fails
          split: if_split_asm sum.splits\<close>)
  show "shmat_recvmsg e i x s = Some (n, t) \<Longrightarrow> shm_inv t"
    by (cases "recvmsg_pointers_at e i (shmat_guest_buf (cfg s i)) False s")
      (use recvmsg_simps [of e i "shmat_guest_buf (cfg s i)" False s] in
        \<open>auto simp: shmat_recvmsg_def Let_def case_prod_beta intro: same elim!: fails
          split: if_split_asm sum.splits\<close>)
  show "shmat_mmap i s = Some (n, t) \<Longrightarrow> shm_inv t"
  proof -
    assume m: "shmat_mmap i s = Some (n, t)"
    then obtain k where k: "find_pending_mapping i s = Some k"
      by (auto simp: shmat_mmap_def Let_def split: option.splits)
    from m k show "shm_inv t"
      by (intro shm_inv_relocate [OF assms, of _ k "(mappings s ! k)\<lparr>map_addr := arg s i SYSARG_RESULT,
          map_size := arg s i SYSARG_2\<rparr>"]) (auto simp: shmat_mmap_def Let_def)
  qed
qed

lemma shmat_chain_inv: "shm_inv s \<Longrightarrow> sysvipc_shmat_chain e i s = Some (n, t) \<Longrightarrow> shm_inv t"
  by (auto simp: sysvipc_shmat_chain_def Let_def dest: shmat_steps_inv
      split: if_split_asm chain_state.splits)

lemma shm_allocate_inv:
  assumes "shm_inv s" "index < length (shms s)" "\<not> valid (shms s ! index)"
  shows "shm_inv (snd (shm_allocate e i index s))"
proof -
  have p: "\<not> rmid_pending (shms s ! index)" using assms by (auto simp: shm_inv_def)
  have "shm_inv t" if "shms t = (shms s)[index := x]" "mappings t = mappings s" "\<not> rmid_pending x" for t x
    using assms that by (auto simp: shm_inv_def attached_def nth_updated)
  with p assms(2) show ?thesis by (simp add: shm_allocate_def Let_def case_prod_beta)
qed

lemma shmget_inv:
  assumes "shm_inv s"
  shows "shm_inv (snd (sysvipc_shmget e i s))"
proof -
  have grow: "shm_inv (s\<lparr>shms := shms s @ [unused_shm]\<rparr>)"
    using assms by (auto simp: shm_inv_def attached_def nth_append unused_shm_def)
  have "shm_inv (snd (shm_allocate e i (length (shms s)) (s\<lparr>shms := shms s @ [unused_shm]\<rparr>)))"
    by (rule shm_allocate_inv [OF grow]) (simp_all add: unused_shm_def)
  moreover have "shm_inv (snd (shm_allocate e i j s))"
    if "ipc_scan (arg s i SYSARG_1) (shms s) 0 None = (None, Some j)" for j
    using ipc_scan_unused [OF that] by (intro shm_allocate_inv [OF assms]) simp_all
  ultimately show ?thesis
    using assms by (auto simp: sysvipc_shmget_def Let_def split: prod.split option.split)
qed

lemma shmat_inv:
  assumes "shm_inv s"
  shows "shm_inv (snd (sysvipc_shmat i s))"
proof (cases "lookup_ipc_object (arg s i SYSARG_1) (shms s)")
  case None
  with assms show ?thesis by (simp add: sysvipc_shmat_def)
next
  case (Some index)
  have "shm_inv u" if "shms u = shms s" "mappings u = m # mappings s" "map_shm m = index" for u m
    using assms that lookup_Some(1,2) [OF Some] by (auto simp: shm_inv_def attached_def)
  with Some show ?thesis by (simp add: sysvipc_shmat_def Let_def)
qed

lemma shmdt_inv:
  assumes "shm_inv s"
  shows "shm_inv (snd (sysvipc_shmdt e i s))"
proof -
  have "shm_inv (free_mapping e k u)" if "shms u = shms s" "mappings u = mappings s" "k < length (mappings s)" for k u
    using free_mapping_inv [OF shm_inv_same [OF assms that(1,2)]] that by simp
  with assms show ?thesis by (auto simp: sysvipc_shmdt_def Let_def find_mapping_Some split: option.split)
qed

lemma shmctl_inv:
  assumes "shm_inv s"
  shows "shm_inv (snd (sysvipc_shmctl e i s))"
proof (cases "lookup_ipc_object (arg s i SYSARG_1) (shms s)")
  case None
  with assms show ?thesis by (simp add: sysvipc_shmctl_def)
next
  case (Some index)
  note l = lookup_Some [OF Some]
  have "shm_inv (set_shm index (\<lambda>x. x\<lparr>rmid_pending := True\<rparr>) s)" if "attached index s"
    using assms that l by (auto simp: shm_inv_def attached_def nth_updated)
  moreover have "shm_inv (sysvipc_do_rmid e index s)" if "\<not> attached index s"
    using assms that by (intro do_rmid_inv) (auto simp: shm_inv_def)
  moreover have "shm_inv (snd (write_data e i b d (shm_update_stats index s)))" for b d
    by (rule shm_inv_same [OF shm_inv_update [OF assms]])
      (simp_all add: shm_update_stats_def)
  ultimately show ?thesis
    using Some assms by (simp add: sysvipc_shmctl_def Let_def attached_def del: write_shm_simps)
qed

lemma set_inherited:
  "set (mappings (shm_inherit_process p c s)) =
     set (mappings s) \<union> (\<lambda>m. m\<lparr>map_process := c\<rparr>) ` {m \<in> set (mappings s). map_process m = p}"
  by (auto simp: shm_inherit_process_def)

lemma inherit_inv: "shm_inv s \<Longrightarrow> shm_inv (shm_inherit_process p c s)"
  using set_inherited [of p c s]
  by (auto simp: shm_inv_def attached_def list_ex_iff) (auto simp: shm_inherit_process_def)

lemma remove_mappings_inv: "shm_inv s \<Longrightarrow> shm_inv (shm_remove_mappings e p s)"
proof (induction e p s rule: shm_remove_mappings.induct)
  case (1 e p s)
  then show ?case
    by (subst shm_remove_mappings.simps)
      (auto simp: find_mapping_Some split: option.split intro!: 1(1) free_mapping_inv)
qed

lemma fill_rows_inv: "shm_inv s \<Longrightarrow> shm_inv (snd (shm_fill_rows e l s))"
proof (induction l arbitrary: s)
  case (Cons index l)
  have "shm_inv (shm_update_stats index s)"
    unfolding shm_update_stats_def by (rule shm_inv_update [OF Cons.prems]) simp
  with Cons show ?case by (simp add: Let_def case_prod_beta)
qed simp

section \<open>Detaching\<close>

text \<open>A segment after its removal.\<close>

definition removed :: "shared_mem \<Rightarrow> shared_mem" where
  "removed x = x\<lparr>valid := False, rmid_pending := False, generation := generation x + 1, shm_fd := - 1\<rparr>"

lemma removed_simps [simp]: "valid (removed x) = False" "rmid_pending (removed x) = False"
  by (simp_all add: removed_def)

lemma free_mapping_shms:
  assumes "shm_inv s" "k < length (mappings s)" "j < length (shms s)"
  shows "shms (free_mapping e k s) ! j =
    (if rmid_pending (shms s ! j) \<and> \<not> attached j (free_mapping e k s) then removed (shms s ! j)
     else shms s ! j)"
proof -
  let ?ms = "take k (mappings s) @ drop (Suc k) (mappings s)"
  let ?index = "map_shm (mappings s ! k)"
  have set: "set (mappings s) = insert (mappings s ! k) (set ?ms)" using split_nth [OF assms(2)] .
  have att: "attached i (free_mapping e k s) \<longleftrightarrow> (\<exists>m \<in> set ?ms. map_shm m = i)" for i
    by (simp add: attached_def list_ex_iff)
  have "attached j (free_mapping e k s)" if "rmid_pending (shms s ! j)" "j \<noteq> ?index"
    using assms(1,3) that set unfolding att by (auto simp: shm_inv_def attached_def list_ex_iff)
  note other = this
  have u: "shms (free_mapping e k s) ! j = (if rmid_pending (shms s ! ?index) \<and> \<not> attached ?index (free_mapping e k s)
      then (shms s)[?index := removed (shms s ! ?index)] ! j else shms s ! j)"
    unfolding att by (auto simp: free_mapping_def Let_def shms_do_rmid removed_def list_ex_iff)
  show ?thesis
  proof (cases "j = ?index")
    case True
    with assms(3) show ?thesis unfolding u by (simp add: nth_updated)
  next
    case False
    with other assms(3) show ?thesis unfolding u by (auto simp: nth_updated)
  qed
qed

lemma free_mapping_length: "length (shms (free_mapping e k s)) = length (shms s)"
  by (simp add: free_mapping_def Let_def shms_do_rmid)

lemma attached_subset: "set (mappings t) \<subseteq> set (mappings s) \<Longrightarrow> attached j t \<Longrightarrow> attached j s"
  by (auto simp: attached_def list_ex_iff)

lemma filter_take_drop: "k < length xs \<Longrightarrow> \<not> P (xs ! k) \<Longrightarrow> filter P (take k xs @ drop (Suc k) xs) = filter P xs"
  using id_take_nth_drop [of k xs] by (metis (no_types, lifting) filter.simps(2) filter_append)

lemma remove_mappings_effect:
  assumes "shm_inv s"
  shows "mappings (shm_remove_mappings e p s) = filter (\<lambda>m. map_process m \<noteq> p) (mappings s) \<and>
    length (shms (shm_remove_mappings e p s)) = length (shms s) \<and>
    (\<forall>j < length (shms s). shms (shm_remove_mappings e p s) ! j =
      (if rmid_pending (shms s ! j) \<and> \<not> attached j (shm_remove_mappings e p s) then removed (shms s ! j)
       else shms s ! j))"
  using assms
proof (induction e p s rule: shm_remove_mappings.induct)
  case (1 e p s)
  show ?case
  proof (cases "find_mapping (\<lambda>m. map_process m = p) 0 (mappings s)")
    case None
    then have r: "shm_remove_mappings e p s = s" by (simp add: shm_remove_mappings.simps)
    have "filter (\<lambda>m. map_process m \<noteq> p) (mappings s) = mappings s"
      using None by (auto simp: find_mapping_None intro: filter_True)
    with "1.prems" show ?thesis unfolding r by (auto simp: shm_inv_def)
  next
    case (Some k)
    let ?t = "free_mapping e k s"
    have k: "k < length (mappings s)" "map_process (mappings s ! k) = p"
      using Some by (auto simp: find_mapping_Some)
    have r: "shm_remove_mappings e p s = shm_remove_mappings e p ?t"
      using Some by (simp add: shm_remove_mappings.simps)
    have inv: "shm_inv ?t" using free_mapping_inv [OF "1.prems" k(1)] .
    note IH = "1.IH" [OF Some inv]
    have m: "filter (\<lambda>m. map_process m \<noteq> p) (mappings ?t) = filter (\<lambda>m. map_process m \<noteq> p) (mappings s)"
      using filter_take_drop [of k "mappings s" "\<lambda>m. map_process m \<noteq> p"] k by simp
    have sub: "attached j (shm_remove_mappings e p ?t) \<Longrightarrow> attached j ?t" for j
      by (rule attached_subset [rotated]) (use IH in auto)
    have "shms (shm_remove_mappings e p ?t) ! j =
        (if rmid_pending (shms s ! j) \<and> \<not> attached j (shm_remove_mappings e p ?t)
         then removed (shms s ! j) else shms s ! j)" if j: "j < length (shms s)" for j
    proof (cases "rmid_pending (shms s ! j) \<and> \<not> attached j ?t")
      case True
      then have "shms ?t ! j = removed (shms s ! j)" using free_mapping_shms [OF "1.prems" k(1) j] by simp
      then show ?thesis using True IH j sub free_mapping_length [of e k s] by auto
    next
      case False
      then have "shms ?t ! j = shms s ! j" using free_mapping_shms [OF "1.prems" k(1) j] by auto
      then show ?thesis using IH j free_mapping_length [of e k s] by auto
    qed
    then show ?thesis unfolding r using IH m free_mapping_length [of e k s] by auto
  qed
qed

section \<open>Starting \<open>shmat\<close>\<close>

lemma arg_update_regs: "i < length (tasks s) \<Longrightarrow> arg (update_regs i (\<lambda>_. r) s) i x = peek_reg r CURRENT x"
  by (simp add: arg_def update_regs_def update_task_def)

lemma shmat_done:
  assumes "lookup_ipc_object (arg s i SYSARG_1) (shms s) = Some index" "sysvipc_shmat i s = (n, t)"
    and "i < length (tasks s)"
  shows "n = 0 \<and> shms t = shms s \<and> length (tasks t) = length (tasks s) \<and>
    mappings t = \<lparr>map_process = process_of (cfg s i), map_shm = index, map_addr = 0, map_size = 0\<rparr> # mappings s \<and>
    (\<forall>k. k \<noteq> i \<longrightarrow> cfg t k = cfg s k) \<and>
    cfg t i = (if list_ex (\<lambda>k. helper_in_use (cfg s k)) [0..<length (tasks s)]
      then (cfg s i)\<lparr>waiting_object_index := index, wait_reason_of := WR_WAIT_SHMAT_HELPER_BUSY\<rparr>
      else (cfg s i)\<lparr>waiting_object_index := index, chain_state_of := CSTATE_SHMAT_SOCKET\<rparr>)"
proof -
  let ?m = "\<lparr>map_process = process_of (cfg s i), map_shm = index, map_addr = 0, map_size = 0\<rparr>"
  define u where "u = (update_cfg i (\<lambda>c. c\<lparr>waiting_object_index := index\<rparr>) s)\<lparr>mappings := ?m # mappings s\<rparr>"
  have u: "cfg u i = (cfg s i)\<lparr>waiting_object_index := index\<rparr>" "\<And>k. k \<noteq> i \<Longrightarrow> cfg u k = cfg s k"
    "shms u = shms s" "length (tasks u) = length (tasks s)" "mappings u = ?m # mappings s"
    using assms(3) by (simp_all add: u_def)
  have "helper_in_use (cfg u k) = helper_in_use (cfg s k)" for k
    by (cases "k = i") (simp_all add: u helper_in_use_def)
  then have h: "(\<lambda>k. helper_in_use (cfg u k)) = (\<lambda>k. helper_in_use (cfg s k))" by auto
  have "sysvipc_shmat i s =
     (if list_ex (\<lambda>k. helper_in_use (cfg u k)) [0..<length (tasks u)]
      then (0, update_cfg i (\<lambda>c. c\<lparr>wait_reason_of := WR_WAIT_SHMAT_HELPER_BUSY\<rparr>) u)
      else (0, set_chain i CSTATE_SHMAT_SOCKET (update_regs i (\<lambda>t. poke_all [(SYSARG_1, 1), (SYSARG_2, 5), (SYSARG_3, 0)]
             (set_sysnum ''socket'' t)) u)))"
    using assms(1,3) by (simp add: sysvipc_shmat_def Let_def u_def set_chain_def)
  then show ?thesis using assms(2,3) u unfolding h by (auto split: if_split_asm)
qed

lemma tasks_other:
  "k \<noteq> i \<Longrightarrow> tasks (update_cfg i f s) ! k = tasks s ! k"
  "k \<noteq> i \<Longrightarrow> tasks (update_regs i g s) ! k = tasks s ! k"
  "k \<noteq> i \<Longrightarrow> tasks (sysvipc_wake_tracee i st s) ! k = tasks s ! k"
  by (simp_all add: update_cfg_def update_regs_def update_task_def sysvipc_wake_tracee_def Let_def
      split: wait_state.split)

lemma wake_pending_other:
  assumes "wait_reason_of (cfg s k) \<noteq> WR_WAIT_SHMAT_HELPER_BUSY"
  shows "tasks (wake_pending_shmat s) ! k = tasks s ! k"
proof (cases "List.find (\<lambda>k. wait_reason_of (cfg s k) = WR_WAIT_SHMAT_HELPER_BUSY) [0..<length (tasks s)]")
  case (Some j)
  then have "k \<noteq> j" using assms by (auto simp: find_Some_iff)
  with Some show ?thesis by (simp add: wake_pending_shmat_def Let_def tasks_other)
qed (simp add: wake_pending_shmat_def)

text \<open>Registers after a successful \<open>socket\<close>, with a stack that can be written.\<close>

definition connects :: "ipc_env \<Rightarrow> nat \<Rightarrow> tracee \<Rightarrow> bool" where
  "connects e i r \<longleftrightarrow> 0 \<le> c_int (peek_reg r CURRENT SYSARG_RESULT) \<and>
     peek_reg r CURRENT STACK_POINTER - of_nat SOCKADDR_UN_SIZE \<noteq> 0 \<and>
     can_write e i (peek_reg r CURRENT STACK_POINTER - of_nat SOCKADDR_UN_SIZE) (length (helper_address e))"

lemma shmat_socket_done:
  assumes "connects e i r" "chain_state_of (cfg u i) = CSTATE_SHMAT_SOCKET" "i < length (tasks u)"
    and "waiting_object_index (cfg u i) < length (shms u)" "valid (shms u ! waiting_object_index (cfg u i))"
  shows "\<exists>v. sysvipc_shmat_chain e i (update_regs i (\<lambda>_. r) u) = Some (1, v) \<and>
    chain_state_of (cfg v i) = CSTATE_SHMAT_CONNECT \<and> (\<forall>k. k \<noteq> i \<longrightarrow> cfg v k = cfg u k) \<and>
    shms v = shms u \<and> length (tasks v) = length (tasks u)"
  using assms
  by (simp add: sysvipc_shmat_chain_def shmat_socket_def connects_def Let_def arg_update_regs write_data_def not_less)

section \<open>Properties\<close>

text \<open>C29: Every operation on shared memory keeps the invariant: a mapping belongs to a valid segment, and
  a removal is pending only for a valid segment that is still mapped.\<close>

theorem shm_calls_invariant:
  assumes "shm_inv s"
  shows "shm_inv (snd (sysvipc_shmget e i s)) \<and> shm_inv (snd (sysvipc_shmat i s)) \<and>
    (\<forall>n t. sysvipc_shmat_chain e i s = Some (n, t) \<longrightarrow> shm_inv t) \<and>
    shm_inv (snd (sysvipc_shmdt e i s)) \<and> shm_inv (snd (sysvipc_shmctl e i s)) \<and>
    shm_inv (shm_inherit_process p c s) \<and> shm_inv (shm_remove_mappings e p s) \<and>
    shm_inv (snd (shm_fill_proc e s))"
  using shmget_inv [OF assms] shmat_inv [OF assms] shmat_chain_inv [OF assms] shmdt_inv [OF assms]
    shmctl_inv [OF assms] inherit_inv [OF assms] remove_mappings_inv [OF assms] fill_rows_inv [OF assms]
  by (simp add: shm_fill_proc_def)

text \<open>\<open>shmctl(IPC_RMID)\<close> removes a segment that is not mapped, asks the helper to free its descriptor
  and kills its identifier for good; a mapped segment stays as it is, only marked.\<close>

theorem shmctl_removes_or_defers:
  assumes "lookup_ipc_object (arg s i SYSARG_1) (shms s) = Some index"
    and "arg s i SYSARG_2 = 0 \<or> arg s i SYSARG_2 = 0x100" "sysvipc_shmctl e i s = (status, t)"
  shows "status = 0 \<and> mappings t = mappings s \<and>
    (if attached index s
     then helper_requests t = helper_requests s \<and>
       shms t = (shms s)[index := (shms s ! index)\<lparr>rmid_pending := True\<rparr>]
     else helper_requests t = helper_requests s @ [SHMHELPER_FREE (shm_fd (shms s ! index))] \<and>
       shms t = (shms s)[index := removed (shms s ! index)] \<and>
       (\<forall>y. generation y = generation (shms t ! index) \<longrightarrow>
         lookup_ipc_object (arg s i SYSARG_1) ((shms t)[index := y]) = None))"
proof -
  have "c_int (arg s i SYSARG_2) = IPC_RMID \<or> c_int (arg s i SYSARG_2) = SYSVIPC_IPC_64"
    using assms(2) by (auto simp: c_int_def IPC_RMID_def SYSVIPC_IPC_64_def)
  then have t: "status = 0" "t = (if attached index s then set_shm index (\<lambda>x. x\<lparr>rmid_pending := True\<rparr>) s
      else sysvipc_do_rmid e index s)"
    using assms(1,3) by (auto simp: sysvipc_shmctl_def attached_def)
  have "helper_requests (sysvipc_do_rmid e index s) =
      helper_requests s @ [SHMHELPER_FREE (shm_fd (shms s ! index))]"
    by (simp add: sysvipc_do_rmid_def Let_def)
  then show ?thesis
    using t shm_objects.stale_identifier [OF assms(1), of _ e]
    by (auto simp: shms_do_rmid removed_def)
qed

text \<open>C30: When a process loses its mappings, by its exit or by \<open>execve\<close>, exactly its mappings go, the others
  keep their order, and exactly those segments are removed whose removal was pending and that no
  mapping is left of.\<close>

theorem removed_when_last_mapping_goes:
  assumes "shm_inv s" "t = shm_remove_mappings e p s"
  shows "mappings t = filter (\<lambda>m. map_process m \<noteq> p) (mappings s) \<and>
    length (shms t) = length (shms s) \<and>
    (\<forall>j < length (shms s). shms t ! j =
      (if rmid_pending (shms s ! j) \<and> \<not> attached j t then removed (shms s ! j) else shms s ! j))"
  using remove_mappings_effect [OF assms(1)] unfolding assms(2) .

text \<open>A new process inherits the mappings of its parent: the same addresses, sizes and segments in the
  same order, while the lists of the other processes stay as they are.\<close>

theorem inherited_mappings:
  assumes "\<forall>m \<in> set (mappings s). map_process m \<noteq> child" "child \<noteq> parent"
  shows "filter (\<lambda>m. map_process m = child) (mappings (shm_inherit_process parent child s)) =
      map (\<lambda>m. m\<lparr>map_process := child\<rparr>) (filter (\<lambda>m. map_process m = parent) (mappings s)) \<and>
    filter (\<lambda>m. map_process m \<noteq> child) (mappings (shm_inherit_process parent child s)) = mappings s \<and>
    filter (\<lambda>m. map_shm m = j) (mappings (shm_inherit_process parent child s)) =
      concat (map (\<lambda>m. if map_process m = parent then [m, m\<lparr>map_process := child\<rparr>] else [m])
        (filter (\<lambda>m. map_shm m = j) (mappings s)))"
proof -
  let ?f = "\<lambda>m. if map_process m = parent then [m, m\<lparr>map_process := child\<rparr>] else [m]"
  have "filter (\<lambda>m. map_process m = child) (concat (map ?f ms)) =
        map (\<lambda>m. m\<lparr>map_process := child\<rparr>) (filter (\<lambda>m. map_process m = parent) ms) \<and>
      filter (\<lambda>m. map_process m \<noteq> child) (concat (map ?f ms)) = ms \<and>
      filter (\<lambda>m. map_shm m = j) (concat (map ?f ms)) = concat (map ?f (filter (\<lambda>m. map_shm m = j) ms))"
    if "\<forall>m \<in> set ms. map_process m \<noteq> child" for ms
    using that by (induction ms) (use assms(2) in auto)
  from this [OF assms(1)] show ?thesis by (simp add: shm_inherit_process_def)
qed

text \<open>The last step of \<open>shmat\<close> records whatever \<open>mmap\<close> returned as the address of the pending mapping
  and makes it the result of the call, an error number too: a failed \<open>mmap\<close> leaves the segment attached.\<close>

theorem shmat_records_any_result:
  assumes "chain_state_of (cfg s i) = CSTATE_SHMAT_MMAP" "wait_reason_of (cfg s i) = WR_NOT_WAITING"
    and "i < length (tasks s)" "waiting_object_index (cfg s i) < length (shms s)"
    and "valid (shms s ! waiting_object_index (cfg s i))" "find_pending_mapping i s = Some k"
  shows "\<exists>t. sysvipc_shmat_chain e i s = Some (1, t) \<and>
    mappings t = (mappings s)[k := (mappings s ! k)
      \<lparr>map_addr := arg s i SYSARG_RESULT, map_size := arg s i SYSARG_2\<rparr>] \<and>
    attached (waiting_object_index (cfg s i)) t \<and>
    chain_state_of (cfg t i) = CSTATE_NOT_CHAINED \<and>
    force_final_result (task_regs (tasks t ! i)) \<and>
    final_result (task_regs (tasks t ! i)) = arg s i SYSARG_RESULT"
proof -
  let ?m = "(mappings s ! k)\<lparr>map_addr := arg s i SYSARG_RESULT, map_size := arg s i SYSARG_2\<rparr>"
  let ?u = "s\<lparr>mappings := (mappings s)[k := ?m]\<rparr>"
  let ?v = "update_regs i (force_chain_final_result (arg s i SYSARG_RESULT))
      (chain_call i ''close'' [of_c_int (shmat_socket_fd (cfg s i)), 0, 0, 0, 0, 0]
      (chain_call i ''close'' [of_c_int (shmat_mem_fd (cfg s i)), 0, 0, 0, 0, 0] ?u))"
  let ?w = "set_chain i CSTATE_NOT_CHAINED ?v"
  let ?t = "wake_pending_shmat ?w"
  have t: "sysvipc_shmat_chain e i s = Some (1, ?t)"
    using assms by (simp add: sysvipc_shmat_chain_def shmat_mmap_def Let_def)
  have k: "k < length (mappings s)" "map_shm (mappings s ! k) = waiting_object_index (cfg s i)"
    using assms(6) by (auto simp: find_pending_mapping_def find_mapping_Some pending_mapping_def)
  have "attached (waiting_object_index (cfg s i)) ?t"
    using k by (auto simp: attached_def list_ex_iff intro!: bexI [of _ ?m] set_update_memI)
  moreover have same: "tasks ?t ! i = tasks ?w ! i"
    by (rule wake_pending_other) (use assms(2,3) in simp)
  moreover have "task_regs (tasks ?w ! i) = task_regs (tasks ?v ! i)"
    using assms(3) by (simp add: set_chain_def update_cfg_def update_task_def)
  moreover have "force_final_result (task_regs (tasks ?v ! i))"
    "final_result (task_regs (tasks ?v ! i)) = arg s i SYSARG_RESULT"
    using assms(3) by (simp_all add: update_regs_def update_task_def chain_call_def force_chain_final_result_def)
  moreover have "chain_state_of (cfg ?t i) = CSTATE_NOT_CHAINED"
    using same assms(3) by (simp add: cfg_def set_chain_def update_cfg_def update_task_def)
  ultimately show ?thesis using t by (intro exI [of _ ?t]) simp
qed

text \<open>C31: The helper process can be in use by two tracees at once: \<open>shmat\<close> only looks for tracees behind the
  first step of the chain, so that two tracees before it both start and both get behind it, although the
  helper hands out descriptors in the order of the connections.\<close>

theorem shmat_not_exclusive:
  assumes "i < length (tasks s)" "j < length (tasks s)" "i \<noteq> j" "\<forall>k < length (tasks s). \<not> helper_in_use (cfg s k)"
    and "lookup_ipc_object (arg s i SYSARG_1) (shms s) = Some a" "sysvipc_shmat i s = (n, t)"
    and "lookup_ipc_object (arg t j SYSARG_1) (shms t) = Some b" "sysvipc_shmat j t = (m, u)"
    and "connects e i r" "connects e j q"
  shows "\<exists>v w. sysvipc_shmat_chain e i (update_regs i (\<lambda>_. r) u) = Some (1, v) \<and>
    sysvipc_shmat_chain e j (update_regs j (\<lambda>_. q) v) = Some (1, w) \<and>
    helper_in_use (cfg w i) \<and> helper_in_use (cfg w j)"
proof -
  note 1 = shmat_done [OF assms(5,6,1)]
  have ti: "cfg t i = (cfg s i)\<lparr>waiting_object_index := a, chain_state_of := CSTATE_SHMAT_SOCKET\<rparr>"
    using 1 assms(4) by (simp add: list_ex_iff)
  have "\<not> helper_in_use (cfg t k)" if "k < length (tasks t)" for k
    using that 1 assms(4) by (cases "k = i") (simp_all add: ti helper_in_use_def)
  then have n: "\<not> list_ex (\<lambda>k. helper_in_use (cfg t k)) [0..<length (tasks t)]" by (auto simp: list_ex_iff)
  note 2 = shmat_done [OF assms(7,8)]
  have uj: "cfg u j = (cfg t j)\<lparr>waiting_object_index := b, chain_state_of := CSTATE_SHMAT_SOCKET\<rparr>"
    "cfg u i = cfg t i" "shms u = shms s" "length (tasks u) = length (tasks s)"
    using 1 2 n assms(1-3) by simp_all
  have "\<exists>v. sysvipc_shmat_chain e i (update_regs i (\<lambda>_. r) u) = Some (1, v) \<and>
      chain_state_of (cfg v i) = CSTATE_SHMAT_CONNECT \<and> (\<forall>k. k \<noteq> i \<longrightarrow> cfg v k = cfg u k) \<and>
      shms v = shms u \<and> length (tasks v) = length (tasks u)"
    by (rule shmat_socket_done [OF assms(9)])
      (use uj ti assms(1) lookup_Some(1,2) [OF assms(5)] in simp_all)
  then obtain v where v: "sysvipc_shmat_chain e i (update_regs i (\<lambda>_. r) u) = Some (1, v)"
      "chain_state_of (cfg v i) = CSTATE_SHMAT_CONNECT" "\<forall>k. k \<noteq> i \<longrightarrow> cfg v k = cfg u k"
      "shms v = shms u" "length (tasks v) = length (tasks u)" by blast
  have "\<exists>w. sysvipc_shmat_chain e j (update_regs j (\<lambda>_. q) v) = Some (1, w) \<and>
      chain_state_of (cfg w j) = CSTATE_SHMAT_CONNECT \<and> (\<forall>k. k \<noteq> j \<longrightarrow> cfg w k = cfg v k) \<and>
      shms w = shms v \<and> length (tasks w) = length (tasks v)"
    by (rule shmat_socket_done [OF assms(10)])
      (use uj v assms(2,3) 1 lookup_Some(1,2) [OF assms(7)] in simp_all)
  then show ?thesis using v(1,2) assms(3) by (fastforce simp: helper_in_use_def)
qed

text \<open>\<open>shmdt(NULL)\<close> in one thread frees the mapping that another thread of the process is about to
  complete, since a pending mapping has the address 0; the step of the chain that looks for the mapping
  then fails its assertion, which ends the program.\<close>

theorem shmdt_null_aborts_shmat:
  assumes "i < length (tasks s)" "j < length (tasks s)" "i \<noteq> j" "process_of (cfg s i) = process_of (cfg s j)"
    and "lookup_ipc_object (arg s i SYSARG_1) (shms s) = Some a" "sysvipc_shmat i s = (n, t)"
    and "\<forall>k < length (tasks s). \<not> helper_in_use (cfg s k)"
    and "\<forall>m \<in> set (mappings s). \<not> pending_mapping (process_of (cfg s i)) a m"
    and "arg t j SYSARG_1 = 0" "sysvipc_shmdt e j t = (status, u)"
    and "c_int (peek_reg r CURRENT SYSARG_RESULT) < 0"
  shows "n = 0 \<and> status = 0 \<and> sysvipc_shmat_chain e i (update_regs i (\<lambda>_. r) u) = None"
proof -
  note 1 = shmat_done [OF assms(5,6,1)]
  have ti: "cfg t i = (cfg s i)\<lparr>waiting_object_index := a, chain_state_of := CSTATE_SHMAT_SOCKET\<rparr>"
    "cfg t j = cfg s j" using 1 assms(3,7) by (simp_all add: list_ex_iff)
  have find: "find_mapping (\<lambda>m. map_process m = process_of (cfg t j) \<and> map_addr m = arg t j SYSARG_1) 0 (mappings t) = Some 0"
    using 1 assms(4,9) ti by simp
  let ?v = "set_chain j CSTATE_SINGLE (update_regs j (\<lambda>q. poke_reg SYSARG_2 (map_size (mappings t ! 0))
      (set_sysnum ''munmap'' q)) t)"
  have u: "status = 0" "u = free_mapping e 0 ?v"
    using assms(10) find by (simp_all add: sysvipc_shmdt_def Let_def)
  have m: "mappings u = mappings s" using u 1 by simp
  have c: "cfg u i = cfg t i" "length (tasks u) = length (tasks s)"
    using u(2) assms(3) 1 by (simp_all add: free_mapping_def Let_def sysvipc_do_rmid_def)
  have "find_mapping (pending_mapping (process_of (cfg s i)) a) k (mappings s) = None" for k
    using assms(8) by (simp add: find_mapping_None)
  then have "fail_dont_close e i x = None"
    if "mappings x = mappings s" "process_of (cfg x i) = process_of (cfg s i)" "waiting_object_index (cfg x i) = a"
      "i < length (tasks x)" for x
    using that by (simp add: fail_dont_close_def find_pending_mapping_def Let_def)
  then show ?thesis
    using 1 u(1) m c ti assms(1,11)
    by (simp add: sysvipc_shmat_chain_def shmat_socket_def Let_def arg_update_regs)
qed

section \<open>Witnesses\<close>

definition example_segment :: shared_mem where
  "example_segment = \<lparr>slot_key = 77, generation = 0, valid = True, rmid_pending = False, shm_fd = 5,
     shm_segsz = 4096, shm_mode = 0x1A4, shm_cpid = 1000, shm_nattch = 0\<rparr>"

definition segment_state :: "ipc_task list \<Rightarrow> shm_map list \<Rightarrow> ipc_state" where
  "segment_state ts ms = (example_ipc ts)\<lparr>shms := [example_segment], mappings := ms\<rparr>"

definition two_threads :: "ipc_task list" where
  "two_threads = [example_task 4 [], example_task 4 [], example_task 4 [1, 0, 0], example_task 4 [1, 0, 0],
     example_task 4 [0, 0, 0]]"

definition example_mapping :: "nat \<Rightarrow> shm_map" where
  "example_mapping p = \<lparr>map_process = p, map_shm = 0, map_addr = 0x5000, map_size = 4096\<rparr>"

definition socket_done :: "word_t \<Rightarrow> tracee" where
  "socket_done fd = example_tracee\<lparr>regs := (\<lambda>version k. if k = 0 then ucast fd else if k = 62 then 0x8000 else 0)\<rparr>"

lemma shmat_tasks_other: "k \<noteq> i \<Longrightarrow> tasks (snd (sysvipc_shmat i s)) ! k = tasks s ! k"
  by (auto simp: sysvipc_shmat_def Let_def tasks_other split: option.split)

lemma shmat_arg_other: "k \<noteq> i \<Longrightarrow> arg (snd (sysvipc_shmat i s)) k r = arg s k r"
  by (simp add: arg_def shmat_tasks_other)

lemma shmat_shms: "shms (snd (sysvipc_shmat i s)) = shms s"
  by (auto simp: sysvipc_shmat_def Let_def split: option.split)

lemma shm_calls_witness:
  "shm_inv (snd (sysvipc_shmctl (example_machine []) 2 (segment_state two_threads [example_mapping 4])))"
proof -
  have "shm_inv (segment_state two_threads [example_mapping 4])" by code_simp
  then show ?thesis using shm_calls_invariant by blast
qed

lemma shmctl_removes_witness:
  "helper_requests (snd (sysvipc_shmctl (example_machine []) 2 (segment_state two_threads []))) = [SHMHELPER_FREE 5]"
proof -
  let ?s = "segment_state two_threads []"
  have a: "lookup_ipc_object (arg ?s 2 SYSARG_1) (shms ?s) = Some 0" "arg ?s 2 SYSARG_2 = 0" by code_simp+
  have "\<not> attached 0 ?s" "helper_requests ?s = []" "shm_fd (shms ?s ! 0) = 5" by code_simp+
  then show ?thesis
    using shmctl_removes_or_defers [OF a(1) _ prod.collapse [symmetric], of "example_machine []"] a(2) by simp
qed

lemma last_mapping_witness:
  "shms (shm_remove_mappings (example_machine []) 4
     (set_shm 0 (\<lambda>x. x\<lparr>rmid_pending := True\<rparr>) (segment_state two_threads [example_mapping 4]))) ! 0 =
   removed (example_segment\<lparr>rmid_pending := True\<rparr>)"
proof -
  let ?s = "set_shm 0 (\<lambda>x. x\<lparr>rmid_pending := True\<rparr>) (segment_state two_threads [example_mapping 4])"
  let ?t = "shm_remove_mappings (example_machine []) 4 ?s"
  have s: "shms ?s = [example_segment\<lparr>rmid_pending := True\<rparr>]" "mappings ?s = [example_mapping 4]"
    by (simp_all add: segment_state_def)
  have "shm_inv ?s" by code_simp
  note r = removed_when_last_mapping_goes [OF this refl, of "example_machine []" 4]
  have "mappings ?t = []" using r unfolding s by (simp add: example_mapping_def)
  then have "\<not> attached 0 ?t" by (simp add: attached_def)
  then show ?thesis using r unfolding s by simp
qed

lemma inherited_witness:
  "filter (\<lambda>m. map_process m = 6) (mappings (shm_inherit_process 4 6 (segment_state two_threads [example_mapping 4])))
     = [example_mapping 6]"
proof -
  let ?s = "segment_state two_threads [example_mapping 4]"
  have "\<forall>m \<in> set (mappings ?s). map_process m \<noteq> 6" "(6 :: nat) \<noteq> 4"
    by (simp_all add: segment_state_def example_mapping_def)
  from inherited_mappings [OF this, of 0] show ?thesis by (simp add: segment_state_def example_mapping_def)
qed

definition mmap_failed :: ipc_state where
  "mmap_failed = set_chain 2 CSTATE_SHMAT_MMAP
     (segment_state [example_task 4 [], example_task 4 [], example_task 4 [0xFFFFFFF4, 4096]]
       [(example_mapping 4)\<lparr>map_addr := 0, map_size := 0\<rparr>])"

lemma shmat_records_witness:
  "\<exists>t. sysvipc_shmat_chain (example_machine []) 2 mmap_failed = Some (1, t) \<and> attached 0 t"
proof -
  have "chain_state_of (cfg mmap_failed 2) = CSTATE_SHMAT_MMAP" "wait_reason_of (cfg mmap_failed 2) = WR_NOT_WAITING"
    "2 < length (tasks mmap_failed)" "waiting_object_index (cfg mmap_failed 2) < length (shms mmap_failed)"
    "valid (shms mmap_failed ! waiting_object_index (cfg mmap_failed 2))"
    "find_pending_mapping 2 mmap_failed = Some 0" "waiting_object_index (cfg mmap_failed 2) = 0"
    by code_simp+
  then show ?thesis using shmat_records_any_result [of mmap_failed 2 0 "example_machine []"] by auto
qed

lemma shmat_not_exclusive_witness:
  "\<exists>w. helper_in_use (cfg w 2) \<and> helper_in_use (cfg w 3)"
proof -
  let ?e = "example_machine []" and ?s = "segment_state two_threads []"
  let ?t = "snd (sysvipc_shmat 2 ?s)"
  have s: "2 < length (tasks ?s)" "3 < length (tasks ?s)" "\<forall>k < length (tasks ?s). \<not> helper_in_use (cfg ?s k)"
    "lookup_ipc_object (arg ?s 2 SYSARG_1) (shms ?s) = Some 0"
    "lookup_ipc_object (arg ?s 3 SYSARG_1) (shms ?s) = Some 0"
    "connects ?e 2 (socket_done 7)" "connects ?e 3 (socket_done 8)"
    by code_simp+
  have "lookup_ipc_object (arg ?t 3 SYSARG_1) (shms ?t) = Some 0"
    using s(5) by (simp add: shmat_arg_other shmat_shms)
  from shmat_not_exclusive [OF s(1,2) _ s(3,4) prod.collapse [symmetric] this prod.collapse [symmetric] s(6,7)]
  show ?thesis by fastforce
qed

lemma shmdt_null_witness:
  "\<exists>u. sysvipc_shmat_chain (example_machine []) 2 (update_regs 2 (\<lambda>_. calling [0xFFFFFFF4]) u) = None"
proof -
  let ?e = "example_machine []" and ?s = "segment_state two_threads []"
  let ?t = "snd (sysvipc_shmat 2 ?s)"
  have s: "2 < length (tasks ?s)" "4 < length (tasks ?s)" "process_of (cfg ?s 2) = process_of (cfg ?s 4)"
    "lookup_ipc_object (arg ?s 2 SYSARG_1) (shms ?s) = Some 0" "arg ?s 4 SYSARG_1 = 0"
    "c_int (peek_reg (calling [0xFFFFFFF4]) CURRENT SYSARG_RESULT) < 0"
    by code_simp+
  have f: "\<forall>k < length (tasks ?s). \<not> helper_in_use (cfg ?s k)" by code_simp
  have m: "\<forall>m \<in> set (mappings ?s). \<not> pending_mapping (process_of (cfg ?s 2)) 0 m" by code_simp
  have "arg ?t 4 SYSARG_1 = 0" using s(5) by (simp add: shmat_arg_other)
  from shmdt_null_aborts_shmat [OF s(1,2) _ s(3,4) prod.collapse [symmetric] f m this prod.collapse [symmetric, of "sysvipc_shmdt ?e 4 ?t"] s(6)]
  show ?thesis by auto
qed

end
