(* ===== verification/Sysvipc.thy ===== *)
theory Sysvipc
  imports Ipc_Sem Ipc_Msg Ipc_Shm Sigsys
begin

text \<open>
  The callback of the System V IPC extension, \<open>extension/sysvipc/sysvipc.c\<close>: how a call that has to wait
  is replaced by \<open>ppoll\<close>, how it is woken, interrupted or timed out, and how the chain of \<open>shmat\<close> runs, as a
  step relation over the stops of the tracees, with the invariant on which its assertions rest.
\<close>

section \<open>The code\<close>

text \<open>The switch of \<open>sysvipc_syscall_common\<close>; \<open>None\<close> is its default case.\<close>

definition ipc_call :: "ipc_env \<Rightarrow> sysnum \<Rightarrow> nat \<Rightarrow> ipc_state \<Rightarrow> (int \<times> ipc_state) option" where
  "ipc_call e sysnum i s =
     (if sysnum = ''msgget'' then Some (sysvipc_msgget i s)
      else if sysnum = ''msgsnd'' then Some (sysvipc_msgsnd e i s)
      else if sysnum = ''msgrcv'' then Some (sysvipc_msgrcv e i s)
      else if sysnum = ''msgctl'' then Some (sysvipc_msgctl e i s)
      else if sysnum = ''semget'' then Some (sysvipc_semget i s)
      else if sysnum = ''semtimedop'' \<or> sysnum = ''semop'' then Some (sysvipc_semop e i s)
      else if sysnum = ''semctl'' then Some (sysvipc_semctl e i s)
      else if sysnum = ''shmget'' then Some (sysvipc_shmget e i s)
      else if sysnum = ''shmat'' then Some (sysvipc_shmat i s)
      else if sysnum = ''shmdt'' then Some (sysvipc_shmdt e i s)
      else if sysnum = ''shmctl'' then Some (sysvipc_shmctl e i s)
      else None)"

text \<open>Registers that are pushed at once.\<close>

definition push_task :: "nat \<Rightarrow> (tracee \<Rightarrow> tracee \<times> ptrace_request list) \<Rightarrow> ipc_state \<Rightarrow> ipc_state" where
  "push_task i f s =
     (case f (task_regs (tasks s ! i)) of
        (t, requests) \<Rightarrow> (update_regs i (\<lambda>_. t) s)\<lparr>pushed := pushed s @ map (Pair i) requests\<rparr>)"

definition set_wait_state :: "nat \<Rightarrow> wait_state \<Rightarrow> ipc_state \<Rightarrow> ipc_state" where
  "set_wait_state i state s = update_cfg i (\<lambda>c. c\<lparr>wait_state_of := state\<rparr>) s"

definition restart_by_syscall :: "tracee \<Rightarrow> tracee" where
  "restart_by_syscall t = t\<lparr>restart_how := PTRACE_SYSCALL\<rparr>"

text \<open>What follows the switch of \<open>sysvipc_syscall_common\<close>; \<open>None\<close> is a failed assertion.\<close>

definition after_call ::
  "ipc_env \<Rightarrow> bool \<Rightarrow> word_t \<Rightarrow> nat \<Rightarrow> int \<Rightarrow> ipc_state \<Rightarrow> (int \<times> ipc_state) option" where
  "after_call e from_sigsys timeout i status s =
     (if chain_state_of (cfg s i) \<noteq> CSTATE_NOT_CHAINED then
        (if chain_state_of (cfg s i) \<notin> {CSTATE_SINGLE, CSTATE_SHMAT_SOCKET} then None
         else
           (let s = (if chain_state_of (cfg s i) = CSTATE_SINGLE then set_chain i CSTATE_NOT_CHAINED s else s);
                s = update_regs i restart_by_syscall s in
            if from_sigsys then Some (2, push_task i (restart_syscall_after_seccomp (regs_accepted e)) s)
            else Some (1, s)))
      else if wait_reason_of (cfg s i) \<noteq> WR_NOT_WAITING then
        (let s = update_regs i (\<lambda>t. restart_by_syscall (set_sysnum ''ppoll''
                   (poke_all [(SYSARG_1, 0), (SYSARG_2, 0), (SYSARG_3, timeout), (SYSARG_4, 0)] t))) s in
         if from_sigsys then
           Some (2, push_task i (restart_syscall_after_seccomp (regs_accepted e))
                      (set_wait_state i WSTATE_RESTARTED_INTO_PPOLL s))
         else Some (1, set_wait_state i WSTATE_ENTERED_PPOLL s))
      else if from_sigsys then
        Some (2, push_task i (set_result_after_seccomp (regs_accepted e) (of_c_int status)) s)
      else
        (let s = update_cfg i (\<lambda>c. c\<lparr>status_after_wait := of_c_int status,
                   wait_state_of := WSTATE_ENTERED_GETPID\<rparr>) s in
         Some (1, update_regs i (\<lambda>t. restart_by_syscall (set_sysnum ''getpid'' t)) s)))"

definition sysvipc_syscall_common ::
  "ipc_env \<Rightarrow> (abi \<Rightarrow> sysnum) \<Rightarrow> bool \<Rightarrow> nat \<Rightarrow> ipc_state \<Rightarrow> (int \<times> ipc_state) option" where
  "sysvipc_syscall_common e beyond from_sigsys i s =
     (if wait_state_of (cfg s i) \<noteq> WSTATE_NOT_WAITING then None
      else
        (let sysnum = get_sysnum beyond (task_regs (tasks s ! i)) CURRENT;
             timeout = (if sysnum = ''semtimedop'' then arg s i SYSARG_4 else 0) in
         case ipc_call e sysnum i s of
           None \<Rightarrow> Some (0, s)
         | Some (status, s) \<Rightarrow> after_call e from_sigsys timeout i status s))"

text \<open>The status that a woken call ends with.\<close>

definition status_of_wait :: "ipc_env \<Rightarrow> nat \<Rightarrow> ipc_state \<Rightarrow> (int \<times> ipc_state) option" where
  "status_of_wait e i s =
     (if chain_state_of (cfg s i) = CSTATE_MSGRCV_RETRY then sysvipc_msgrcv_retry e i s
      else Some (c_int (status_after_wait (cfg s i)), s))"

definition on_syscall_enter_start ::
  "ipc_env \<Rightarrow> (abi \<Rightarrow> sysnum) \<Rightarrow> nat \<Rightarrow> ipc_state \<Rightarrow> (int \<times> ipc_state) option" where
  "on_syscall_enter_start e beyond i s =
     (case wait_state_of (cfg s i) of
        WSTATE_NOT_WAITING \<Rightarrow> sysvipc_syscall_common e beyond False i s
      | WSTATE_RESTARTED_INTO_PPOLL \<Rightarrow>
          if get_sysnum beyond (task_regs (tasks s ! i)) CURRENT \<noteq> ''ppoll'' then None
          else Some (1, update_regs i restart_by_syscall (set_wait_state i WSTATE_ENTERED_PPOLL s))
      | WSTATE_RESTARTED_INTO_PPOLL_CANCELED \<Rightarrow>
          (case status_of_wait e i s of
             None \<Rightarrow> None
           | Some (status, s) \<Rightarrow>
               Some (1, set_wait_state i WSTATE_NOT_WAITING
                 (update_regs i (\<lambda>t. set_sysnum ''void'' (poke_reg SYSARG_RESULT (of_c_int status) t)) s)))
      | _ \<Rightarrow> None)"

definition shmat_chained :: "ipc_config \<Rightarrow> bool" where
  "shmat_chained c \<longleftrightarrow> chain_state_of c \<in>
     {CSTATE_SHMAT_SOCKET, CSTATE_SHMAT_CONNECT, CSTATE_SHMAT_RECVMSG, CSTATE_SHMAT_MMAP}"

definition on_syscall_exit_start :: "ipc_env \<Rightarrow> nat \<Rightarrow> ipc_state \<Rightarrow> (int \<times> ipc_state) option" where
  "on_syscall_exit_start e i s =
     (if shmat_chained (cfg s i) then
        (if chain_state_of (cfg s i) \<noteq> CSTATE_SHMAT_SOCKET then None else sysvipc_shmat_chain e i s)
      else
        (case wait_state_of (cfg s i) of
           WSTATE_NOT_WAITING \<Rightarrow> Some (0, s)
         | WSTATE_ENTERED_PPOLL \<Rightarrow>
             (let s = set_wait_state i WSTATE_NOT_WAITING s in
              if wait_reason_of (cfg s i) = WR_NOT_WAITING then None
              else
                (let s = (if wait_reason_of (cfg s i) = WR_WAIT_SEMOP then sysvipc_semop_timedout i s
                          else update_cfg i (\<lambda>c. c\<lparr>wait_reason_of := WR_NOT_WAITING\<rparr>) s);
                     ppoll_status = c_int (arg s i SYSARG_RESULT) in
                 if ppoll_status = neg EFAULT \<or> ppoll_status = neg EINTR then Some (1, s)
                 else Some (neg EINTR, s)))
         | WSTATE_RESTARTED_INTO_PPOLL_CANCELED \<Rightarrow> None
         | WSTATE_RESTARTED_INTO_PPOLL \<Rightarrow> None
         | _ \<Rightarrow>
             (if wait_reason_of (cfg s i) \<noteq> WR_NOT_WAITING then None
              else
                (case status_of_wait e i (set_wait_state i WSTATE_NOT_WAITING s) of
                   None \<Rightarrow> None
                 | Some (status, s) \<Rightarrow>
                     Some (1, update_regs i (poke_reg SYSARG_RESULT (of_c_int status)) s)))))"

definition on_syscall_chained_enter :: "nat \<Rightarrow> ipc_state \<Rightarrow> (int \<times> ipc_state) option" where
  "on_syscall_chained_enter i s =
     (case wait_state_of (cfg s i) of
        WSTATE_NOT_WAITING \<Rightarrow> Some (0, s)
      | WSTATE_RESTARTED_INTO_PPOLL_CANCELED \<Rightarrow>
          Some (0, set_wait_state i WSTATE_SIGNALED_PPOLL (update_regs i (poke_reg SYSARG_3 1) s))
      | _ \<Rightarrow> None)"

definition on_syscall_chained_exit :: "ipc_env \<Rightarrow> nat \<Rightarrow> ipc_state \<Rightarrow> (int \<times> ipc_state) option" where
  "on_syscall_chained_exit e i s =
     (case wait_state_of (cfg s i) of
        WSTATE_NOT_WAITING \<Rightarrow>
          if shmat_chained (cfg s i) then
            (case sysvipc_shmat_chain e i s of None \<Rightarrow> None | Some (status, s) \<Rightarrow> Some (0, s))
          else Some (0, s)
      | WSTATE_SIGNALED_PPOLL \<Rightarrow> Some (0, set_wait_state i WSTATE_NOT_WAITING s)
      | _ \<Rightarrow> None)"

definition on_syscall_enter_end ::
  "ipc_env \<Rightarrow> (abi \<Rightarrow> sysnum) \<Rightarrow> int \<Rightarrow> nat \<Rightarrow> ipc_state \<Rightarrow> (int \<times> ipc_state) option" where
  "on_syscall_enter_end e beyond status i s =
     (if status = 0 \<and> get_sysnum beyond (task_regs (tasks s ! i)) CURRENT = ''execve''
      then Some (0, shm_remove_mappings e (process_of (cfg s i)) s)
      else Some (0, s))"

datatype ipc_event =
    SYSCALL_ENTER_START | SYSCALL_ENTER_END int | SIGSYS_OCC | SYSCALL_EXIT_START
  | SYSCALL_CHAINED_ENTER | SYSCALL_CHAINED_EXIT | INHERIT_PARENT

fun sysvipc_callback ::
  "ipc_env \<Rightarrow> (abi \<Rightarrow> sysnum) \<Rightarrow> ipc_event \<Rightarrow> nat \<Rightarrow> ipc_state \<Rightarrow> (int \<times> ipc_state) option" where
  "sysvipc_callback e beyond SYSCALL_ENTER_START i s = on_syscall_enter_start e beyond i s"
| "sysvipc_callback e beyond (SYSCALL_ENTER_END status) i s = on_syscall_enter_end e beyond status i s"
| "sysvipc_callback e beyond SIGSYS_OCC i s = sysvipc_syscall_common e beyond True i s"
| "sysvipc_callback e beyond SYSCALL_EXIT_START i s = on_syscall_exit_start e i s"
| "sysvipc_callback e beyond SYSCALL_CHAINED_ENTER i s = on_syscall_chained_enter i s"
| "sysvipc_callback e beyond SYSCALL_CHAINED_EXIT i s = on_syscall_chained_exit e i s"
| "sysvipc_callback e beyond INHERIT_PARENT i s = Some (1, s)"

text \<open>
  \<open>INITIALIZATION\<close> and \<open>INHERIT_CHILD\<close>: the configuration of a new tracee, which the list of the tracees
  gets at its head. A new process is \<open>p\<close>.
\<close>

definition fresh_config :: "nat \<Rightarrow> ipc_config" where
  "fresh_config p =
     \<lparr>process_of = p, wait_reason_of = WR_NOT_WAITING, wait_state_of = WSTATE_NOT_WAITING,
      chain_state_of = CSTATE_NOT_CHAINED, status_after_wait = 0, waiting_object_index = 0,
      msgrcv_msgp = 0, msgrcv_msgsz = 0, msgrcv_msgtyp = 0, msgrcv_msgflg = 0, semop_sops = [],
      shmat_guest_buf = 0, shmat_socket_fd = 0, shmat_mem_fd = 0\<rparr>"

definition sysvipc_initialization :: "int \<Rightarrow> nat \<Rightarrow> tracee \<Rightarrow> ipc_state" where
  "sysvipc_initialization pid p r =
     \<lparr>queues = [], semaphores = [], shms = [],
      tasks = [\<lparr>task_pid = pid, task_regs = r, task_cfg = fresh_config p\<rparr>], mappings = [],
      pgids = (\<lambda>_. pid), written = [], stop_signals = [], helper_requests = [], pushed = []\<rparr>"

definition sysvipc_inherit_child :: "nat \<Rightarrow> bool \<Rightarrow> int \<Rightarrow> nat \<Rightarrow> tracee \<Rightarrow> ipc_state \<Rightarrow> ipc_state" where
  "sysvipc_inherit_child i clone_thread pid p r s =
     (let parent = process_of (cfg s i);
          child = (\<lambda>p. \<lparr>task_pid = pid, task_regs = r, task_cfg = fresh_config p\<rparr>) in
      if clone_thread then s\<lparr>tasks := child parent # tasks s\<rparr>
      else (shm_inherit_process parent p s)
             \<lparr>tasks := child p # tasks s, pgids := (pgids s)(p := pid)\<rparr>)"

text \<open>\<open>GUEST_PATH\<close>: the table of the segments is written to a temporary file, if it can be created.\<close>

definition sysvipc_guest_path ::
  "ipc_env \<Rightarrow> bool \<Rightarrow> string \<Rightarrow> ipc_state \<Rightarrow>
     int \<times> (u32 \<times> int \<times> word_t \<times> word_t \<times> int \<times> nat \<times> word_t) list \<times> ipc_state" where
  "sysvipc_guest_path e created path s =
     (if path = ''/proc/sysvipc/shm'' then
        (if created then (1, shm_fill_proc e s) else (neg ENOMEM, [], s))
      else (0, [], s))"

section \<open>What a call does to the tracees\<close>

text \<open>
  A handler changes another tracee only by waking it, and it only wakes tracees that wait.
\<close>

definition wake_state :: "wait_state \<Rightarrow> wait_state" where
  "wake_state w = (case w of
     WSTATE_ENTERED_PPOLL \<Rightarrow> WSTATE_SIGNALED_PPOLL
   | WSTATE_RESTARTED_INTO_PPOLL \<Rightarrow> WSTATE_RESTARTED_INTO_PPOLL_CANCELED
   | _ \<Rightarrow> w)"

definition woken_from :: "ipc_task \<Rightarrow> ipc_task \<Rightarrow> bool" where
  "woken_from a b \<longleftrightarrow>
     wait_reason_of (task_cfg a) \<noteq> WR_NOT_WAITING \<and> wait_reason_of (task_cfg b) = WR_NOT_WAITING \<and>
     wait_state_of (task_cfg b) = wake_state (wait_state_of (task_cfg a)) \<and>
     (task_regs b = task_regs a \<and>
        (chain_state_of (task_cfg b) = chain_state_of (task_cfg a) \<or>
         chain_state_of (task_cfg b) = CSTATE_MSGRCV_RETRY) \<or>
      task_regs b = register_chained_syscall ''socket'' shmat_socket_args (task_regs a) \<and>
        chain_state_of (task_cfg b) = CSTATE_SHMAT_SOCKET)"

definition other_step :: "ipc_task \<Rightarrow> ipc_task \<Rightarrow> bool" where
  "other_step a b \<longleftrightarrow> b = a \<or> woken_from a b"

definition wakes :: "nat set \<Rightarrow> ipc_state \<Rightarrow> ipc_state \<Rightarrow> bool" where
  "wakes X s t \<longleftrightarrow> length (tasks t) = length (tasks s) \<and>
     (\<forall>k < length (tasks s). k \<notin> X \<longrightarrow> other_step (tasks s ! k) (tasks t ! k))"

lemma other_step_refl [simp]: "other_step a a"
  by (simp add: other_step_def)

lemma other_step_trans: "other_step a b \<Longrightarrow> other_step b c \<Longrightarrow> other_step a c"
  by (auto simp: other_step_def woken_from_def)

lemma other_step_awake: "other_step a b \<Longrightarrow> wait_reason_of (task_cfg a) = WR_NOT_WAITING \<Longrightarrow> b = a"
  by (auto simp: other_step_def woken_from_def)

lemma wakes_same: "tasks t = tasks s \<Longrightarrow> wakes X s t"
  by (simp add: wakes_def)

lemma wakes_trans: "wakes X s t \<Longrightarrow> wakes X t u \<Longrightarrow> wakes X s u"
  by (auto simp: wakes_def intro: other_step_trans)

lemma wakes_mono: "wakes X s t \<Longrightarrow> X \<subseteq> Y \<Longrightarrow> wakes Y s t"
  by (auto simp: wakes_def)

lemma wakes_update:
  "wakes {i} s (update_cfg i f s)" "wakes {i} s (update_regs i g s)"
  by (simp_all add: wakes_def tasks_other)

lemma wakes_length: "wakes X s t \<Longrightarrow> length (tasks t) = length (tasks s)"
  by (simp add: wakes_def)

lemma task_update_self:
  "i < length (tasks s) \<Longrightarrow> tasks (update_cfg i f s) ! i = (tasks s ! i)\<lparr>task_cfg := f (cfg s i)\<rparr>"
  "i < length (tasks s) \<Longrightarrow> tasks (update_regs i g s) ! i = (tasks s ! i)\<lparr>task_regs := g (task_regs (tasks s ! i))\<rparr>"
  by (simp_all add: update_cfg_def update_regs_def update_task_def cfg_def)

lemma task_regs_wake [simp]:
  "i < length (tasks s) \<Longrightarrow> task_regs (tasks (sysvipc_wake_tracee i st s) ! i) = task_regs (tasks s ! i)"
  by (simp add: sysvipc_wake_tracee_def Let_def task_update_self split: wait_state.split)

lemma wake_state_woken: "wait_state_of (woken st c) = wake_state (wait_state_of c)"
  by (simp add: woken_def wake_state_def split: wait_state.split)

text \<open>Waking a tracee whose configuration was changed before in a way that does not matter.\<close>

lemma wakes_wake:
  assumes "k < length (tasks s)" "wait_reason_of (cfg s k) \<noteq> WR_NOT_WAITING"
    and "wait_state_of (f (cfg s k)) = wait_state_of (cfg s k)"
    and "chain_state_of (f (cfg s k)) \<in> {chain_state_of (cfg s k), CSTATE_MSGRCV_RETRY}"
  shows "wakes {} s (sysvipc_wake_tracee k st (update_cfg k f s))"
proof -
  let ?t = "sysvipc_wake_tracee k st (update_cfg k f s)"
  have "task_cfg (tasks ?t ! k) = cfg ?t k" by (simp add: cfg_def)
  then have "task_cfg (tasks ?t ! k) = woken st (f (cfg s k))" using assms(1) by simp
  then have "woken_from (tasks s ! k) (tasks ?t ! k)"
    using assms by (auto simp: woken_from_def wake_state_woken task_update_self cfg_def)
  then have "other_step (tasks s ! j) (tasks ?t ! j)" for j
    by (cases "j = k") (simp_all add: other_step_def tasks_other)
  then show ?thesis by (simp add: wakes_def)
qed

lemma wakes_fold:
  assumes "\<And>k t. k < length (tasks s) \<Longrightarrow> length (tasks t) = length (tasks s) \<Longrightarrow> wakes X t (f k t)"
  shows "wakes X s (foreach_tracee f s)"
  unfolding foreach_tracee_def
proof (rule fold_upt_invariant)
  show "wakes X s (f k t)" if "k < length (tasks s)" "wakes X s t" for k t
    using assms [OF that(1) wakes_length [OF that(2)]] wakes_trans that(2) by blast
qed (simp add: wakes_same)

lemma wakes_sem_rmid: "wakes {} s (sem_rmid index s)"
proof -
  have "wakes {} t (sem_wake_removed index k t)" if "k < length (tasks t)" for k t
    using wakes_wake [OF that, of "\<lambda>c. c" "neg EIDRM"] 
    by (auto simp: sem_wake_removed_def update_cfg_def update_task_def wakes_same)
  then have "wakes {} s (foreach_tracee (sem_wake_removed index) s)" by (intro wakes_fold) simp
  then show ?thesis by (simp add: sem_rmid_def set_semaphore_def Let_def wakes_def)
qed

lemma wakes_msg_rmid: "wakes {} s (msg_rmid index s)"
proof -
  have "wakes {} t (msg_wake_removed index k t)" if "k < length (tasks t)" for k t
    using wakes_wake [OF that, of "\<lambda>c. c" "neg EIDRM"]
    by (auto simp: msg_wake_removed_def waits_for_msg_def update_cfg_def update_task_def wakes_same)
  then have "wakes {} s (foreach_tracee (msg_wake_removed index) s)" by (intro wakes_fold) simp
  then show ?thesis by (simp add: msg_rmid_def wakes_def)
qed

lemma wakes_receiver: "wakes {} s (wake_receiver index item s)"
proof (cases "List.find (\<lambda>k. receives index item (cfg s k)) [0..<length (tasks s)]")
  case (Some k)
  then have "k < length (tasks s)" "wait_reason_of (cfg s k) = WR_WAIT_QUEUE_RECV"
    by (auto simp: find_upt_Some receives_def)
  with Some show ?thesis by (simp add: wake_receiver_def wakes_wake)
qed (simp add: wake_receiver_def wakes_same)

lemma wakes_pending_shmat: "wakes {} s (wake_pending_shmat s)"
proof (cases "List.find (\<lambda>k. wait_reason_of (cfg s k) = WR_WAIT_SHMAT_HELPER_BUSY) [0..<length (tasks s)]")
  case (Some k)
  then have k: "k < length (tasks s)" "wait_reason_of (cfg s k) = WR_WAIT_SHMAT_HELPER_BUSY"
    by (auto simp: find_upt_Some)
  let ?u = "update_regs k (register_chained_syscall ''socket'' shmat_socket_args) (sysvipc_wake_tracee k 0 s)"
  have t: "wake_pending_shmat s = update_cfg k (\<lambda>c. c\<lparr>chain_state_of := CSTATE_SHMAT_SOCKET\<rparr>) ?u"
    using Some by (simp add: wake_pending_shmat_def Let_def)
  have "cfg ?u k = woken 0 (cfg s k)" using k by simp
  then have "woken_from (tasks s ! k) (tasks (wake_pending_shmat s) ! k)"
    using k unfolding t
    by (simp add: task_update_self woken_from_def) (simp add: cfg_def wake_state_woken)
  then have "other_step (tasks s ! j) (tasks (wake_pending_shmat s) ! j)" for j
    by (cases "j = k") (simp_all add: other_step_def t tasks_other)
  then show ?thesis by (simp add: wakes_def)
qed (simp add: wake_pending_shmat_def wakes_same)

text \<open>The tracee that makes the call keeps its registers, or the first call of a chain replaces its call.\<close>

definition self_step :: "(abi \<Rightarrow> sysnum) \<Rightarrow> ipc_task \<Rightarrow> ipc_task \<Rightarrow> bool" where
  "self_step beyond a b \<longleftrightarrow>
     wait_state_of (task_cfg b) = wait_state_of (task_cfg a) \<and>
     chain_syscalls (task_regs b) = chain_syscalls (task_regs a) \<and>
     restore_original_regs (task_regs b) = restore_original_regs (task_regs a) \<and>
     (chain_state_of (task_cfg b) = chain_state_of (task_cfg a) \<and> task_regs b = task_regs a \<or>
      wait_reason_of (task_cfg b) = wait_reason_of (task_cfg a) \<and>
        (chain_state_of (task_cfg b) = CSTATE_SINGLE \<or>
         chain_state_of (task_cfg b) = CSTATE_SHMAT_SOCKET \<and>
           get_sysnum beyond (task_regs b) CURRENT = ''socket''))"

definition call_effect :: "(abi \<Rightarrow> sysnum) \<Rightarrow> nat \<Rightarrow> ipc_state \<Rightarrow> ipc_state \<Rightarrow> bool" where
  "call_effect beyond i s t \<longleftrightarrow> wakes {i} s t \<and> self_step beyond (tasks s ! i) (tasks t ! i)"

lemma calm_effect:
  assumes "wakes {} s t" "i < length (tasks s)" "wait_reason_of (cfg s i) = WR_NOT_WAITING"
  shows "call_effect beyond i s t"
proof -
  have "tasks t ! i = tasks s ! i"
    using assms other_step_awake by (simp add: wakes_def cfg_def)
  then show ?thesis using wakes_mono [OF assms(1)] by (simp add: call_effect_def self_step_def)
qed

text \<open>An effect that only concerns the waiting of the tracee itself.\<close>

lemma waiting_effect:
  assumes "wakes {i} s t" "task_regs (tasks t ! i) = task_regs (tasks s ! i)"
    and "wait_state_of (cfg t i) = wait_state_of (cfg s i)" "chain_state_of (cfg t i) = chain_state_of (cfg s i)"
  shows "call_effect beyond i s t"
  using assms by (simp add: call_effect_def self_step_def cfg_def)

lemma shms_tasks [simp]:
  "tasks (snd (shm_allocate e i index s)) = tasks s" "tasks (snd (sysvipc_shmget e i s)) = tasks s"
  "tasks (shm_update_stats index s) = tasks s" "tasks (sysvipc_do_rmid e index s) = tasks s"
  "tasks (snd (sysvipc_shmctl e i s)) = tasks s" "tasks (free_mapping e k s) = tasks s"
proof -
  show a: "tasks (snd (shm_allocate e i index s)) = tasks s" for index s
    by (simp add: shm_allocate_def Let_def case_prod_beta)
  show "tasks (snd (sysvipc_shmget e i s)) = tasks s"
    using a by (simp add: sysvipc_shmget_def Let_def split: prod.split option.split)
  show "tasks (shm_update_stats index s) = tasks s" "tasks (sysvipc_do_rmid e index s) = tasks s"
    "tasks (free_mapping e k s) = tasks s" for index k s
    by (simp_all add: shm_update_stats_def sysvipc_do_rmid_def free_mapping_def Let_def)
  then show "tasks (snd (sysvipc_shmctl e i s)) = tasks s"
    by (simp add: sysvipc_shmctl_def Let_def write_data_def split: option.split)
qed

lemma tasks_remove_mappings [simp]: "tasks (shm_remove_mappings e p s) = tasks s"
proof (induction e p s rule: shm_remove_mappings.induct)
  case (1 e p s)
  then show ?case
    by (subst shm_remove_mappings.simps) (simp split: option.split)
qed

text \<open>The calls that do not wait.\<close>

lemma get_calls_wake_none:
  "tasks (snd (sysvipc_msgget i s)) = tasks s" "tasks (snd (sysvipc_semget i s)) = tasks s"
  by (simp_all add: sysvipc_msgget_def sysvipc_semget_def Let_def split: prod.split option.split)

lemma wakes_semctl: "wakes {} s (snd (sysvipc_semctl e i s))"
  using wakes_sem_rmid [of s]
  by (simp add: sysvipc_semctl_def Let_def wakes_same set_semaphore_def split: option.split)

lemma wakes_msgctl: "wakes {} s (snd (sysvipc_msgctl e i s))"
  using wakes_msg_rmid [of s]
  by (simp add: sysvipc_msgctl_def Let_def wakes_same split: option.split)

lemma wakes_msgsnd: "wakes {} s (snd (sysvipc_msgsnd e i s))"
proof -
  have "wakes {} s t" if "tasks t = tasks (wake_receiver index item u)" "tasks u = tasks s" for t u index item
    using wakes_receiver [of u index item] that by (simp add: wakes_def)
  then show ?thesis
    by (simp add: sysvipc_msgsnd_def Let_def wakes_same split: option.split sum.split)
qed

text \<open>The calls that may wait.\<close>

lemma deliver_tasks_snd [simp]: "tasks (snd (sysvipc_msg_deliver e i index msg time s)) = tasks s"
  by (metis deliver_tasks prod.collapse)

lemma do_msgrcv_tasks:
  "\<exists>f. tasks (snd (sysvipc_do_msgrcv e i index s)) = tasks (update_cfg i f s) \<and>
     (\<forall>c. wait_state_of (f c) = wait_state_of c \<and> chain_state_of (f c) = chain_state_of c)"
proof -
  have u: "tasks (update_cfg i (\<lambda>c. c) s) = tasks s" by (simp add: update_cfg_def update_task_def)
  show ?thesis
  proof (cases "tasks (snd (sysvipc_do_msgrcv e i index s)) = tasks s")
    case True
    with u show ?thesis by (intro exI [of _ "\<lambda>c. c"]) simp
  next
    case False
    then show ?thesis
      by (intro exI [of _ "\<lambda>c. c\<lparr>wait_reason_of := WR_WAIT_QUEUE_RECV, waiting_object_index := index\<rparr>"])
        (auto simp: sysvipc_do_msgrcv_def Let_def case_prod_beta split: option.splits if_split_asm)
  qed
qed

lemma msgrcv_effect:
  assumes "i < length (tasks s)"
  shows "call_effect beyond i s (snd (sysvipc_msgrcv e i s))"
proof (cases "lookup_ipc_object (arg s i SYSARG_1) (queues s)")
  case None
  then show ?thesis by (intro waiting_effect) (simp_all add: sysvipc_msgrcv_def wakes_same)
next
  case (Some index)
  let ?g = "\<lambda>c. c\<lparr>msgrcv_msgp := arg s i SYSARG_2, msgrcv_msgsz := arg s i SYSARG_3,
     msgrcv_msgtyp := c_int (arg s i SYSARG_4), msgrcv_msgflg := ucast (arg s i SYSARG_5)\<rparr>"
  let ?t = "snd (sysvipc_msgrcv e i s)"
  obtain f where f: "tasks ?t = tasks (update_cfg i f (update_cfg i ?g s))"
      "\<And>c. wait_state_of (f c) = wait_state_of c" "\<And>c. chain_state_of (f c) = chain_state_of c"
    using do_msgrcv_tasks [of e i index "update_cfg i ?g s"] Some by (auto simp: sysvipc_msgrcv_def)
  have "wakes {i} s (update_cfg i f (update_cfg i ?g s))"
    by (rule wakes_trans [OF wakes_update(1) wakes_update(1)])
  then have "wakes {i} s ?t" by (simp add: wakes_def f(1))
  then show ?thesis
    using assms by (intro waiting_effect) (simp_all add: cfg_def f task_update_self)
qed

lemma semop_loop:
  "wakes {} s (foreach_tracee (sem_try_wake i index) s) \<and>
   tasks (foreach_tracee (sem_try_wake i index) s) ! i = tasks s ! i"
proof -
  have "wakes {} t (sem_try_wake i index k t)" if "k < length (tasks t)" for k t
  proof -
    obtain st x where x: "sysvipc_sem_check (cfg t k) (semaphores t ! index) = (st, x)" by fastforce
    have "wakes {} (set_semaphore index x t)
        (sysvipc_wake_tracee k st (update_cfg k (\<lambda>c. c\<lparr>semop_sops := []\<rparr>) (set_semaphore index x t)))"
      if "wait_reason_of (cfg t k) = WR_WAIT_SEMOP"
      using that \<open>k < length (tasks t)\<close> by (intro wakes_wake) (simp_all add: set_semaphore_def)
    then show ?thesis using x by (simp add: sem_try_wake_def wakes_same wakes_def set_semaphore_def)
  qed
  then have "wakes {} s (foreach_tracee (sem_try_wake i index) s)" by (intro wakes_fold) simp
  moreover have "tasks (foreach_tracee (sem_try_wake i index) s) ! i = tasks s ! i"
    unfolding foreach_tracee_def
    by (rule fold_upt_invariant)
      (simp_all add: sem_try_wake_def tasks_other set_semaphore_def split: prod.split)
  ultimately show ?thesis ..
qed

lemma semop_effect:
  assumes "i < length (tasks s)"
  shows "call_effect beyond i s (snd (sysvipc_semop e i s))"
proof -
  have step: "wakes {i} s t \<and> task_regs (tasks t ! i) = task_regs (tasks s ! i) \<and>
      wait_state_of (cfg t i) = wait_state_of (cfg s i) \<and> chain_state_of (cfg t i) = chain_state_of (cfg s i)"
    if t: "t = foreach_tracee (sem_try_wake i index) (set_semaphore index x (update_cfg i f s)) \<or>
      t = update_cfg i g (foreach_tracee (sem_try_wake i index) (set_semaphore index x (update_cfg i f s)))"
      and fg: "\<And>c. wait_state_of (f c) = wait_state_of c \<and> chain_state_of (f c) = chain_state_of c"
        "\<And>c. wait_state_of (g c) = wait_state_of c \<and> chain_state_of (g c) = chain_state_of c"
    for t f g index x
  proof -
    let ?u = "set_semaphore index x (update_cfg i f s)"
    let ?v = "foreach_tracee (sem_try_wake i index) ?u"
    have u: "wakes {i} s ?u" using wakes_update(1) [of i s f] by (simp add: wakes_def set_semaphore_def)
    have v: "wakes {i} ?u ?v" "tasks ?v ! i = tasks ?u ! i"
      using semop_loop [of ?u i index] by (auto intro: wakes_mono)
    have "length (tasks ?v) = length (tasks s)" using wakes_length [OF v(1)] wakes_length [OF u] by simp
    then show ?thesis using t wakes_trans [OF u v(1)] wakes_trans [OF wakes_trans [OF u v(1)] wakes_update(1)] assms fg v(2)
      by (auto simp: task_update_self cfg_def set_semaphore_def)
  qed
  let ?t = "snd (sysvipc_semop e i s)"
  let ?f = "\<lambda>index sops c. c\<lparr>wait_reason_of := WR_WAIT_SEMOP, waiting_object_index := index, semop_sops := sops\<rparr>"
  let ?g = "\<lambda>c. c\<lparr>semop_sops := [], wait_reason_of := WR_NOT_WAITING\<rparr>"
  have "?t = s \<or> (\<exists>index x sops.
      ?t = foreach_tracee (sem_try_wake i index) (set_semaphore index x (update_cfg i (?f index sops) s)) \<or>
      ?t = update_cfg i ?g (foreach_tracee (sem_try_wake i index) (set_semaphore index x (update_cfg i (?f index sops) s))))"
    by (auto simp: sysvipc_semop_def Let_def case_prod_beta split: option.split sum.split)
  then show ?thesis
  proof (elim disjE exE)
    assume "?t = s"
    then show ?thesis by (intro waiting_effect) (simp_all add: wakes_same)
  next
    fix index x sops
    assume "?t = foreach_tracee (sem_try_wake i index) (set_semaphore index x (update_cfg i (?f index sops) s))"
    then have "?t = foreach_tracee (sem_try_wake i index) (set_semaphore index x (update_cfg i (?f index sops) s)) \<or>
      ?t = update_cfg i ?g (foreach_tracee (sem_try_wake i index) (set_semaphore index x (update_cfg i (?f index sops) s)))" ..
    from step [OF this] show ?thesis by (intro waiting_effect) simp_all
  next
    fix index x sops
    assume "?t = update_cfg i ?g (foreach_tracee (sem_try_wake i index) (set_semaphore index x (update_cfg i (?f index sops) s)))"
    then have "?t = foreach_tracee (sem_try_wake i index) (set_semaphore index x (update_cfg i (?f index sops) s)) \<or>
      ?t = update_cfg i ?g (foreach_tracee (sem_try_wake i index) (set_semaphore index x (update_cfg i (?f index sops) s)))" ..
    from step [OF this] show ?thesis by (intro waiting_effect) simp_all
  qed
qed

lemma chain_syscalls_set_sysnum [simp]:
  "chain_syscalls (set_sysnum n t) = chain_syscalls t"
  "restore_original_regs (set_sysnum n t) = restore_original_regs t"
  by (simp_all add: set_sysnum_def)

text \<open>Writing an argument does not change the number of the call.\<close>

lemma get_sysnum_poke:
  "r \<in> {SYSARG_1, SYSARG_2, SYSARG_3, SYSARG_4, SYSARG_5, SYSARG_6, SYSARG_RESULT, INSTR_POINTER} \<Longrightarrow>
     get_sysnum beyond (poke_reg r v t) CURRENT = get_sysnum beyond t CURRENT"
  by (auto simp: get_sysnum_def peek_poke_other apart_def)

lemma sysnum_after_args:
  "fst ` set l \<subseteq> {SYSARG_1, SYSARG_2, SYSARG_3, SYSARG_4, SYSARG_5, SYSARG_6} \<Longrightarrow>
     get_sysnum beyond (poke_all l t) CURRENT = get_sysnum beyond t CURRENT"
  by (induction l arbitrary: t) (auto simp: poke_all_def get_sysnum_poke)

lemma replaced_calls_known:
  "''socket'' \<in> set (sn_table (get_sysnums abi))" "''ppoll'' \<in> set (sn_table (get_sysnums abi))"
  by (cases abi; simp add: sysnums_arm64_def sysnums_arm_def)+

lemma get_sysnum_updates [simp]:
  "get_sysnum beyond (t\<lparr>restart_how := h\<rparr>) v = get_sysnum beyond t v"
  "get_sysnum beyond (t\<lparr>restore_after_seccomp_event := b\<rparr>) v = get_sysnum beyond t v"
  by (simp_all add: get_sysnum_def get_abi_def peek_reg_def is_32on64_mode_def slot_def)

lemma shmat_effect:
  assumes "i < length (tasks s)"
  shows "call_effect beyond i s (snd (sysvipc_shmat i s))"
proof (cases "lookup_ipc_object (arg s i SYSARG_1) (shms s)")
  case None
  then show ?thesis by (intro waiting_effect) (simp_all add: sysvipc_shmat_def wakes_same)
next
  case (Some index)
  define u where "u = (update_cfg i (\<lambda>c. c\<lparr>waiting_object_index := index\<rparr>) s)
    \<lparr>mappings := \<lparr>map_process = process_of (cfg s i), map_shm = index, map_addr = 0, map_size = 0\<rparr> # mappings s\<rparr>"
  let ?r = "\<lambda>t. poke_all [(SYSARG_1, 1), (SYSARG_2, 5), (SYSARG_3, 0)] (set_sysnum ''socket'' t)"
  have u: "wakes {i} s u" "i < length (tasks u)" "task_regs (tasks u ! i) = task_regs (tasks s ! i)"
    "task_cfg (tasks u ! i) = (cfg s i)\<lparr>waiting_object_index := index\<rparr>"
    using assms wakes_update(1) [of i s] by (auto simp: u_def wakes_def task_update_self)
  have sock: "get_sysnum beyond (?r t) CURRENT = ''socket''" for t
    by (simp add: sysnum_after_args set_sysnum_reads replaced_calls_known)
  have "snd (sysvipc_shmat i s) = update_cfg i (\<lambda>c. c\<lparr>wait_reason_of := WR_WAIT_SHMAT_HELPER_BUSY\<rparr>) u \<or>
      snd (sysvipc_shmat i s) = set_chain i CSTATE_SHMAT_SOCKET (update_regs i ?r u)"
    using Some assms by (simp add: sysvipc_shmat_def Let_def u_def set_chain_def)
  then show ?thesis
  proof
    assume t: "snd (sysvipc_shmat i s) = update_cfg i (\<lambda>c. c\<lparr>wait_reason_of := WR_WAIT_SHMAT_HELPER_BUSY\<rparr>) u"
    show ?thesis unfolding t
      by (rule waiting_effect) (use u wakes_trans [OF u(1) wakes_update(1)] in \<open>simp_all add: task_update_self cfg_def\<close>)
  next
    assume t: "snd (sysvipc_shmat i s) = set_chain i CSTATE_SHMAT_SOCKET (update_regs i ?r u)"
    have "wakes {i} s (set_chain i CSTATE_SHMAT_SOCKET (update_regs i ?r u))"
      unfolding set_chain_def using wakes_trans [OF wakes_trans [OF u(1) wakes_update(2)] wakes_update(1)] .
    then show ?thesis unfolding t call_effect_def self_step_def
      using u(2-4) sock by (simp add: set_chain_def task_update_self cfg_def)
  qed
qed

lemma shmdt_effect:
  assumes "i < length (tasks s)"
  shows "call_effect beyond i s (snd (sysvipc_shmdt e i s))"
proof (cases "find_mapping (\<lambda>m. map_process m = process_of (cfg s i) \<and> map_addr m = arg s i SYSARG_1) 0 (mappings s)")
  case None
  then show ?thesis by (intro waiting_effect) (simp_all add: sysvipc_shmdt_def wakes_same)
next
  case (Some k)
  let ?u = "set_chain i CSTATE_SINGLE (update_regs i (\<lambda>t. poke_reg SYSARG_2 (map_size (mappings s ! k))
      (set_sysnum ''munmap'' t)) s)"
  have t: "tasks (snd (sysvipc_shmdt e i s)) = tasks ?u"
    using Some by (simp add: sysvipc_shmdt_def Let_def)
  have "wakes {i} s ?u"
    unfolding set_chain_def by (rule wakes_trans [OF wakes_update(2) wakes_update(1)])
  then show ?thesis using assms
    by (simp add: call_effect_def self_step_def wakes_def t) (simp add: set_chain_def task_update_self cfg_def)
qed

lemma ipc_call_effect:
  assumes "ipc_call e sysnum i s = Some (n, t)" "i < length (tasks s)"
    and "wait_reason_of (cfg s i) = WR_NOT_WAITING"
  shows "call_effect beyond i s t"
proof -
  note calm = calm_effect [OF _ assms(2,3), of _ beyond]
  have same: "call_effect beyond i s (snd (sysvipc_msgget i s))" "call_effect beyond i s (snd (sysvipc_semget i s))"
    "call_effect beyond i s (snd (sysvipc_shmget e i s))" "call_effect beyond i s (snd (sysvipc_shmctl e i s))"
    by (rule calm, rule wakes_same, simp add: get_calls_wake_none)+
  note calls = same calm [OF wakes_msgsnd] calm [OF wakes_msgctl] calm [OF wakes_semctl]
    msgrcv_effect [OF assms(2)] semop_effect [OF assms(2)] shmat_effect [OF assms(2)] shmdt_effect [OF assms(2)]
  have "case ipc_call e sysnum i s of None \<Rightarrow> True | Some r \<Rightarrow> call_effect beyond i s (snd r)"
    by (simp only: ipc_call_def calls option.case simp_thms split: if_split)
  then show ?thesis using assms(1) by simp
qed

section \<open>The steps of a chain and of a retry\<close>

text \<open>Steps that only concern the registers and the chain of a tracee that does not wait.\<close>

definition own_step :: "nat \<Rightarrow> ipc_state \<Rightarrow> ipc_state \<Rightarrow> bool" where
  "own_step i s t \<longleftrightarrow> wakes {i} s t \<and>
     wait_reason_of (cfg t i) = wait_reason_of (cfg s i) \<and> wait_state_of (cfg t i) = wait_state_of (cfg s i)"

lemma own_step_trans: "own_step i s t \<Longrightarrow> own_step i t u \<Longrightarrow> own_step i s u"
  by (auto simp: own_step_def intro: wakes_trans)

lemma own_step_same: "tasks t = tasks s \<Longrightarrow> own_step i s t"
  by (simp add: own_step_def wakes_same cfg_def)

lemma own_step_basic:
  "own_step i s (chain_call i sysnum sysargs s)" "own_step i s (set_chain i state s)"
  "own_step i s (update_regs i g s)"
  "own_step i s (update_cfg i (\<lambda>c. c\<lparr>shmat_socket_fd := fd\<rparr>) s)"
  "own_step i s (update_cfg i (\<lambda>c. c\<lparr>shmat_guest_buf := w\<rparr>) s)"
  "own_step i s (update_cfg i (\<lambda>c. c\<lparr>shmat_mem_fd := fd\<rparr>) s)"
  using wakes_update [of i s] by (simp_all add: own_step_def chain_call_def set_chain_def)

lemma own_step_wake_pending:
  assumes "i < length (tasks s)" "wait_reason_of (cfg s i) = WR_NOT_WAITING"
  shows "own_step i s (wake_pending_shmat s)" "tasks (wake_pending_shmat s) ! i = tasks s ! i"
proof -
  show t: "tasks (wake_pending_shmat s) ! i = tasks s ! i"
    by (rule wake_pending_other) (simp add: assms(2))
  show "own_step i s (wake_pending_shmat s)"
    unfolding own_step_def using wakes_mono [OF wakes_pending_shmat] t by (simp add: cfg_def)
qed

text \<open>Where the chain stands after a step.\<close>

definition chain_pending :: "ipc_task \<Rightarrow> bool" where
  "chain_pending a \<longleftrightarrow> chain_state_of (task_cfg a) = CSTATE_NOT_CHAINED \<or>
     chain_state_of (task_cfg a) \<in> {CSTATE_SHMAT_CONNECT, CSTATE_SHMAT_RECVMSG, CSTATE_SHMAT_MMAP} \<and>
       (\<exists>x xs. chain_syscalls (task_regs a) = Some (x # xs))"

definition chain_effect :: "nat \<Rightarrow> ipc_state \<Rightarrow> ipc_state \<Rightarrow> bool" where
  "chain_effect i s t \<longleftrightarrow> own_step i s t \<and> chain_pending (tasks t ! i)"

lemma chain_end_effect:
  assumes "own_step i s u" "i < length (tasks s)" "wait_reason_of (cfg s i) = WR_NOT_WAITING"
    and "chain_state_of (cfg u i) = CSTATE_NOT_CHAINED" "tasks v = tasks u"
  shows "chain_effect i s (wake_pending_shmat v)"
proof -
  have len: "length (tasks u) = length (tasks s)" using assms(1) by (simp add: own_step_def wakes_def)
  have v: "own_step i s v" "cfg v = cfg u"
    using own_step_trans [OF assms(1) own_step_same [OF assms(5)]] assms(5) by (simp_all add: cfg_def fun_eq_iff)
  have w: "own_step i v (wake_pending_shmat v)" "tasks (wake_pending_shmat v) ! i = tasks v ! i"
    using own_step_wake_pending [of i v] assms len v by (auto simp: own_step_def)
  have "chain_pending (tasks (wake_pending_shmat v) ! i)"
    unfolding w(2) using assms(4,5) by (simp add: chain_pending_def cfg_def)
  then show ?thesis using own_step_trans [OF v(1) w(1)] by (simp add: chain_effect_def)
qed

lemma fail_effect:
  assumes "own_step i s u" "i < length (tasks s)" "wait_reason_of (cfg s i) = WR_NOT_WAITING"
  shows "fail_dont_close e i u = Some (n, t) \<Longrightarrow> chain_effect i s t"
    and "fail_close_socket e i u = Some (n, t) \<Longrightarrow> chain_effect i s t"
proof -
  have len: "length (tasks u) = length (tasks s)" using assms(1) by (simp add: own_step_def wakes_def)
  note end_step = chain_end_effect [OF own_step_trans [OF _ own_step_basic(2)] assms(2,3)]
  show "fail_dont_close e i u = Some (n, t) \<Longrightarrow> chain_effect i s t"
    using end_step [OF assms(1), of CSTATE_NOT_CHAINED] assms(2) len
    by (auto simp: fail_dont_close_def Let_def split: option.splits)
  let ?v = "update_regs i (force_chain_final_result (of_c_int (neg ENOMEM)))
    (chain_call i ''close'' [of_c_int (shmat_socket_fd (cfg u i)), 0, 0, 0, 0, 0] u)"
  have "own_step i s ?v"
    by (rule own_step_trans [OF own_step_trans [OF assms(1) own_step_basic(1)] own_step_basic(3)])
  from end_step [OF this, of CSTATE_NOT_CHAINED]
  show "fail_close_socket e i u = Some (n, t) \<Longrightarrow> chain_effect i s t"
    using assms(2) len by (auto simp: fail_close_socket_def Let_def split: option.splits)
qed

lemma chain_call_pending: "i < length (tasks s) \<Longrightarrow>
    \<exists>x xs. chain_syscalls (task_regs (tasks (chain_call i sysnum sysargs s) ! i)) = Some (x # xs)"
  by (auto simp: chain_call_def task_update_self register_chained_syscall_def
      register_chained_syscall_internal_def Let_def neq_Nil_conv [symmetric] split: option.split)

text \<open>A step of the chain that goes on: its last two updates are a call and the next state.\<close>

lemma chain_goes_on:
  assumes "own_step i s u" "i < length (tasks s)"
    and "state \<in> {CSTATE_SHMAT_CONNECT, CSTATE_SHMAT_RECVMSG, CSTATE_SHMAT_MMAP}"
  shows "chain_effect i s (set_chain i state (chain_call i sysnum sysargs u))"
    and "chain_effect i s (set_chain i state
           (update_cfg i (\<lambda>c. c\<lparr>shmat_guest_buf := w\<rparr>) (chain_call i sysnum sysargs u)))"
proof -
  have len: "length (tasks u) = length (tasks s)" using assms(1) by (simp add: own_step_def wakes_def)
  note step = own_step_trans [OF assms(1) own_step_basic(1)]
  show "chain_effect i s (set_chain i state (chain_call i sysnum sysargs u))"
    using own_step_trans [OF step own_step_basic(2)] chain_call_pending [of i u] assms(2,3) len
    by (simp add: chain_effect_def chain_pending_def set_chain_def task_update_self)
  show "chain_effect i s (set_chain i state
      (update_cfg i (\<lambda>c. c\<lparr>shmat_guest_buf := w\<rparr>) (chain_call i sysnum sysargs u)))"
    using own_step_trans [OF own_step_trans [OF step own_step_basic(5)] own_step_basic(2)]
      chain_call_pending [of i u] assms(2,3) len
    by (simp add: chain_effect_def chain_pending_def set_chain_def task_update_self)
qed

lemma own_step_write: "own_step i s (snd (write_data e i a b s))"
  by (rule own_step_same) (simp add: write_data_def)

lemma own_step_recvmsg: "own_step i s (snd (recvmsg_pointers_at e i b w s))"
  by (rule own_step_same) (auto simp: recvmsg_pointers_at_def Let_def write_data_def)

lemma own_step_helper: "own_step i s (snd (send_helper_request e r s))"
  by (rule own_step_same) simp

lemma shmat_chain_effect:
  assumes "sysvipc_shmat_chain e i s = Some (n, t)" "i < length (tasks s)"
    and "wait_reason_of (cfg s i) = WR_NOT_WAITING"
  shows "chain_effect i s t"
proof -
  note fails = fail_effect [OF _ assms(2,3)]
  note on = chain_goes_on [OF _ assms(2)]
  have m: "CSTATE_SHMAT_CONNECT \<in> {CSTATE_SHMAT_CONNECT, CSTATE_SHMAT_RECVMSG, CSTATE_SHMAT_MMAP}"
    "CSTATE_SHMAT_RECVMSG \<in> {CSTATE_SHMAT_CONNECT, CSTATE_SHMAT_RECVMSG, CSTATE_SHMAT_MMAP}"
    "CSTATE_SHMAT_MMAP \<in> {CSTATE_SHMAT_CONNECT, CSTATE_SHMAT_RECVMSG, CSTATE_SHMAT_MMAP}" by simp_all
  have socket: "chain_effect i s t" if "shmat_socket e i s = Some (n, t)"
  proof -
    let ?u = "update_cfg i (\<lambda>c. c\<lparr>shmat_socket_fd := c_int (arg s i SYSARG_RESULT)\<rparr>) s"
    let ?v = "snd (write_data e i (arg s i STACK_POINTER - of_nat SOCKADDR_UN_SIZE) (helper_address e) ?u)"
    have u: "own_step i s ?u" by (rule own_step_basic(4))
    have v: "own_step i s ?v" by (rule own_step_trans [OF u own_step_write])
    show ?thesis
      using that fails(1) [OF u] fails(1) [OF v] on(2) [OF v m(1)]
      by (auto simp only: shmat_socket_def Let_def case_prod_beta arg_update_cfg option.inject
          prod.inject split: if_split_asm)
  qed
  have connect: "chain_effect i s t" if c: "shmat_connect e i x s = Some (n, t)" for x
  proof (cases "recvmsg_pointers_at e i (shmat_guest_buf (cfg s i)) True s")
    case (Pair r u)
    have u: "own_step i s u" using own_step_recvmsg [of i s e "shmat_guest_buf (cfg s i)" True] Pair by simp
    let ?v = "snd (send_helper_request e (SHMHELPER_DISTRIBUTE (shm_fd x)) u)"
    have v: "own_step i s ?v" by (rule own_step_trans [OF u own_step_helper])
    show ?thesis
      using c Pair fails(2) [OF own_step_same [OF refl]] fails(2) [OF u] fails(2) [OF v]
        on(1) [OF v m(2)]
      by (auto simp only: shmat_connect_def Let_def case_prod_beta option.inject fst_conv snd_conv
          prod.inject split: if_split_asm sum.split_asm)
  qed
  have recvmsg: "chain_effect i s t" if c: "shmat_recvmsg e i x s = Some (n, t)" for x
  proof (cases "recvmsg_pointers_at e i (shmat_guest_buf (cfg s i)) False s")
    case (Pair r u)
    have u: "own_step i s u" using own_step_recvmsg [of i s e "shmat_guest_buf (cfg s i)" False] Pair by simp
    have v: "own_step i s (update_cfg i (\<lambda>c. c\<lparr>shmat_mem_fd := fd\<rparr>) u)" for fd
      by (rule own_step_trans [OF u own_step_basic(6)])
    show ?thesis
      using c Pair fails(2) [OF u] on(1) [OF v m(3)]
      by (auto simp only: shmat_recvmsg_def Let_def case_prod_beta option.inject fst_conv snd_conv
          prod.inject split: if_split_asm sum.split_asm)
  qed
  have mmap: "chain_effect i s t" if c: "shmat_mmap i s = Some (n, t)"
  proof -
    obtain k where k: "find_pending_mapping i s = Some k"
      using c by (auto simp: shmat_mmap_def Let_def split: option.splits)
    let ?u = "s\<lparr>mappings := (mappings s)[k := (mappings s ! k)
      \<lparr>map_addr := arg s i SYSARG_RESULT, map_size := arg s i SYSARG_2\<rparr>]\<rparr>"
    let ?v = "chain_call i ''close'' [of_c_int (shmat_socket_fd (cfg s i)), 0, 0, 0, 0, 0]
      (chain_call i ''close'' [of_c_int (shmat_mem_fd (cfg s i)), 0, 0, 0, 0, 0] ?u)"
    let ?w = "update_regs i (force_chain_final_result (arg s i SYSARG_RESULT)) ?v"
    have t: "t = wake_pending_shmat (set_chain i CSTATE_NOT_CHAINED ?w)"
      using c unfolding shmat_mmap_def Let_def k by simp
    have "own_step i s ?u" by (rule own_step_same) simp
    then have "own_step i s (set_chain i CSTATE_NOT_CHAINED ?w)"
      by (rule own_step_trans [OF own_step_trans [OF own_step_trans [OF own_step_trans]]]) (rule own_step_basic)+
    then show ?thesis unfolding t
      by (rule chain_end_effect [OF _ assms(2,3) _ refl]) (simp add: assms(2))
  qed
  show ?thesis
    using assms(1) socket connect recvmsg mmap
    by (auto simp: sysvipc_shmat_chain_def Let_def split: if_split_asm chain_state.split_asm)
qed

text \<open>The retry of a receive.\<close>

lemma retry_effect:
  assumes "sysvipc_msgrcv_retry e i s = Some (n, t)" "i < length (tasks s)"
    and "wait_reason_of (cfg s i) = WR_NOT_WAITING"
  shows "wakes {i} s t \<and> wait_reason_of (cfg t i) = WR_NOT_WAITING \<and>
    wait_state_of (cfg t i) = wait_state_of (cfg s i) \<and> chain_state_of (cfg t i) = CSTATE_NOT_CHAINED \<and>
    task_regs (tasks t ! i) = task_regs (tasks s ! i)"
proof -
  let ?n = "\<lambda>c. c\<lparr>chain_state_of := CSTATE_NOT_CHAINED\<rparr>" and ?w = "\<lambda>c. c\<lparr>wait_reason_of := WR_NOT_WAITING\<rparr>"
  let ?u = "snd (sysvipc_do_msgrcv e i (waiting_object_index (cfg s i)) s)"
  have cases: "t = update_cfg i ?n s \<or> t = update_cfg i ?n ?u \<and> wait_reason_of (cfg ?u i) = WR_NOT_WAITING \<or>
      t = update_cfg i ?n (update_cfg i ?w ?u)"
    using assms(1) by (auto simp: sysvipc_msgrcv_retry_def Let_def case_prod_beta split: if_split_asm)
  obtain f where f: "tasks ?u = tasks (update_cfg i f s)" "\<And>c. wait_state_of (f c) = wait_state_of c"
    using do_msgrcv_tasks [of e i "waiting_object_index (cfg s i)" s] by blast
  have u: "wakes {i} s ?u" "task_regs (tasks ?u ! i) = task_regs (tasks s ! i)"
    "wait_state_of (cfg ?u i) = wait_state_of (cfg s i)" "length (tasks ?u) = length (tasks s)"
    using wakes_update(1) [of i s f] assms(2) f by (auto simp: wakes_def cfg_def task_update_self)
  from cases show ?thesis
  proof (elim disjE conjE)
    assume "t = update_cfg i ?n s"
    then show ?thesis using assms(2,3) by (simp add: wakes_update task_update_self)
  next
    assume "t = update_cfg i ?n ?u" "wait_reason_of (cfg ?u i) = WR_NOT_WAITING"
    then show ?thesis using wakes_trans [OF u(1) wakes_update(1)] u assms(2) by (simp add: task_update_self)
  next
    assume "t = update_cfg i ?n (update_cfg i ?w ?u)"
    then show ?thesis using wakes_trans [OF wakes_trans [OF u(1) wakes_update(1)] wakes_update(1)] u assms(2)
      by (simp add: task_update_self)
  qed
qed

section \<open>The stops of the tracees\<close>

text \<open>
  Between its stops a tracee runs, is inside a system call, or is about to enter one that PRoot has
  put into its registers. Which event the extension gets depends on whether a chain is running. The
  registers of a tracee that runs or that leaves a call are arbitrary; a call that PRoot put there is
  entered with the registers as they are. The rules \<open>others_*\<close> are the parts of PRoot that handle the other
  calls. The kernel can replace the number of a call, and does not refuse the calls that replace others.
\<close>

datatype phase = Running | In_Syscall | Restarting

type_synonym system = "ipc_state \<times> phase list"

definition load_next :: "tracee \<Rightarrow> tracee" where
  "load_next t = (if chain_syscalls t = None then t else chain_next_syscall t)"

definition chain_of :: "ipc_state \<Rightarrow> nat \<Rightarrow> chained_syscall list option" where
  "chain_of s i = chain_syscalls (task_regs (tasks s ! i))"

definition remove_task :: "ipc_env \<Rightarrow> nat \<Rightarrow> ipc_state \<Rightarrow> ipc_state" where
  "remove_task e i s =
     (let p = process_of (cfg s i); s = s\<lparr>tasks := take i (tasks s) @ drop (Suc i) (tasks s)\<rparr> in
      if list_ex (\<lambda>a. process_of (task_cfg a) = p) (tasks s) then s else shm_remove_mappings e p s)"

inductive sysvipc_step :: "ipc_env \<Rightarrow> (abi \<Rightarrow> sysnum) \<Rightarrow> system \<Rightarrow> system \<Rightarrow> bool"
  for e :: ipc_env and beyond :: "abi \<Rightarrow> sysnum"
where
  enters: "sysvipc_step e beyond (s, ph) (t, ph[i := p])"
    if "i < length ph" "ph ! i = Running" "chain_syscalls r = None"
      "sysvipc_callback e beyond SYSCALL_ENTER_START i (update_regs i (\<lambda>_. r) s) = Some (n, t)"
      "p = In_Syscall \<or> n = 0 \<and> p = Running"
| gets_sigsys: "sysvipc_step e beyond (s, ph) (t, ph[i := p])"
    if "i < length ph" "ph ! i = Running" "chain_syscalls r = None"
      "\<not> restore_original_regs r" "\<not> restore_after_seccomp_event r"
      "sysvipc_callback e beyond SIGSYS_OCC i (update_regs i (\<lambda>_. r) s) = Some (n, t)"
      "p = (if restore_after_seccomp_event (task_regs (tasks t ! i)) then Restarting else Running)"
| reenters: "sysvipc_step e beyond (s, ph) (t, ph[i := In_Syscall])"
    if "i < length ph" "ph ! i = Restarting"
      "sysvipc_callback e beyond
         (if chain_of s i = None then SYSCALL_ENTER_START else SYSCALL_CHAINED_ENTER) i s = Some (n, t)"
| leaves: "sysvipc_step e beyond (s, ph)
      (update_regs i load_next t, ph[i := if chain_of (update_regs i load_next t) i = None then Running else Restarting])"
    if "i < length ph" "ph ! i = In_Syscall" "chain_syscalls r = chain_of s i"
      "sysvipc_callback e beyond
         (if chain_of s i = None then SYSCALL_EXIT_START else SYSCALL_CHAINED_EXIT) i
         (update_regs i (\<lambda>_. r) s) = Some (n, t)"
| execs: "sysvipc_step e beyond (s, ph) (t, ph)"
    if "i < length ph" "sysvipc_callback e beyond (SYSCALL_ENTER_END status) i s = Some (n, t)"
| clones: "sysvipc_step e beyond (s, ph) (sysvipc_inherit_child i clone_thread pid p r s, Running # ph)"
    if "i < length ph" "chain_syscalls r = None"
| dies: "sysvipc_step e beyond (s, ph) (remove_task e i s, take i ph @ drop (Suc i) ph)"
    if "i < length ph"
| others_restart: "sysvipc_step e beyond (s, ph) (update_regs i (\<lambda>_. r) s, ph[i := Restarting])"
    if "i < length ph" "ph ! i = Running" "chain_syscalls r = None"
| others_chain: "sysvipc_step e beyond (s, ph) (update_regs i (\<lambda>_. r) s, ph)"
    if "i < length ph" "ph ! i = In_Syscall" "wait_state_of (cfg s i) = WSTATE_NOT_WAITING"
      "chain_state_of (cfg s i) = CSTATE_NOT_CHAINED"

inductive sysvipc_reachable :: "ipc_env \<Rightarrow> (abi \<Rightarrow> sysnum) \<Rightarrow> system \<Rightarrow> bool"
  for e :: ipc_env and beyond :: "abi \<Rightarrow> sysnum"
where
  starts: "chain_syscalls r = None \<Longrightarrow> sysvipc_reachable e beyond (sysvipc_initialization pid p r, [Running])"
| steps: "sysvipc_reachable e beyond x \<Longrightarrow> sysvipc_step e beyond x y \<Longrightarrow> sysvipc_reachable e beyond y"

inductive_cases sysvipc_stepE: "sysvipc_step e beyond (s, ph) y"

section \<open>The invariant\<close>

text \<open>What the state of the wait says about the phase of a tracee, its chain and its registers.\<close>

definition task_ok :: "(abi \<Rightarrow> sysnum) \<Rightarrow> phase \<Rightarrow> ipc_task \<Rightarrow> bool" where
  "task_ok beyond ph a \<longleftrightarrow>
     (let w = wait_state_of (task_cfg a); c = chain_state_of (task_cfg a); q = chain_syscalls (task_regs a);
          woken_ok = (q = None \<and> c \<in> {CSTATE_NOT_CHAINED, CSTATE_MSGRCV_RETRY} \<or>
                      c = CSTATE_SHMAT_SOCKET \<and> (\<exists>x xs. q = Some (x # xs))) in
      (wait_reason_of (task_cfg a) \<noteq> WR_NOT_WAITING \<longleftrightarrow>
         w \<in> {WSTATE_RESTARTED_INTO_PPOLL, WSTATE_ENTERED_PPOLL}) \<and>
      (case w of
         WSTATE_NOT_WAITING \<Rightarrow>
           c \<notin> {CSTATE_SINGLE, CSTATE_MSGRCV_RETRY} \<and> (ph = Running \<longrightarrow> c = CSTATE_NOT_CHAINED \<and> q = None) \<and>
           (c \<in> {CSTATE_SHMAT_CONNECT, CSTATE_SHMAT_RECVMSG, CSTATE_SHMAT_MMAP} \<longrightarrow> q \<noteq> None) \<and>
           (ph = Restarting \<and> c = CSTATE_SHMAT_SOCKET \<and> q = None \<longrightarrow>
              get_sysnum beyond (task_regs a) CURRENT = ''socket'')
       | WSTATE_RESTARTED_INTO_PPOLL \<Rightarrow>
           ph = Restarting \<and> q = None \<and> c = CSTATE_NOT_CHAINED \<and>
           get_sysnum beyond (task_regs a) CURRENT = ''ppoll''
       | WSTATE_RESTARTED_INTO_PPOLL_CANCELED \<Rightarrow> ph = Restarting \<and> woken_ok
       | WSTATE_ENTERED_PPOLL \<Rightarrow> ph = In_Syscall \<and> q = None \<and> c = CSTATE_NOT_CHAINED
       | WSTATE_SIGNALED_PPOLL \<Rightarrow> ph = In_Syscall \<and> woken_ok
       | WSTATE_ENTERED_GETPID \<Rightarrow> ph = In_Syscall \<and> q = None \<and> c = CSTATE_NOT_CHAINED))"

definition sys_ok :: "(abi \<Rightarrow> sysnum) \<Rightarrow> system \<Rightarrow> bool" where
  "sys_ok beyond x \<longleftrightarrow> length (snd x) = length (tasks (fst x)) \<and>
     (\<forall>k < length (snd x). task_ok beyond (snd x ! k) (tasks (fst x) ! k))"

lemma other_step_ok: "task_ok beyond ph a \<Longrightarrow> other_step a b \<Longrightarrow> task_ok beyond ph b"
  unfolding other_step_def
proof (elim disjE)
  assume ok: "task_ok beyond ph a" and w: "woken_from a b"
  have q: "\<exists>x xs. chain_syscalls (register_chained_syscall n l t) = Some (x # xs)" for n l t
    by (auto simp: register_chained_syscall_def register_chained_syscall_internal_def Let_def
        neq_Nil_conv [symmetric] split: option.split)
  have "wait_state_of (task_cfg a) \<in> {WSTATE_RESTARTED_INTO_PPOLL, WSTATE_ENTERED_PPOLL}"
    "chain_state_of (task_cfg a) = CSTATE_NOT_CHAINED" "chain_syscalls (task_regs a) = None"
    using ok w by (auto simp: task_ok_def woken_from_def Let_def split: wait_state.splits)
  then show ?thesis using ok w q
    by (auto simp: task_ok_def woken_from_def wake_state_def Let_def split: wait_state.splits)
qed simp

text \<open>A step of one tracee that only wakes others keeps the invariant if that tracee stays well.\<close>

lemma sys_ok_step:
  assumes "sys_ok beyond (s, ph)" "wakes {i} s t" "i < length ph \<Longrightarrow> task_ok beyond p (tasks t ! i)"
  shows "sys_ok beyond (t, ph[i := p])"
  using assms other_step_ok unfolding sys_ok_def wakes_def by (auto simp: nth_updated)

text \<open>The other rules.\<close>

lemma wakes_regs: "wakes {i} (update_regs i g s) t \<Longrightarrow> wakes {i} s t"
  using wakes_trans [OF wakes_update(2)] .

lemma sys_ok_remove:
  assumes "sys_ok beyond (s, ph)" "i < length ph"
  shows "sys_ok beyond (remove_task e i s, take i ph @ drop (Suc i) ph)"
proof -
  have t: "tasks (remove_task e i s) = take i (tasks s) @ drop (Suc i) (tasks s)"
    by (simp add: remove_task_def Let_def)
  have "task_ok beyond ((take i ph @ drop (Suc i) ph) ! k) ((take i (tasks s) @ drop (Suc i) (tasks s)) ! k)"
    if "k < length ph - 1" for k
    using assms that unfolding sys_ok_def by (cases "k < i") (auto simp: nth_append)
  then show ?thesis using assms by (auto simp: sys_ok_def t)
qed

lemma fresh_task_ok: "chain_syscalls r = None \<Longrightarrow>
    task_ok beyond Running \<lparr>task_pid = pid, task_regs = r, task_cfg = fresh_config p\<rparr>"
  by (simp add: task_ok_def fresh_config_def Let_def)

lemma sys_ok_clone:
  assumes "sys_ok beyond (s, ph)" "chain_syscalls r = None"
  shows "sys_ok beyond (sysvipc_inherit_child i thread pid p r s, Running # ph)"
  using assms fresh_task_ok [OF assms(2)]
  by (auto simp: sys_ok_def sysvipc_inherit_child_def Let_def nth_Cons split: nat.split)

section \<open>Every event keeps the invariant\<close>

lemma push_keeps: "\<not> restore_original_regs t \<Longrightarrow> fst (snd (push_specific_regs accepts b t)) = t"
  by (simp add: push_specific_regs_def restore_regs_def Let_def)

lemma restart_after_seccomp:
  assumes "\<not> restore_original_regs t"
  shows "chain_syscalls (fst (restart_syscall_after_seccomp accepts t)) = chain_syscalls t"
    and "restore_after_seccomp_event (fst (restart_syscall_after_seccomp accepts t))"
    and "get_sysnum beyond (fst (restart_syscall_after_seccomp accepts t)) CURRENT = get_sysnum beyond t CURRENT"
  using assms by (simp_all add: restart_syscall_after_seccomp_def Let_def push_keeps get_sysnum_poke)

lemma result_after_seccomp:
  assumes "\<not> restore_original_regs t"
  shows "chain_syscalls (fst (set_result_after_seccomp accepts result t)) = chain_syscalls t"
    and "restore_after_seccomp_event (fst (set_result_after_seccomp accepts result t)) = restore_after_seccomp_event t"
  using assms by (simp_all add: set_result_after_seccomp_def push_keeps)

lemma push_task_task:
  "i < length (tasks s) \<Longrightarrow> tasks (push_task i f s) ! i = (tasks s ! i)\<lparr>task_regs := fst (f (task_regs (tasks s ! i)))\<rparr>"
  by (simp add: push_task_def case_prod_beta task_update_self)

lemma wakes_push_task: "wakes {i} s (push_task i f s)"
  using wakes_update(2) [of i s] by (simp add: push_task_def case_prod_beta wakes_def)

lemma restart_by_syscall_simps [simp]:
  "chain_syscalls (restart_by_syscall t) = chain_syscalls t"
  "restore_original_regs (restart_by_syscall t) = restore_original_regs t"
  "restore_after_seccomp_event (restart_by_syscall t) = restore_after_seccomp_event t"
  "get_sysnum beyond (restart_by_syscall t) v = get_sysnum beyond t v"
  by (simp_all add: restart_by_syscall_def)

text \<open>A tracee right after the switch over the calls.\<close>

definition after_switch :: "(abi \<Rightarrow> sysnum) \<Rightarrow> bool \<Rightarrow> ipc_task \<Rightarrow> bool" where
  "after_switch beyond from_sigsys a \<longleftrightarrow>
     wait_state_of (task_cfg a) = WSTATE_NOT_WAITING \<and> chain_syscalls (task_regs a) = None \<and>
     (from_sigsys \<longrightarrow> \<not> restore_original_regs (task_regs a)) \<and>
     (chain_state_of (task_cfg a) = CSTATE_NOT_CHAINED \<and>
        (from_sigsys \<longrightarrow> \<not> restore_after_seccomp_event (task_regs a)) \<or>
      wait_reason_of (task_cfg a) = WR_NOT_WAITING \<and>
        (chain_state_of (task_cfg a) = CSTATE_SINGLE \<or>
         chain_state_of (task_cfg a) = CSTATE_SHMAT_SOCKET \<and>
           get_sysnum beyond (task_regs a) CURRENT = ''socket''))"

definition next_phase :: "bool \<Rightarrow> ipc_task \<Rightarrow> phase" where
  "next_phase from_sigsys a =
     (if \<not> from_sigsys then In_Syscall
      else if restore_after_seccomp_event (task_regs a) then Restarting else Running)"

lemma ppoll_args: "get_sysnum beyond (set_sysnum ''ppoll'' t) CURRENT = ''ppoll''"
  by (simp add: set_sysnum_reads replaced_calls_known)

text \<open>Updates of one tracee, in the form in which the handlers compose them.\<close>

lemma wakes_more:
  "wakes {i} s t \<Longrightarrow> wakes {i} s (update_cfg i f t)" "wakes {i} s t \<Longrightarrow> wakes {i} s (update_regs i g t)"
  "wakes {i} s t \<Longrightarrow> wakes {i} s (push_task i h t)" "wakes {i} s t \<Longrightarrow> wakes {i} s (set_wait_state i w t)"
  "wakes {i} s t \<Longrightarrow> wakes {i} s (set_chain i c t)" "wakes {i} s s"
  unfolding set_wait_state_def set_chain_def
  using wakes_trans [OF _ wakes_update(1)] wakes_trans [OF _ wakes_update(2)] wakes_trans [OF _ wakes_push_task]
  by (blast intro: wakes_same)+

lemma task_updates:
  assumes "i < length (tasks s)"
  shows "tasks (set_wait_state i w s) ! i =
      (tasks s ! i)\<lparr>task_cfg := (task_cfg (tasks s ! i))\<lparr>wait_state_of := w\<rparr>\<rparr>"
    and "tasks (set_chain i c s) ! i =
      (tasks s ! i)\<lparr>task_cfg := (task_cfg (tasks s ! i))\<lparr>chain_state_of := c\<rparr>\<rparr>"
    and "tasks (update_cfg i f s) ! i = (tasks s ! i)\<lparr>task_cfg := f (task_cfg (tasks s ! i))\<rparr>"
    and "tasks (update_regs i g s) ! i = (tasks s ! i)\<lparr>task_regs := g (task_regs (tasks s ! i))\<rparr>"
    and "tasks (push_task i h s) ! i = (tasks s ! i)\<lparr>task_regs := fst (h (task_regs (tasks s ! i)))\<rparr>"
  using assms by (simp_all add: set_wait_state_def set_chain_def task_update_self push_task_task cfg_def)

lemma length_updates [simp]:
  "length (tasks (set_wait_state i w s)) = length (tasks s)"
  "length (tasks (push_task i h s)) = length (tasks s)"
  by (simp_all add: set_wait_state_def push_task_def case_prod_beta)

lemma after_call_ok:
  assumes "after_switch beyond from_sigsys (tasks s ! i)" "i < length (tasks s)"
  shows "\<exists>n t. after_call e from_sigsys timeout i status s = Some (n, t) \<and> n \<noteq> 0 \<and> wakes {i} s t \<and>
    task_ok beyond (next_phase from_sigsys (tasks t ! i)) (tasks t ! i)"
proof -
  let ?r = "\<lambda>t. restart_by_syscall (set_sysnum ''ppoll''
    (poke_all [(SYSARG_1, 0), (SYSARG_2, 0), (SYSARG_3, timeout), (SYSARG_4, 0)] t))"
  let ?restart = "restart_syscall_after_seccomp (regs_accepted e)"
  let ?result = "set_result_after_seccomp (regs_accepted e)"
  have a: "wait_state_of (cfg s i) = WSTATE_NOT_WAITING" "chain_syscalls (task_regs (tasks s ! i)) = None"
    "from_sigsys \<Longrightarrow> \<not> restore_original_regs (task_regs (tasks s ! i))"
    using assms(1) by (simp_all add: after_switch_def cfg_def)
  note sets = task_ok_def next_phase_def Let_def task_updates restart_after_seccomp result_after_seccomp cfg_def ppoll_args
  consider (single) "chain_state_of (cfg s i) = CSTATE_SINGLE" "wait_reason_of (cfg s i) = WR_NOT_WAITING"
    | (socket) "chain_state_of (cfg s i) = CSTATE_SHMAT_SOCKET" "wait_reason_of (cfg s i) = WR_NOT_WAITING"
        "get_sysnum beyond (task_regs (tasks s ! i)) CURRENT = ''socket''"
    | (waits) "chain_state_of (cfg s i) = CSTATE_NOT_CHAINED" "wait_reason_of (cfg s i) \<noteq> WR_NOT_WAITING"
    | (direct) "chain_state_of (cfg s i) = CSTATE_NOT_CHAINED" "wait_reason_of (cfg s i) = WR_NOT_WAITING"
        "from_sigsys \<Longrightarrow> \<not> restore_after_seccomp_event (task_regs (tasks s ! i))"
    using assms(1) by (auto simp: after_switch_def cfg_def)
  then show ?thesis
  proof cases
    case single
    let ?u = "update_regs i restart_by_syscall (set_chain i CSTATE_NOT_CHAINED s)"
    have "after_call e from_sigsys timeout i status s =
        (if from_sigsys then Some (2, push_task i ?restart ?u) else Some (1, ?u))"
      using single by (simp add: after_call_def Let_def)
    then show ?thesis using single a assms(2)
      by (cases from_sigsys) (simp_all add: wakes_more sets)
  next
    case socket
    let ?u = "update_regs i restart_by_syscall s"
    have "after_call e from_sigsys timeout i status s =
        (if from_sigsys then Some (2, push_task i ?restart ?u) else Some (1, ?u))"
      using socket by (simp add: after_call_def Let_def)
    then show ?thesis using socket a assms(2)
      by (cases from_sigsys) (simp_all add: wakes_more sets)
  next
    case waits
    let ?u = "update_regs i ?r s"
    have "after_call e from_sigsys timeout i status s =
        (if from_sigsys then Some (2, push_task i ?restart (set_wait_state i WSTATE_RESTARTED_INTO_PPOLL ?u))
         else Some (1, set_wait_state i WSTATE_ENTERED_PPOLL ?u))"
      using waits by (simp add: after_call_def Let_def)
    then show ?thesis using waits a assms(2)
      by (cases from_sigsys) (simp_all add: wakes_more sets)
  next
    case direct
    let ?g = "\<lambda>c. c\<lparr>status_after_wait := of_c_int status, wait_state_of := WSTATE_ENTERED_GETPID\<rparr>"
    have "after_call e from_sigsys timeout i status s =
        (if from_sigsys then Some (2, push_task i (?result (of_c_int status)) s)
         else Some (1, update_regs i (\<lambda>t. restart_by_syscall (set_sysnum ''getpid'' t)) (update_cfg i ?g s)))"
      using direct by (simp add: after_call_def Let_def)
    then show ?thesis using direct a assms(2)
      by (cases from_sigsys) (simp_all add: wakes_more sets)
  qed
qed

text \<open>A tracee before the switch over the calls, with the registers that it enters with.\<close>

definition before_switch :: "(abi \<Rightarrow> sysnum) \<Rightarrow> bool \<Rightarrow> ipc_task \<Rightarrow> bool" where
  "before_switch beyond from_sigsys a \<longleftrightarrow>
     wait_state_of (task_cfg a) = WSTATE_NOT_WAITING \<and> wait_reason_of (task_cfg a) = WR_NOT_WAITING \<and>
     chain_syscalls (task_regs a) = None \<and>
     (from_sigsys \<longrightarrow> \<not> restore_original_regs (task_regs a) \<and> \<not> restore_after_seccomp_event (task_regs a)) \<and>
     (chain_state_of (task_cfg a) = CSTATE_NOT_CHAINED \<or>
      \<not> from_sigsys \<and> chain_state_of (task_cfg a) = CSTATE_SHMAT_SOCKET \<and>
        get_sysnum beyond (task_regs a) CURRENT = ''socket'')"

lemma common_ok:
  assumes "before_switch beyond from_sigsys (tasks s ! i)" "i < length (tasks s)"
  shows "\<exists>n t. sysvipc_syscall_common e beyond from_sigsys i s = Some (n, t) \<and> wakes {i} s t \<and>
    (n = 0 \<longrightarrow> t = s) \<and> task_ok beyond (next_phase from_sigsys (tasks t ! i)) (tasks t ! i)"
proof -
  let ?sysnum = "get_sysnum beyond (task_regs (tasks s ! i)) CURRENT"
  have a: "wait_state_of (cfg s i) = WSTATE_NOT_WAITING" "wait_reason_of (cfg s i) = WR_NOT_WAITING"
    using assms(1) by (simp_all add: before_switch_def cfg_def)
  show ?thesis
  proof (cases "ipc_call e ?sysnum i s")
    case None
    then show ?thesis using a assms
      by (auto simp: sysvipc_syscall_common_def wakes_same task_ok_def before_switch_def next_phase_def cfg_def Let_def)
  next
    case (Some r)
    then obtain status u where u: "ipc_call e ?sysnum i s = Some (status, u)" by (cases r) simp
    have "?sysnum \<noteq> ''socket''" using u by (auto simp: ipc_call_def)
    then have c: "chain_state_of (task_cfg (tasks s ! i)) = CSTATE_NOT_CHAINED"
      using assms(1) by (auto simp: before_switch_def)
    have e: "wakes {i} s u" "self_step beyond (tasks s ! i) (tasks u ! i)"
      using ipc_call_effect [OF u assms(2) a(2), of beyond] by (simp_all add: call_effect_def)
    have "after_switch beyond from_sigsys (tasks u ! i)"
      using e(2) assms(1) c by (auto simp: after_switch_def before_switch_def self_step_def)
    from after_call_ok [OF this, of e "if ?sysnum = ''semtimedop'' then arg s i SYSARG_4 else 0" status]
    show ?thesis using u a(1) wakes_length [OF e(1)] assms(2) wakes_trans [OF e(1)]
      by (fastforce simp: sysvipc_syscall_common_def Let_def)
  qed
qed

text \<open>The two assertions that can fail: the object or the mapping that a tracee was woken for is gone.\<close>

definition retry_lost :: "ipc_state \<Rightarrow> nat \<Rightarrow> bool" where
  "retry_lost s i \<longleftrightarrow> chain_state_of (cfg s i) = CSTATE_MSGRCV_RETRY \<and>
     \<not> (waiting_object_index (cfg s i) < length (queues s) \<and> valid (queues s ! waiting_object_index (cfg s i)))"

definition shmat_lost :: "ipc_state \<Rightarrow> nat \<Rightarrow> bool" where
  "shmat_lost s i \<longleftrightarrow> shmat_chained (cfg s i) \<and>
     (\<not> (waiting_object_index (cfg s i) < length (shms s) \<and> valid (shms s ! waiting_object_index (cfg s i))) \<or>
      find_pending_mapping i s = None)"

lemma retry_None: "chain_state_of (cfg s i) = CSTATE_MSGRCV_RETRY \<Longrightarrow> sysvipc_msgrcv_retry e i s = None \<Longrightarrow> retry_lost s i"
  by (auto simp: sysvipc_msgrcv_retry_def retry_lost_def Let_def case_prod_beta split: if_split_asm)

lemma find_pending_set_chain:
  "find_pending_mapping i (set_chain i c s) = find_pending_mapping i s"
  by (cases "i < length (tasks s)") (simp_all add: find_pending_mapping_def)

lemma find_pending_regs:
  "find_pending_mapping i (update_regs i g s) = find_pending_mapping i s"
  "find_pending_mapping i (chain_call i n a s) = find_pending_mapping i s"
  by (simp_all add: find_pending_mapping_def)

lemma fail_None:
  assumes "mappings u = mappings s" "process_of (cfg u i) = process_of (cfg s i)"
    and "waiting_object_index (cfg u i) = waiting_object_index (cfg s i)"
  shows "fail_dont_close e i u = None \<Longrightarrow> find_pending_mapping i s = None"
    and "fail_close_socket e i u = None \<Longrightarrow> find_pending_mapping i s = None"
proof -
  have u: "find_pending_mapping i u = find_pending_mapping i s"
    by (simp add: find_pending_mapping_def assms)
  show "fail_dont_close e i u = None \<Longrightarrow> find_pending_mapping i s = None"
    "fail_close_socket e i u = None \<Longrightarrow> find_pending_mapping i s = None"
    unfolding fail_dont_close_def fail_close_socket_def Let_def find_pending_set_chain find_pending_regs u
    by (simp_all split: option.splits)
qed

lemma shmat_chain_None:
  assumes "sysvipc_shmat_chain e i s = None" "shmat_chained (cfg s i)"
  shows "shmat_lost s i"
proof -
  have socket: "shmat_socket e i s = None \<Longrightarrow> find_pending_mapping i s = None"
    by (auto simp: shmat_socket_def Let_def case_prod_beta write_data_def split: if_split_asm
        elim!: fail_None(1) [rotated 3])
  have connect: "shmat_connect e i x s = None \<Longrightarrow> find_pending_mapping i s = None" for x
    by (auto simp: shmat_connect_def Let_def case_prod_beta recvmsg_pointers_at_def write_data_def
        split: if_split_asm sum.splits elim!: fail_None(2) [rotated 3])
  have recvmsg: "shmat_recvmsg e i x s = None \<Longrightarrow> find_pending_mapping i s = None" for x
    by (auto simp: shmat_recvmsg_def Let_def case_prod_beta recvmsg_pointers_at_def
        split: if_split_asm sum.splits elim!: fail_None(2) [rotated 3])
  have mmap: "shmat_mmap i s = None \<Longrightarrow> find_pending_mapping i s = None"
    by (auto simp: shmat_mmap_def Let_def split: option.splits)
  show ?thesis using assms socket connect recvmsg mmap
    by (auto simp: sysvipc_shmat_chain_def shmat_lost_def shmat_chained_def Let_def
        split: if_split_asm chain_state.split_asm)
qed

text \<open>The result of an event for a tracee: an assertion that may fail, or a state that keeps the invariant.\<close>

definition event_ok ::
  "(abi \<Rightarrow> sysnum) \<Rightarrow> nat \<Rightarrow> (ipc_task \<Rightarrow> bool) \<Rightarrow> ipc_state \<Rightarrow> (int \<times> ipc_state) option \<Rightarrow> bool" where
  "event_ok beyond i good s result \<longleftrightarrow>
     (case result of None \<Rightarrow> retry_lost s i \<or> shmat_lost s i
      | Some (n, t) \<Rightarrow> wakes {i} s t \<and> good (tasks t ! i))"

lemma event_lost: "event_ok beyond i good s result \<Longrightarrow> result \<noteq> None \<or> retry_lost s i \<or> shmat_lost s i"
  by (simp add: event_ok_def split: option.split_asm)

lemma status_of_wait_cases:
  assumes "i < length (tasks s)" "wait_reason_of (cfg s i) = WR_NOT_WAITING"
    and "chain_state_of (cfg s i) \<in> {CSTATE_NOT_CHAINED, CSTATE_MSGRCV_RETRY}"
  obtains "status_of_wait e i s = None" "retry_lost s i"
  | n t where "status_of_wait e i s = Some (n, t)" "wakes {i} s t" "wait_reason_of (cfg t i) = WR_NOT_WAITING"
    "wait_state_of (cfg t i) = wait_state_of (cfg s i)" "chain_state_of (cfg t i) = CSTATE_NOT_CHAINED"
    "task_regs (tasks t ! i) = task_regs (tasks s ! i)" "length (tasks t) = length (tasks s)"
proof (cases "status_of_wait e i s")
  case None
  then show thesis using that(1) retry_None by (auto simp: status_of_wait_def split: if_split_asm)
next
  case (Some r)
  obtain n t where r: "status_of_wait e i s = Some (n, t)" using Some by (cases r) simp
  show thesis
  proof (cases "chain_state_of (cfg s i) = CSTATE_MSGRCV_RETRY")
    case True
    then have "sysvipc_msgrcv_retry e i s = Some (n, t)" using r by (simp add: status_of_wait_def)
    from retry_effect [OF this assms(1,2)] show thesis
      by (intro that(2) [OF r]) (auto dest: wakes_length)
  next
    case False
    with r have "t = s" by (simp add: status_of_wait_def)
    with assms False show thesis by (intro that(2) [OF r]) (auto simp: wakes_same)
  qed
qed

lemma enter_start_ok:
  assumes "task_ok beyond Restarting (tasks s ! i)" "chain_of s i = None" "i < length (tasks s)"
  shows "event_ok beyond i (task_ok beyond In_Syscall) s (on_syscall_enter_start e beyond i s)"
proof -
  note ok = assms(1) [unfolded task_ok_def Let_def, folded cfg_def]
  consider (none) "wait_state_of (cfg s i) = WSTATE_NOT_WAITING"
    | (restarted) "wait_state_of (cfg s i) = WSTATE_RESTARTED_INTO_PPOLL"
    | (canceled) "wait_state_of (cfg s i) = WSTATE_RESTARTED_INTO_PPOLL_CANCELED"
    using ok by (auto split: wait_state.split_asm)
  then show ?thesis
  proof cases
    case none
    then have "before_switch beyond False (tasks s ! i)"
      using ok assms(2) chain_state.exhaust [of "chain_state_of (cfg s i)"]
      by (auto simp: before_switch_def chain_of_def cfg_def)
    from common_ok [OF this assms(3), of e] none show ?thesis
      by (auto simp: event_ok_def on_syscall_enter_start_def next_phase_def)
  next
    case restarted
    then show ?thesis using ok assms
      by (auto simp: event_ok_def on_syscall_enter_start_def task_ok_def task_updates wakes_more cfg_def)
  next
    case canceled
    then have c: "wait_reason_of (cfg s i) = WR_NOT_WAITING"
        "chain_state_of (cfg s i) \<in> {CSTATE_NOT_CHAINED, CSTATE_MSGRCV_RETRY}"
      using ok assms(2) by (auto simp: chain_of_def)
    show ?thesis
      by (rule status_of_wait_cases [OF assms(3) c, of e])
        (use canceled assms(2,3) in \<open>auto simp: event_ok_def on_syscall_enter_start_def task_ok_def
            task_updates wakes_more cfg_def chain_of_def\<close>)
  qed
qed

lemma chained_enter_ok:
  assumes "task_ok beyond Restarting (tasks s ! i)" "chain_of s i \<noteq> None" "i < length (tasks s)"
  shows "event_ok beyond i (task_ok beyond In_Syscall) s (on_syscall_chained_enter i s)"
  using assms
  by (auto simp: task_ok_def event_ok_def on_syscall_chained_enter_def chain_of_def cfg_def task_updates
      wakes_more Let_def split: wait_state.split_asm)

text \<open>A tracee that leaves a call, before the next call of its chain is loaded.\<close>

definition ready_to_load :: "ipc_task \<Rightarrow> bool" where
  "ready_to_load a \<longleftrightarrow> wait_reason_of (task_cfg a) = WR_NOT_WAITING \<and>
     wait_state_of (task_cfg a) = WSTATE_NOT_WAITING \<and>
     (chain_state_of (task_cfg a) = CSTATE_NOT_CHAINED \<or>
      shmat_chained (task_cfg a) \<and> (\<exists>x xs. chain_syscalls (task_regs a) = Some (x # xs)))"

lemma chain_next_chain:
  "chain_syscalls (chain_next_syscall t) =
     (case chain_syscalls t of None \<Rightarrow> None | Some [] \<Rightarrow> None | Some (x # xs) \<Rightarrow> Some xs)"
  by (auto simp: chain_next_syscall_def Let_def split: option.split list.split)

lemma load_next_ok:
  assumes "ready_to_load (tasks s ! i)" "i < length (tasks s)"
  shows "task_ok beyond (if chain_of (update_regs i load_next s) i = None then Running else Restarting)
           (tasks (update_regs i load_next s) ! i)"
  using assms
  by (auto simp: ready_to_load_def task_ok_def chain_of_def load_next_def task_update_self shmat_chained_def
      chain_next_chain Let_def split: option.splits list.splits)

lemma shmat_chain_ok:
  assumes "shmat_chained (cfg s i)" "i < length (tasks s)"
    and "wait_reason_of (cfg s i) = WR_NOT_WAITING" "wait_state_of (cfg s i) = WSTATE_NOT_WAITING"
  shows "event_ok beyond i ready_to_load s (sysvipc_shmat_chain e i s)"
proof (cases "sysvipc_shmat_chain e i s")
  case None
  then show ?thesis using shmat_chain_None [OF None assms(1)] by (simp add: event_ok_def)
next
  case (Some r)
  then obtain n t where r: "sysvipc_shmat_chain e i s = Some (n, t)" by (cases r) simp
  from shmat_chain_effect [OF this assms(2,3)] r assms(3,4) show ?thesis
    by (auto simp: event_ok_def chain_effect_def own_step_def chain_pending_def ready_to_load_def
        shmat_chained_def cfg_def)
qed

lemma exit_start_ok:
  assumes "task_ok beyond In_Syscall (tasks s ! i)" "chain_of s i = None" "i < length (tasks s)"
  shows "event_ok beyond i ready_to_load s (on_syscall_exit_start e i s)"
proof -
  note ok = assms(1) [unfolded task_ok_def Let_def, folded cfg_def]
  show ?thesis
  proof (cases "shmat_chained (cfg s i)")
    case True
    then have "wait_state_of (cfg s i) = WSTATE_NOT_WAITING" "chain_state_of (cfg s i) = CSTATE_SHMAT_SOCKET"
        "wait_reason_of (cfg s i) = WR_NOT_WAITING"
      using ok assms(2) by (auto simp: shmat_chained_def chain_of_def split: wait_state.split_asm)
    with shmat_chain_ok [OF True assms(3)] True show ?thesis by (simp add: on_syscall_exit_start_def)
  next
    case False
    consider (none) "wait_state_of (cfg s i) = WSTATE_NOT_WAITING"
      | (entered) "wait_state_of (cfg s i) = WSTATE_ENTERED_PPOLL"
      | (ended) "wait_state_of (cfg s i) \<in> {WSTATE_SIGNALED_PPOLL, WSTATE_ENTERED_GETPID}"
      using ok by (auto split: wait_state.split_asm)
    then show ?thesis
    proof cases
      case none
      then show ?thesis using ok False chain_state.exhaust [of "chain_state_of (cfg s i)"]
        by (auto simp: on_syscall_exit_start_def event_ok_def wakes_same ready_to_load_def shmat_chained_def cfg_def)
    next
      case entered
      let ?u = "if wait_reason_of (cfg s i) = WR_WAIT_SEMOP
        then sysvipc_semop_timedout i (set_wait_state i WSTATE_NOT_WAITING s)
        else update_cfg i (\<lambda>c. c\<lparr>wait_reason_of := WR_NOT_WAITING\<rparr>) (set_wait_state i WSTATE_NOT_WAITING s)"
      have "wakes {i} s ?u" "ready_to_load (tasks ?u ! i)"
        using entered ok assms(3)
        by (auto simp: sysvipc_semop_timedout_def wakes_more ready_to_load_def task_updates cfg_def)
      moreover have "\<exists>n. on_syscall_exit_start e i s = Some (n, ?u)"
        using entered False ok assms(3) by (auto simp: on_syscall_exit_start_def set_wait_state_def Let_def)
      ultimately show ?thesis by (auto simp: event_ok_def)
    next
      case ended
      let ?u = "set_wait_state i WSTATE_NOT_WAITING s"
      have u: "wait_reason_of (cfg ?u i) = WR_NOT_WAITING" "wait_state_of (cfg ?u i) = WSTATE_NOT_WAITING"
          "chain_state_of (cfg ?u i) = chain_state_of (cfg s i)" "i < length (tasks ?u)"
          "chain_state_of (cfg ?u i) \<in> {CSTATE_NOT_CHAINED, CSTATE_MSGRCV_RETRY}"
        using ended ok assms(2,3) by (auto simp: set_wait_state_def chain_of_def)
      have lost: "retry_lost ?u i \<Longrightarrow> retry_lost s i" using assms(3) by (simp add: retry_lost_def set_wait_state_def)
      have r: "on_syscall_exit_start e i s = (case status_of_wait e i ?u of None \<Rightarrow> None
          | Some (status, s) \<Rightarrow> Some (1, update_regs i (poke_reg SYSARG_RESULT (of_c_int status)) s))"
        using ended False ok by (auto simp: on_syscall_exit_start_def)
      show ?thesis
        by (rule status_of_wait_cases [OF u(4,1,5), of e])
          (use u lost r wakes_trans [OF wakes_more(4) [OF wakes_more(6)]] in
            \<open>auto simp: event_ok_def ready_to_load_def task_updates wakes_more cfg_def\<close>)
    qed
  qed
qed

lemma chained_exit_ok:
  assumes "task_ok beyond In_Syscall (tasks s ! i)" "chain_of s i \<noteq> None" "i < length (tasks s)"
  shows "event_ok beyond i ready_to_load s (on_syscall_chained_exit e i s)"
proof -
  note ok = assms(1) [unfolded task_ok_def Let_def, folded cfg_def]
  consider (none) "wait_state_of (cfg s i) = WSTATE_NOT_WAITING"
    | (signaled) "wait_state_of (cfg s i) = WSTATE_SIGNALED_PPOLL"
    using ok assms(2) by (auto simp: chain_of_def split: wait_state.split_asm)
  then show ?thesis
  proof cases
    case none
    then have w: "wait_reason_of (cfg s i) = WR_NOT_WAITING" using ok by simp
    show ?thesis
    proof (cases "shmat_chained (cfg s i)")
      case True
      from shmat_chain_ok [OF True assms(3) w none, of beyond e] True none show ?thesis
        by (auto simp: event_ok_def on_syscall_chained_exit_def split: option.splits)
    next
      case False
      then show ?thesis using ok none chain_state.exhaust [of "chain_state_of (cfg s i)"]
        by (auto simp: on_syscall_chained_exit_def shmat_chained_def event_ok_def wakes_same ready_to_load_def cfg_def)
    qed
  next
    case signaled
    then show ?thesis using ok assms(2,3)
      by (auto simp: event_ok_def on_syscall_chained_exit_def ready_to_load_def shmat_chained_def chain_of_def
          task_updates wakes_more cfg_def)
  qed
qed

text \<open>A tracee that runs, with the registers of its next stop.\<close>

lemma running_task:
  assumes "sys_ok beyond (s, ph)" "i < length ph" "ph ! i = Running" "chain_syscalls r = None"
  shows "i < length (tasks s)"
    and "\<not> restore_original_regs r \<and> \<not> restore_after_seccomp_event r \<or> \<not> from_sigsys \<Longrightarrow>
      before_switch beyond from_sigsys (tasks (update_regs i (\<lambda>_. r) s) ! i)"
    and "wait_state_of (cfg s i) = WSTATE_NOT_WAITING"
proof -
  show i: "i < length (tasks s)" using assms(1,2) by (simp add: sys_ok_def)
  have ok: "task_ok beyond Running (tasks s ! i)" using assms(1-3) by (auto simp: sys_ok_def)
  show w: "wait_state_of (cfg s i) = WSTATE_NOT_WAITING"
    using ok by (auto simp: task_ok_def cfg_def Let_def split: wait_state.split_asm)
  show "before_switch beyond from_sigsys (tasks (update_regs i (\<lambda>_. r) s) ! i)"
    if "\<not> restore_original_regs r \<and> \<not> restore_after_seccomp_event r \<or> \<not> from_sigsys"
    using ok w that i assms(4) by (auto simp: task_ok_def before_switch_def task_updates cfg_def Let_def)
qed

lemma task_ok_regs:
  assumes "task_ok beyond In_Syscall a" "chain_syscalls r = chain_syscalls (task_regs a)"
  shows "task_ok beyond In_Syscall (a\<lparr>task_regs := r\<rparr>)"
  using assms by (simp add: task_ok_def Let_def split: wait_state.split_asm)

lemma event_cases:
  "sys_ok beyond (s, ph) \<Longrightarrow> i < length ph \<Longrightarrow> ph ! i = Restarting \<Longrightarrow>
     event_ok beyond i (task_ok beyond In_Syscall) s
       (sysvipc_callback e beyond (if chain_of s i = None then SYSCALL_ENTER_START else SYSCALL_CHAINED_ENTER) i s)"
  "sys_ok beyond (s, ph) \<Longrightarrow> i < length ph \<Longrightarrow> ph ! i = In_Syscall \<Longrightarrow> chain_syscalls r = chain_of s i \<Longrightarrow>
     event_ok beyond i ready_to_load (update_regs i (\<lambda>_. r) s)
       (sysvipc_callback e beyond (if chain_of s i = None then SYSCALL_EXIT_START else SYSCALL_CHAINED_EXIT) i
         (update_regs i (\<lambda>_. r) s))"
proof -
  assume "sys_ok beyond (s, ph)" "i < length ph" "ph ! i = Restarting"
  then have "task_ok beyond Restarting (tasks s ! i)" "i < length (tasks s)" by (auto simp: sys_ok_def)
  then show "event_ok beyond i (task_ok beyond In_Syscall) s
       (sysvipc_callback e beyond (if chain_of s i = None then SYSCALL_ENTER_START else SYSCALL_CHAINED_ENTER) i s)"
    by (simp add: enter_start_ok chained_enter_ok)
next
  let ?s = "update_regs i (\<lambda>_. r) s"
  assume a: "sys_ok beyond (s, ph)" "i < length ph" "ph ! i = In_Syscall" and r: "chain_syscalls r = chain_of s i"
  then have ok: "task_ok beyond In_Syscall (tasks s ! i)" "i < length (tasks s)" by (auto simp: sys_ok_def)
  have "task_ok beyond In_Syscall (tasks ?s ! i)" "chain_of ?s i = chain_of s i"
    using task_ok_regs [OF ok(1), of r] r ok(2) by (simp_all add: task_updates chain_of_def)
  then show "event_ok beyond i ready_to_load ?s
       (sysvipc_callback e beyond (if chain_of s i = None then SYSCALL_EXIT_START else SYSCALL_CHAINED_EXIT) i ?s)"
    using exit_start_ok [of beyond ?s i e] chained_exit_ok [of beyond ?s i e] ok(2) by auto
qed

lemma sys_ok_preserved:
  assumes "sysvipc_step e beyond x y" "sys_ok beyond x"
  shows "sys_ok beyond y"
  using assms
proof (cases rule: sysvipc_step.cases)
  case (enters i ph r s n t p)
  note run = running_task [OF assms(2) [unfolded enters(1)] enters(3-5)]
  let ?s = "update_regs i (\<lambda>_. r) s"
  have "before_switch beyond False (tasks ?s ! i)" "i < length (tasks ?s)" using run by simp_all
  from common_ok [OF this, of e] obtain m u where c: "sysvipc_syscall_common e beyond False i ?s = Some (m, u)"
      "wakes {i} ?s u" "m = 0 \<longrightarrow> u = ?s" "task_ok beyond In_Syscall (tasks u ! i)"
    by (auto simp: next_phase_def)
  have "n = m" "t = u" using enters(6) c(1) run by (auto simp: on_syscall_enter_start_def)
  moreover have "task_ok beyond Running (tasks ?s ! i)"
    using running_task(2) [OF assms(2) [unfolded enters(1)] enters(3-5), of False] assms(2) enters run(1)
    by (auto simp: sys_ok_def task_ok_def task_updates before_switch_def Let_def)
  ultimately have "task_ok beyond p (tasks t ! i)" using c enters(7) by auto
  then show ?thesis
    using sys_ok_step [OF assms(2) [unfolded enters(1)], of i t p] wakes_regs c(2) \<open>t = u\<close> enters(2) by auto
next
  case (gets_sigsys i ph r s n t p)
  note run = running_task [OF assms(2) [unfolded gets_sigsys(1)] gets_sigsys(3-5)]
  let ?s = "update_regs i (\<lambda>_. r) s"
  have "before_switch beyond True (tasks ?s ! i)" "i < length (tasks ?s)" using run gets_sigsys(6,7) by simp_all
  from common_ok [OF this, of e] gets_sigsys(8,9) have
      "wakes {i} ?s t" "task_ok beyond p (tasks t ! i)" by (auto simp: next_phase_def)
  then show ?thesis
    using sys_ok_step [OF assms(2) [unfolded gets_sigsys(1)], of i t p] wakes_regs gets_sigsys(2) by auto
next
  case (reenters i ph s n t)
  from event_cases(1) [OF assms(2) [unfolded reenters(1)] reenters(3,4), of e] reenters(5) have
      "wakes {i} s t" "task_ok beyond In_Syscall (tasks t ! i)" by (simp_all add: event_ok_def)
  then show ?thesis
    using sys_ok_step [OF assms(2) [unfolded reenters(1)]] reenters(2) by auto
next
  case (leaves i ph r s n t)
  let ?s = "update_regs i (\<lambda>_. r) s"
  from event_cases(2) [OF assms(2) [unfolded leaves(1)] leaves(3-5), of e] leaves(6) have
      t: "wakes {i} ?s t" "ready_to_load (tasks t ! i)" by (simp_all add: event_ok_def)
  have "i < length (tasks t)"
    using wakes_length [OF t(1)] assms(2) leaves(1,3) by (simp add: sys_ok_def)
  from load_next_ok [OF t(2) this] show ?thesis
    using sys_ok_step [OF assms(2) [unfolded leaves(1)] wakes_regs [OF wakes_more(2) [OF t(1)]]]
    unfolding leaves(2) by blast
next
  case (execs i ph status s n t)
  have "tasks t = tasks s" using execs(4) by (auto simp: on_syscall_enter_end_def split: if_split_asm)
  then show ?thesis using assms(2) execs(1,2) by (simp add: sys_ok_def)
next
  case (clones i ph r s clone_thread pid p)
  then show ?thesis using sys_ok_clone assms(2) by simp
next
  case (dies i ph s)
  then show ?thesis using sys_ok_remove assms(2) by simp
next
  case (others_restart i ph r s)
  note run = running_task [OF assms(2) [unfolded others_restart(1)] others_restart(3-5)]
  have "task_ok beyond Restarting (tasks (update_regs i (\<lambda>_. r) s) ! i)"
    using run(2) [of False] run(1,3) assms(2) others_restart
    by (auto simp: sys_ok_def task_ok_def task_updates before_switch_def cfg_def Let_def)
  then show ?thesis
    using sys_ok_step [OF assms(2) [unfolded others_restart(1)] wakes_update(2)] others_restart(2) by auto
next
  case (others_chain i ph s r)
  have "task_ok beyond In_Syscall (tasks (update_regs i (\<lambda>_. r) s) ! i)"
    using assms(2) others_chain by (auto simp: sys_ok_def task_ok_def task_updates cfg_def Let_def)
  then have "sys_ok beyond (update_regs i (\<lambda>_. r) s, ph[i := In_Syscall])"
    using sys_ok_step [OF assms(2) [unfolded others_chain(1)] wakes_update(2)] by auto
  then show ?thesis using others_chain(2,4) by (metis list_update_id)
qed

lemma reachable_ok: "sysvipc_reachable e beyond x \<Longrightarrow> sys_ok beyond x"
proof (induction rule: sysvipc_reachable.induct)
  case (starts r pid p)
  then show ?case using fresh_task_ok by (simp add: sys_ok_def sysvipc_initialization_def)
next
  case (steps x y)
  then show ?case using sys_ok_preserved by blast
qed

section \<open>Waking ends the wait\<close>

lemma c_int_of_c_int:
  assumes "- (2 ^ 31) \<le> v" "v < 2 ^ 31"
  shows "c_int (of_c_int v) = v"
proof -
  have "(ucast (of_c_int v) :: u32) = word_of_int v"
    unfolding of_c_int_def by (rule bit_word_eqI) (simp add: bit_ucast_iff bit_word_of_int_iff)
  then show ?thesis using assms
    by (simp add: c_int_def sint_sbintrunc' signed_take_bit_int_eq_self)
qed

section \<open>Properties\<close>

text \<open>C32: In every reachable state, a tracee has a reason to wait exactly when it is inside \<open>ppoll\<close> or about to
  enter it, which the assertions of \<open>sysvipc_wake_tracee\<close> require of the tracees that the calls wake, and a
  tracee that runs neither waits nor has a chain.\<close>

theorem waiting_tracees_can_be_woken:
  assumes "sysvipc_reachable e beyond (s, ph)" "k < length ph"
  shows "(wait_reason_of (cfg s k) \<noteq> WR_NOT_WAITING \<longleftrightarrow>
      wait_state_of (cfg s k) \<in> {WSTATE_RESTARTED_INTO_PPOLL, WSTATE_ENTERED_PPOLL}) \<and>
    (ph ! k = Running \<longrightarrow> wait_state_of (cfg s k) = WSTATE_NOT_WAITING \<and>
      chain_state_of (cfg s k) = CSTATE_NOT_CHAINED \<and> chain_of s k = None)"
proof -
  have "task_ok beyond (ph ! k) (tasks s ! k)"
    using reachable_ok [OF assms(1)] assms(2) by (simp add: sys_ok_def)
  then show ?thesis
    by (auto simp: task_ok_def cfg_def chain_of_def Let_def split: wait_state.split_asm)
qed

text \<open>C33: In every reachable state and for every event that the stops of a tracee lead to, the assertions of
  the callback hold, but for two: the queue of a retried \<open>msgrcv\<close> is gone, or the segment or the pending
  mapping of a \<open>shmat\<close> is gone.\<close>

theorem only_lost_objects_abort:
  assumes "sysvipc_reachable e beyond (s, ph)" "i < length ph"
  shows "case ph ! i of
      Running \<Rightarrow> \<forall>r. chain_syscalls r = None \<longrightarrow>
        sysvipc_callback e beyond SYSCALL_ENTER_START i (update_regs i (\<lambda>_. r) s) \<noteq> None \<and>
        (\<not> restore_original_regs r \<and> \<not> restore_after_seccomp_event r \<longrightarrow>
          sysvipc_callback e beyond SIGSYS_OCC i (update_regs i (\<lambda>_. r) s) \<noteq> None)
    | Restarting \<Rightarrow>
        sysvipc_callback e beyond
          (if chain_of s i = None then SYSCALL_ENTER_START else SYSCALL_CHAINED_ENTER) i s \<noteq> None \<or>
        retry_lost s i \<or> shmat_lost s i
    | In_Syscall \<Rightarrow> \<forall>r. chain_syscalls r = chain_of s i \<longrightarrow>
        sysvipc_callback e beyond
          (if chain_of s i = None then SYSCALL_EXIT_START else SYSCALL_CHAINED_EXIT) i
          (update_regs i (\<lambda>_. r) s) \<noteq> None \<or>
        retry_lost (update_regs i (\<lambda>_. r) s) i \<or> shmat_lost (update_regs i (\<lambda>_. r) s) i"
proof (cases "ph ! i")
  case Running
  note run = running_task [OF reachable_ok [OF assms(1)] assms(2) Running]
  have "sysvipc_syscall_common e beyond b i (update_regs i (\<lambda>_. r) s) \<noteq> None"
    if "chain_syscalls r = None" "\<not> restore_original_regs r \<and> \<not> restore_after_seccomp_event r \<or> \<not> b" for r b
    using common_ok [OF run(2) [OF that], of e] run(1) [OF that(1)] by auto
  with run(3) Running show ?thesis by (auto simp: on_syscall_enter_start_def)
next
  case Restarting
  from event_lost [OF event_cases(1) [OF reachable_ok [OF assms(1)] assms(2) Restarting]] Restarting show ?thesis
    by (simp del: sysvipc_callback.simps)
next
  case In_Syscall
  from event_lost [OF event_cases(2) [OF reachable_ok [OF assms(1)] assms(2) In_Syscall]] In_Syscall show ?thesis
    by (simp del: sysvipc_callback.simps)
qed

text \<open>C34: Waking a tracee ends its wait with the status that it is woken with: inside \<open>ppoll\<close> it gets a stop
  signal and the exit of \<open>ppoll\<close>, with any registers, becomes that status; if \<open>ppoll\<close> is not entered yet,
  the entry becomes a call of nothing with that result.\<close>

theorem wake_ends_the_wait:
  assumes "k < length (tasks s)" "- (2 ^ 31) \<le> status" "status < 2 ^ 31"
    and "chain_state_of (cfg s k) = CSTATE_NOT_CHAINED"
  shows "(wait_state_of (cfg s k) = WSTATE_ENTERED_PPOLL \<longrightarrow>
      stop_signals (sysvipc_wake_tracee k status s) = stop_signals s @ [task_pid (tasks s ! k)] \<and>
      (\<exists>u. on_syscall_exit_start e k (update_regs k (\<lambda>_. r) (sysvipc_wake_tracee k status s)) = Some (1, u) \<and>
        peek_reg (task_regs (tasks u ! k)) CURRENT SYSARG_RESULT = reg_norm r (of_c_int status) \<and>
        wait_reason_of (cfg u k) = WR_NOT_WAITING \<and> wait_state_of (cfg u k) = WSTATE_NOT_WAITING)) \<and>
    (wait_state_of (cfg s k) = WSTATE_RESTARTED_INTO_PPOLL \<longrightarrow>
      (\<exists>u. on_syscall_enter_start e beyond k (update_regs k (\<lambda>_. r) (sysvipc_wake_tracee k status s)) = Some (1, u) \<and>
        peek_reg (task_regs (tasks u ! k)) CURRENT SYSARG_RESULT = reg_norm r (of_c_int status) \<and>
        get_sysnum beyond (task_regs (tasks u ! k)) CURRENT = ''void'' \<and>
        wait_reason_of (cfg u k) = WR_NOT_WAITING \<and> wait_state_of (cfg u k) = WSTATE_NOT_WAITING))"
proof -
  let ?t = "update_regs k (\<lambda>_. r) (sysvipc_wake_tracee k status s)"
  have t: "cfg ?t k = woken status (cfg s k)" "k < length (tasks ?t)" "task_regs (tasks ?t ! k) = r"
    using assms(1) by (simp_all add: task_update_self)
  have st: "c_int (of_c_int status) = status" by (rule c_int_of_c_int) (use assms in auto)
  have void: "get_sysnum beyond (set_sysnum ''void'' q) CURRENT = ''void''" for q by (simp add: set_sysnum_reads)
  have res: "peek_reg (set_sysnum n (poke_reg SYSARG_RESULT v q)) CURRENT SYSARG_RESULT = reg_norm q v" for n v q
    by (simp add: set_sysnum_def peek_poke_other apart_def peek_poke_same)
  have "stop_signals (sysvipc_wake_tracee k status s) = stop_signals s @ [task_pid (tasks s ! k)]"
    if "wait_state_of (cfg s k) = WSTATE_ENTERED_PPOLL"
    using that assms(1) by (simp add: sysvipc_wake_tracee_def Let_def task_update_self)
  moreover have "\<exists>u. on_syscall_exit_start e k ?t = Some (1, u) \<and>
      peek_reg (task_regs (tasks u ! k)) CURRENT SYSARG_RESULT = reg_norm r (of_c_int status) \<and>
      wait_reason_of (cfg u k) = WR_NOT_WAITING \<and> wait_state_of (cfg u k) = WSTATE_NOT_WAITING"
    if "wait_state_of (cfg s k) = WSTATE_ENTERED_PPOLL"
  proof -
    have w: "wait_state_of (cfg ?t k) = WSTATE_SIGNALED_PPOLL" "\<not> shmat_chained (cfg ?t k)"
      using t(1) that assms(4) by (simp_all add: wake_state_woken wake_state_def shmat_chained_def)
    have "on_syscall_exit_start e k ?t =
        Some (1, update_regs k (poke_reg SYSARG_RESULT (of_c_int status)) (set_wait_state k WSTATE_NOT_WAITING ?t))"
      using t w assms(4) st by (simp add: on_syscall_exit_start_def status_of_wait_def set_wait_state_def)
    moreover have "cfg (update_regs k g (set_wait_state k WSTATE_NOT_WAITING ?t)) k =
        (woken status (cfg s k))\<lparr>wait_state_of := WSTATE_NOT_WAITING\<rparr>" for g
      using t by (simp add: set_wait_state_def)
    ultimately show ?thesis using t(2,3) by (simp add: task_updates peek_poke_same)
  qed
  moreover have "\<exists>u. on_syscall_enter_start e beyond k ?t = Some (1, u) \<and>
      peek_reg (task_regs (tasks u ! k)) CURRENT SYSARG_RESULT = reg_norm r (of_c_int status) \<and>
      get_sysnum beyond (task_regs (tasks u ! k)) CURRENT = ''void'' \<and>
      wait_reason_of (cfg u k) = WR_NOT_WAITING \<and> wait_state_of (cfg u k) = WSTATE_NOT_WAITING"
    if "wait_state_of (cfg s k) = WSTATE_RESTARTED_INTO_PPOLL"
  proof -
    have w: "wait_state_of (cfg ?t k) = WSTATE_RESTARTED_INTO_PPOLL_CANCELED"
      using t(1) that by (simp add: wake_state_woken wake_state_def)
    have "on_syscall_enter_start e beyond k ?t = Some (1, set_wait_state k WSTATE_NOT_WAITING
        (update_regs k (\<lambda>q. set_sysnum ''void'' (poke_reg SYSARG_RESULT (of_c_int status) q)) ?t))"
      using t w assms(4) st by (simp add: on_syscall_enter_start_def status_of_wait_def)
    moreover have "cfg (set_wait_state k WSTATE_NOT_WAITING (update_regs k g ?t)) k =
        (woken status (cfg s k))\<lparr>wait_state_of := WSTATE_NOT_WAITING\<rparr>" for g
      using t by (simp add: set_wait_state_def)
    ultimately show ?thesis using t(2,3) void res by (simp add: task_updates)
  qed
  ultimately show ?thesis by blast
qed

section \<open>Witnesses\<close>

lemma waiting_witness:
  "wait_state_of (cfg (sysvipc_initialization 1000 4 example_tracee) 0) = WSTATE_NOT_WAITING"
proof -
  have "sysvipc_reachable (example_machine []) (\<lambda>_. ''void'')
      (sysvipc_initialization 1000 4 example_tracee, [Running])"
    by (rule sysvipc_reachable.starts) (simp add: example_tracee_def)
  from waiting_tracees_can_be_woken [OF this, of 0] show ?thesis by simp
qed

lemma abort_witness:
  "sysvipc_callback (example_machine []) (\<lambda>_. ''void'') SYSCALL_ENTER_START 0
     (update_regs 0 (\<lambda>_. example_tracee) (sysvipc_initialization 1000 4 example_tracee)) \<noteq> None"
proof -
  have r: "chain_syscalls example_tracee = None" by (simp add: example_tracee_def)
  have "sysvipc_reachable (example_machine []) (\<lambda>_. ''void'')
      (sysvipc_initialization 1000 4 example_tracee, [Running])"
    by (rule sysvipc_reachable.starts) (rule r)
  from only_lost_objects_abort [OF this, of 0] r show ?thesis by simp
qed

definition sleeping :: ipc_state where
  "sleeping = update_cfg 2 (\<lambda>c. c\<lparr>wait_reason_of := WR_WAIT_SEMOP, wait_state_of := WSTATE_ENTERED_PPOLL\<rparr>)
     (example_ipc [example_task 4 [], example_task 4 [], example_task 4 [0xFFFFFFFC]])"

lemma wake_witness:
  "stop_signals (sysvipc_wake_tracee 2 0 sleeping) = [1004]"
proof -
  have s: "2 < length (tasks sleeping)" "chain_state_of (cfg sleeping 2) = CSTATE_NOT_CHAINED"
    "wait_state_of (cfg sleeping 2) = WSTATE_ENTERED_PPOLL" "stop_signals sleeping = []"
    "task_pid (tasks sleeping ! 2) = 1004" by code_simp+
  then show ?thesis using wake_ends_the_wait [of 2 sleeping 0 "example_machine []" example_tracee "\<lambda>_. ''void''"] by simp
qed

end
