(* ===== verification/Spec2Isabelle.thy ===== *)
theory Spec2Isabelle
  imports Told Stages Emulate Netlink Mounts Seccomp Mem Prelude Paths Bindings Canon Resolve Regs Sysnums Chain Heap Ipc Ipc_Sem Ipc_Msg Ipc_Shm Sigsys Sysvipc
begin

text \<open>
  This library models PRoot, the program under \<open>src/core/proot/src/main/cpp\<close> that VM-Forge runs guests in.
  PRoot traces guest processes (the tracees) with \<open>ptrace\<close>: it stops each of their system calls, rewrites
  the arguments (guest paths become host paths), lets the kernel run the call, or a call that does nothing,
  and corrects the result. The build that is modelled is the one for arm64, with 64-bit and 32-bit tracees.

  \<^bold>\<open>Parts and how they interact.\<close> A stopped call reaches \<open>translate_syscall\<close> (\<open>syscall/syscall.c\<close>) with
  the registers of the tracee. The enter stage (\<open>syscall/enter.c\<close>) reads path arguments from the memory of the
  tracee, translates them over the binding tables of its file name space and stores the host paths below its
  stack pointer; the exit stage undoes what the tracee must not see. Extensions are notified before and after
  each stage; the extension for System V IPC answers its calls itself and makes tracees wait by calls that
  are chained. The kernel is asked to stop only the calls that PRoot handles, by a seccomp filter.

  \<^bold>\<open>Theories and sources.\<close> Each C function is a definition of the same name; a C status is a sum of
  \<open>errno\<close> and a value, or an \<open>int\<close> where the status itself is compared. State is passed explicitly. The
  kernel, the file system and the other parts outside of the sources are records of functions.

  \<^item> \<open>Prelude\<close>: words, error numbers, results, C strings, lemmas on lists.
  \<^item> \<open>Paths\<close>: \<open>path/path.c\<close> and \<open>path/canon.c\<close> on path strings (joining, popping, comparing, replacing a
    prefix) in buffers of \<open>PATH_MAX\<close> bytes, and canonical paths as lists of names.
  \<^item> \<open>Bindings\<close>: \<open>path/binding.c\<close>, the lists of bindings that are ordered by guest and by host path.
  \<^item> \<open>Canon\<close>, \<open>Resolve\<close>: \<open>canonicalize\<close>, \<open>translate_path\<close>, \<open>detranslate_path\<close> (\<open>path/canon.c\<close>,
    \<open>path/path.c\<close>, \<open>path/proc.c\<close>, \<open>path/glue.c\<close>), and what they achieve: no special name is left, the result is
    that of an abstract resolution of links, a translation moves it to the host side of the deepest binding.
    Callbacks of extensions on paths are functions that keep a string in their buffer (\<open>callbacks_ok\<close>).
  \<^item> \<open>Regs\<close>, \<open>Sysnums\<close>, \<open>Chain\<close>, \<open>Heap\<close>: \<open>tracee/reg.c\<close>, \<open>syscall/sysnum.c\<close> with the two tables,
    \<open>syscall/chain.c\<close> and \<open>syscall/heap.c\<close>. The registers are a bank of 32-bit words per version.
  \<^item> \<open>Mem\<close>: \<open>tracee/mem.c\<close>, transfers by \<open>process_vm_readv\<close> and by words with the workaround for a broken
    \<open>POKEDATA\<close>, and the path arguments of \<open>syscall/syscall.c\<close>. The laws of the kernel are \<open>memory_laws\<close>.
  \<^item> \<open>Seccomp\<close>: \<open>syscall/seccomp.c\<close> and a machine for the BPF instructions it generates.
  \<^item> \<open>Mounts\<close>, \<open>Netlink\<close>: the parts of \<open>syscall/enter.c\<close> that emulate \<open>mount\<close>, \<open>umount\<close>, \<open>pivot_root\<close> and
    the replies of a route netlink socket, byte by byte.
  \<^item> \<open>Guest\<close>: what the kernel and the tracee are to the stages of a call (the records \<open>host\<close> and \<open>guest\<close>), what
    a path in the memory of a tracee is, \<open>translate_path2\<close>, \<open>translate_sysarg\<close> and the helpers of
    \<open>syscall/enter.c\<close> for emulated mounts and sockets over them.
  \<^item> \<open>Socket\<close>: \<open>syscall/socket.c\<close>, the paths in the addresses of local sockets.
  \<^item> \<open>Enter\<close>: \<open>translate_syscall_enter\<close>, every case; the handlers of \<open>execve\<close>, \<open>ptrace\<close> and \<open>wait\<close> are
    arguments of type \<open>handlers\<close>. A state of which C says nothing (a read of an uninitialised buffer) is
    \<open>Undefined\<close>.
  \<^item> \<open>Confine\<close>, \<open>Emulate\<close>: what the enter stage achieves: the paths that the kernel gets are the
    translations of those of the tracee, each with its directory and its treatment of a final link; calls that PRoot answers itself reach the kernel as a call without effect.
  \<^item> \<open>Statx\<close>, \<open>Restart\<close>: \<open>tracee/statx.c\<close> and \<open>tracee/seccomp.c\<close>, the calls that a seccomp policy of the host
    refuses and that PRoot answers or restarts under another name. \<open>Rewritten\<close>: such a call asks for the same.
  \<^item> \<open>Exit\<close>, \<open>Syscall\<close>: \<open>syscall/exit.c\<close>, \<open>syscall/rlimit.c\<close> and \<open>translate_syscall\<close> of \<open>syscall/syscall.c\<close>, both
    stops of a call. What PRoot itself asks of the kernel is the record \<open>own_calls\<close>. \<open>Answers\<close>, \<open>Told\<close>,
    \<open>Stages\<close>: what the tracee is told at the end of a call, and that its registers are its own again.
  \<^item> \<open>Ipc\<close>, \<open>Ipc_Sem\<close>, \<open>Ipc_Msg\<close>, \<open>Ipc_Shm\<close>, \<open>Sigsys\<close>, \<open>Sysvipc\<close>: \<open>extension/sysvipc\<close>, a namespace of
    semaphores, queues and segments with the tracees that wait in it, and the events of its callback with the
    steps of the tracees between them.

  \<^bold>\<open>What the lemmas show.\<close> For each component an invariant of its state and that every operation keeps
  it (\<open>insort_binding2_wf\<close>, \<open>sem_calls_invariant\<close>, \<open>message_calls_invariant\<close>, \<open>shm_calls_invariant\<close>,
  \<open>waiting_tracees_can_be_woken\<close>); refinements of abstract specifications (names of a deepest binding, resolution
  of links, a program break, a mount table, a table of traced calls); round trips (translation and
  detranslation, numbers of calls, memory, messages, requests); what each call does on its branches. Locales
  state the interfaces that several components share: the two directions of a binding table (\<open>nesting\<close>, in
  \<open>Bindings\<close>, for the guest and for the host side), a register file (\<open>register_file\<close>, in \<open>Regs\<close>) and a table
  of System V objects (\<open>ipc_objects\<close>, in \<open>Ipc\<close>, for queues, semaphores and segments); they are interpreted on
  the model itself. The properties are marked C1 to C40 in the text before them.

  \<^bold>\<open>Bounds.\<close> All loops are total functions: those over lists are structural, the others have a measure
  (the rest of a path and the depth of links for \<open>canonicalize\<close>, which the code bounds by \<open>MAXSYMLINKS\<close>, the
  bytes that remain for memory and messages). No fuel is used. Where the code reads outside of a buffer the
  result is \<open>None\<close>, or \<open>Undefined\<close>, or an argument of the model that stands for what lies there.

  \<^bold>\<open>Not modelled.\<close> Allocation always succeeds, and messages to the user are left out, with the talloc
  reference counts. The event loop (\<open>tracee/event.c\<close>), the
  emulation of \<open>ptrace\<close> and \<open>wait\<close> among tracees, the loading of programs (\<open>execve/\<close>, with ELF files and its
  loader), the other extensions, the temporary files and the command line are not part of it; where a
  modelled function calls one of them it is an argument. The Android application around the runtime, in Kotlin and Java, the
  vendored talloc and the loader's assembly are outside of this library.
\<close>

end
